(* ===== verification/Flows_Prelude.thy ===== *)
theory Flows_Prelude
  imports Main "HOL-Library.Sublist"
begin

text \<open>
  Shared ground of the development: the named fact collections, JavaScript numbers and JSON
  values as the engine packages see them, the printing of an integer inside a template literal,
  the length-prefixed keys built from it, and the error-state monad in which a database write
  transaction runs. A string is a list of code units; nothing below depends on how many code
  units there are.
\<close>

named_theorems row_simps
named_theorems lease_simps
named_theorems fold_simps

section \<open>Numbers\<close>

type_synonym ms = int

definition MAX_SAFE_INTEGER :: int where
  "MAX_SAFE_INTEGER = 2 ^ 53 - 1"

definition isSafeInteger :: "int \<Rightarrow> bool" where
  "isSafeInteger n \<longleftrightarrow> - MAX_SAFE_INTEGER \<le> n \<and> n \<le> MAX_SAFE_INTEGER"

lemma isSafeInteger_small: "\<bar>n\<bar> \<le> 9007199254740991 \<Longrightarrow> isSafeInteger n"
  by (auto simp: isSafeInteger_def MAX_SAFE_INTEGER_def)

section \<open>JSON values\<close>

text \<open>
  A decoded JSON value. \<open>JInt\<close> is a number that prints as an integer; \<open>JFrac t\<close> is any other number,
  by the text \<open>t\<close> the runtime prints for it. An object keeps its keys in insertion order.
\<close>

datatype json =
    JNull
  | JBool bool
  | JInt int
  | JFrac string
  | JStr string
  | JArr "json list"
  | JObj "(string \<times> json) list"

type_synonym fields = "(string \<times> json) list"

fun asRecord :: "json \<Rightarrow> fields option" where
  "asRecord (JObj fs) = Some fs"
| "asRecord _ = None"

definition own :: "fields \<Rightarrow> string \<Rightarrow> bool" where
  "own fs k \<longleftrightarrow> map_of fs k \<noteq> None"

fun stringOrNull :: "json option \<Rightarrow> string option" where
  "stringOrNull (Some (JStr s)) = Some s"
| "stringOrNull _ = None"

fun numberOrNull :: "json option \<Rightarrow> int option" where
  "numberOrNull (Some (JInt n)) = (if isSafeInteger n then Some n else None)"
| "numberOrNull _ = None"

fun nullOr :: "('a \<Rightarrow> json) \<Rightarrow> 'a option \<Rightarrow> json" where
  "nullOr f None = JNull"
| "nullOr f (Some a) = f a"

lemma stringOrNull_nullOr [simp]: "stringOrNull (Some (nullOr JStr x)) = x"
  by (cases x) auto

lemma numberOrNull_nullOr [simp]:
  "pred_option isSafeInteger x \<Longrightarrow> numberOrNull (Some (nullOr JInt x)) = x"
  by (cases x) auto

text \<open>\<open>COALESCE(a, b)\<close> in SQL and \<open>a ?? b\<close> in TypeScript.\<close>

fun coalesce :: "'a option \<Rightarrow> 'a option \<Rightarrow> 'a option" where
  "coalesce (Some a) _ = Some a"
| "coalesce None b = b"

lemma coalesce_None_right [simp]: "coalesce a None = a"
  by (cases a) auto

section \<open>Printing integers and length-prefixed keys\<close>

fun show_nat :: "nat \<Rightarrow> string" where
  "show_nat n =
     (if n < 10 then [char_of (48 + n)] else show_nat (n div 10) @ [char_of (48 + n mod 10)])"

declare show_nat.simps [simp del]

definition show_int :: "int \<Rightarrow> string" where
  "show_int i = (if i < 0 then ''-'' @ show_nat (nat (- i)) else show_nat (nat i))"

definition digit :: "char \<Rightarrow> bool" where
  "digit c \<longleftrightarrow> 48 \<le> (of_char c :: nat) \<and> (of_char c :: nat) < 58"

lemma digit_char_of: "(k::nat) < 10 \<Longrightarrow> digit (char_of (48 + k))"
  by (simp add: digit_def)

lemma show_nat_digits: "\<forall>c \<in> set (show_nat n). digit c"
proof (induction n rule: show_nat.induct)
  case (1 n)
  then show ?case
    by (cases "n < 10") (auto simp: show_nat.simps [of n] digit_char_of simp del: char_of_nat)
qed

lemma show_nat_nonempty [simp]: "show_nat n \<noteq> []"
  by (subst show_nat.simps) simp

text \<open>Reading the digits back, so that printing is injective.\<close>

fun read_nat :: "string \<Rightarrow> nat \<Rightarrow> nat" where
  "read_nat [] acc = acc"
| "read_nat (c # cs) acc = read_nat cs (10 * acc + (of_char c - 48))"

lemma read_nat_snoc: "read_nat (cs @ [c]) acc = 10 * read_nat cs acc + (of_char c - 48)"
  by (induction cs arbitrary: acc) auto

lemma read_show_nat: "read_nat (show_nat n) 0 = n"
proof (induction n rule: show_nat.induct)
  case (1 n)
  show ?case
  proof (cases "n < 10")
    case True
    then show ?thesis by (simp add: show_nat.simps [of n])
  next
    case False
    with 1 show ?thesis by (simp add: show_nat.simps [of n] read_nat_snoc)
  qed
qed

lemma show_nat_inject [simp]: "show_nat m = show_nat n \<longleftrightarrow> m = n"
  by (metis read_show_nat)

lemma show_nat_hd: "\<exists>c cs. show_nat n = c # cs \<and> digit c"
  using show_nat_digits [of n] by (cases "show_nat n") auto

lemma show_int_inject [simp]: "show_int i = show_int j \<longleftrightarrow> i = j"
proof -
  have "\<not> digit CHR ''-''" by (simp add: digit_def)
  then have "''-'' @ show_nat a \<noteq> show_nat b" and "show_nat b \<noteq> ''-'' @ show_nat a" for a b
    using show_nat_hd [of b] by auto
  then show ?thesis by (auto simp: show_int_def)
qed

text \<open>\<open>`${s.length}:${s}`\<close>: the separator cannot occur in the printed length.\<close>

definition lengthPrefixed :: "string \<Rightarrow> string" where
  "lengthPrefixed s = show_nat (length s) @ '':'' @ s"

lemma span_digits:
  assumes "xs @ CHR '':'' # r = ys @ CHR '':'' # r'"
    and "\<forall>c \<in> set xs. digit c" and "\<forall>c \<in> set ys. digit c"
  shows "xs = ys \<and> r = r'"
proof -
  have sep: "\<not> digit CHR '':''" by (simp add: digit_def)
  have "takeWhile digit (xs @ CHR '':'' # r) = xs" "takeWhile digit (ys @ CHR '':'' # r') = ys"
    using assms(2,3) sep by (simp_all add: takeWhile_append)
  with assms(1) show ?thesis by auto
qed

lemma lengthPrefixed_append_inject:
  assumes "lengthPrefixed a @ x = lengthPrefixed b @ y"
  shows "a = b \<and> x = y"
proof -
  have "show_nat (length a) @ CHR '':'' # (a @ x) = show_nat (length b) @ CHR '':'' # (b @ y)"
    using assms by (simp add: lengthPrefixed_def)
  from span_digits [OF this show_nat_digits show_nat_digits]
  have "length a = length b" "a @ x = b @ y" by auto
  then show ?thesis by simp
qed

section \<open>Write transactions: an error-state monad\<close>

text \<open>
  A statement of a write transaction reads and writes the state and either fails or returns a
  value; the state it leaves is kept in both cases, because what a failure undoes is decided by
  the transaction's own boundary.
\<close>

type_synonym ('s, 'e, 'a) txn = "'s \<Rightarrow> ('e + 'a) \<times> 's"

definition retT :: "'a \<Rightarrow> ('s, 'e, 'a) txn" where
  "retT a = (\<lambda>s. (Inr a, s))"

definition failT :: "'e \<Rightarrow> ('s, 'e, 'a) txn" where
  "failT e = (\<lambda>s. (Inl e, s))"

definition bindT :: "('s, 'e, 'a) txn \<Rightarrow> ('a \<Rightarrow> ('s, 'e, 'b) txn) \<Rightarrow> ('s, 'e, 'b) txn" where
  "bindT m f = (\<lambda>s. case m s of (Inl e, s') \<Rightarrow> (Inl e, s') | (Inr a, s') \<Rightarrow> f a s')"

definition getT :: "('s \<Rightarrow> 'a) \<Rightarrow> ('s, 'e, 'a) txn" where
  "getT g = (\<lambda>s. (Inr (g s), s))"

lemma retT_eq [simp]: "retT a s = (r, s') \<longleftrightarrow> r = Inr a \<and> s' = s"
  by (auto simp: retT_def)

lemma failT_eq [simp]: "failT e s = (r, s') \<longleftrightarrow> r = Inl e \<and> s' = s"
  by (auto simp: failT_def)

lemma getT_eq [simp]: "getT g s = (r, s') \<longleftrightarrow> r = Inr (g s) \<and> s' = s"
  by (auto simp: getT_def)

lemma bindT_Inr:
  "bindT m f s = (Inr b, s') \<longleftrightarrow> (\<exists>a s1. m s = (Inr a, s1) \<and> f a s1 = (Inr b, s'))"
  by (auto simp: bindT_def split: prod.splits sum.splits)

lemma bindT_InrE:
  assumes "bindT m f s = (Inr b, s')"
  obtains a s1 where "m s = (Inr a, s1)" and "f a s1 = (Inr b, s')"
  using assms by (auto simp: bindT_Inr)

lemma bindT_retT [simp]: "bindT (retT a) f = f a"
  by (simp add: bindT_def retT_def)

lemma bindT_getT [simp]: "bindT (getT g) f s = f (g s) s"
  by (simp add: bindT_def getT_def)

section \<open>Function updates\<close>

lemma fun_upd_same_iff [simp]: "f(x := a) = f(x := b) \<longleftrightarrow> a = b"
  by (metis fun_upd_same)

lemma fun_upd_triv_iff [simp]: "f = f(x := a) \<longleftrightarrow> a = f x"
  by (metis fun_upd_same fun_upd_triv)

declare fun_upd_idem_iff [simp]

section \<open>Lists\<close>

lemma foldl_snoc_cong:
  "(\<And>s x. x \<in> set xs \<Longrightarrow> f s x = g s x) \<Longrightarrow> foldl f a xs = foldl g a xs"
  by (induction xs arbitrary: a) auto

lemma prefix_append_iff: "prefix a (a @ b)"
  by (simp add: prefix_def)

end
