(* ===== verification/Capability.thy ===== *)
theory Capability
  imports Flows_Prelude "HOL-Library.Char_ord" "HOL-Library.List_Lexorder"
begin

text \<open>
  Capabilities, wildcard patterns and effect tiers (\<^verbatim>\<open>packages/capability/src/Capability.ts\<close>). The glob
  matcher is the two-pointer loop of the source, proved equal to the language a glob denotes; from
  that follow the soundness of \<open>subsumes\<close> and the containment of workspace writes. A string is a list
  of UTF-16 code units below 256.
\<close>

section \<open>Actions\<close>

datatype Action =
    FsRead | FsWrite | NetGet | NetPost | ModelCall | ProcSpawn
  | JjStatus | JjDiff | JjSnapshot | JjRestore | JjWorkspaceAdd | JjWorkspaceForget

fun actionText :: "Action \<Rightarrow> string" where
  "actionText FsRead = ''fs:read''"
| "actionText FsWrite = ''fs:write''"
| "actionText NetGet = ''net:get''"
| "actionText NetPost = ''net:post''"
| "actionText ModelCall = ''model:call''"
| "actionText ProcSpawn = ''proc:spawn''"
| "actionText JjStatus = ''jj:status''"
| "actionText JjDiff = ''jj:diff''"
| "actionText JjSnapshot = ''jj:snapshot''"
| "actionText JjRestore = ''jj:restore''"
| "actionText JjWorkspaceAdd = ''jj:workspace-add''"
| "actionText JjWorkspaceForget = ''jj:workspace-forget''"

definition actions :: "Action list" where
  "actions = [FsRead, FsWrite, NetGet, NetPost, ModelCall, ProcSpawn,
     JjStatus, JjDiff, JjSnapshot, JjRestore, JjWorkspaceAdd, JjWorkspaceForget]"

datatype PatternAction = Exactly Action | FsAny | NetAny | ModelAny | ProcAny | JjAny | AnyAction

fun patternActionText :: "PatternAction \<Rightarrow> string" where
  "patternActionText (Exactly a) = actionText a"
| "patternActionText FsAny = ''fs:*''"
| "patternActionText NetAny = ''net:*''"
| "patternActionText ModelAny = ''model:*''"
| "patternActionText ProcAny = ''proc:*''"
| "patternActionText JjAny = ''jj:*''"
| "patternActionText AnyAction = ''*''"

record Capability =
  cap_action :: Action
  cap_resource :: string

record CapabilityPattern =
  pat_action :: PatternAction
  pat_resource :: string

section \<open>Text\<close>

text \<open>\<open>split\<close> and \<open>join\<close> with a one-character separator.\<close>

fun splitOn :: "char \<Rightarrow> string \<Rightarrow> string list" where
  "splitOn sep [] = [[]]"
| "splitOn sep (c # cs) =
     (if c = sep then [] # splitOn sep cs
      else case splitOn sep cs of w # ws \<Rightarrow> (c # w) # ws | [] \<Rightarrow> [[c]])"

fun joinWith :: "char \<Rightarrow> string list \<Rightarrow> string" where
  "joinWith sep [] = []"
| "joinWith sep [w] = w"
| "joinWith sep (w # ws) = w @ sep # joinWith sep ws"

text \<open>The one renderer of capabilities and patterns.\<close>

definition format :: "string \<Rightarrow> string \<Rightarrow> string" where
  "format action resource = action @ '':'' @ resource"

abbreviation formatCapability :: "Capability \<Rightarrow> string" where
  "formatCapability c \<equiv> format (actionText (cap_action c)) (cap_resource c)"

abbreviation formatPattern :: "CapabilityPattern \<Rightarrow> string" where
  "formatPattern p \<equiv> format (patternActionText (pat_action p)) (pat_resource p)"

definition parse :: "string \<Rightarrow> Capability option" where
  "parse input =
     (case splitOn (CHR '':'') input of
        namespace # operation # c # rest \<Rightarrow>
          map_option (\<lambda>a. \<lparr>cap_action = a, cap_resource = joinWith (CHR '':'') (c # rest)\<rparr>)
            (find (\<lambda>a. actionText a = namespace @ '':'' @ operation) actions)
      | _ \<Rightarrow> None)"

section \<open>Matching\<close>

definition normalizeSlashes :: "string \<Rightarrow> string" where
  "normalizeSlashes = map (\<lambda>c. if c = CHR 0x5C then CHR ''/'' else c)"

definition matchesAction :: "PatternAction \<Rightarrow> Action \<Rightarrow> bool" where
  "matchesAction pattern action \<longleftrightarrow>
     (let p = patternActionText pattern; a = actionText action in
      p = ''*'' \<or> p = a \<or> (suffix '':*'' p \<and> prefix (butlast p) a))"

text \<open>
  The \<open>i\<close>-flag canonicalization of one code unit: its uppercase. Of the units below 256, those whose
  uppercase is not a single unit below 256 (the sharp s, the micro sign, y with diaeresis) have a
  canonical form that no other such unit has, and are represented by themselves.
\<close>

definition canonicalUnit :: "char \<Rightarrow> char" where
  "canonicalUnit unit =
     (let n = of_char unit :: nat in
      if 97 \<le> n \<and> n \<le> 122 \<or> 224 \<le> n \<and> n \<le> 254 \<and> n \<noteq> 247 then char_of (n - 32) else unit)"

definition unitsEqual :: "char \<Rightarrow> char \<Rightarrow> bool \<Rightarrow> bool" where
  "unitsEqual left right foldCase \<longleftrightarrow> left = right \<or> (foldCase \<and> canonicalUnit left = canonicalUnit right)"

text \<open>
  The loop of \<open>matchGlob\<close>. The indices of the source are the rests of the two texts they point to;
  \<open>star\<close> holds the pattern after the most recent \<open>*\<close> and the resource from where that \<open>*\<close> currently ends.
\<close>

function matchLoop :: "bool \<Rightarrow> string \<Rightarrow> string \<Rightarrow> (string \<times> string) option \<Rightarrow> bool" where
  "matchLoop foldCase pattern [] star = list_all (\<lambda>u. u = CHR ''*'') pattern"
| "matchLoop foldCase pattern (c # cs) star =
     (if pattern \<noteq> [] \<and> hd pattern = CHR ''*''
      then matchLoop foldCase (tl pattern) (c # cs) (Some (tl pattern, c # cs))
      else if pattern \<noteq> [] \<and> (hd pattern = CHR ''?'' \<or> unitsEqual (hd pattern) c foldCase)
      then matchLoop foldCase (tl pattern) cs star
      else case star of
          None \<Rightarrow> False
        | Some (ps, rs) \<Rightarrow> matchLoop foldCase ps (tl rs) (Some (ps, tl rs)))"
  by pat_completeness auto
termination
  by (relation "measures [\<lambda>(_, p, r, star). max (length r) (case star of None \<Rightarrow> 0 | Some (_, rs) \<Rightarrow> length rs),
      \<lambda>(_, p, r, star). length p]") (auto split: option.splits)

definition matchGlob :: "string \<Rightarrow> string \<Rightarrow> bool \<Rightarrow> bool" where
  "matchGlob pattern resource foldCase = matchLoop foldCase pattern resource None"

definition letter :: "char \<Rightarrow> bool" where
  "letter c \<longleftrightarrow> CHR ''A'' \<le> c \<and> c \<le> CHR ''Z'' \<or> CHR ''a'' \<le> c \<and> c \<le> CHR ''z''"

text \<open>\<open>/^[A-Za-z]:\/\<close>\<close>

fun isDrivePath :: "string \<Rightarrow> bool" where
  "isDrivePath (a # b # c # _) \<longleftrightarrow> letter a \<and> b = CHR '':'' \<and> c = CHR ''/''"
| "isDrivePath _ = False"

definition matchesResource :: "string \<Rightarrow> string \<Rightarrow> bool" where
  "matchesResource pattern resource =
     (let p = normalizeSlashes pattern; r = normalizeSlashes resource;
          foldCase = isDrivePath p \<or> isDrivePath r in
      (suffix '' *'' p \<and> matchGlob (take (length p - 2) p) r foldCase) \<or> matchGlob p r foldCase)"

definition matches :: "CapabilityPattern \<Rightarrow> Capability \<Rightarrow> bool" where
  "matches pattern capability \<longleftrightarrow> matchesAction (pat_action pattern) (cap_action capability)
     \<and> matchesResource (pat_resource pattern) (cap_resource capability)"

definition actionSubsumes :: "PatternAction \<Rightarrow> PatternAction \<Rightarrow> bool" where
  "actionSubsumes left right \<longleftrightarrow>
     (let l = patternActionText left; r = patternActionText right in
      if l = ''*'' \<or> l = r then True else suffix '':*'' l \<and> r \<noteq> ''*'' \<and> prefix (butlast l) r)"

definition resourceSubsumes :: "string \<Rightarrow> string \<Rightarrow> bool" where
  "resourceSubsumes left right =
     (let l = normalizeSlashes left; r = normalizeSlashes right in
      if l = r \<or> l = ''**'' then True
      else if \<not> suffix ''/**'' l then False
      else prefix (take (length l - 3) l @ ''/'') r)"

definition subsumes :: "CapabilityPattern \<Rightarrow> CapabilityPattern \<Rightarrow> bool" where
  "subsumes left right \<longleftrightarrow> actionSubsumes (pat_action left) (pat_action right)
     \<and> resourceSubsumes (pat_resource left) (pat_resource right)"

section \<open>Effect tiers\<close>

datatype EffectTier = Sealed | Compensable | Irreversible

text \<open>One segment of a path applied to the segments before it.\<close>

definition pushSegment :: "bool \<Rightarrow> string list \<Rightarrow> string \<Rightarrow> string list" where
  "pushSegment absolute segments segment =
     (if segment = [] \<or> segment = ''.'' then segments
      else if segment = ''..'' then
        (if segments \<noteq> [] \<and> last segments \<noteq> ''..'' then butlast segments
         else if \<not> absolute then segments @ [segment] else segments)
      else segments @ [segment])"

definition pathPrefix :: "string \<Rightarrow> string" where
  "pathPrefix p = (if isDrivePath p then take 3 p else if prefix ''/'' p then ''/'' else [])"

definition isAbsolutePath :: "string \<Rightarrow> bool" where
  "isAbsolutePath p \<longleftrightarrow> prefix ''/'' p \<or> isDrivePath p"

definition lexicalSegments :: "string \<Rightarrow> string list" where
  "lexicalSegments p =
     foldl (pushSegment (pathPrefix p \<noteq> [])) [] (splitOn (CHR ''/'') (drop (length (pathPrefix p)) p))"

definition lexicalPath :: "string \<Rightarrow> string" where
  "lexicalPath path =
     (let normalized = normalizeSlashes path;
          text = pathPrefix normalized @ joinWith (CHR ''/'') (lexicalSegments normalized) in
      if text = [] then ''.'' else text)"

definition lowerUnit :: "char \<Rightarrow> char" where
  "lowerUnit c = (let n = of_char c :: nat in
     if 65 \<le> n \<and> n \<le> 90 \<or> 192 \<le> n \<and> n \<le> 222 \<and> n \<noteq> 215 then char_of (n + 32) else c)"

definition isInsideWorkspace :: "string \<Rightarrow> string \<Rightarrow> bool" where
  "isInsideWorkspace resource workspaceRoot =
     (let root = lexicalPath workspaceRoot;
          normalizedResource = normalizeSlashes resource;
          resolved = lexicalPath
            (if isAbsolutePath normalizedResource then normalizedResource else root @ ''/'' @ normalizedResource);
          windowsRoot = isDrivePath root;
          comparableRoot = (if windowsRoot then map lowerUnit root else root);
          comparableResolved = (if windowsRoot then map lowerUnit resolved else resolved);
          pre = (if suffix ''/'' comparableRoot then comparableRoot else comparableRoot @ ''/'') in
      if comparableResolved = comparableRoot then True
      else if \<not> prefix pre comparableResolved then False
      else let remainder = drop (length pre) comparableResolved in
        remainder \<noteq> ''..'' \<and> \<not> prefix ''../'' remainder)"

fun tierOf :: "Capability \<Rightarrow> string \<Rightarrow> EffectTier" where
  "tierOf capability workspaceRoot =
     (case cap_action capability of
        FsRead \<Rightarrow> Sealed | NetGet \<Rightarrow> Sealed | ModelCall \<Rightarrow> Sealed | JjStatus \<Rightarrow> Sealed | JjDiff \<Rightarrow> Sealed
      | FsWrite \<Rightarrow> if isInsideWorkspace (cap_resource capability) workspaceRoot then Compensable else Irreversible
      | JjSnapshot \<Rightarrow> Compensable | JjRestore \<Rightarrow> Compensable | JjWorkspaceAdd \<Rightarrow> Compensable | JjWorkspaceForget \<Rightarrow> Compensable
      | NetPost \<Rightarrow> Irreversible | ProcSpawn \<Rightarrow> Irreversible)"

definition requiresIdempotencyKey :: "EffectTier \<Rightarrow> bool" where
  "requiresIdempotencyKey tier \<longleftrightarrow> tier = Irreversible"

section \<open>The language of a glob\<close>

fun glob :: "bool \<Rightarrow> string \<Rightarrow> string \<Rightarrow> bool" where
  "glob fc [] r = (r = [])"
| "glob fc (u # p) [] = (u = CHR ''*'' \<and> glob fc p [])"
| "glob fc (u # p) (c # r) =
     (if u = CHR ''*'' then glob fc p (c # r) \<or> glob fc (u # p) r
      else (u = CHR ''?'' \<or> unitsEqual u c fc) \<and> glob fc p r)"

lemma glob_star: "glob fc (CHR ''*'' # p) r \<longleftrightarrow> (\<exists>x y. r = x @ y \<and> glob fc p y)"
proof (induction r)
  case (Cons c r)
  have "(\<exists>x y. c # r = x @ y \<and> glob fc p y) \<longleftrightarrow> glob fc p (c # r) \<or> (\<exists>x y. r = x @ y \<and> glob fc p y)"
    by (metis append_Cons append_Nil append_eq_Cons_conv)
  with Cons.IH show ?case by simp
qed simp

lemma glob_star_prepend: "glob fc (CHR ''*'' # p) y \<Longrightarrow> glob fc (CHR ''*'' # p) (x @ y)"
  by (metis append_assoc glob_star)

lemma glob_append: "glob fc (p @ q) r \<longleftrightarrow> (\<exists>x y. r = x @ y \<and> glob fc p x \<and> glob fc q y)"
proof (induction p arbitrary: r)
  case (Cons u p)
  show ?case
  proof (cases "u = CHR ''*''")
    case True
    have "glob fc (u # p @ q) r \<longleftrightarrow> (\<exists>x y z. r = x @ y @ z \<and> glob fc p y \<and> glob fc q z)"
      using Cons.IH True by (auto simp: glob_star)
    also have "\<dots> \<longleftrightarrow> (\<exists>x y. r = x @ y \<and> glob fc (u # p) x \<and> glob fc q y)"
      using True by (simp add: glob_star) (metis append_assoc)
    finally show ?thesis by simp
  next
    case False
    have one: "glob fc (u # p') r' \<longleftrightarrow> (\<exists>c r''. r' = c # r'' \<and> (u = CHR ''?'' \<or> unitsEqual u c fc) \<and> glob fc p' r'')" for p' r'
      using False by (cases r') auto
    let ?m = "\<lambda>c. u = CHR ''?'' \<or> unitsEqual u c fc"
    have "glob fc (u # p @ q) r \<longleftrightarrow> (\<exists>c x y. r = c # x @ y \<and> ?m c \<and> glob fc p x \<and> glob fc q y)"
      unfolding one Cons.IH by blast
    also have "\<dots> \<longleftrightarrow> (\<exists>x y. r = x @ y \<and> glob fc (u # p) x \<and> glob fc q y)"
      unfolding one by (metis append_Cons)
    finally show ?thesis by simp
  qed
qed simp

lemma glob_short: "CHR ''*'' \<notin> set q \<Longrightarrow> glob fc q x \<Longrightarrow> length x = length q"
  by (induction fc q x rule: glob.induct) auto

lemma glob_all_stars: "glob fc p [] \<longleftrightarrow> list_all (\<lambda>u. u = CHR ''*'') p"
  by (induction p) auto

text \<open>
  The matcher tries the rest of the pattern here and, failing that, lets the last \<open>*\<close> swallow one more
  unit. Forgetting the earlier \<open>*\<close>s loses nothing: what they could still reach, the last one reaches.
\<close>

definition aligned :: "string \<Rightarrow> string \<Rightarrow> (string \<times> string) option \<Rightarrow> bool" where
  "aligned p r star = (case star of None \<Rightarrow> True
     | Some (ps, rs) \<Rightarrow> \<exists>q y. ps = q @ p \<and> rs = y @ r \<and> length y = length q \<and> CHR ''*'' \<notin> set q)"

definition later :: "bool \<Rightarrow> (string \<times> string) option \<Rightarrow> bool" where
  "later fc star = (case star of None \<Rightarrow> False | Some (ps, rs) \<Rightarrow> rs \<noteq> [] \<and> glob fc (CHR ''*'' # ps) (tl rs))"

lemma aligned_self [simp]: "aligned p r (Some (p, r))"
  by (force simp: aligned_def)

lemma later_after:
  assumes "aligned p r star" "later fc star"
  shows "\<exists>x y. r = x @ y \<and> length y < length r \<and> glob fc p y"
proof -
  from assms obtain q y where s: "star = Some (q @ p, y @ r)" "length y = length q" "CHR ''*'' \<notin> set q"
    "y @ r \<noteq> []" "glob fc (CHR ''*'' # q @ p) (tl (y @ r))"
    by (auto simp: aligned_def later_def split: option.splits)
  then obtain x z1 z2 where z: "tl (y @ r) = x @ z1 @ z2" "glob fc q z1" "glob fc p z2"
    unfolding glob_star by (auto simp: glob_append)
  then obtain w where w: "y @ r = w @ z2" "length w = Suc (length (x @ z1))"
    using s(4) by (metis append_Cons append_assoc length_Cons list.collapse)
  have "length y < length w" using glob_short [OF s(3) z(2)] s(2) w(2) by simp
  with w(1) have "drop (length y) w @ z2 = r" "drop (length y) w \<noteq> []"
    by (metis append_eq_conv_conj append_Nil2 drop_append drop_eq_Nil2 less_imp_le_nat diff_is_0_eq drop0, simp)
  then show ?thesis using z(3) by (metis length_append length_greater_0_conv less_add_same_cancel2)
qed

lemma matchLoop_glob: "aligned p r star \<Longrightarrow> matchLoop fc p r star \<longleftrightarrow> glob fc p r \<or> later fc star"
proof (induction fc p r star rule: matchLoop.induct)
  case (1 fc p star)
  then show ?case using later_after [OF 1] by (auto simp: glob_all_stars)
next
  case (2 fc p c cs star)
  show ?case
  proof (cases "p \<noteq> [] \<and> hd p = CHR ''*''")
    case True
    then obtain p' where p: "p = CHR ''*'' # p'" by (cases p) auto
    have "matchLoop fc p (c # cs) star \<longleftrightarrow> glob fc p' (c # cs) \<or> later fc (Some (p', c # cs))"
      using "2.IH"(1) [OF True] by (subst matchLoop.simps) (simp add: p del: matchLoop.simps)
    also have "\<dots> \<longleftrightarrow> glob fc p (c # cs)" by (auto simp: p later_def)
    also have "\<dots> \<longleftrightarrow> glob fc p (c # cs) \<or> later fc star"
      using later_after [OF "2.prems", of fc] p glob_star_prepend by metis
    finally show ?thesis .
  next
    case star: False
    show ?thesis
    proof (cases "p \<noteq> [] \<and> (hd p = CHR ''?'' \<or> unitsEqual (hd p) c fc)")
      case True
      then obtain u p' where p: "p = u # p'" by (cases p) auto
      have "aligned p' cs star"
      proof (cases star)
        case (Some a)
        then obtain q y where "star = Some (q @ p, y @ c # cs)" "length y = length q" "CHR ''*'' \<notin> set q"
          using "2.prems" by (auto simp: aligned_def)
        then have "star = Some ((q @ [u]) @ p', (y @ [c]) @ cs)" "length (y @ [c]) = length (q @ [u])" "CHR ''*'' \<notin> set (q @ [u])"
          using p star by auto
        then show ?thesis unfolding aligned_def by auto
      qed (simp add: aligned_def)
      from "2.IH"(2) [OF star True] this show ?thesis
        using True star by (subst matchLoop.simps) (simp add: p del: matchLoop.simps)
    next
      case False
      have no: "\<not> glob fc p (c # cs)" using star False by (cases p) auto
      show ?thesis
      proof (cases star)
        case None
        then show ?thesis using star False no by (cases p) (simp_all add: later_def)
      next
        case (Some a)
        obtain ps rs where a: "star = Some (ps, rs)" using Some by (cases a) auto
        with "2.prems" have rs: "rs \<noteq> []" by (auto simp: aligned_def)
        have "matchLoop fc p (c # cs) star \<longleftrightarrow> glob fc ps (tl rs) \<or> later fc (Some (ps, tl rs))"
          using "2.IH"(3) [OF star False a refl] star False by (cases p) (simp_all add: a)
        also have "\<dots> \<longleftrightarrow> glob fc (CHR ''*'' # ps) (tl rs)" by (cases "tl rs") (auto simp: later_def)
        finally show ?thesis using no rs a by (simp add: later_def)
      qed
    qed
  qed
qed

theorem matchGlob_glob: "matchGlob p r fc = glob fc p r"
  unfolding matchGlob_def using matchLoop_glob [of p r None fc] by (simp add: aligned_def later_def)

section \<open>What one pattern covers of another\<close>

lemma prefix_butlast: "prefix x y \<Longrightarrow> x \<noteq> y \<Longrightarrow> prefix x (butlast y)"
  by (auto simp: prefix_def butlast_append)

lemma actionSubsumes_sound:
  assumes "actionSubsumes left right" "matchesAction right a"
  shows "matchesAction left a"
proof -
  let ?l = "patternActionText left" and ?r = "patternActionText right" and ?a = "actionText a"
  consider "?l = ''*'' \<or> ?l = ?r" | "suffix '':*'' ?l" "?r \<noteq> ''*''" "prefix (butlast ?l) ?r"
    using assms(1) by (auto simp: actionSubsumes_def Let_def split: if_splits)
  then show ?thesis
  proof cases
    case 1
    then show ?thesis using assms(2) by (auto simp: matchesAction_def Let_def)
  next
    case 2
    have "prefix (butlast ?l) ?a"
    proof (cases "?r = ?a")
      case False
      with assms(2) 2(2) have r: "suffix '':*'' ?r" "prefix (butlast ?r) ?a" by (auto simp: matchesAction_def Let_def)
      have "butlast ?l \<noteq> ?r" using 2(1) r(1) by (auto simp: suffix_def butlast_append)
      then show ?thesis using prefix_butlast [OF 2(3)] r(2) prefix_order.trans by blast
    qed (use 2 in simp)
    with 2(1) show ?thesis by (simp add: matchesAction_def Let_def)
  qed
qed

lemma glob_everything [simp]: "glob fc ''**'' r"
  by (auto simp: glob_star)

lemma isDrivePath_iff: "isDrivePath p \<longleftrightarrow> (\<exists>a rest. p = a # CHR '':'' # CHR ''/'' # rest \<and> letter a)"
  by (cases p rule: isDrivePath.cases) auto

lemma drive_covered: "prefix (p @ ''/'') r \<Longrightarrow> isDrivePath (p @ ''/**'') = isDrivePath r"
  by (cases p rule: isDrivePath.cases) (auto simp: prefix_def isDrivePath_iff letter_def)

text \<open>A text that extends \<open>p/\<close> denotes only texts that \<open>p/**\<close> denotes.\<close>

lemma glob_covered:
  assumes "glob fc (p @ ''/'' @ rest) r"
  shows "glob fc (p @ ''/**'') r"
proof -
  from assms obtain x y where "r = x @ y" "glob fc (p @ ''/'') x" using glob_append [of fc "p @ ''/''" rest r] by auto
  then show ?thesis using glob_append [of fc "p @ ''/''" "''**''" r] by auto
qed

lemma matchesResource_eq:
  "matchesResource pattern resource \<longleftrightarrow>
     (let p = normalizeSlashes pattern; r = normalizeSlashes resource; fc = isDrivePath p \<or> isDrivePath r in
      (\<exists>q. p = q @ '' *'' \<and> glob fc q r) \<or> glob fc p r)"
  by (auto simp: matchesResource_def matchGlob_glob Let_def suffix_def)

lemma resourceSubsumes_sound:
  assumes "resourceSubsumes left right" "matchesResource right resource"
  shows "matchesResource left resource"
proof -
  let ?l = "normalizeSlashes left" and ?r = "normalizeSlashes right" and ?s = "normalizeSlashes resource"
  consider "?l = ?r" | "?l = ''**''" | p where "?l = p @ ''/**''" "prefix (p @ ''/'') ?r"
    using assms(1) by (auto simp: resourceSubsumes_def Let_def suffix_def split: if_splits)
  then show ?thesis
  proof cases
    case 1
    then show ?thesis using assms(2) by (simp add: matchesResource_eq)
  next
    case 2
    then show ?thesis by (simp add: matchesResource_eq)
  next
    case (3 p)
    let ?fc = "isDrivePath ?l \<or> isDrivePath ?s"
    have fc: "isDrivePath ?l = isDrivePath ?r" using drive_covered [OF 3(2)] 3(1) by simp
    from 3(2) obtain rest where r: "?r = p @ ''/'' @ rest" by (auto simp: prefix_def)
    have "\<exists>rest'. glob ?fc (p @ ''/'' @ rest') ?s"
    proof (cases "glob ?fc ?r ?s")
      case True
      then show ?thesis using r by auto
    next
      case False
      with assms(2) fc obtain q where q: "?r = q @ '' *''" "glob ?fc q ?s" by (auto simp: matchesResource_eq Let_def)
      have "\<exists>rest'. q = p @ ''/'' @ rest'"
      proof (cases rest rule: rev_cases)
        case Nil
        with r q(1) show ?thesis by simp
      next
        case (snoc ini last)
        with r q(1) have "p @ ''/'' @ ini = q @ '' ''" by simp
        then show ?thesis by (cases ini rule: rev_cases) auto
      qed
      with q(2) show ?thesis by auto
    qed
    then have "glob ?fc ?l ?s" using glob_covered 3(1) by metis
    then show ?thesis by (simp add: matchesResource_eq Let_def)
  qed
qed

theorem subsumes_sound: "subsumes left right \<Longrightarrow> matches right c \<Longrightarrow> matches left c"
  using actionSubsumes_sound resourceSubsumes_sound by (auto simp: subsumes_def matches_def)

lemma subsumes_refl [simp]: "subsumes p p"
  by (simp add: subsumes_def actionSubsumes_def resourceSubsumes_def)

section \<open>Printing and parsing\<close>

lemma splitOn_nonempty [simp]: "splitOn sep s \<noteq> []"
  by (cases s) (auto split: list.splits)

lemma splitOn_append: "splitOn sep (a @ sep # b) = splitOn sep a @ splitOn sep b"
  by (induction a) (auto split: list.splits)

lemma splitOn_plain: "sep \<notin> set w \<Longrightarrow> splitOn sep w = [w]"
  by (induction w) auto

lemma joinWith_Cons: "ws \<noteq> [] \<Longrightarrow> joinWith sep (w # ws) = w @ sep # joinWith sep ws"
  by (cases ws) auto

lemma join_splitOn [simp]: "joinWith sep (splitOn sep s) = s"
proof (induction s)
  case (Cons c s)
  obtain w ws where w: "splitOn sep s = w # ws" by (cases "splitOn sep s") auto
  with Cons show ?case by (cases ws) (auto simp: joinWith_Cons)
qed simp

lemma splitOn_join: "ws \<noteq> [] \<Longrightarrow> \<forall>w \<in> set ws. sep \<notin> set w \<Longrightarrow> splitOn sep (joinWith sep ws) = ws"
proof (induction ws)
  case (Cons w ws)
  show ?case
  proof (cases "ws = []")
    case False
    with Cons show ?thesis by (simp add: joinWith_Cons splitOn_append splitOn_plain)
  qed (use Cons in \<open>simp add: splitOn_plain\<close>)
qed simp

lemma actionText_split: "\<exists>ns op. actionText a = ns @ CHR '':'' # op \<and> CHR '':'' \<notin> set ns \<and> CHR '':'' \<notin> set op"
proof (intro exI conjI)
  show "actionText a = takeWhile (\<lambda>c. c \<noteq> CHR '':'') (actionText a) @ CHR '':'' # tl (dropWhile (\<lambda>c. c \<noteq> CHR '':'') (actionText a))"
    "CHR '':'' \<notin> set (takeWhile (\<lambda>c. c \<noteq> CHR '':'') (actionText a))"
    "CHR '':'' \<notin> set (tl (dropWhile (\<lambda>c. c \<noteq> CHR '':'') (actionText a)))" by (cases a; simp)+
qed

lemma actionText_inject [simp]: "actionText a = actionText b \<longleftrightarrow> a = b"
  by (cases a; cases b) simp_all

lemma actions_all [simp]: "a \<in> set actions"
  by (cases a) (simp_all add: actions_def)

lemma find_action: "find (\<lambda>x. actionText x = t) actions = Some a \<longleftrightarrow> t = actionText a"
proof
  assume "t = actionText a"
  moreover obtain x where x: "find (\<lambda>x. actionText x = actionText a) actions = Some x"
    by (cases "find (\<lambda>x. actionText x = actionText a) actions") (auto simp: find_None_iff)
  moreover from x have "actionText x = actionText a" unfolding find_Some_iff by blast
  ultimately show "find (\<lambda>x. actionText x = t) actions = Some a" by simp
qed (auto simp: find_Some_iff)

theorem parse_format: "parse input = Some c \<longleftrightarrow> input = formatCapability c"
proof
  assume "input = formatCapability c"
  moreover obtain ns op where t: "actionText (cap_action c) = ns @ CHR '':'' # op" "CHR '':'' \<notin> set ns" "CHR '':'' \<notin> set op"
    using actionText_split by blast
  ultimately have "splitOn (CHR '':'') input = ns # op # splitOn (CHR '':'') (cap_resource c)"
    by (simp add: format_def splitOn_append splitOn_plain)
  moreover obtain d rest where d: "splitOn (CHR '':'') (cap_resource c) = d # rest"
    by (cases "splitOn (CHR '':'') (cap_resource c)") auto
  moreover have "find (\<lambda>a. actionText a = ns @ '':'' @ op) actions = Some (cap_action c)" using t(1) by (simp add: find_action)
  ultimately show "parse input = Some c" using join_splitOn [of "CHR '':''" "cap_resource c"] by (simp add: parse_def)
next
  assume "parse input = Some c"
  then obtain ns op d rest a where s: "splitOn (CHR '':'') input = ns # op # d # rest"
    "find (\<lambda>a. actionText a = ns @ '':'' @ op) actions = Some a" "c = \<lparr>cap_action = a, cap_resource = joinWith (CHR '':'') (d # rest)\<rparr>"
    by (auto simp: parse_def split: list.splits)
  have "input = joinWith (CHR '':'') (ns # op # d # rest)" using join_splitOn [of "CHR '':''" input] s(1) by simp
  also have "\<dots> = (ns @ '':'' @ op) @ '':'' @ joinWith (CHR '':'') (d # rest)" by (simp add: joinWith_Cons)
  finally show "input = formatCapability c" using s(2,3) by (simp add: find_action format_def)
qed

section \<open>Paths inside the workspace\<close>

abbreviation slash :: char where
  "slash \<equiv> CHR ''/''"

text \<open>The segments of a resolved path: no separator, not empty, no dot; two dots only at the front of a relative path.\<close>

definition segmentsOk :: "bool \<Rightarrow> string list \<Rightarrow> bool" where
  "segmentsOk absolute xs \<longleftrightarrow> (\<forall>x \<in> set xs. slash \<notin> set x \<and> x \<noteq> [] \<and> x \<noteq> ''.'')
     \<and> (\<exists>k ys. xs = replicate k ''..'' @ ys \<and> ''..'' \<notin> set ys \<and> (absolute \<longrightarrow> k = 0))"

lemma pushSegment_ok:
  assumes "segmentsOk absolute xs" "slash \<notin> set x"
  shows "segmentsOk absolute (pushSegment absolute xs x)"
proof -
  from assms(1) obtain k ys where k: "xs = replicate k ''..'' @ ys" "''..'' \<notin> set ys" "absolute \<longrightarrow> k = 0"
    and all: "\<forall>x \<in> set xs. slash \<notin> set x \<and> x \<noteq> [] \<and> x \<noteq> ''.''" by (auto simp: segmentsOk_def)
  consider "x = [] \<or> x = ''.''" | "x = ''..''" "ys \<noteq> []" | "x = ''..''" "ys = []" | "x \<noteq> []" "x \<noteq> ''.''" "x \<noteq> ''..''" by blast
  then show ?thesis
  proof cases
    case 2
    then obtain zs z where z: "ys = zs @ [z]" "z \<noteq> ''..''" "''..'' \<notin> set zs" using k(2) by (cases ys rule: rev_cases) auto
    then have "pushSegment absolute xs x = replicate k ''..'' @ zs" using 2 k(1) by (simp add: pushSegment_def butlast_append)
    then show ?thesis using all z k unfolding segmentsOk_def by auto
  next
    case 3
    then have "pushSegment absolute xs x = (if absolute then [] else replicate (Suc k) ''..'')"
      using k by (auto simp: pushSegment_def replicate_append_same split: if_splits)
    then show ?thesis unfolding segmentsOk_def by (auto intro: exI [of _ 0] exI [of _ "Suc k"])
  next
    case 4
    then have "pushSegment absolute xs x = replicate k ''..'' @ (ys @ [x])" using k(1) by (simp add: pushSegment_def)
    moreover have "''..'' \<notin> set (ys @ [x])" using k(2) 4 by auto
    moreover have "\<forall>w \<in> set (replicate k ''..'' @ ys @ [x]). slash \<notin> set w \<and> w \<noteq> [] \<and> w \<noteq> ''.''"
      using all k(1) 4 assms(2) by auto
    ultimately show ?thesis using k(3) unfolding segmentsOk_def by (intro conjI exI [of _ k] exI [of _ "ys @ [x]"]) simp_all
  qed (use assms(1) in \<open>auto simp: pushSegment_def\<close>)
qed

lemma foldl_pushSegment_ok:
  "segmentsOk absolute xs \<Longrightarrow> \<forall>w \<in> set ws. slash \<notin> set w \<Longrightarrow> segmentsOk absolute (foldl (pushSegment absolute) xs ws)"
  by (induction ws arbitrary: xs) (auto intro: pushSegment_ok)

lemma splitOn_no_sep: "w \<in> set (splitOn sep s) \<Longrightarrow> sep \<notin> set w"
  by (induction s arbitrary: w) (auto split: list.splits if_splits)

lemma lexicalSegments_ok: "segmentsOk (pathPrefix p \<noteq> []) (lexicalSegments p)"
  unfolding lexicalSegments_def
  by (intro foldl_pushSegment_ok) (auto simp: segmentsOk_def dest: splitOn_no_sep)

lemma join_nil: "\<forall>x \<in> set xs. x \<noteq> [] \<Longrightarrow> joinWith sep xs = [] \<longleftrightarrow> xs = []"
  by (cases xs; cases "tl xs") (auto simp: joinWith_Cons)

lemma join_append: "xs \<noteq> [] \<Longrightarrow> ys \<noteq> [] \<Longrightarrow> joinWith sep (xs @ ys) = joinWith sep xs @ sep # joinWith sep ys"
proof (induction xs)
  case (Cons x xs)
  then show ?case by (cases "xs = []") (simp_all add: joinWith_Cons)
qed simp

lemma segmentsOk_join:
  assumes "segmentsOk a xs" "segmentsOk b ys"
  shows "joinWith slash xs = joinWith slash ys \<longleftrightarrow> xs = ys"
    and "xs \<noteq> [] \<Longrightarrow> prefix (joinWith slash xs @ ''/'') (joinWith slash ys) \<longleftrightarrow> (\<exists>zs. zs \<noteq> [] \<and> ys = xs @ zs)"
proof -
  have xs: "\<forall>x \<in> set xs. slash \<notin> set x" "joinWith slash xs = [] \<longleftrightarrow> xs = []"
    and ys: "\<forall>x \<in> set ys. slash \<notin> set x" "joinWith slash ys = [] \<longleftrightarrow> ys = []"
    using assms join_nil [of xs slash] join_nil [of ys slash] by (auto simp: segmentsOk_def)
  show "joinWith slash xs = joinWith slash ys \<longleftrightarrow> xs = ys"
    using splitOn_join [of xs slash] splitOn_join [of ys slash] xs ys by metis
  assume ne: "xs \<noteq> []"
  show "prefix (joinWith slash xs @ ''/'') (joinWith slash ys) \<longleftrightarrow> (\<exists>zs. zs \<noteq> [] \<and> ys = xs @ zs)"
  proof
    assume "prefix (joinWith slash xs @ ''/'') (joinWith slash ys)"
    then obtain t where t: "joinWith slash ys = joinWith slash xs @ slash # t" by (auto simp: prefix_def)
    then have "ys \<noteq> []" by auto
    then have "ys = splitOn slash (joinWith slash xs @ slash # t)" using splitOn_join [of ys slash] ys(1) t by simp
    also have "\<dots> = xs @ splitOn slash t" using splitOn_join [OF ne xs(1)] by (simp add: splitOn_append)
    finally show "\<exists>zs. zs \<noteq> [] \<and> ys = xs @ zs" by force
  next
    assume "\<exists>zs. zs \<noteq> [] \<and> ys = xs @ zs"
    then show "prefix (joinWith slash xs @ ''/'') (joinWith slash ys)" using ne by (auto simp: join_append)
  qed
qed

lemma segmentsOk_last: "segmentsOk a xs \<Longrightarrow> xs \<noteq> [] \<Longrightarrow> \<not> suffix ''/'' (joinWith slash xs)"
proof (induction xs rule: rev_induct)
  case (snoc x xs)
  then have x: "slash \<notin> set x" "x \<noteq> []" by (auto simp: segmentsOk_def)
  then have "last x \<noteq> slash" by (metis last_in_set)
  moreover have "last (joinWith slash (xs @ [x])) = last x" "joinWith slash (xs @ [x]) \<noteq> []"
    using x(2) by (cases "xs = []"; simp add: join_append)+
  ultimately show ?case by (auto simp: suffix_def)
qed simp

lemma pathPrefix_slash: "prefix ''/'' p \<Longrightarrow> pathPrefix p = ''/''"
  by (auto simp: pathPrefix_def prefix_def isDrivePath_iff letter_def)

lemma lexicalPath_absolute:
  "pathPrefix (normalizeSlashes p) = ''/'' \<Longrightarrow> lexicalPath p = slash # joinWith slash (lexicalSegments (normalizeSlashes p))"
  by (simp add: lexicalPath_def)

text \<open>A resolved path starts with the separator only when it is absolute.\<close>

lemma lexicalPath_slash: "prefix ''/'' (lexicalPath p) \<longleftrightarrow> pathPrefix (normalizeSlashes p) = ''/''"
proof -
  let ?p = "normalizeSlashes p"
  consider "pathPrefix ?p = ''/''" | "isDrivePath ?p" | "pathPrefix ?p = []"
    by (cases "isDrivePath ?p"; cases "prefix ''/'' ?p") (auto simp: pathPrefix_def)
  then show ?thesis
  proof cases
    case 2
    then show ?thesis by (auto simp: isDrivePath_iff pathPrefix_def lexicalPath_def letter_def Let_def)
  next
    case 3
    have ok: "segmentsOk False (lexicalSegments ?p)" using lexicalSegments_ok [of ?p] 3 by simp
    have "\<not> prefix ''/'' (joinWith slash (lexicalSegments ?p))"
    proof (cases "lexicalSegments ?p")
      case (Cons x xs)
      then have "x \<noteq> []" "slash \<notin> set x" using ok by (auto simp: segmentsOk_def)
      then show ?thesis using Cons by (cases xs; cases x) (auto simp: prefix_def)
    qed simp
    then show ?thesis using 3 by (simp add: lexicalPath_def Let_def)
  qed (simp add: lexicalPath_absolute)
qed

text \<open>The path a resource names, before its dots are resolved.\<close>

definition namedPath :: "string \<Rightarrow> string \<Rightarrow> string" where
  "namedPath resource workspaceRoot =
     (let r = normalizeSlashes resource in if isAbsolutePath r then r else lexicalPath workspaceRoot @ ''/'' @ r)"

lemma head_dots:
  assumes "segmentsOk True (xs @ zs)" "zs \<noteq> []"
  shows "joinWith slash zs \<noteq> ''..'' \<and> \<not> prefix ''../'' (joinWith slash zs)"
proof -
  have no: "''..'' \<notin> set zs" "\<forall>z \<in> set zs. slash \<notin> set z" using assms(1) by (auto simp: segmentsOk_def)
  have sp: "splitOn slash (joinWith slash zs) = zs" using splitOn_join [OF assms(2) no(2)] .
  have "joinWith slash zs \<noteq> ''..''" using sp no(1) by (auto simp: splitOn_plain)
  moreover have "\<not> prefix ''../'' (joinWith slash zs)"
  proof
    assume "prefix ''../'' (joinWith slash zs)"
    then obtain t where t: "joinWith slash zs = ''..'' @ slash # t" by (auto simp: prefix_def)
    have "zs = ''..'' # splitOn slash t" using sp splitOn_append [of slash "''..''" t] by (simp add: t splitOn_plain)
    with no(1) show False by simp
  qed
  ultimately show ?thesis by simp
qed

theorem isInsideWorkspace_iff:
  assumes "prefix ''/'' (normalizeSlashes workspaceRoot)"
  shows "isInsideWorkspace resource workspaceRoot \<longleftrightarrow>
    (let q = normalizeSlashes (namedPath resource workspaceRoot) in
     pathPrefix q = ''/'' \<and> prefix (lexicalSegments (normalizeSlashes workspaceRoot)) (lexicalSegments q))"
proof -
  let ?R = "lexicalSegments (normalizeSlashes workspaceRoot)" and ?root = "lexicalPath workspaceRoot"
  let ?q = "normalizeSlashes (namedPath resource workspaceRoot)" and ?T = "lexicalPath (namedPath resource workspaceRoot)"
  let ?X = "lexicalSegments ?q"
  have root: "?root = slash # joinWith slash ?R" using lexicalPath_absolute pathPrefix_slash [OF assms] by simp
  have R: "segmentsOk True ?R" using lexicalSegments_ok [of "normalizeSlashes workspaceRoot"] pathPrefix_slash [OF assms] by simp
  define pre where "pre = (if suffix ''/'' ?root then ?root else ?root @ ''/'')"
  have nodrive: "\<not> isDrivePath ?root" using root by (auto simp: isDrivePath_iff letter_def)
  have inside: "isInsideWorkspace resource workspaceRoot \<longleftrightarrow>
      ?T = ?root \<or> prefix pre ?T \<and> drop (length pre) ?T \<noteq> ''..'' \<and> \<not> prefix ''../'' (drop (length pre) ?T)"
    using nodrive by (simp add: isInsideWorkspace_def namedPath_def pre_def Let_def)
  show ?thesis
  proof (cases "pathPrefix ?q = ''/''")
    case False
    then have "\<not> prefix ''/'' ?T" by (simp add: lexicalPath_slash)
    moreover have "prefix ''/'' pre" using root by (simp add: pre_def)
    ultimately show ?thesis using inside root False by (auto intro: prefix_order.trans)
  next
    case True
    have T: "?T = slash # joinWith slash ?X" using True by (rule lexicalPath_absolute)
    have X: "segmentsOk True ?X" using lexicalSegments_ok [of ?q] True by simp
    have same: "?T = ?root \<longleftrightarrow> ?X = ?R" using segmentsOk_join(1) [OF X R] T root by simp
    have under: "(prefix pre ?T \<and> drop (length pre) ?T \<noteq> ''..'' \<and> \<not> prefix ''../'' (drop (length pre) ?T))
        \<longleftrightarrow> (?R = [] \<or> (\<exists>zs. zs \<noteq> [] \<and> ?X = ?R @ zs))" if "?X \<noteq> ?R"
    proof (cases "?R = []")
      case True
      then have "pre = ''/''" using root by (simp add: pre_def)
      then show ?thesis using T True that head_dots [of "[]" ?X] X by simp
    next
      case ne: False
      have pre: "pre = slash # joinWith slash ?R @ ''/''"
        using segmentsOk_last [OF R ne] root segmentsOk_join(1) [OF R, of True "[]"] ne
        by (auto simp: pre_def suffix_Cons segmentsOk_def)
      show ?thesis
      proof (cases "\<exists>zs. zs \<noteq> [] \<and> ?X = ?R @ zs")
        case True
        then obtain zs where zs: "zs \<noteq> []" "?X = ?R @ zs" by blast
        then have "?T = pre @ joinWith slash zs" using T pre ne by (simp add: join_append)
        then show ?thesis using zs head_dots [of ?R zs] X by auto
      next
        case False
        then show ?thesis using segmentsOk_join(2) [OF R X ne] T pre ne by auto
      qed
    qed
    show ?thesis using inside same under True by (auto simp: Let_def prefix_def)
  qed
qed

end
