(* ===== verification/Permission.thy ===== *)
theory Permission
  imports Capability
begin

text \<open>
  Permission failures and policy rules (\<^verbatim>\<open>packages/capability/src/Permission.ts\<close>): ordered rules, the last
  match wins across all rulesets, and an effective denial of the first ruleset is a veto.
\<close>

datatype RuleEffect = Allow | Deny | Ask

record PermissionRule =
  rule_effect :: RuleEffect
  rule_capability :: CapabilityPattern

datatype GrantStoreErrorCode =
    Duplicate_request | Request_not_found | Journal_failed | Store_closed | Invalid_resolution

datatype PermissionError =
    PermissionRequired string "string option" Capability EffectTier json
  | PermissionDenied Capability string
  | GrantStoreError GrantStoreErrorCode "string option"

definition applyRules :: "Capability \<Rightarrow> RuleEffect \<Rightarrow> PermissionRule list \<Rightarrow> RuleEffect" where
  "applyRules capability =
     foldl (\<lambda>effect rule. if matches (rule_capability rule) capability then rule_effect rule else effect)"

definition evaluate :: "PermissionRule list list \<Rightarrow> Capability \<Rightarrow> RuleEffect" where
  "evaluate rulesets capability =
     (let configured = (case rulesets of [] \<Rightarrow> [] | rs # _ \<Rightarrow> rs);
          configuredEffect = applyRules capability Ask configured in
      if configuredEffect = Deny then Deny
      else foldl (applyRules capability) Ask rulesets)"

fun codeText :: "GrantStoreErrorCode \<Rightarrow> string" where
  "codeText Duplicate_request = ''duplicate_request''"
| "codeText Request_not_found = ''request_not_found''"
| "codeText Journal_failed = ''journal_failed''"
| "codeText Store_closed = ''store_closed''"
| "codeText Invalid_resolution = ''invalid_resolution''"

fun tierText :: "EffectTier \<Rightarrow> string" where
  "tierText Sealed = ''sealed''"
| "tierText Compensable = ''compensable''"
| "tierText Irreversible = ''irreversible''"

fun formatError :: "PermissionError \<Rightarrow> string" where
  "formatError (PermissionRequired requestId _ capability tier _) =
     ''permission_required: '' @ formatCapability capability @ '' (tier '' @ tierText tier @ '', request '' @ requestId @ '')''"
| "formatError (PermissionDenied capability reason) = ''permission_denied: '' @ formatCapability capability @ '': '' @ reason"
| "formatError (GrantStoreError code message) =
     ''grant store '' @ codeText code @ (case message of None \<Rightarrow> [] | Some m \<Rightarrow> if m = [] then [] else '': '' @ m)"

section \<open>The decision\<close>

text \<open>The last matching rule decides; no match asks.\<close>

definition lastMatch :: "PermissionRule list \<Rightarrow> Capability \<Rightarrow> RuleEffect" where
  "lastMatch rules c = (case rev (filter (\<lambda>r. matches (rule_capability r) c) rules) of [] \<Rightarrow> Ask | r # _ \<Rightarrow> rule_effect r)"

lemma applyRules_snoc:
  "applyRules c e (rs @ [r]) = (if matches (rule_capability r) c then rule_effect r else applyRules c e rs)"
  by (simp add: applyRules_def)

lemma applyRules_lastMatch: "applyRules c Ask rs = lastMatch rs c"
  by (induction rs rule: rev_induct) (simp_all add: applyRules_snoc lastMatch_def, simp add: applyRules_def)

lemma applyRules_concat: "foldl (applyRules c) e rss = applyRules c e (concat rss)"
  by (induction rss arbitrary: e) (simp_all add: applyRules_def)

theorem evaluate_decides:
  "evaluate (configured # granted) c =
     (if lastMatch configured c = Deny then Deny else lastMatch (configured @ concat granted) c)"
proof -
  have "foldl (applyRules c) Ask (configured # granted) = applyRules c Ask (concat (configured # granted))"
    by (rule applyRules_concat)
  then show ?thesis by (simp add: evaluate_def Let_def applyRules_lastMatch)
qed

lemma lastMatch_mem:
  assumes "lastMatch rs c = e" "e \<noteq> Ask"
  shows "\<exists>r \<in> set rs. matches (rule_capability r) c \<and> rule_effect r = e"
proof -
  from assms obtain r rest where "rev (filter (\<lambda>r. matches (rule_capability r) c) rs) = r # rest" "rule_effect r = e"
    by (auto simp: lastMatch_def split: list.splits)
  then have "r \<in> set (filter (\<lambda>r. matches (rule_capability r) c) rs)" by (metis list.set_intros(1) set_rev)
  with \<open>rule_effect r = e\<close> show ?thesis by auto
qed

end
