(* ===== verification/CapabilitySet.thy ===== *)
theory CapabilitySet
  imports Permission "HOL-Library.Product_Lexorder"
begin

text \<open>
  Capability authority as a normalized conjunction of any-of groups
  (\<^verbatim>\<open>packages/kernel/src/CapabilitySet.ts\<close>). Normalization changes nothing a set allows and gives
  one representation to sets with the same groups; intersection is conjunction, so authority only narrows.
\<close>

type_synonym CapabilitySet = "CapabilityPattern list list"

definition comparePattern :: "CapabilityPattern \<Rightarrow> CapabilityPattern \<Rightarrow> int" where
  "comparePattern left right =
     (let la = patternActionText (pat_action left); ra = patternActionText (pat_action right) in
      if la < ra then -1 else if la > ra then 1
      else if pat_resource left < pat_resource right then -1
      else if pat_resource left > pat_resource right then 1 else 0)"

fun compareGroup :: "CapabilityPattern list \<Rightarrow> CapabilityPattern list \<Rightarrow> int" where
  "compareGroup (l # ls) (r # rs) = (let order = comparePattern l r in if order \<noteq> 0 then order else compareGroup ls rs)"
| "compareGroup ls rs = int (length ls) - int (length rs)"

text \<open>\<open>Array.prototype.sort\<close> with a comparator: stable.\<close>

fun insertBy :: "('a \<Rightarrow> 'a \<Rightarrow> int) \<Rightarrow> 'a \<Rightarrow> 'a list \<Rightarrow> 'a list" where
  "insertBy cmp x [] = [x]"
| "insertBy cmp x (y # ys) = (if cmp x y \<le> 0 then x # y # ys else y # insertBy cmp x ys)"

definition sortBy :: "('a \<Rightarrow> 'a \<Rightarrow> int) \<Rightarrow> 'a list \<Rightarrow> 'a list" where
  "sortBy cmp xs = foldr (insertBy cmp) xs []"

text \<open>The loop that drops an element equal to the previous one kept.\<close>

definition dropRepeats :: "('a \<Rightarrow> 'a \<Rightarrow> int) \<Rightarrow> 'a list \<Rightarrow> 'a list" where
  "dropRepeats cmp =
     foldl (\<lambda>normalized x. if normalized = [] \<or> cmp (last normalized) x \<noteq> 0 then normalized @ [x] else normalized) []"

definition normalizeGroup :: "CapabilityPattern list \<Rightarrow> CapabilityPattern list" where
  "normalizeGroup patterns = dropRepeats comparePattern (sortBy comparePattern patterns)"

definition makeSet :: "CapabilityPattern list list \<Rightarrow> CapabilitySet" where
  "makeSet groups =
     (let sorted = sortBy compareGroup (map normalizeGroup groups) in
      if list_ex (\<lambda>group. group = []) sorted then [[]] else dropRepeats compareGroup sorted)"

definition fromPatterns :: "CapabilityPattern list \<Rightarrow> CapabilitySet" where
  "fromPatterns patterns = makeSet [patterns]"

definition unrestricted :: CapabilitySet where
  "unrestricted = makeSet []"

definition none :: CapabilitySet where
  "none = makeSet [[]]"

definition allows :: "CapabilitySet \<Rightarrow> Capability \<Rightarrow> bool" where
  "allows s capability = list_all (\<lambda>group. list_ex (\<lambda>pattern. matches pattern capability) group) s"

definition intersect :: "CapabilitySet \<Rightarrow> CapabilitySet \<Rightarrow> CapabilitySet" where
  "intersect left right = makeSet (left @ right)"

definition equals :: "CapabilitySet \<Rightarrow> CapabilitySet \<Rightarrow> bool" where
  "equals left right \<longleftrightarrow> length left = length right
     \<and> list_all (\<lambda>i. compareGroup (left ! i) (right ! i) = 0) [0..<length left]"

text \<open>The authority inside \<open>attenuate patterns\<close>.\<close>

definition attenuate :: "CapabilityPattern list \<Rightarrow> CapabilitySet \<Rightarrow> CapabilitySet" where
  "attenuate patterns parent = intersect parent (fromPatterns patterns)"

section \<open>The comparators are orders\<close>

definition patternKey :: "CapabilityPattern \<Rightarrow> string \<times> string" where
  "patternKey p = (patternActionText (pat_action p), pat_resource p)"

lemma actionText_wildcard:
  "actionText x \<noteq> ''fs:*'' \<and> actionText x \<noteq> ''net:*'' \<and> actionText x \<noteq> ''model:*''
   \<and> actionText x \<noteq> ''proc:*'' \<and> actionText x \<noteq> ''jj:*'' \<and> actionText x \<noteq> ''*''"
  by (cases x) simp_all

lemma patternActionText_inject [simp]: "patternActionText a = patternActionText b \<longleftrightarrow> a = b"
  by (cases a; cases b) (simp_all add: actionText_wildcard actionText_wildcard [THEN conjunct1, symmetric]
      actionText_wildcard [THEN conjunct2, THEN conjunct1, symmetric]
      actionText_wildcard [THEN conjunct2, THEN conjunct2, THEN conjunct1, symmetric]
      actionText_wildcard [THEN conjunct2, THEN conjunct2, THEN conjunct2, THEN conjunct1, symmetric]
      actionText_wildcard [THEN conjunct2, THEN conjunct2, THEN conjunct2, THEN conjunct2, THEN conjunct1, symmetric]
      actionText_wildcard [THEN conjunct2, THEN conjunct2, THEN conjunct2, THEN conjunct2, THEN conjunct2, symmetric])

lemma patternKey_inject [simp]: "patternKey a = patternKey b \<longleftrightarrow> a = b"
  by (auto simp: patternKey_def)

lemma comparePattern_key:
  "comparePattern a b = (if patternKey a < patternKey b then -1 else if patternKey b < patternKey a then 1 else 0)"
  by (auto simp: comparePattern_def patternKey_def Let_def less_prod_def' not_less)

lemma comparePattern_0 [simp]: "comparePattern a b = 0 \<longleftrightarrow> a = b"
  by (auto simp: comparePattern_key not_less_iff_gr_or_eq)

lemma comparePattern_le: "comparePattern a b \<le> 0 \<longleftrightarrow> patternKey a \<le> patternKey b"
  by (auto simp: comparePattern_key)

abbreviation groupKey :: "CapabilityPattern list \<Rightarrow> (string \<times> string) list" where
  "groupKey \<equiv> map patternKey"

lemma compareGroup_0 [simp]: "compareGroup a b = 0 \<longleftrightarrow> a = b"
  by (induction a b rule: compareGroup.induct) (auto simp: Let_def)

lemma compareGroup_le: "compareGroup a b \<le> 0 \<longleftrightarrow> groupKey a \<le> groupKey b"
  by (induction a b rule: compareGroup.induct)
    (auto simp: Let_def comparePattern_key not_less_iff_gr_or_eq split: if_splits)

lemma groupKey_inject [simp]: "groupKey a = groupKey b \<longleftrightarrow> a = b"
  by (simp add: inj_map_eq_map inj_def)

lemma insertBy_insort:
  "(\<And>a b. cmp a b \<le> 0 \<longleftrightarrow> f a \<le> f b) \<Longrightarrow> insertBy cmp x xs = insort_key f x xs" for f :: "'a \<Rightarrow> 'b :: linorder"
  by (induction xs) auto

lemma sortBy_sort_key:
  "(\<And>a b. cmp a b \<le> 0 \<longleftrightarrow> f a \<le> f b) \<Longrightarrow> sortBy cmp xs = sort_key f xs" for f :: "'a \<Rightarrow> 'b :: linorder"
  unfolding sortBy_def sort_key_def by (induction xs) (simp_all add: insertBy_insort)

lemmas sort_pattern = sortBy_sort_key [of comparePattern patternKey, OF comparePattern_le]
lemmas sort_group = sortBy_sort_key [of compareGroup groupKey, OF compareGroup_le]

lemma dropRepeats_snoc:
  "dropRepeats cmp (xs @ [x]) = (let n = dropRepeats cmp xs in if n = [] \<or> cmp (last n) x \<noteq> 0 then n @ [x] else n)"
  by (simp add: dropRepeats_def Let_def)

lemma dropRepeats_adj:
  assumes "\<And>a b. cmp a b = 0 \<longleftrightarrow> a = b"
  shows "dropRepeats cmp xs = remdups_adj xs"
proof (induction xs rule: rev_induct)
  case (snoc x xs)
  have "remdups_adj (xs @ [x]) = (if xs = [] \<or> last xs \<noteq> x then remdups_adj xs @ [x] else remdups_adj xs)"
    by (cases xs rule: rev_cases) (auto simp: remdups_adj_append_two)
  moreover have "remdups_adj xs = [] \<longleftrightarrow> xs = []" by simp
  moreover have "xs \<noteq> [] \<Longrightarrow> last (remdups_adj xs) = last xs" by simp
  ultimately show ?case using snoc assms by (auto simp: dropRepeats_snoc Let_def)
qed (simp add: dropRepeats_def)

lemmas normalize_simps = normalizeGroup_def dropRepeats_adj [OF comparePattern_0] sort_pattern

lemma set_normalizeGroup [simp]: "set (normalizeGroup ps) = set ps"
  by (simp add: normalize_simps)

lemma normalizeGroup_empty [simp]: "normalizeGroup ps = [] \<longleftrightarrow> ps = []" "[] = normalizeGroup ps \<longleftrightarrow> ps = []"
  by (metis set_empty set_normalizeGroup)+

lemma sorted_remdups_adj_distinct: "sorted xs \<Longrightarrow> distinct (remdups_adj xs)" for xs :: "'a :: linorder list"
  by (induction xs rule: remdups_adj.induct) (auto simp: order.antisym)

lemma sorted_remdups_adj_unique:
  fixes f :: "'a \<Rightarrow> 'b :: linorder"
  assumes "\<And>a b. f a = f b \<longleftrightarrow> a = b"
  shows "remdups_adj (sort_key f xs) = remdups_adj (sort_key f ys) \<longleftrightarrow> set xs = set ys"
proof
  assume "set xs = set ys"
  have adj: "sorted (map f (remdups_adj (sort_key f zs)))" "distinct (remdups_adj (sort_key f zs))" for zs
  proof -
    show "sorted (map f (remdups_adj (sort_key f zs)))"
      by (metis remdups_adj_map_injective assms injI sorted_remdups_adj sorted_sort_key)
    have "sorted (map f (sort_key f zs))" by simp
    then have "distinct (remdups_adj (map f (sort_key f zs)))" by (rule sorted_remdups_adj_distinct)
    moreover have "remdups_adj (map f (sort_key f zs)) = map f (remdups_adj (sort_key f zs))"
      by (rule remdups_adj_map_injective) (auto simp: inj_def assms)
    ultimately show "distinct (remdups_adj (sort_key f zs))" by (simp add: distinct_map)
  qed
  have "map f (remdups_adj (sort_key f xs)) = map f (remdups_adj (sort_key f ys))"
    by (rule sorted_distinct_set_unique)
      (use adj \<open>set xs = set ys\<close> in \<open>auto simp: distinct_map inj_on_def assms\<close>)
  then show "remdups_adj (sort_key f xs) = remdups_adj (sort_key f ys)"
    by (metis (mono_tags, lifting) assms injI inj_map_eq_map)
next
  assume "remdups_adj (sort_key f xs) = remdups_adj (sort_key f ys)"
  then show "set xs = set ys" by (metis remdups_adj_set set_sort)
qed

lemma normalizeGroup_eq: "normalizeGroup ps = normalizeGroup qs \<longleftrightarrow> set ps = set qs"
  unfolding normalize_simps by (rule sorted_remdups_adj_unique) simp

section \<open>What a set allows\<close>

lemma set_makeSet: "set (makeSet gs) = (if [] \<in> set gs then {[]} else normalizeGroup ` set gs)"
  by (auto simp: makeSet_def Let_def list_ex_iff sort_group dropRepeats_adj [OF compareGroup_0] image_iff)

theorem allows_makeSet: "allows (makeSet gs) c \<longleftrightarrow> list_all (list_ex (\<lambda>p. matches p c)) gs"
proof (cases "[] \<in> set gs")
  case True
  then show ?thesis by (auto simp: allows_def list_all_iff list_ex_iff set_makeSet intro: bexI [of _ "[]"])
qed (simp add: allows_def list_all_iff list_ex_iff set_makeSet)

theorem allows_intersect: "allows (intersect a b) c \<longleftrightarrow> allows a c \<and> allows b c"
  by (simp add: intersect_def allows_makeSet) (simp add: allows_def)

lemma allows_attenuate: "allows (attenuate ps parent) c \<longleftrightarrow> allows parent c \<and> (\<exists>p \<in> set ps. matches p c)"
  by (simp add: attenuate_def allows_intersect fromPatterns_def allows_makeSet list_ex_iff)

lemma equals_iff: "equals a b \<longleftrightarrow> a = b"
  by (auto simp: equals_def list_all_iff intro: nth_equalityI)

theorem makeSet_canonical:
  "equals (makeSet gs) (makeSet hs) \<longleftrightarrow>
     (if [] \<in> set gs \<or> [] \<in> set hs then [] \<in> set gs \<and> [] \<in> set hs else set ` set gs = set ` set hs)"
proof (cases "[] \<in> set gs \<or> [] \<in> set hs")
  case True
  have "[] \<in> set gs \<longleftrightarrow> [] \<in> set (makeSet gs)" for gs by (auto simp: set_makeSet)
  moreover have "[] \<in> set gs \<Longrightarrow> makeSet gs = [[]]" for gs by (auto simp: makeSet_def list_ex_iff sort_group)
  ultimately show ?thesis using True by (metis equals_iff)
next
  case False
  then have mk: "makeSet gs = remdups_adj (sort_key groupKey (map normalizeGroup gs))"
    "makeSet hs = remdups_adj (sort_key groupKey (map normalizeGroup hs))"
    by (auto simp: makeSet_def list_ex_iff sort_group dropRepeats_adj [OF compareGroup_0] Let_def)
  have "equals (makeSet gs) (makeSet hs) \<longleftrightarrow> normalizeGroup ` set gs = normalizeGroup ` set hs"
    unfolding equals_iff mk using sorted_remdups_adj_unique [of groupKey "map normalizeGroup gs" "map normalizeGroup hs"] by simp
  also have "\<dots> \<longleftrightarrow> set ` set gs = set ` set hs"
  proof
    assume "normalizeGroup ` set gs = normalizeGroup ` set hs"
    then have "set ` normalizeGroup ` set gs = set ` normalizeGroup ` set hs" by simp
    then show "set ` set gs = set ` set hs" by (simp add: image_image)
  next
    assume eq: "set ` set gs = set ` set hs"
    have sub: "normalizeGroup ` set xs \<subseteq> normalizeGroup ` set ys" if "set ` set xs \<subseteq> set ` set ys" for xs ys
      using that normalizeGroup_eq by (smt (verit) image_iff subset_iff)
    show "normalizeGroup ` set gs = normalizeGroup ` set hs" using sub eq by blast
  qed
  finally show ?thesis using False by simp
qed

end
