(* ===== verification/Json_Text.thy ===== *)
theory Json_Text
  imports Flows_Prelude
begin

text \<open>
  Which texts the runtime's JSON parser accepts. The stores persist \<open>state_json\<close> byte for byte and ask
  only whether it parses (\<open>isJsonString\<close> in \<^verbatim>\<open>packages/run-store/src/RunStore.ts\<close> and the column's
  \<open>json_valid\<close> check), so the parser is modelled as a recogniser that returns the rest of its input.
  Its fuel is twice the length of the text plus two, which \<open>scan_fuel\<close> shows to be enough: with any
  larger fuel the recogniser answers the same.
\<close>

definition jsonSpace :: "char \<Rightarrow> bool" where
  "jsonSpace c \<longleftrightarrow> (let n = (of_char c :: nat) in n = 32 \<or> n = 9 \<or> n = 10 \<or> n = 13)"

definition skipSpace :: "string \<Rightarrow> string" where
  "skipSpace = dropWhile jsonSpace"

definition isDigit :: "char \<Rightarrow> bool" where
  "isDigit = digit"

definition isHex :: "char \<Rightarrow> bool" where
  "isHex c \<longleftrightarrow> (let n = (of_char c :: nat) in
     48 \<le> n \<and> n \<le> 57 \<or> 65 \<le> n \<and> n \<le> 70 \<or> 97 \<le> n \<and> n \<le> 102)"

text \<open>The rest of a string literal, after its opening quote.\<close>

fun scanString :: "string \<Rightarrow> string option" where
  "scanString [] = None"
| "scanString (c # cs) =
     (if c = CHR 0x22 then Some cs
      else if c = CHR 0x5C then
        (case cs of
           [] \<Rightarrow> None
         | e # rest \<Rightarrow>
             if e \<in> {CHR 0x22, CHR 0x5C, CHR ''/'', CHR ''b'', CHR ''f'', CHR ''n'', CHR ''r'', CHR ''t''}
             then scanString rest
             else if e = CHR ''u'' then
               (case rest of
                  a # b # d # f # tail \<Rightarrow>
                    if isHex a \<and> isHex b \<and> isHex d \<and> isHex f then scanString tail else None
                | _ \<Rightarrow> None)
             else None)
      else if (of_char c :: nat) < 32 then None
      else scanString cs)"

definition scanDigits :: "string \<Rightarrow> string option" where
  "scanDigits s = (if s \<noteq> [] \<and> isDigit (hd s) then Some (dropWhile isDigit s) else None)"

definition scanFraction :: "string \<Rightarrow> string option" where
  "scanFraction s = (case s of c # cs \<Rightarrow> if c = CHR ''.'' then scanDigits cs else Some s | [] \<Rightarrow> Some s)"

definition scanExponent :: "string \<Rightarrow> string option" where
  "scanExponent s =
     (case s of
        c # cs \<Rightarrow>
          if c = CHR ''e'' \<or> c = CHR ''E'' then
            (case cs of
               d # ds \<Rightarrow> if d = CHR ''+'' \<or> d = CHR ''-'' then scanDigits ds else scanDigits cs
             | [] \<Rightarrow> None)
          else Some s
      | [] \<Rightarrow> Some s)"

definition scanNumber :: "string \<Rightarrow> string option" where
  "scanNumber s =
     (let t = (case s of c # cs \<Rightarrow> if c = CHR ''-'' then cs else s | [] \<Rightarrow> []) in
      case t of
        [] \<Rightarrow> None
      | c # cs \<Rightarrow>
          (case (if c = CHR ''0'' then Some cs else scanDigits t) of
             None \<Rightarrow> None
           | Some u \<Rightarrow> (case scanFraction u of None \<Rightarrow> None | Some v \<Rightarrow> scanExponent v)))"

definition scanWord :: "string \<Rightarrow> string \<Rightarrow> string option" where
  "scanWord w s = (if prefix w s then Some (drop (length w) s) else None)"

fun scanValue :: "nat \<Rightarrow> string \<Rightarrow> string option"
  and scanElements :: "nat \<Rightarrow> string \<Rightarrow> string option"
  and scanMembers :: "nat \<Rightarrow> string \<Rightarrow> string option" where
  "scanValue 0 s = None"
| "scanValue (Suc n) s =
     (case skipSpace s of
        [] \<Rightarrow> None
      | c # cs \<Rightarrow>
          if c = CHR 0x22 then scanString cs
          else if c = CHR ''['' then
            (case skipSpace cs of
               [] \<Rightarrow> None
             | d # ds \<Rightarrow> if d = CHR '']'' then Some ds else scanElements n (d # ds))
          else if c = CHR ''{'' then
            (case skipSpace cs of
               [] \<Rightarrow> None
             | d # ds \<Rightarrow> if d = CHR ''}'' then Some ds else scanMembers n (d # ds))
          else if c = CHR ''t'' then scanWord ''true'' (c # cs)
          else if c = CHR ''f'' then scanWord ''false'' (c # cs)
          else if c = CHR ''n'' then scanWord ''null'' (c # cs)
          else scanNumber (c # cs))"
| "scanElements 0 s = None"
| "scanElements (Suc n) s =
     (case scanValue n s of
        None \<Rightarrow> None
      | Some rest \<Rightarrow>
          (case skipSpace rest of
             [] \<Rightarrow> None
           | d # ds \<Rightarrow> if d = CHR '']'' then Some ds else if d = CHR '','' then scanElements n ds else None))"
| "scanMembers 0 s = None"
| "scanMembers (Suc n) s =
     (case skipSpace s of
        [] \<Rightarrow> None
      | q # qs \<Rightarrow>
          if q \<noteq> CHR 0x22 then None
          else case scanString qs of
            None \<Rightarrow> None
          | Some rest \<Rightarrow>
              (case skipSpace rest of
                 [] \<Rightarrow> None
               | k # ks \<Rightarrow>
                   if k \<noteq> CHR '':'' then None
                   else case scanValue n ks of
                     None \<Rightarrow> None
                   | Some tail \<Rightarrow>
                       (case skipSpace tail of
                          [] \<Rightarrow> None
                        | d # ds \<Rightarrow>
                            if d = CHR ''}'' then Some ds
                            else if d = CHR '','' then scanMembers n ds else None)))"

definition isJsonString :: "string \<Rightarrow> bool" where
  "isJsonString s = (case scanValue (2 * length s + 2) s of None \<Rightarrow> False | Some rest \<Rightarrow> skipSpace rest = [])"

section \<open>Printing\<close>

text \<open>\<open>JSON.stringify\<close> on a JSON value, and the length of its UTF-8 encoding.\<close>

definition hexDigit :: "nat \<Rightarrow> char" where
  "hexDigit n = (if n < 10 then char_of (48 + n) else char_of (87 + n))"

definition escapeChar :: "char \<Rightarrow> string" where
  "escapeChar c =
     (let n = (of_char c :: nat) in
      if c = CHR 0x22 then [CHR 0x5C, CHR 0x22]
      else if c = CHR 0x5C then [CHR 0x5C, CHR 0x5C]
      else if n = 8 then [CHR 0x5C, CHR ''b'']
      else if n = 12 then [CHR 0x5C, CHR ''f'']
      else if n = 10 then [CHR 0x5C, CHR ''n'']
      else if n = 13 then [CHR 0x5C, CHR ''r'']
      else if n = 9 then [CHR 0x5C, CHR ''t'']
      else if n < 32 then [CHR 0x5C, CHR ''u'', CHR ''0'', CHR ''0'', hexDigit (n div 16), hexDigit (n mod 16)]
      else [c])"

definition quote :: "string \<Rightarrow> string" where
  "quote s = [CHR 0x22] @ concat (map escapeChar s) @ [CHR 0x22]"

fun sepBy :: "string \<Rightarrow> string list \<Rightarrow> string" where
  "sepBy sep [] = []"
| "sepBy sep [x] = x"
| "sepBy sep (x # y # xs) = x @ sep @ sepBy sep (y # xs)"

fun stringify :: "json \<Rightarrow> string" where
  "stringify JNull = ''null''"
| "stringify (JBool b) = (if b then ''true'' else ''false'')"
| "stringify (JInt n) = show_int n"
| "stringify (JFrac t) = t"
| "stringify (JStr s) = quote s"
| "stringify (JArr xs) = ''['' @ sepBy '','' (map stringify xs) @ '']''"
| "stringify (JObj fs) = ''{'' @ sepBy '','' (map (\<lambda>(k, v). quote k @ '':'' @ stringify v) fs) @ ''}''"

definition utf8Length :: "string \<Rightarrow> nat" where
  "utf8Length s = sum_list (map (\<lambda>c. if (of_char c :: nat) < 128 then 1 else 2) s)"

section \<open>The fuel is enough\<close>

lemma skipSpace_length: "length (skipSpace s) \<le> length s"
  by (simp add: skipSpace_def length_dropWhile_le)

lemma skipSpace_Cons: "skipSpace s = c # cs \<Longrightarrow> length cs < length s"
  using skipSpace_length [of s] by simp

lemma scanString_length: "scanString s = Some r \<Longrightarrow> length r < length s"
proof (induction s arbitrary: r rule: length_induct)
  case (1 s)
  show ?case
    using 1(2) by (cases s) (auto split: if_splits list.splits dest!: 1(1) [rule_format, rotated])
qed

lemma scanDigits_length: "scanDigits s = Some r \<Longrightarrow> length r < length s"
  by (cases s) (auto simp: scanDigits_def less_Suc_eq_le length_dropWhile_le split: if_splits)

lemma scanFraction_length: "scanFraction s = Some r \<Longrightarrow> length r \<le> length s"
  by (auto simp: scanFraction_def split: list.splits if_splits dest!: scanDigits_length)

lemma scanExponent_length: "scanExponent s = Some r \<Longrightarrow> length r \<le> length s"
  by (auto simp: scanExponent_def split: list.splits if_splits dest!: scanDigits_length)

lemma scanNumber_length: "scanNumber s = Some r \<Longrightarrow> length r < length s"
  by (auto simp: scanNumber_def Let_def split: list.splits if_splits option.splits
      dest!: scanDigits_length scanFraction_length scanExponent_length)

lemma scanWord_length: "scanWord w s = Some r \<Longrightarrow> w \<noteq> [] \<Longrightarrow> length r < length s"
  by (auto simp: scanWord_def prefix_def split: if_splits)

lemma scan_shorter:
  "scanValue n s = Some r \<Longrightarrow> length r < length s"
  "scanElements n s = Some r \<Longrightarrow> length r < length s"
  "scanMembers n s = Some r \<Longrightarrow> length r < length s"
proof (induction n arbitrary: s r)
  case (Suc n)
  { case 1
    then show ?case
      by (auto split: list.splits if_splits
          dest!: skipSpace_Cons scanString_length scanNumber_length scanWord_length Suc.IH)
  next
    case 2
    then show ?case
      by (auto split: list.splits if_splits option.splits dest!: skipSpace_Cons Suc.IH)
  next
    case 3
    then show ?case
      by (auto split: list.splits if_splits option.splits dest!: skipSpace_Cons scanString_length Suc.IH)
  }
qed auto

lemma scan_fuel:
  "n > 2 * length s \<Longrightarrow> m > 2 * length s \<Longrightarrow> scanValue n s = scanValue m s"
  "n > 2 * length s + 1 \<Longrightarrow> m > 2 * length s + 1 \<Longrightarrow> scanElements n s = scanElements m s"
  "n > 2 * length s + 1 \<Longrightarrow> m > 2 * length s + 1 \<Longrightarrow> scanMembers n s = scanMembers m s"
proof (induction "length s" arbitrary: s n m rule: less_induct)
  case less
  have IH1: "scanValue a t = scanValue b t"
    and IH2: "scanElements a t = scanElements b t"
    and IH3: "scanMembers a t = scanMembers b t"
    if "length t < length s" "a \<ge> 2 * length s" "b \<ge> 2 * length s" for a b t
    using less(1-3) [OF that(1), of a b] that by auto
  have V: "scanValue (Suc a) s = scanValue (Suc b) s" if ab: "a \<ge> 2 * length s" "b \<ge> 2 * length s" for a b
  proof (cases "skipSpace s")
    case (Cons c cs)
    have "length (skipSpace cs) < length s"
      using skipSpace_Cons [OF Cons] skipSpace_length [of cs] by simp
    then have "scanElements a (skipSpace cs) = scanElements b (skipSpace cs)"
      "scanMembers a (skipSpace cs) = scanMembers b (skipSpace cs)"
      using ab by (auto intro!: IH2 IH3)
    with Cons show ?thesis by (cases "skipSpace cs") simp_all
  qed simp
  have E: "scanElements (Suc (Suc a)) s = scanElements (Suc (Suc b)) s"
    if ab: "a \<ge> 2 * length s" "b \<ge> 2 * length s" for a b
  proof (cases "scanValue (Suc b) s")
    case (Some rest)
    have "scanElements (Suc a) ds = scanElements (Suc b) ds" if "skipSpace rest = d # ds" for d ds
      using skipSpace_Cons [OF that] scan_shorter(1) [OF Some] ab by (intro IH2) auto
    with Some V [OF ab] show ?thesis by (cases "skipSpace rest") simp_all
  qed (use V [OF ab] in simp)
  have M: "scanMembers (Suc (Suc a)) s = scanMembers (Suc (Suc b)) s"
    if ab: "a \<ge> 2 * length s" "b \<ge> 2 * length s" for a b
  proof -
    have v: "scanValue (Suc a) t = scanValue (Suc b) t" if "length t < length s" for t
      using ab that by (intro IH1) auto
    have m: "scanMembers (Suc a) t = scanMembers (Suc b) t" if "length t < length s" for t
      using ab that by (intro IH3) auto
    have less: "length ks < length s"
      if "skipSpace s = q # qs" "scanString qs = Some rest" "skipSpace rest = k # ks" for q qs rest k ks
      using skipSpace_Cons [OF that(1)] scanString_length [OF that(2)] skipSpace_Cons [OF that(3)] by simp
    have less': "length ds < length s"
      if "length ks < length s" "scanValue (Suc b) ks = Some tail" "skipSpace tail = d # ds" for ks tail d ds
      using that(1) scan_shorter(1) [OF that(2)] skipSpace_Cons [OF that(3)] by simp
    show ?thesis
    proof (cases "skipSpace s")
      case q: (Cons q qs)
      show ?thesis
      proof (cases "scanString qs")
        case r: (Some rest)
        show ?thesis
        proof (cases "skipSpace rest")
          case k: (Cons k ks)
          have ks: "scanValue (Suc a) ks = scanValue (Suc b) ks" by (rule v [OF less [OF q r k]])
          show ?thesis
          proof (cases "scanValue (Suc b) ks")
            case (Some tail)
            have "scanMembers (Suc a) ds = scanMembers (Suc b) ds" if "skipSpace tail = d # ds" for d ds
              by (rule m [OF less' [OF less [OF q r k] Some that]])
            with q r k ks Some show ?thesis
              by (cases "skipSpace tail") (simp_all del: scanValue.simps)
          qed (use q r k ks in \<open>simp del: scanValue.simps\<close>)
        qed (use q r in simp)
      qed (use q in simp)
    qed simp
  qed
  { case 1
    then obtain a b where "n = Suc a" "m = Suc b" "a \<ge> 2 * length s" "b \<ge> 2 * length s"
      by (metis Suc_le_D Suc_le_mono less_eq_Suc_le)
    with V show ?case by blast
  next
    case 2
    then obtain a b where "n = Suc (Suc a)" "m = Suc (Suc b)" "a \<ge> 2 * length s" "b \<ge> 2 * length s"
      by (metis Suc_eq_plus1 Suc_le_D Suc_le_mono less_eq_Suc_le)
    with E show ?case by blast
  next
    case 3
    then obtain a b where "n = Suc (Suc a)" "m = Suc (Suc b)" "a \<ge> 2 * length s" "b \<ge> 2 * length s"
      by (metis Suc_eq_plus1 Suc_le_D Suc_le_mono less_eq_Suc_le)
    with M show ?case by blast
  }
qed

end
