(* ===== verification/GrantStore.thy ===== *)
theory GrantStore
  imports CapabilitySet Json_Text
begin

text \<open>
  The in-memory grant store (\<^verbatim>\<open>packages/kernel/src/GrantStore.ts\<close>): rules, attended requests waiting on a
  deferred, replies that grant once, for the run or for good, and bulk envelopes. Every operation
  holds one mutex, so it is one step. The persistence hook is a parameter over a state of its own.
\<close>

section \<open>Events, options and state\<close>

datatype GrantEvent =
    OnceGrant string string "string option" Capability CapabilityPattern EffectTier
  | RunGrant string string string Capability CapabilityPattern EffectTier
  | RememberedGrant string string "string option" Capability CapabilityPattern EffectTier
  | DeniedGrant string string "string option" Capability CapabilityPattern EffectTier
  | EnvelopeGrant string string "CapabilityPattern list" string

type_synonym 'p persist = "GrantEvent \<Rightarrow> 'p \<Rightarrow> (PermissionError + unit) \<times> 'p"

record EnvelopeGrantOptions =
  eg_planDigest :: string
  eg_patterns :: "CapabilityPattern list"
  eg_scope :: "string option"

datatype RulesOption = NoRules | FlatRules "PermissionRule list" | NestedRules "PermissionRule list list"

record 'p MakeOptions =
  mo_attended :: bool
  mo_rules :: RulesOption
  mo_runRules :: "PermissionRule list"
  mo_envelope :: "EnvelopeGrantOptions option"
  mo_envelopeSignatures :: "string list"
  mo_runId :: "string option"
  mo_planDigest :: "string option"
  mo_persist :: "'p persist"
  mo_workspaceRoot :: string

record PendingEntry =
  pe_requestId :: string
  pe_capability :: Capability
  pe_tier :: EffectTier
  pe_meta :: json
  pe_ceiling :: CapabilitySet

text \<open>\<open>pending\<close> is an insertion-ordered map; \<open>answered\<close> holds the completed deferreds by request.\<close>

record 'p grants =
  configuredRules :: "PermissionRule list"
  envelopeRules :: "PermissionRule list"
  runRules :: "(PermissionRule \<times> CapabilitySet) list"
  rememberedRules :: "PermissionRule list"
  pending :: "PendingEntry list"
  answered :: "string \<rightharpoonup> PermissionError + unit"
  grantedEnvelopes :: "string set"
  nextRequestId :: nat
  closed :: bool
  persisted :: 'p

type_synonym ('p, 'a) gtxn = "'p grants \<Rightarrow> (PermissionError + 'a) \<times> 'p grants"

section \<open>Validation\<close>

definition exactPattern :: "Capability \<Rightarrow> CapabilityPattern" where
  "exactPattern capability = \<lparr>pat_action = Exactly (cap_action capability), pat_resource = cap_resource capability\<rparr>"

definition hasResourceWildcard :: "string \<Rightarrow> bool" where
  "hasResourceWildcard resource \<longleftrightarrow> CHR ''*'' \<in> set resource \<or> CHR ''?'' \<in> set resource"

definition isResolution :: "string \<Rightarrow> bool" where
  "isResolution v \<longleftrightarrow> v = ''once'' \<or> v = ''run'' \<or> v = ''remembered'' \<or> v = ''deny''"

definition isEnvelopeScope :: "string \<Rightarrow> bool" where
  "isEnvelopeScope v \<longleftrightarrow> v = ''run'' \<or> v = ''remembered''"

text \<open>First occurrence per formatted identity, then the identities in code-unit order.\<close>

definition canonicalEnvelopePatterns :: "CapabilityPattern list \<Rightarrow> CapabilityPattern list" where
  "canonicalEnvelopePatterns patterns =
     (let byIdentity = map_of (map (\<lambda>p. (formatPattern p, p)) patterns);
          identities = remdups (map formatPattern patterns) in
      map (\<lambda>i. the (byIdentity i)) (sort identities))"

definition envelopeSignature :: "string \<Rightarrow> string \<Rightarrow> CapabilityPattern list \<Rightarrow> string" where
  "envelopeSignature planDigest scope patterns =
     stringify (JObj [(''planDigest'', JStr planDigest), (''scope'', JStr scope),
       (''patterns'', JArr (map (\<lambda>p. JStr (formatPattern p)) (canonicalEnvelopePatterns patterns)))])"

text \<open>\<open>root.replace(/[\\/]+$/, "")\<close>\<close>

definition stripSlashes :: "string \<Rightarrow> string" where
  "stripSlashes root = rev (dropWhile (\<lambda>c. c = CHR 0x5C \<or> c = CHR ''/'') (rev root))"

definition workspacePattern :: "string \<Rightarrow> CapabilityPattern" where
  "workspacePattern root = \<lparr>pat_action = Exactly FsWrite, pat_resource = stripSlashes root @ ''/**''\<rparr>"

definition isValidGrantPattern :: "CapabilityPattern \<Rightarrow> Capability \<Rightarrow> EffectTier \<Rightarrow> string \<Rightarrow> bool" where
  "isValidGrantPattern pattern capability tier root =
     (if pat_action pattern \<noteq> Exactly (cap_action capability) \<or> \<not> matches pattern capability then False
      else if tierOf capability root \<noteq> tier then False
      else if cap_action capability \<noteq> FsWrite then True
      else if tier = Irreversible then \<not> hasResourceWildcard (pat_resource pattern)
      else pat_resource pattern = root \<or> subsumes (workspacePattern root) pattern)"

definition isValidEnvelopePattern :: "CapabilityPattern \<Rightarrow> string \<Rightarrow> bool" where
  "isValidEnvelopePattern pattern root =
     (if CHR ''*'' \<in> set (patternActionText (pat_action pattern)) then False
      else if pat_action pattern \<noteq> Exactly FsWrite \<or> \<not> hasResourceWildcard (pat_resource pattern) then True
      else subsumes (workspacePattern root) pattern)"

definition normalizeRules :: "RulesOption \<Rightarrow> PermissionRule list \<times> PermissionRule list" where
  "normalizeRules rules = (case rules of
      NoRules \<Rightarrow> ([], [])
    | FlatRules rs \<Rightarrow> (rs, [])
    | NestedRules [] \<Rightarrow> ([], [])
    | NestedRules (rs # rest) \<Rightarrow> (rs, concat rest))"

abbreviation allowRule :: "CapabilityPattern \<Rightarrow> PermissionRule" where
  "allowRule p \<equiv> \<lparr>rule_effect = Allow, rule_capability = p\<rparr>"

section \<open>Construction\<close>

definition unsafeRule :: "string \<Rightarrow> PermissionRule \<Rightarrow> bool" where
  "unsafeRule root rule \<longleftrightarrow> rule_effect rule = Allow \<and> \<not> isValidEnvelopePattern (rule_capability rule) root"

definition runIdOf :: "'p MakeOptions \<Rightarrow> string" where
  "runIdOf opts = (case mo_runId opts of None \<Rightarrow> [] | Some r \<Rightarrow> r)"

definition scopeOf :: "string option \<Rightarrow> string" where
  "scopeOf scope = (case scope of None \<Rightarrow> ''run'' | Some s \<Rightarrow> s)"

definition invalidEnvelope :: "'p MakeOptions \<Rightarrow> string \<Rightarrow> string \<Rightarrow> CapabilityPattern list \<Rightarrow> bool" where
  "invalidEnvelope opts scope planDigest patterns \<longleftrightarrow>
     \<not> isEnvelopeScope scope \<or> mo_planDigest opts \<noteq> Some planDigest \<or> planDigest = []
     \<or> list_ex (\<lambda>p. \<not> isValidEnvelopePattern p (mo_workspaceRoot opts)) patterns"

text \<open>The persistence hook, run on the store's durable side.\<close>

definition persistT :: "'p MakeOptions \<Rightarrow> GrantEvent \<Rightarrow> ('p, unit) gtxn" where
  "persistT opts event s = (case mo_persist opts event (persisted s) of (x, p) \<Rightarrow> (x, s\<lparr>persisted := p\<rparr>))"

definition activateEnvelope :: "string \<Rightarrow> CapabilityPattern list \<Rightarrow> 'p grants \<Rightarrow> 'p grants" where
  "activateEnvelope scope patterns s =
     (if scope = ''remembered'' then s\<lparr>rememberedRules := rememberedRules s @ map allowRule patterns\<rparr>
      else s\<lparr>envelopeRules := envelopeRules s @ map allowRule patterns\<rparr>)"

definition makeGrants :: "'p MakeOptions \<Rightarrow> CapabilitySet \<Rightarrow> 'p \<Rightarrow> (PermissionError + 'p grants) \<times> 'p" where
  "makeGrants opts initialCeiling p0 =
     (let initial = normalizeRules (mo_rules opts); root = mo_workspaceRoot opts;
          s0 = \<lparr>configuredRules = fst initial, envelopeRules = [],
                runRules = map (\<lambda>rule. (rule, initialCeiling)) (mo_runRules opts),
                rememberedRules = snd initial, pending = [], answered = Map.empty,
                grantedEnvelopes = set (mo_envelopeSignatures opts), nextRequestId = 1, closed = False, persisted = p0\<rparr> in
      if list_ex (unsafeRule root) (snd initial) \<or> list_ex (unsafeRule root) (mo_runRules opts)
      then (Inl (GrantStoreError Invalid_resolution None), p0)
      else case mo_envelope opts of
          None \<Rightarrow> (Inr s0, p0)
        | Some env \<Rightarrow>
            if eg_patterns env = [] then (Inr s0, p0)
            else let scope = scopeOf (eg_scope env) in
              if invalidEnvelope opts scope (eg_planDigest env) (eg_patterns env)
              then (Inl (GrantStoreError Invalid_resolution None), p0)
              else let patterns = canonicalEnvelopePatterns (eg_patterns env);
                       signature = envelopeSignature (eg_planDigest env) scope patterns in
                if signature \<in> grantedEnvelopes s0 then (Inr (activateEnvelope scope patterns s0), p0)
                else case persistT opts (EnvelopeGrant (runIdOf opts) (eg_planDigest env) patterns scope) s0 of
                    (Inl e, s1) \<Rightarrow> (Inl e, persisted s1)
                  | (Inr _, s1) \<Rightarrow>
                      (Inr (activateEnvelope scope patterns (s1\<lparr>grantedEnvelopes := insert signature (grantedEnvelopes s1)\<rparr>)),
                       persisted s1))"

section \<open>Operations\<close>

definition rulesets :: "'p grants \<Rightarrow> Capability \<Rightarrow> PermissionRule list list" where
  "rulesets s capability =
     [configuredRules s, envelopeRules s,
      map fst (filter (\<lambda>(rule, ceiling). allows ceiling capability) (runRules s)), rememberedRules s]"

definition requestName :: "nat \<Rightarrow> string" where
  "requestName n = ''permission-'' @ show_nat n"

text \<open>
  \<open>check\<close> up to the point where the fiber waits: \<open>None\<close> when the capability is allowed at once, the request
  to wait for otherwise. \<open>ceiling\<close> is the authority of the calling fiber.
\<close>

definition check :: "'p MakeOptions \<Rightarrow> CapabilitySet \<Rightarrow> Capability \<Rightarrow> json \<Rightarrow> ('p, string option) gtxn" where
  "check opts ceiling capability meta s =
     (if closed s then (Inl (GrantStoreError Store_closed None), s)
      else if \<not> allows ceiling capability then (Inl (PermissionDenied capability ''outside capability ceiling''), s)
      else case evaluate (rulesets s capability) capability of
          Allow \<Rightarrow> (Inr None, s)
        | Deny \<Rightarrow> (Inl (PermissionDenied capability ''denied by permission policy''), s)
        | Ask \<Rightarrow>
            let tier = tierOf capability (mo_workspaceRoot opts); requestId = requestName (nextRequestId s);
                s1 = s\<lparr>nextRequestId := nextRequestId s + 1\<rparr> in
            if \<not> mo_attended opts
            then (Inl (PermissionRequired requestId (mo_runId opts) capability tier meta), s1)
            else (Inr (Some requestId),
                  s1\<lparr>pending := pending s1 @ [\<lparr>pe_requestId = requestId, pe_capability = capability,
                       pe_tier = tier, pe_meta = meta, pe_ceiling = ceiling\<rparr>]\<rparr>))"

definition deletePending :: "string \<Rightarrow> 'p grants \<Rightarrow> 'p grants" where
  "deletePending requestId s = s\<lparr>pending := filter (\<lambda>e. pe_requestId e \<noteq> requestId) (pending s)\<rparr>"

text \<open>A deferred keeps its first completion.\<close>

definition complete :: "string \<Rightarrow> PermissionError + unit \<Rightarrow> 'p grants \<Rightarrow> 'p grants" where
  "complete requestId x s =
     (if answered s requestId = None then s\<lparr>answered := (answered s)(requestId \<mapsto> x)\<rparr> else s)"

text \<open>The fiber that waited goes on, with the answer or interrupted; its entry is removed either way.\<close>

definition endWait :: "string \<Rightarrow> 'p grants \<Rightarrow> (PermissionError + unit) option \<times> 'p grants" where
  "endWait requestId s = (answered s requestId, deletePending requestId s)"

definition covered :: "'p grants \<Rightarrow> PendingEntry \<Rightarrow> bool" where
  "covered s entry \<longleftrightarrow> allows (pe_ceiling entry) (pe_capability entry)
     \<and> evaluate (rulesets s (pe_capability entry)) (pe_capability entry) = Allow"

definition resolveCovered :: "'p grants \<Rightarrow> 'p grants" where
  "resolveCovered s =
     foldl (\<lambda>t entry. if covered t entry then deletePending (pe_requestId entry) (complete (pe_requestId entry) (Inr ()) t) else t)
       s (pending s)"

definition reply :: "'p MakeOptions \<Rightarrow> string \<Rightarrow> string \<Rightarrow> CapabilityPattern option \<Rightarrow> ('p, unit) gtxn" where
  "reply opts requestId resolution suppliedPattern s =
     (if closed s then (Inl (GrantStoreError Store_closed None), s)
      else if \<not> isResolution resolution
      then (Inl (GrantStoreError Invalid_resolution (Some ''unknown grant resolution'')), s)
      else case find (\<lambda>e. pe_requestId e = requestId) (pending s) of
          None \<Rightarrow> (Inl (GrantStoreError Request_not_found None), s)
        | Some entry \<Rightarrow>
            let capability = pe_capability entry; tier = pe_tier entry;
                pattern = (if resolution = ''run'' \<or> resolution = ''remembered''
                           then (case suppliedPattern of Some p \<Rightarrow> p | None \<Rightarrow> exactPattern capability)
                           else exactPattern capability) in
            if resolution = ''once''
            then (case persistT opts (OnceGrant requestId (runIdOf opts) (mo_planDigest opts) capability pattern tier) s of
                    (Inl e, s1) \<Rightarrow> (Inl e, s1)
                  | (Inr _, s1) \<Rightarrow> (Inr (), deletePending requestId (complete requestId (Inr ()) s1)))
            else if resolution = ''run''
            then (case mo_planDigest opts of
                    None \<Rightarrow> (Inl (GrantStoreError Invalid_resolution (Some ''run grants require a plan digest'')), s)
                  | Some planDigest \<Rightarrow>
                      if planDigest = []
                      then (Inl (GrantStoreError Invalid_resolution (Some ''run grants require a plan digest'')), s)
                      else if \<not> isValidGrantPattern pattern capability tier (mo_workspaceRoot opts)
                      then (Inl (GrantStoreError Invalid_resolution None), s)
                      else (case persistT opts (RunGrant requestId (runIdOf opts) planDigest capability pattern tier) s of
                              (Inl e, s1) \<Rightarrow> (Inl e, s1)
                            | (Inr _, s1) \<Rightarrow>
                                (Inr (), resolveCovered (s1\<lparr>runRules := runRules s1 @ [(allowRule pattern, pe_ceiling entry)]\<rparr>))))
            else if resolution = ''remembered''
            then (if \<not> isValidGrantPattern pattern capability tier (mo_workspaceRoot opts)
                  then (Inl (GrantStoreError Invalid_resolution None), s)
                  else (case persistT opts (RememberedGrant requestId (runIdOf opts) (mo_planDigest opts) capability pattern tier) s of
                          (Inl e, s1) \<Rightarrow> (Inl e, s1)
                        | (Inr _, s1) \<Rightarrow> (Inr (), resolveCovered (s1\<lparr>rememberedRules := rememberedRules s1 @ [allowRule pattern]\<rparr>))))
            else (case persistT opts (DeniedGrant requestId (runIdOf opts) (mo_planDigest opts) capability pattern tier) s of
                    (Inl e, s1) \<Rightarrow> (Inl e, s1)
                  | (Inr _, s1) \<Rightarrow>
                      (Inr (), deletePending requestId
                         (complete requestId (Inl (PermissionDenied capability ''permission request denied'')) s1))))"

definition listPending :: "'p grants \<Rightarrow> (string \<times> Capability \<times> EffectTier \<times> json) list" where
  "listPending s = map (\<lambda>e. (pe_requestId e, pe_capability e, pe_tier e, pe_meta e)) (pending s)"

definition grantEnvelope :: "'p MakeOptions \<Rightarrow> EnvelopeGrantOptions \<Rightarrow> ('p, unit) gtxn" where
  "grantEnvelope opts env s =
     (let scope = scopeOf (eg_scope env); planDigest = eg_planDigest env in
      if closed s then (Inl (GrantStoreError Store_closed None), s)
      else if invalidEnvelope opts scope planDigest (eg_patterns env)
      then (Inl (GrantStoreError Invalid_resolution None), s)
      else if eg_patterns env = [] then (Inr (), s)
      else let canonical = canonicalEnvelopePatterns (eg_patterns env);
               signature = envelopeSignature planDigest scope canonical in
        if signature \<in> grantedEnvelopes s then (Inr (), s)
        else case persistT opts (EnvelopeGrant (runIdOf opts) planDigest canonical scope) s of
            (Inl e, s1) \<Rightarrow> (Inl e, s1)
          | (Inr _, s1) \<Rightarrow>
              (Inr (), resolveCovered
                 (activateEnvelope scope canonical (s1\<lparr>grantedEnvelopes := insert signature (grantedEnvelopes s1)\<rparr>))))"

text \<open>The finalizer of the store's scope.\<close>

definition closeStore :: "'p grants \<Rightarrow> 'p grants" where
  "closeStore s =
     foldl (\<lambda>t e. complete (pe_requestId e) (Inl (PermissionDenied (pe_capability e) ''grant store closed'')) t)
       (s\<lparr>closed := True, pending := []\<rparr>) (pending s)"

section \<open>Resolving what a new rule covers\<close>

lemma complete_sel [simp]:
  "configuredRules (complete rid x s) = configuredRules s" "envelopeRules (complete rid x s) = envelopeRules s"
  "runRules (complete rid x s) = runRules s" "rememberedRules (complete rid x s) = rememberedRules s"
  "pending (complete rid x s) = pending s" "grantedEnvelopes (complete rid x s) = grantedEnvelopes s"
  "nextRequestId (complete rid x s) = nextRequestId s" "closed (complete rid x s) = closed s"
  "persisted (complete rid x s) = persisted s"
  "answered (complete rid x s) = (if answered s rid = None then (answered s)(rid \<mapsto> x) else answered s)"
  by (simp_all add: complete_def)

lemma deletePending_sel [simp]:
  "configuredRules (deletePending rid s) = configuredRules s" "envelopeRules (deletePending rid s) = envelopeRules s"
  "runRules (deletePending rid s) = runRules s" "rememberedRules (deletePending rid s) = rememberedRules s"
  "pending (deletePending rid s) = filter (\<lambda>e. pe_requestId e \<noteq> rid) (pending s)"
  "answered (deletePending rid s) = answered s" "grantedEnvelopes (deletePending rid s) = grantedEnvelopes s"
  "nextRequestId (deletePending rid s) = nextRequestId s" "closed (deletePending rid s) = closed s"
  "persisted (deletePending rid s) = persisted s"
  by (simp_all add: deletePending_def)

definition sameRules :: "'p grants \<Rightarrow> 'p grants \<Rightarrow> bool" where
  "sameRules s t \<longleftrightarrow> configuredRules t = configuredRules s \<and> envelopeRules t = envelopeRules s \<and> runRules t = runRules s
     \<and> rememberedRules t = rememberedRules s \<and> grantedEnvelopes t = grantedEnvelopes s \<and> nextRequestId t = nextRequestId s
     \<and> closed t = closed s \<and> persisted t = persisted s"

lemma sameRules_covered: "sameRules s t \<Longrightarrow> covered t e = covered s e"
  by (simp add: sameRules_def covered_def rulesets_def)

lemma resolve_fold:
  assumes "distinct (map pe_requestId es)" "\<forall>e \<in> set es. answered s (pe_requestId e) = None"
  shows "let t = foldl (\<lambda>t e. if covered t e then deletePending (pe_requestId e) (complete (pe_requestId e) (Inr ()) t) else t) s es in
    sameRules s t \<and> pending t = filter (\<lambda>x. \<not> (\<exists>e \<in> set es. covered s e \<and> pe_requestId e = pe_requestId x)) (pending s)
    \<and> answered t = (\<lambda>rid. if \<exists>e \<in> set es. covered s e \<and> pe_requestId e = rid then Some (Inr ()) else answered s rid)"
  using assms
proof (induction es arbitrary: s)
  case (Cons e es)
  let ?s = "if covered s e then deletePending (pe_requestId e) (complete (pe_requestId e) (Inr ()) s) else s"
  have same: "sameRules s ?s" by (simp add: sameRules_def)
  have cov: "covered ?s x = covered s x" for x using sameRules_covered [OF same] .
  have "\<forall>x \<in> set es. answered ?s (pe_requestId x) = None" using Cons.prems by (auto simp: image_iff)
  with Cons.IH [of ?s] Cons.prems(1) same show ?case
    by (auto simp: Let_def cov sameRules_def fun_eq_iff Cons.prems(2) intro!: filter_cong)
qed (simp add: sameRules_def Let_def)

text \<open>The well-formed states: requests are numbered, open requests have no answer, and their ceiling allows them.\<close>

definition requestsOk :: "'p grants \<Rightarrow> bool" where
  "requestsOk s \<longleftrightarrow> distinct (map pe_requestId (pending s))
     \<and> (\<forall>e \<in> set (pending s). answered s (pe_requestId e) = None \<and> allows (pe_ceiling e) (pe_capability e)
          \<and> (\<exists>n < nextRequestId s. pe_requestId e = requestName n))
     \<and> (\<forall>rid. answered s rid \<noteq> None \<longrightarrow> (\<exists>n < nextRequestId s. rid = requestName n))"

lemma resolveCovered_spec:
  assumes "requestsOk s"
  shows "sameRules s (resolveCovered s)"
    "pending (resolveCovered s) = filter (\<lambda>e. \<not> covered s e) (pending s)"
    "answered (resolveCovered s) = (\<lambda>rid. if \<exists>e \<in> set (pending s). covered s e \<and> pe_requestId e = rid then Some (Inr ()) else answered s rid)"
proof -
  have d: "distinct (map pe_requestId (pending s))" "\<forall>e \<in> set (pending s). answered s (pe_requestId e) = None"
    using assms by (auto simp: requestsOk_def)
  note f = resolve_fold [OF this, folded resolveCovered_def, unfolded Let_def]
  show "sameRules s (resolveCovered s)"
    "answered (resolveCovered s) = (\<lambda>rid. if \<exists>e \<in> set (pending s). covered s e \<and> pe_requestId e = rid then Some (Inr ()) else answered s rid)"
    using f by simp_all
  have "(\<exists>e \<in> set (pending s). covered s e \<and> pe_requestId e = pe_requestId x) \<longleftrightarrow> covered s x" if "x \<in> set (pending s)" for x
    using d(1) that by (auto simp: distinct_map inj_on_def)
  then have "filter (\<lambda>x. \<not> (\<exists>e \<in> set (pending s). covered s e \<and> pe_requestId e = pe_requestId x)) (pending s)
      = filter (\<lambda>e. \<not> covered s e) (pending s)" by (intro filter_cong) simp_all
  with f show "pending (resolveCovered s) = filter (\<lambda>e. \<not> covered s e) (pending s)" by simp
qed

lemma requestName_inject [simp]: "requestName m = requestName n \<longleftrightarrow> m = n"
  by (simp add: requestName_def)

lemma distinct_filter_map: "distinct (map f xs) \<Longrightarrow> distinct (map f (filter P xs))"
  by (induction xs) auto

lemma resolveCovered_ok:
  assumes "requestsOk s"
  shows "requestsOk (resolveCovered s)"
proof -
  note r = resolveCovered_spec [OF assms]
  have n: "nextRequestId (resolveCovered s) = nextRequestId s" using r(1) by (simp add: sameRules_def)
  have "answered (resolveCovered s) (pe_requestId e) = None" if "e \<in> set (pending s)" "\<not> covered s e" for e
    using assms that by (auto simp: r(3) requestsOk_def distinct_map inj_on_def)
  then show ?thesis using assms by (auto simp: requestsOk_def r(2,3) n distinct_filter_map split: if_splits)
qed

section \<open>Steps\<close>

inductive grant_step :: "'p MakeOptions \<Rightarrow> 'p grants \<Rightarrow> 'p grants \<Rightarrow> bool" for opts where
  g_check: "check opts ceiling c meta s = (x, s') \<Longrightarrow> grant_step opts s s'"
| g_endWait: "endWait rid s = (y, s') \<Longrightarrow> grant_step opts s s'"
| g_reply: "reply opts rid resolution p s = (z, s') \<Longrightarrow> grant_step opts s s'"
| g_envelope: "grantEnvelope opts env s = (z, s') \<Longrightarrow> grant_step opts s s'"
| g_close: "grant_step opts s (closeStore s)"

inductive_cases grant_stepE: "grant_step opts s s'"

lemma persistT_sel:
  assumes "persistT opts e s = (x, s1)"
  shows "s1 = s\<lparr>persisted := snd (mo_persist opts e (persisted s))\<rparr>" "x = fst (mo_persist opts e (persisted s))"
  using assms by (auto simp: persistT_def split: prod.splits)

lemma close_fold:
  "let t = foldl (\<lambda>t e. complete (pe_requestId e) (f e) t) s es in
     sameRules s t \<and> pending t = pending s \<and> dom (answered t) = dom (answered s) \<union> pe_requestId ` set es
     \<and> (\<forall>rid. answered s rid \<noteq> None \<longrightarrow> answered t rid = answered s rid)"
proof (induction es arbitrary: s)
  case (Cons e es)
  from Cons.IH [of "complete (pe_requestId e) (f e) s"] show ?case by (auto simp: Let_def sameRules_def)
qed (simp add: sameRules_def)

text \<open>What the replies that resolve one request do.\<close>

lemma settle_ok:
  assumes "requestsOk s" "e \<in> set (pending s)"
  shows "requestsOk (deletePending (pe_requestId e) (complete (pe_requestId e) x s))"
  using assms by (auto simp: requestsOk_def distinct_filter_map)

lemma requestsOk_upd [simp]:
  "requestsOk (s\<lparr>persisted := p\<rparr>) = requestsOk s" "requestsOk (s\<lparr>runRules := rr\<rparr>) = requestsOk s"
  "requestsOk (s\<lparr>rememberedRules := mr\<rparr>) = requestsOk s" "requestsOk (s\<lparr>envelopeRules := er\<rparr>) = requestsOk s"
  "requestsOk (s\<lparr>grantedEnvelopes := ge\<rparr>) = requestsOk s"
  by (simp_all add: requestsOk_def)

lemma requestsOk_activate [simp]: "requestsOk (activateEnvelope scope ps s) = requestsOk s"
  by (simp add: activateEnvelope_def)

section \<open>The invariant of a store\<close>

text \<open>
  Besides \<open>requestsOk\<close>: the configured rules never change, no open request is one they deny, its tier is the
  one shown, and every granted allow rule passes the envelope validation.
\<close>

definition grantedRules :: "'p grants \<Rightarrow> PermissionRule list" where
  "grantedRules s = envelopeRules s @ map fst (runRules s) @ rememberedRules s"

definition rulesSafe :: "string \<Rightarrow> 'p grants \<Rightarrow> bool" where
  "rulesSafe root s \<longleftrightarrow> (\<forall>r \<in> set (grantedRules s). \<not> unsafeRule root r)"

definition openOk :: "'p MakeOptions \<Rightarrow> 'p grants \<Rightarrow> bool" where
  "openOk opts s \<longleftrightarrow> configuredRules s = fst (normalizeRules (mo_rules opts))
     \<and> (\<forall>e \<in> set (pending s). lastMatch (configuredRules s) (pe_capability e) \<noteq> Deny
          \<and> pe_tier e = tierOf (pe_capability e) (mo_workspaceRoot opts))"

definition storeOk :: "'p MakeOptions \<Rightarrow> 'p grants \<Rightarrow> bool" where
  "storeOk opts s \<longleftrightarrow> requestsOk s \<and> rulesSafe (mo_workspaceRoot opts) s \<and> openOk opts s"

lemma openOk_upd [simp]:
  "openOk opts (s\<lparr>persisted := p\<rparr>) = openOk opts s" "openOk opts (s\<lparr>runRules := rr\<rparr>) = openOk opts s"
  "openOk opts (s\<lparr>rememberedRules := mr\<rparr>) = openOk opts s" "openOk opts (s\<lparr>envelopeRules := er\<rparr>) = openOk opts s"
  "openOk opts (s\<lparr>grantedEnvelopes := ge\<rparr>) = openOk opts s" "openOk opts (activateEnvelope scope ps s) = openOk opts s"
  "openOk opts (s\<lparr>nextRequestId := n\<rparr>) = openOk opts s"
  by (simp_all add: openOk_def activateEnvelope_def)

lemma openOk_less: "openOk opts s \<Longrightarrow> configuredRules t = configuredRules s \<Longrightarrow> set (pending t) \<subseteq> set (pending s) \<Longrightarrow> openOk opts t"
  by (auto simp: openOk_def)

lemma rulesSafe_upd [simp]:
  "rulesSafe root (s\<lparr>persisted := p\<rparr>) = rulesSafe root s" "rulesSafe root (s\<lparr>grantedEnvelopes := ge\<rparr>) = rulesSafe root s"
  "rulesSafe root (s\<lparr>runRules := runRules s @ [(r, ceiling)]\<rparr>) \<longleftrightarrow> rulesSafe root s \<and> \<not> unsafeRule root r"
  "rulesSafe root (s\<lparr>rememberedRules := rememberedRules s @ [r]\<rparr>) \<longleftrightarrow> rulesSafe root s \<and> \<not> unsafeRule root r"
  "rulesSafe root (s\<lparr>nextRequestId := n\<rparr>) = rulesSafe root s"
  "rulesSafe root (s\<lparr>pending := q\<rparr>) = rulesSafe root s"
  by (auto simp: rulesSafe_def grantedRules_def)

lemma rulesSafe_same: "sameRules s t \<Longrightarrow> rulesSafe root t = rulesSafe root s"
  by (simp add: sameRules_def rulesSafe_def grantedRules_def)

lemma rulesSafe_activate [simp]:
  "rulesSafe root (activateEnvelope scope ps s) \<longleftrightarrow> rulesSafe root s \<and> (\<forall>p \<in> set ps. isValidEnvelopePattern p root)"
  by (auto simp: activateEnvelope_def rulesSafe_def grantedRules_def unsafeRule_def ball_Un)

lemma resolveCovered_storeOk:
  assumes "storeOk opts s"
  shows "storeOk opts (resolveCovered s)"
proof -
  have r: "requestsOk s" and s: "rulesSafe (mo_workspaceRoot opts) s" and q: "openOk opts s" using assms by (simp_all add: storeOk_def)
  note spec = resolveCovered_spec [OF r]
  have "openOk opts (resolveCovered s)"
    by (rule openOk_less [OF q]) (use spec in \<open>auto simp: sameRules_def\<close>)
  then show ?thesis using resolveCovered_ok [OF r] s rulesSafe_same [OF spec(1)] by (simp add: storeOk_def)
qed

lemma settle_storeOk:
  assumes "storeOk opts s" "e \<in> set (pending s)"
  shows "storeOk opts (deletePending (pe_requestId e) (complete (pe_requestId e) x s))"
  using assms settle_ok [of s e x] by (auto simp: storeOk_def openOk_def rulesSafe_def grantedRules_def)

lemma formatPattern_inject: "formatPattern p = formatPattern q \<longleftrightarrow> p = q"
proof
  assume eq: "formatPattern p = formatPattern q"
  have "pat_action p = pat_action q"
  proof (cases "pat_action p"; cases "pat_action q")
    fix a b assume e: "pat_action p = Exactly a" "pat_action q = Exactly b"
    then have f: "format (actionText a) (pat_resource p) = format (actionText b) (pat_resource q)" using eq by simp
    have 1: "parse (format (actionText a) (pat_resource p)) = Some \<lparr>cap_action = a, cap_resource = pat_resource p\<rparr>"
      by (subst parse_format) simp
    have 2: "parse (format (actionText b) (pat_resource q)) = Some \<lparr>cap_action = b, cap_resource = pat_resource q\<rparr>"
      by (subst parse_format) simp
    from trans [OF sym [OF 1 [unfolded f]] 2] have "a = b" by simp
    with e show ?thesis by simp
  next
    fix a assume "pat_action p = Exactly a"
    with eq show "pat_action q = FsAny \<Longrightarrow> ?thesis" "pat_action q = NetAny \<Longrightarrow> ?thesis" "pat_action q = ModelAny \<Longrightarrow> ?thesis"
      "pat_action q = ProcAny \<Longrightarrow> ?thesis" "pat_action q = JjAny \<Longrightarrow> ?thesis" "pat_action q = AnyAction \<Longrightarrow> ?thesis"
      by (cases a; simp add: format_def)+
  next
    fix b assume "pat_action q = Exactly b"
    with eq show "pat_action p = FsAny \<Longrightarrow> ?thesis" "pat_action p = NetAny \<Longrightarrow> ?thesis" "pat_action p = ModelAny \<Longrightarrow> ?thesis"
      "pat_action p = ProcAny \<Longrightarrow> ?thesis" "pat_action p = JjAny \<Longrightarrow> ?thesis" "pat_action p = AnyAction \<Longrightarrow> ?thesis"
      by (cases b; simp add: format_def)+
  qed (use eq in \<open>simp_all add: format_def\<close>)
  with eq show "p = q" by (simp add: format_def)
qed simp

lemma map_of_identity: "p \<in> set ps \<Longrightarrow> map_of (map (\<lambda>p. (formatPattern p, p)) ps) (formatPattern p) = Some p"
  by (induction ps) (auto simp: formatPattern_inject)

text \<open>The canonical list has the same patterns, and depends on nothing but their set.\<close>

lemma canonicalEnvelopePatterns_set [simp]: "set (canonicalEnvelopePatterns ps) = set ps"
  by (force simp: canonicalEnvelopePatterns_def Let_def image_image map_of_identity)

lemma canonicalEnvelopePatterns_nil [simp]: "canonicalEnvelopePatterns ps = [] \<longleftrightarrow> ps = []"
  by (metis canonicalEnvelopePatterns_set set_empty)

lemma canonicalEnvelopePatterns_text:
  "map formatPattern (canonicalEnvelopePatterns ps) = sorted_list_of_set (formatPattern ` set ps)"
proof -
  have "map formatPattern (canonicalEnvelopePatterns ps) = map (\<lambda>i. i) (sort (remdups (map formatPattern ps)))"
    unfolding canonicalEnvelopePatterns_def Let_def map_map
    by (rule map_cong) (auto simp: map_of_identity)
  then show ?thesis by (simp add: sorted_list_of_set_sort_remdups [symmetric])
qed

lemma canonicalEnvelopePatterns_iff:
  "canonicalEnvelopePatterns ps = canonicalEnvelopePatterns qs \<longleftrightarrow> set ps = set qs"
proof
  assume "set ps = set qs"
  then have "map formatPattern (canonicalEnvelopePatterns ps) = map formatPattern (canonicalEnvelopePatterns qs)"
    by (simp add: canonicalEnvelopePatterns_text)
  then show "canonicalEnvelopePatterns ps = canonicalEnvelopePatterns qs"
    by (rule map_injective) (simp add: inj_def formatPattern_inject)
qed (metis canonicalEnvelopePatterns_set)

text \<open>With a literal workspace root, what a reply may grant an envelope may grant too.\<close>

lemma grant_pattern_envelope:
  assumes "isValidGrantPattern p c tier root" "\<not> hasResourceWildcard root"
  shows "isValidEnvelopePattern p root"
proof -
  have a: "pat_action p = Exactly (cap_action c)" and m: "matches p c" and t: "tierOf c root = tier"
    using assms(1) by (auto simp: isValidGrantPattern_def split: if_splits)
  have star: "CHR ''*'' \<notin> set (patternActionText (pat_action p))" using a by (cases "cap_action c") simp_all
  show ?thesis
  proof (cases "cap_action c = FsWrite \<and> hasResourceWildcard (pat_resource p)")
    case True
    then have "tier \<noteq> Irreversible" "pat_resource p = root \<or> subsumes (workspacePattern root) p"
      using assms(1) a m t by (auto simp: isValidGrantPattern_def split: if_splits)
    then show ?thesis using True assms(2) star by (auto simp: isValidEnvelopePattern_def)
  qed (use star a in \<open>auto simp: isValidEnvelopePattern_def\<close>)
qed

section \<open>What a call does\<close>

text \<open>A call that fails changes nothing but the hook's side and the request counter.\<close>

definition untouched :: "'p grants \<Rightarrow> 'p grants \<Rightarrow> bool" where
  "untouched s t \<longleftrightarrow> (\<exists>p n. n \<ge> nextRequestId s \<and> t = s\<lparr>persisted := p, nextRequestId := n\<rparr>)"

lemma untouched_refl [simp]: "untouched s s" and untouched_persisted [simp]: "untouched s (s\<lparr>persisted := p\<rparr>)"
  unfolding untouched_def
  by (rule exI [of _ "persisted s"], rule exI [of _ "nextRequestId s"], simp, rule exI [of _ p], rule exI [of _ "nextRequestId s"], simp)

text \<open>The hook's side moves only when the hook was called; here, without success.\<close>

definition hookSide :: "'p MakeOptions \<Rightarrow> 'p grants \<Rightarrow> 'p grants \<Rightarrow> bool" where
  "hookSide opts s t \<longleftrightarrow> persisted t = persisted s \<or> (\<exists>ev x. mo_persist opts ev (persisted s) = (Inl x, persisted t))"

lemma hookSide_refl [simp]: "hookSide opts s s"
  and hookSide_failed: "mo_persist opts ev (persisted s) = (Inl x, p) \<Longrightarrow> hookSide opts s (s\<lparr>persisted := p\<rparr>)"
  by (auto simp: hookSide_def)

lemma check_cases:
  assumes "check opts ceiling c meta s = (x, s')"
  obtains (failed) e where "x = Inl e" "untouched s s'"
  | (allowed) "x = Inr None" "s' = s" "\<not> closed s" "allows ceiling c" "evaluate (rulesets s c) c = Allow"
  | (waiting) "x = Inr (Some (requestName (nextRequestId s)))" "\<not> closed s" "mo_attended opts" "allows ceiling c"
      "evaluate (rulesets s c) c = Ask"
      "s' = s\<lparr>nextRequestId := nextRequestId s + 1,
        pending := pending s @ [\<lparr>pe_requestId = requestName (nextRequestId s), pe_capability = c,
          pe_tier = tierOf c (mo_workspaceRoot opts), pe_meta = meta, pe_ceiling = ceiling\<rparr>]\<rparr>"
proof -
  have "untouched s (s\<lparr>nextRequestId := Suc (nextRequestId s)\<rparr>)"
    by (auto simp: untouched_def intro!: exI [of _ "persisted s"] exI [of _ "Suc (nextRequestId s)"])
  then show thesis using assms that
    by (auto simp: check_def Let_def split: if_splits RuleEffect.splits)
qed

text \<open>The event a resolution records, its pattern, and the state it leads to once the event is durable.\<close>

definition replyPattern :: "string \<Rightarrow> CapabilityPattern option \<Rightarrow> PendingEntry \<Rightarrow> CapabilityPattern" where
  "replyPattern resolution supplied e =
     (if resolution = ''run'' \<or> resolution = ''remembered''
      then (case supplied of Some p \<Rightarrow> p | None \<Rightarrow> exactPattern (pe_capability e)) else exactPattern (pe_capability e))"

fun eventPatterns :: "GrantEvent \<Rightarrow> CapabilityPattern list" where
  "eventPatterns (OnceGrant _ _ _ _ p _) = [p]"
| "eventPatterns (RunGrant _ _ _ _ p _) = [p]"
| "eventPatterns (RememberedGrant _ _ _ _ p _) = [p]"
| "eventPatterns (DeniedGrant _ _ _ _ p _) = [p]"
| "eventPatterns (EnvelopeGrant _ _ ps _) = ps"

lemma find_pending:
  "find (\<lambda>e. pe_requestId e = rid) es = Some e \<Longrightarrow> e \<in> set es \<and> pe_requestId e = rid"
  by (auto simp: find_Some_iff)

lemma reply_cases:
  assumes "reply opts rid resolution supplied s = (z, s')"
  obtains (failed) err where "z = Inl err" "untouched s s'" "hookSide opts s s'"
  | (once) e p where "z = Inr ()" "\<not> closed s" "e \<in> set (pending s)" "pe_requestId e = rid"
      "mo_persist opts (OnceGrant rid (runIdOf opts) (mo_planDigest opts) (pe_capability e) (exactPattern (pe_capability e)) (pe_tier e)) (persisted s) = (Inr (), p)"
      "s' = deletePending rid (complete rid (Inr ()) (s\<lparr>persisted := p\<rparr>))"
      "resolution = ''once''"
  | (run) e d pat p where "z = Inr ()" "\<not> closed s" "e \<in> set (pending s)" "pe_requestId e = rid"
      "mo_planDigest opts = Some d" "d \<noteq> []" "pat = replyPattern ''run'' supplied e"
      "isValidGrantPattern pat (pe_capability e) (pe_tier e) (mo_workspaceRoot opts)"
      "mo_persist opts (RunGrant rid (runIdOf opts) d (pe_capability e) pat (pe_tier e)) (persisted s) = (Inr (), p)"
      "s' = resolveCovered (s\<lparr>persisted := p, runRules := runRules s @ [(allowRule pat, pe_ceiling e)]\<rparr>)"
      "resolution = ''run''"
  | (remembered) e pat p where "z = Inr ()" "\<not> closed s" "e \<in> set (pending s)" "pe_requestId e = rid"
      "pat = replyPattern ''remembered'' supplied e"
      "isValidGrantPattern pat (pe_capability e) (pe_tier e) (mo_workspaceRoot opts)"
      "mo_persist opts (RememberedGrant rid (runIdOf opts) (mo_planDigest opts) (pe_capability e) pat (pe_tier e)) (persisted s) = (Inr (), p)"
      "s' = resolveCovered (s\<lparr>persisted := p, rememberedRules := rememberedRules s @ [allowRule pat]\<rparr>)"
      "resolution = ''remembered''"
  | (denied) e p where "z = Inr ()" "\<not> closed s" "e \<in> set (pending s)" "pe_requestId e = rid"
      "mo_persist opts (DeniedGrant rid (runIdOf opts) (mo_planDigest opts) (pe_capability e) (exactPattern (pe_capability e)) (pe_tier e)) (persisted s) = (Inr (), p)"
      "s' = deletePending rid (complete rid (Inl (PermissionDenied (pe_capability e) ''permission request denied'')) (s\<lparr>persisted := p\<rparr>))"
      "resolution = ''deny''"
proof (cases "closed s \<or> \<not> isResolution resolution \<or> find (\<lambda>e. pe_requestId e = rid) (pending s) = None")
  case True
  then show thesis using assms that(1) by (auto simp: reply_def split: if_splits)
next
  case False
  then obtain e where e: "find (\<lambda>e. pe_requestId e = rid) (pending s) = Some e" by auto
  note mem = find_pending [OF e]
  have k: "reply opts rid resolution supplied s = (z, s')" "\<not> closed s" "isResolution resolution" using assms False by auto
  then consider "resolution = ''once''" | "resolution = ''run''" | "resolution = ''remembered''" | "resolution = ''deny''"
    by (auto simp: isResolution_def)
  then show thesis
  proof cases
    case 1
    obtain x p where h: "mo_persist opts (OnceGrant rid (runIdOf opts) (mo_planDigest opts) (pe_capability e) (exactPattern (pe_capability e)) (pe_tier e)) (persisted s) = (x, p)"
      by (rule prod.exhaust)
    have hs: "x = Inl err \<Longrightarrow> hookSide opts s (s\<lparr>persisted := p\<rparr>)" for err using h by (simp add: hookSide_failed)
    show thesis
      by (cases x) (use hs 1 k e mem h that(1) that(2) [of e p] in \<open>auto simp: reply_def Let_def persistT_def\<close>)
  next
    case 2
    let ?pat = "replyPattern ''run'' supplied e"
    have pat: "?pat = (case supplied of Some p \<Rightarrow> p | None \<Rightarrow> exactPattern (pe_capability e))" by (simp add: replyPattern_def)
    show thesis
    proof (cases "(\<exists>d. mo_planDigest opts = Some d \<and> d \<noteq> []) \<and> isValidGrantPattern ?pat (pe_capability e) (pe_tier e) (mo_workspaceRoot opts)")
      case False
      then show thesis using 2 k e that(1) unfolding pat by (cases "mo_planDigest opts") (auto simp: reply_def Let_def split: if_splits)
    next
      case True
      then obtain d where d: "mo_planDigest opts = Some d" "d \<noteq> []" by blast
      obtain x p where h: "mo_persist opts (RunGrant rid (runIdOf opts) d (pe_capability e) ?pat (pe_tier e)) (persisted s) = (x, p)"
        by (rule prod.exhaust)
      have hs: "x = Inl err \<Longrightarrow> hookSide opts s (s\<lparr>persisted := p\<rparr>)" for err using h by (simp add: hookSide_failed)
      show thesis
        by (cases x) (use hs 2 True k e mem d h that(1) that(3) [of e d ?pat p] in \<open>auto simp: reply_def Let_def persistT_def pat [symmetric]\<close>)
    qed
  next
    case 3
    let ?pat = "replyPattern ''remembered'' supplied e"
    have pat: "?pat = (case supplied of Some p \<Rightarrow> p | None \<Rightarrow> exactPattern (pe_capability e))" by (simp add: replyPattern_def)
    show thesis
    proof (cases "isValidGrantPattern ?pat (pe_capability e) (pe_tier e) (mo_workspaceRoot opts)")
      case False
      then show thesis using 3 k e that(1) unfolding pat by (auto simp: reply_def Let_def)
    next
      case True
      obtain x p where h: "mo_persist opts (RememberedGrant rid (runIdOf opts) (mo_planDigest opts) (pe_capability e) ?pat (pe_tier e)) (persisted s) = (x, p)"
        by (rule prod.exhaust)
      have hs: "x = Inl err \<Longrightarrow> hookSide opts s (s\<lparr>persisted := p\<rparr>)" for err using h by (simp add: hookSide_failed)
      show thesis
        by (cases x) (use hs 3 True k e mem h that(1) that(4) [of e ?pat p] in \<open>auto simp: reply_def Let_def persistT_def pat [symmetric]\<close>)
    qed
  next
    case 4
    obtain x p where h: "mo_persist opts (DeniedGrant rid (runIdOf opts) (mo_planDigest opts) (pe_capability e) (exactPattern (pe_capability e)) (pe_tier e)) (persisted s) = (x, p)"
      by (rule prod.exhaust)
    have hs: "x = Inl err \<Longrightarrow> hookSide opts s (s\<lparr>persisted := p\<rparr>)" for err using h by (simp add: hookSide_failed)
    show thesis
      by (cases x) (use hs 4 k e mem h that(1) that(5) [of e p] in \<open>auto simp: reply_def Let_def persistT_def\<close>)
  qed
qed

lemma grantEnvelope_cases:
  assumes "grantEnvelope opts env s = (z, s')"
  obtains (failed) err where "z = Inl err" "untouched s s'" "hookSide opts s s'"
  | (same) "z = Inr ()" "s' = s" "\<not> closed s"
      "eg_patterns env = [] \<or> envelopeSignature (eg_planDigest env) (scopeOf (eg_scope env)) (canonicalEnvelopePatterns (eg_patterns env)) \<in> grantedEnvelopes s"
  | (granted) p scope ps sg where "z = Inr ()" "\<not> closed s" "scope = scopeOf (eg_scope env)" "isEnvelopeScope scope"
      "mo_planDigest opts = Some (eg_planDigest env)" "eg_planDigest env \<noteq> []"
      "ps = canonicalEnvelopePatterns (eg_patterns env)" "ps \<noteq> []" "\<forall>q \<in> set ps. isValidEnvelopePattern q (mo_workspaceRoot opts)"
      "sg = envelopeSignature (eg_planDigest env) scope ps" "sg \<notin> grantedEnvelopes s"
      "mo_persist opts (EnvelopeGrant (runIdOf opts) (eg_planDigest env) ps scope) (persisted s) = (Inr (), p)"
      "s' = resolveCovered (activateEnvelope scope ps (s\<lparr>persisted := p, grantedEnvelopes := insert sg (grantedEnvelopes s)\<rparr>))"
proof (cases "closed s \<or> invalidEnvelope opts (scopeOf (eg_scope env)) (eg_planDigest env) (eg_patterns env)")
  case True
  then show thesis using assms that(1) by (auto simp: grantEnvelope_def Let_def split: if_splits)
next
  case False
  let ?scope = "scopeOf (eg_scope env)" and ?ps = "canonicalEnvelopePatterns (eg_patterns env)"
  let ?sg = "envelopeSignature (eg_planDigest env) ?scope ?ps"
  have ok: "\<not> closed s" "isEnvelopeScope ?scope" "mo_planDigest opts = Some (eg_planDigest env)" "eg_planDigest env \<noteq> []"
    "\<forall>q \<in> set ?ps. isValidEnvelopePattern q (mo_workspaceRoot opts)"
    using False by (auto simp: invalidEnvelope_def list_ex_iff)
  show thesis
  proof (cases "eg_patterns env = [] \<or> ?sg \<in> grantedEnvelopes s")
    case True
    then show thesis using assms False by (intro that(2)) (auto simp: grantEnvelope_def Let_def split: if_splits)
  next
    case new: False
    obtain x p where h: "mo_persist opts (EnvelopeGrant (runIdOf opts) (eg_planDigest env) ?ps ?scope) (persisted s) = (x, p)"
      by (cases "mo_persist opts (EnvelopeGrant (runIdOf opts) (eg_planDigest env) ?ps ?scope) (persisted s)")
    have hs: "x = Inl err \<Longrightarrow> hookSide opts s (s\<lparr>persisted := p\<rparr>)" for err using h by (simp add: hookSide_failed)
    show thesis
    proof (cases x)
      case (Inl err)
      then show thesis using assms False new h hs that(1) [of err] by (auto simp: grantEnvelope_def Let_def persistT_def)
    next
      case (Inr u)
      then have "z = Inr ()" "s' = resolveCovered (activateEnvelope ?scope ?ps (s\<lparr>persisted := p, grantedEnvelopes := insert ?sg (grantedEnvelopes s)\<rparr>))"
        using assms False new h by (simp_all add: grantEnvelope_def Let_def persistT_def)
      with ok new h Inr show thesis by (intro that(3) [of ?scope ?ps ?sg p]) simp_all
    qed
  qed
qed

section \<open>Every call keeps the invariant\<close>

lemma untouched_storeOk:
  assumes "untouched s t" "storeOk opts s"
  shows "storeOk opts t"
proof -
  from assms(1) obtain p n where t: "n \<ge> nextRequestId s" "t = s\<lparr>persisted := p, nextRequestId := n\<rparr>"
    by (auto simp: untouched_def)
  have "(\<exists>m < n. rid = requestName m)" if "\<exists>m < nextRequestId s. rid = requestName m" for rid using that t(1) by force
  then have "requestsOk t" using assms(2) t(2) unfolding requestsOk_def storeOk_def by simp
  then show ?thesis using assms(2) t(2) by (simp add: storeOk_def)
qed

lemma check_storeOk:
  assumes "check opts ceiling c meta s = (x, s')" "storeOk opts s"
  shows "storeOk opts s'"
  using assms(1)
proof (cases rule: check_cases)
  case waiting
  have r: "requestsOk s" and q: "openOk opts s" using assms(2) by (auto simp: storeOk_def)
  have fresh: "answered s (requestName (nextRequestId s)) = None" "requestName (nextRequestId s) \<notin> pe_requestId ` set (pending s)"
    using r unfolding requestsOk_def by (metis less_irrefl requestName_inject) (use r in \<open>auto simp: requestsOk_def\<close>)
  have "requestsOk s'" using r fresh waiting(4,6) by (auto simp: requestsOk_def less_Suc_eq)
  moreover have "lastMatch (configuredRules s) c \<noteq> Deny"
    using waiting(5) by (auto simp: rulesets_def evaluate_decides split: if_splits)
  then have "openOk opts s'" using q waiting(6) by (auto simp: openOk_def)
  ultimately show ?thesis using assms(2) waiting(6) by (simp add: storeOk_def)
qed (use assms(2) untouched_storeOk in auto)

lemma reply_storeOk:
  assumes "reply opts rid resolution supplied s = (z, s')" "storeOk opts s" "\<not> hasResourceWildcard (mo_workspaceRoot opts)"
  shows "storeOk opts s'"
proof -
  have upd: "storeOk opts (s\<lparr>persisted := p\<rparr>)" for p using assms(2) by (simp add: storeOk_def)
  have safe: "\<not> unsafeRule (mo_workspaceRoot opts) (allowRule pat)" if "isValidGrantPattern pat c tier (mo_workspaceRoot opts)" for pat c tier
    using grant_pattern_envelope [OF that assms(3)] by (simp add: unsafeRule_def)
  from assms(1) show ?thesis
  proof (cases rule: reply_cases)
    case (once e p)
    then show ?thesis using settle_storeOk [OF upd, of e p "Inr ()"] by auto
  next
    case (run e d pat p)
    have "storeOk opts (s\<lparr>persisted := p, runRules := runRules s @ [(allowRule pat, pe_ceiling e)]\<rparr>)"
      using upd [of p] safe [OF run(8)] rulesSafe_upd(3) [of _ "s\<lparr>persisted := p\<rparr>"] by (simp add: storeOk_def)
    then show ?thesis using resolveCovered_storeOk run(10) by simp
  next
    case (remembered e pat p)
    have "storeOk opts (s\<lparr>persisted := p, rememberedRules := rememberedRules s @ [allowRule pat]\<rparr>)"
      using upd [of p] safe [OF remembered(6)] rulesSafe_upd(4) [of _ "s\<lparr>persisted := p\<rparr>"] by (simp add: storeOk_def)
    then show ?thesis using resolveCovered_storeOk remembered(8) by simp
  next
    case (denied e p)
    then show ?thesis using settle_storeOk [OF upd, of e p] by auto
  qed (use assms(2) untouched_storeOk in auto)
qed

lemma grantEnvelope_storeOk:
  assumes "grantEnvelope opts env s = (z, s')" "storeOk opts s"
  shows "storeOk opts s'"
  using assms(1)
proof (cases rule: grantEnvelope_cases)
  case (granted p scope ps sg)
  have "storeOk opts (activateEnvelope scope ps (s\<lparr>persisted := p, grantedEnvelopes := insert sg (grantedEnvelopes s)\<rparr>))"
    using assms(2) granted(9) by (simp add: storeOk_def)
  then show ?thesis using resolveCovered_storeOk granted(13) by simp
qed (use assms(2) untouched_storeOk in auto)

lemma endWait_storeOk: "storeOk opts s \<Longrightarrow> storeOk opts (snd (endWait rid s))"
  by (auto simp: endWait_def storeOk_def requestsOk_def openOk_def rulesSafe_def grantedRules_def distinct_filter_map)

lemma closeStore_storeOk:
  assumes "storeOk opts s"
  shows "storeOk opts (closeStore s)"
proof -
  let ?s = "s\<lparr>closed := True, pending := []\<rparr>"
  note f = close_fold [of "\<lambda>e. Inl (PermissionDenied (pe_capability e) ''grant store closed'')" ?s "pending s",
    folded closeStore_def, unfolded Let_def]
  have d: "dom (answered (closeStore s)) = dom (answered s) \<union> pe_requestId ` set (pending s)" "pending (closeStore s) = []"
    using f by (simp_all add: closeStore_def)
  have n: "nextRequestId (closeStore s) = nextRequestId s" "configuredRules (closeStore s) = configuredRules s"
    "grantedRules (closeStore s) = grantedRules s"
    using f by (simp_all add: closeStore_def sameRules_def grantedRules_def)
  have "\<exists>n < nextRequestId s. rid = requestName n" if "answered (closeStore s) rid \<noteq> None" for rid
  proof -
    from that d(1) have "answered s rid \<noteq> None \<or> rid \<in> pe_requestId ` set (pending s)" by blast
    with assms show ?thesis by (auto simp: storeOk_def requestsOk_def)
  qed
  then show ?thesis using assms d(2) n by (auto simp: storeOk_def requestsOk_def openOk_def rulesSafe_def)
qed

theorem step_storeOk:
  assumes "grant_step opts s s'" "storeOk opts s" "\<not> hasResourceWildcard (mo_workspaceRoot opts)"
  shows "storeOk opts s'"
  using assms(1)
proof cases
  case (g_endWait rid y)
  then show ?thesis using endWait_storeOk [OF assms(2), of rid] by simp
qed (simp_all add: assms check_storeOk reply_storeOk grantEnvelope_storeOk closeStore_storeOk)

lemma makeGrants_storeOk:
  assumes "makeGrants opts ceiling p0 = (Inr s, p)"
  shows "storeOk opts s"
proof -
  let ?root = "mo_workspaceRoot opts" and ?init = "normalizeRules (mo_rules opts)"
  have safe: "\<forall>r \<in> set (snd ?init) \<union> set (mo_runRules opts). \<not> unsafeRule ?root r"
    using assms by (auto simp: makeGrants_def Let_def list_ex_iff split: if_splits)
  let ?s0 = "\<lambda>p1. \<lparr>configuredRules = fst ?init, envelopeRules = [], runRules = map (\<lambda>rule. (rule, ceiling)) (mo_runRules opts),
    rememberedRules = snd ?init, pending = [], answered = Map.empty, grantedEnvelopes = set (mo_envelopeSignatures opts),
    nextRequestId = 1, closed = False, persisted = p1\<rparr>"
  have ok: "storeOk opts (?s0 p1)" for p1
    using safe by (auto simp: storeOk_def requestsOk_def rulesSafe_def grantedRules_def openOk_def)
  have act: "storeOk opts (activateEnvelope scope (canonicalEnvelopePatterns ps) (t\<lparr>grantedEnvelopes := ge\<rparr>))"
    if "\<not> invalidEnvelope opts scope d ps" "storeOk opts t" for scope d ps t ge
    using that by (simp add: storeOk_def invalidEnvelope_def list_ex_iff)
  have act': "storeOk opts (activateEnvelope scope (canonicalEnvelopePatterns ps) t)"
    if "\<not> invalidEnvelope opts scope d ps" "storeOk opts t" for scope d ps t
    using act [OF that, of "grantedEnvelopes t"] by simp
  show ?thesis
  proof (cases "mo_envelope opts")
    case None
    then show ?thesis using assms ok [of p0] by (auto simp: makeGrants_def Let_def split: if_splits)
  next
    case (Some env)
    then show ?thesis using assms ok [of p0] act' [OF _ ok] act [OF _ ok]
      by (auto simp: makeGrants_def Let_def persistT_def split: if_splits sum.splits prod.splits)
  qed
qed

lemma history_storeOk:
  assumes "(grant_step opts)\<^sup>*\<^sup>* s t" "storeOk opts s" "\<not> hasResourceWildcard (mo_workspaceRoot opts)"
  shows "storeOk opts t"
  using assms by (induction rule: rtranclp_induct) (auto intro: step_storeOk)

section \<open>Authority\<close>

text \<open>A configured denial is final: nothing granted later lifts it, and no request for it is ever open.\<close>

lemma configured_veto:
  assumes "storeOk opts s" "lastMatch (fst (normalizeRules (mo_rules opts))) c = Deny"
  shows "\<exists>err. check opts ceiling c meta s = (Inl err, s)" "\<forall>e \<in> set (pending s). pe_capability e \<noteq> c"
proof -
  have "configuredRules s = fst (normalizeRules (mo_rules opts))" using assms(1) by (simp add: storeOk_def openOk_def)
  with assms(2) have "evaluate (rulesets s c) c = Deny" by (simp add: rulesets_def evaluate_decides)
  then show "\<exists>err. check opts ceiling c meta s = (Inl err, s)" by (simp add: check_def)
  show "\<forall>e \<in> set (pending s). pe_capability e \<noteq> c" using assms by (auto simp: storeOk_def openOk_def)
qed

text \<open>A new rule or a granted request rests on an event that the hook has made durable.\<close>

definition evidenced :: "'p MakeOptions \<Rightarrow> 'p grants \<Rightarrow> 'p grants \<Rightarrow> GrantEvent \<Rightarrow> bool" where
  "evidenced opts s s' ev \<longleftrightarrow> mo_persist opts ev (persisted s) = (Inr (), persisted s')"

lemma resolveCovered_sel:
  assumes "requestsOk s"
  shows "grantedRules (resolveCovered s) = grantedRules s" "persisted (resolveCovered s) = persisted s"
    "covered (resolveCovered s) e = covered s e"
  using resolveCovered_spec(1) [OF assms] sameRules_covered by (auto simp: sameRules_def grantedRules_def)

lemma grantedRules_upd [simp]:
  "grantedRules (s\<lparr>persisted := p\<rparr>) = grantedRules s" "grantedRules (s\<lparr>grantedEnvelopes := ge\<rparr>) = grantedRules s"
  "grantedRules (s\<lparr>nextRequestId := n\<rparr>) = grantedRules s" "grantedRules (s\<lparr>pending := q\<rparr>) = grantedRules s"
  "grantedRules (deletePending rid s) = grantedRules s" "grantedRules (complete rid x s) = grantedRules s"
  "grantedRules (snd (endWait rid s)) = grantedRules s"
  by (simp_all add: grantedRules_def endWait_def)

lemma grantedRules_add:
  "set (grantedRules (s\<lparr>persisted := p, runRules := runRules s @ [(r, c)]\<rparr>)) = insert r (set (grantedRules s))"
  "set (grantedRules (s\<lparr>persisted := p, rememberedRules := rememberedRules s @ [r]\<rparr>)) = insert r (set (grantedRules s))"
  by (auto simp: grantedRules_def)

lemma untouched_sel:
  "untouched s t \<Longrightarrow> grantedRules t = grantedRules s \<and> answered t = answered s \<and> pending t = pending s \<and> closed t = closed s"
  by (auto simp: untouched_def grantedRules_def)

lemma grantedRules_activate: "set (grantedRules (activateEnvelope scope ps s)) = set (grantedRules s) \<union> allowRule ` set ps"
  by (auto simp: activateEnvelope_def grantedRules_def)

theorem rules_evidenced:
  assumes "grant_step opts s s'" "requestsOk s" "r \<in> set (grantedRules s')" "r \<notin> set (grantedRules s)"
  shows "\<exists>ev. evidenced opts s s' ev \<and> rule_effect r = Allow \<and> rule_capability r \<in> set (eventPatterns ev)"
  using assms(1)
proof cases
  case (g_check ceiling c meta x)
  then show ?thesis using assms(3,4) by (cases rule: check_cases) (auto dest: untouched_sel)
next
  case (g_endWait rid y)
  then show ?thesis using assms(3,4) grantedRules_upd(7) [of rid s] by simp
next
  case (g_reply rid resolution supplied z)
  then show ?thesis
  proof (cases rule: reply_cases)
    case (run e d pat p)
    note sel = resolveCovered_sel [of "s\<lparr>persisted := p, runRules := runRules s @ [(allowRule pat, pe_ceiling e)]\<rparr>"]
    have "r = allowRule pat" using assms(2,3,4) run(10) sel(1) by (simp add: grantedRules_add)
    with run(9,10) assms(2) sel(2) show ?thesis
      by (intro exI [of _ "RunGrant rid (runIdOf opts) d (pe_capability e) pat (pe_tier e)"]) (simp add: evidenced_def)
  next
    case (remembered e pat p)
    note sel = resolveCovered_sel [of "s\<lparr>persisted := p, rememberedRules := rememberedRules s @ [allowRule pat]\<rparr>"]
    have "r = allowRule pat" using assms(2,3,4) remembered(8) sel(1) by (simp add: grantedRules_add)
    with remembered(7,8) assms(2) sel(2) show ?thesis
      by (intro exI [of _ "RememberedGrant rid (runIdOf opts) (mo_planDigest opts) (pe_capability e) pat (pe_tier e)"]) (simp add: evidenced_def)
  qed (use assms(3,4) in \<open>auto dest: untouched_sel\<close>)
next
  case (g_envelope env z)
  then show ?thesis
  proof (cases rule: grantEnvelope_cases)
    case (granted p scope ps sg)
    let ?t = "activateEnvelope scope ps (s\<lparr>persisted := p, grantedEnvelopes := insert sg (grantedEnvelopes s)\<rparr>)"
    have t: "requestsOk ?t" using assms(2) by simp
    from assms(3,4) granted(13) resolveCovered_sel(1) [OF t] have "r \<in> allowRule ` set ps" by (auto simp: grantedRules_activate)
    moreover have "persisted s' = p" using resolveCovered_sel(2) [OF t] granted(13) by (simp add: activateEnvelope_def)
    ultimately show ?thesis using granted(12)
      by (intro exI [of _ "EnvelopeGrant (runIdOf opts) (eg_planDigest env) ps scope"]) (auto simp: evidenced_def)
  qed (use assms(3,4) in \<open>auto dest: untouched_sel\<close>)
next
  case g_close
  note f = close_fold [of "\<lambda>e. Inl (PermissionDenied (pe_capability e) ''grant store closed'')" "s\<lparr>closed := True, pending := []\<rparr>" "pending s",
    folded closeStore_def, unfolded Let_def]
  have "grantedRules (closeStore s) = grantedRules s" using f by (simp add: sameRules_def grantedRules_def closeStore_def)
  with g_close assms(3,4) show ?thesis by simp
qed

text \<open>
  A request that becomes granted was open, and either the durable event is a grant for this very request, or the
  rules in force after the step allow its capability under the ceiling captured when it was made.
\<close>

lemma resolve_answers:
  assumes "requestsOk t" "answered (resolveCovered t) rid = Some (Inr ())" "answered t rid \<noteq> Some (Inr ())"
  shows "\<exists>e \<in> set (pending t). pe_requestId e = rid \<and> covered (resolveCovered t) e"
  using assms(2,3) resolveCovered_spec(3) [OF assms(1)] resolveCovered_sel(3) [OF assms(1)] by (auto split: if_splits)

theorem answers_evidenced:
  assumes "grant_step opts s s'" "requestsOk s" "answered s' rid = Some (Inr ())" "answered s rid \<noteq> Some (Inr ())"
  shows "\<exists>e \<in> set (pending s). pe_requestId e = rid \<and> (\<exists>ev. evidenced opts s s' ev \<and>
    (ev = OnceGrant rid (runIdOf opts) (mo_planDigest opts) (pe_capability e) (exactPattern (pe_capability e)) (pe_tier e)
     \<or> covered s' e))"
  using assms(1)
proof cases
  case (g_check ceiling c meta x)
  then show ?thesis using assms(3,4) by (cases rule: check_cases) (auto dest: untouched_sel)
next
  case (g_reply rid' resolution supplied z)
  then show ?thesis
  proof (cases rule: reply_cases)
    case (once e p)
    then have "rid' = rid" using assms(3,4) by (auto split: if_splits)
    with once show ?thesis by (auto simp: evidenced_def)
  next
    case (run e d pat p)
    let ?t = "s\<lparr>persisted := p, runRules := runRules s @ [(allowRule pat, pe_ceiling e)]\<rparr>"
    have t: "requestsOk ?t" using assms(2) by simp
    have "evidenced opts s s' (RunGrant rid' (runIdOf opts) d (pe_capability e) pat (pe_tier e))"
      using run(9,10) resolveCovered_sel(2) [OF t] by (simp add: evidenced_def)
    then show ?thesis using resolve_answers [OF t, of rid] assms(3,4) run(10) by auto
  next
    case (remembered e pat p)
    let ?t = "s\<lparr>persisted := p, rememberedRules := rememberedRules s @ [allowRule pat]\<rparr>"
    have t: "requestsOk ?t" using assms(2) by simp
    have "evidenced opts s s' (RememberedGrant rid' (runIdOf opts) (mo_planDigest opts) (pe_capability e) pat (pe_tier e))"
      using remembered(7,8) resolveCovered_sel(2) [OF t] by (simp add: evidenced_def)
    then show ?thesis using resolve_answers [OF t, of rid] assms(3,4) remembered(8) by auto
  qed (use assms(3,4) in \<open>auto dest: untouched_sel split: if_splits\<close>)
next
  case (g_envelope env z)
  then show ?thesis
  proof (cases rule: grantEnvelope_cases)
    case (granted p scope ps sg)
    let ?t = "activateEnvelope scope ps (s\<lparr>persisted := p, grantedEnvelopes := insert sg (grantedEnvelopes s)\<rparr>)"
    have t: "requestsOk ?t" "answered ?t = answered s" "pending ?t = pending s" "persisted ?t = p"
      using assms(2) by (simp_all add: activateEnvelope_def)
    have "evidenced opts s s' (EnvelopeGrant (runIdOf opts) (eg_planDigest env) ps scope)"
      using granted(12,13) resolveCovered_sel(2) [OF t(1)] t(4) by (simp add: evidenced_def)
    then show ?thesis using resolve_answers [OF t(1), of rid] assms(3,4) granted(13) t(2,3) by auto
  qed (use assms(3,4) in \<open>auto dest: untouched_sel\<close>)
next
  case g_close
  have "foldl (\<lambda>t e. complete (pe_requestId e) (Inl (f e)) t) t0 es = u \<Longrightarrow> answered u rid = Some (Inr ()) \<Longrightarrow> answered t0 rid = Some (Inr ())"
    for f :: "PendingEntry \<Rightarrow> PermissionError" and t0 u :: "'a grants" and es
    by (induction es arbitrary: t0) (force split: if_splits)+
  from this [OF closeStore_def [symmetric]] g_close assms(3,4) show ?thesis by simp
qed (use assms(3,4) in \<open>auto simp: endWait_def\<close>)

section \<open>Writes outside the workspace\<close>

lemma push_plain: "''..'' \<notin> set ws \<Longrightarrow> foldl (pushSegment a) xs ws = xs @ filter (\<lambda>w. w \<noteq> [] \<and> w \<noteq> ''.'') ws"
  by (induction ws arbitrary: xs) (auto simp: pushSegment_def)

lemma normalizeSlashes_append: "normalizeSlashes (a @ b) = normalizeSlashes a @ normalizeSlashes b"
  by (simp add: normalizeSlashes_def)

lemma glob_literal: "CHR ''*'' \<notin> set p \<Longrightarrow> CHR ''?'' \<notin> set p \<Longrightarrow> glob False (p @ q) r \<longleftrightarrow> (\<exists>r'. r = p @ r' \<and> glob False q r')"
proof (induction p arbitrary: r)
  case (Cons c p)
  then show ?case by (cases r) (auto simp: unitsEqual_def)
qed simp

lemma strip_normal: "\<exists>k. normalizeSlashes root = normalizeSlashes (stripSlashes root) @ replicate k slash"
proof -
  let ?Q = "\<lambda>c. c = CHR 0x5C \<or> c = slash"
  have "root = stripSlashes root @ rev (takeWhile ?Q (rev root))"
    unfolding stripSlashes_def by (metis rev_append rev_rev_ident takeWhile_dropWhile_id)
  then have "normalizeSlashes root = normalizeSlashes (stripSlashes root) @ normalizeSlashes (rev (takeWhile ?Q (rev root)))"
    by (metis normalizeSlashes_append)
  moreover have "normalizeSlashes (rev (takeWhile ?Q (rev root))) = replicate (length (takeWhile ?Q (rev root))) slash"
    by (rule replicate_eqI) (auto simp: normalizeSlashes_def dest!: set_takeWhileD)
  ultimately show ?thesis by metis
qed

lemma push_empties: "foldl (pushSegment a) xs (replicate k []) = xs"
  by (induction k) (simp_all add: pushSegment_def)

lemma splitOn_replicate: "splitOn sep (p @ replicate k sep) = splitOn sep p @ replicate k []"
proof (induction k)
  case (Suc k)
  have "p @ replicate (Suc k) sep = (p @ replicate k sep) @ sep # []" by (simp add: replicate_append_same)
  then have "splitOn sep (p @ replicate (Suc k) sep) = splitOn sep (p @ replicate k sep) @ [[]]"
    by (simp only: splitOn_append) simp
  then show ?case using Suc by (simp add: replicate_append_same)
qed simp

lemma lexicalSegments_slash: "prefix ''/'' n \<Longrightarrow> lexicalSegments n = foldl (pushSegment True) [] (splitOn slash n)"
  by (auto simp: lexicalSegments_def pathPrefix_slash prefix_def pushSegment_def)

lemma unitsEqual_slash: "unitsEqual slash a True \<Longrightarrow> a = slash"
proof -
  assume "unitsEqual slash a True"
  then have c: "canonicalUnit a = slash" by (auto simp: unitsEqual_def canonicalUnit_def Let_def)
  have "canonicalUnit a = a"
  proof (rule ccontr)
    assume "canonicalUnit a \<noteq> a"
    then have up: "canonicalUnit a = char_of ((of_char a :: nat) - 32)" "97 \<le> (of_char a :: nat)"
      by (auto simp: canonicalUnit_def Let_def split: if_splits)
    from c up(1) have "(of_char (char_of ((of_char a :: nat) - 32)) :: nat) = of_char slash" by simp
    moreover have "(of_char a :: nat) - 32 < 256" by (rule order.strict_trans1 [OF diff_le_self]) simp
    ultimately have "(of_char a :: nat) - 32 = 47" by simp
    with up(2) show False by simp
  qed
  with c show "a = slash" by simp
qed

theorem workspace_match_inside:
  assumes "prefix ''/'' (normalizeSlashes root)" "\<not> hasResourceWildcard root" "matches (workspacePattern root) c"
    "''..'' \<notin> set (splitOn slash (normalizeSlashes (cap_resource c)))"
  shows "cap_action c = FsWrite" "isInsideWorkspace (cap_resource c) root"
proof -
  let ?P = "normalizeSlashes (stripSlashes root)" and ?r = "normalizeSlashes (cap_resource c)" and ?N = "normalizeSlashes root"
  obtain k where N: "?N = ?P @ replicate k slash" using strip_normal by blast
  have pat: "normalizeSlashes (stripSlashes root @ ''/**'') = ?P @ ''/**''" by (simp add: normalizeSlashes_def)
  have head: "?P = [] \<or> (\<exists>t. ?P = slash # t)" using assms(1) N by (cases ?P) auto
  have star: "CHR ''*'' \<notin> set ?P" "CHR ''?'' \<notin> set ?P"
    using assms(2) by (auto simp: hasResourceWildcard_def normalizeSlashes_def stripSlashes_def dest!: set_dropWhileD split: if_splits)
  have m: "matchesAction (Exactly FsWrite) (cap_action c)" "matchesResource (stripSlashes root @ ''/**'') (cap_resource c)"
    using assms(3) by (simp_all add: matches_def workspacePattern_def)
  from m(1) show "cap_action c = FsWrite" by (cases "cap_action c") (auto simp: matchesAction_def suffix_def Let_def)
  have nodrive: "\<not> isDrivePath (?P @ ''/**'')" using head by (auto simp: isDrivePath_iff letter_def)
  have g: "glob (isDrivePath ?r) (?P @ ''/**'') ?r"
    using m(2) nodrive unfolding matchesResource_def pat matchGlob_glob Let_def by (auto simp: suffix_def)
  have "\<not> isDrivePath ?r"
  proof
    assume "isDrivePath ?r"
    then obtain a rest where a: "?r = a # CHR '':'' # CHR ''/'' # rest" "letter a" by (auto simp: isDrivePath_iff)
    from head obtain t where "?P @ ''/**'' = slash # t" by auto
    with g a have "unitsEqual slash a True" by (simp add: \<open>isDrivePath ?r\<close>)
    with a(2) show False by (auto simp: letter_def dest!: unitsEqual_slash)
  qed
  with g have "glob False (?P @ ''/**'') ?r" by simp
  then obtain t where "?r = ?P @ t" "glob False ''/**'' t" unfolding glob_literal [OF star] by blast
  moreover from this(2) obtain t' where "t = slash # t'" by (cases t) (auto simp: unitsEqual_def)
  ultimately have r: "?r = ?P @ slash # t'" by simp
  have abs: "prefix ''/'' ?r" using r head by auto
  have dots: "''..'' \<notin> set (splitOn slash t')" using assms(4) by (simp add: r splitOn_append)
  have "lexicalSegments ?N = foldl (pushSegment True) [] (splitOn slash ?P)"
    using lexicalSegments_slash [OF assms(1)] by (simp add: N splitOn_replicate push_empties)
  moreover have "lexicalSegments ?r = foldl (pushSegment True) (foldl (pushSegment True) [] (splitOn slash ?P)) (splitOn slash t')"
    using lexicalSegments_slash [OF abs] by (simp add: r splitOn_append)
  ultimately have "prefix (lexicalSegments ?N) (lexicalSegments ?r)" by (simp add: push_plain [OF dots])
  moreover have "namedPath (cap_resource c) root = ?r" "normalizeSlashes ?r = ?r"
    using abs by (simp_all add: namedPath_def isAbsolutePath_def normalizeSlashes_def)
  ultimately show "isInsideWorkspace (cap_resource c) root"
    using isInsideWorkspace_iff [OF assms(1)] pathPrefix_slash [OF abs] by (simp add: Let_def)
qed

text \<open>
  A write that the configured rules do not allow is let through without asking only inside the workspace, or under
  a granted pattern that names its resource literally.
\<close>

theorem unasked_write:
  assumes "storeOk opts s" "check opts ceiling c meta s = (Inr None, s')" "cap_action c = FsWrite"
    "prefix ''/'' (normalizeSlashes (mo_workspaceRoot opts))" "\<not> hasResourceWildcard (mo_workspaceRoot opts)"
    "''..'' \<notin> set (splitOn slash (normalizeSlashes (cap_resource c)))"
    "lastMatch (configuredRules s) c \<noteq> Allow"
  shows "isInsideWorkspace (cap_resource c) (mo_workspaceRoot opts)
    \<or> (\<exists>p. allowRule p \<in> set (grantedRules s) \<and> matches p c \<and> \<not> hasResourceWildcard (pat_resource p))"
proof -
  have ev: "evaluate (rulesets s c) c = Allow" using assms(2) by (cases rule: check_cases) auto
  have "\<exists>r \<in> set (grantedRules s). matches (rule_capability r) c \<and> rule_effect r = Allow"
  proof -
    have all: "lastMatch (configuredRules s @ concat (tl (rulesets s c))) c = Allow"
      using ev by (auto simp: rulesets_def evaluate_decides split: if_splits)
    have rest: "set (concat (tl (rulesets s c))) \<subseteq> set (grantedRules s)" by (force simp: rulesets_def grantedRules_def)
    show ?thesis
    proof (cases "filter (\<lambda>r. matches (rule_capability r) c) (concat (tl (rulesets s c))) = []")
      case True
      then have "lastMatch (configuredRules s) c = Allow" using all by (simp add: lastMatch_def)
      with assms(7) show ?thesis by simp
    next
      case False
      then have "lastMatch (concat (tl (rulesets s c))) c = Allow" using all
        by (cases "filter (\<lambda>r. matches (rule_capability r) c) (concat (tl (rulesets s c)))" rule: rev_cases) (auto simp: lastMatch_def)
      from lastMatch_mem [OF this] rest show ?thesis by auto
    qed
  qed
  then obtain r where r: "r \<in> set (grantedRules s)" "matches (rule_capability r) c" "rule_effect r = Allow" by blast
  then have ra: "r = allowRule (rule_capability r)" by simp
  have v: "isValidEnvelopePattern (rule_capability r) (mo_workspaceRoot opts)"
    using assms(1) r by (auto simp: storeOk_def rulesSafe_def unsafeRule_def)
  show ?thesis
  proof (cases "hasResourceWildcard (pat_resource (rule_capability r))")
    case False
    then show ?thesis using r ra by metis
  next
    case True
    have "pat_action (rule_capability r) = Exactly FsWrite"
      using v r(2) assms(3) by (cases "pat_action (rule_capability r)")
        (auto simp: isValidEnvelopePattern_def matches_def matchesAction_def Let_def suffix_def elim: actionText.elims split: if_splits)
    with v True have "subsumes (workspacePattern (mo_workspaceRoot opts)) (rule_capability r)"
      by (simp add: isValidEnvelopePattern_def split: if_splits)
    from subsumes_sound [OF this r(2)] show ?thesis using workspace_match_inside(2) assms(4,5,6) by blast
  qed
qed

end
