(* ===== verification/Redaction.thy ===== *)
theory Redaction
  imports Flows_Prelude
begin

text \<open>
  Payload redaction on the journal's write path (\<^verbatim>\<open>packages/journal/src/Redaction.ts\<close>): the
  default textual rules with the matching behaviour of their regular expressions, sensitive field
  names, the structural walk, and the event types that bypass it.
\<close>

section \<open>Character classes\<close>

definition lower :: "char \<Rightarrow> char" where
  "lower c = (if 65 \<le> (of_char c :: nat) \<and> (of_char c :: nat) \<le> 90 then char_of ((of_char c :: nat) + 32) else c)"

definition toLowerCase :: "string \<Rightarrow> string" where
  "toLowerCase = map lower"

definition isAlnum :: "char \<Rightarrow> bool" where
  "isAlnum c \<longleftrightarrow> (let n = (of_char c :: nat) in
     48 \<le> n \<and> n \<le> 57 \<or> 65 \<le> n \<and> n \<le> 90 \<or> 97 \<le> n \<and> n \<le> 122)"

definition isWord :: "char \<Rightarrow> bool" where
  "isWord c \<longleftrightarrow> isAlnum c \<or> c = CHR ''_''"

definition isSpace :: "char \<Rightarrow> bool" where
  "isSpace c \<longleftrightarrow> (let n = (of_char c :: nat) in n = 32 \<or> 9 \<le> n \<and> n \<le> 13 \<or> n = 160)"

text \<open>\<open>\\b\<close> between two neighbouring characters, either of which may be the edge of the text.\<close>

fun has :: "(char \<Rightarrow> bool) \<Rightarrow> char option \<Rightarrow> bool" where
  "has P None = False"
| "has P (Some c) = P c"

definition boundary :: "char option \<Rightarrow> char option \<Rightarrow> bool" where
  "boundary a b \<longleftrightarrow> has isWord a \<noteq> has isWord b"

definition hd_opt :: "'a list \<Rightarrow> 'a option" where
  "hd_opt xs = (case xs of [] \<Rightarrow> None | x # _ \<Rightarrow> Some x)"

section \<open>The default rules\<close>

text \<open>
  A pattern is the length of its match at a position, given the character before it. Greedy
  repetition followed by \<open>\\b\<close> backs off to the longest repetition that ends on a boundary.
\<close>

type_synonym pattern = "char option \<Rightarrow> string \<Rightarrow> nat option"

record Rule =
  rule_id :: string
  rule_pattern :: pattern
  rule_replace :: "string option"

fun backOff :: "nat \<Rightarrow> nat \<Rightarrow> string \<Rightarrow> nat option" where
  "backOff lo 0 s = (if lo = 0 \<and> boundary None (hd_opt s) then Some 0 else None)"
| "backOff lo (Suc n) s =
     (if Suc n < lo then None
      else if boundary (Some (s ! n)) (hd_opt (drop (Suc n) s)) then Some (Suc n)
      else backOff lo n s)"

definition apiKeyPattern :: pattern where
  "apiKeyPattern prev s =
     (if boundary prev (hd_opt s) \<and> (take 2 s = ''sk'' \<or> take 2 s = ''pk'')
         \<and> length s > 3 \<and> (s ! 2 = CHR ''-'' \<or> s ! 2 = CHR ''_'') \<and> isAlnum (s ! 3)
      then let rest = drop 4 s; run = length (takeWhile (\<lambda>c. isWord c \<or> c = CHR ''-'') rest) in
        (case backOff 7 run rest of None \<Rightarrow> None | Some n \<Rightarrow> Some (4 + n))
      else None)"

definition bearerPattern :: pattern where
  "bearerPattern prev s =
     (if toLowerCase (take 6 s) = ''bearer''
      then let rest = drop 6 s; sp = length (takeWhile isSpace rest);
               tok = length (takeWhile (\<lambda>c. isWord c \<or> c = CHR ''.'' \<or> c = CHR ''-'') (drop sp rest)) in
        if sp > 0 \<and> tok \<ge> 8 then Some (6 + sp + tok) else None
      else None)"

definition assignmentNames :: "string list" where
  "assignmentNames = [''api_key'', ''api-key'', ''apikey'', ''token'', ''secret'', ''password'']"

definition assignmentPattern :: pattern where
  "assignmentPattern prev s =
     (if has isAlnum prev then None
      else case find (\<lambda>n. toLowerCase (take (length n) s) = n \<and> hd_opt (drop (length n) s) = Some (CHR ''='')) assignmentNames of
        None \<Rightarrow> None
      | Some n \<Rightarrow>
          let v = length (takeWhile (\<lambda>c. \<not> isSpace c \<and> c \<noteq> CHR 0x22 \<and> c \<noteq> CHR 0x27) (drop (length n + 1) s)) in
          if v > 0 then Some (length n + 1 + v) else None)"

definition placeholder :: string where
  "placeholder = ''[REDACTED]''"

definition defaultRules :: "Rule list" where
  "defaultRules =
     [\<lparr>rule_id = ''api-key'', rule_pattern = apiKeyPattern, rule_replace = Some ''[REDACTED_API_KEY]''\<rparr>,
      \<lparr>rule_id = ''bearer-token'', rule_pattern = bearerPattern, rule_replace = Some ''Bearer [REDACTED_TOKEN]''\<rparr>,
      \<lparr>rule_id = ''assignment'', rule_pattern = assignmentPattern, rule_replace = None\<rparr>]"

text \<open>\<open>text.replace(pattern, f)\<close> with the global flag: leftmost matches, left to right, not overlapping.\<close>

function replaceAll :: "pattern \<Rightarrow> (string \<Rightarrow> string) \<Rightarrow> char option \<Rightarrow> string \<Rightarrow> string" where
  "replaceAll p f prev [] = []"
| "replaceAll p f prev (c # cs) =
     (case p prev (c # cs) of
        Some (Suc n) \<Rightarrow> f (take (Suc n) (c # cs)) @ replaceAll p f (Some (last (take (Suc n) (c # cs)))) (drop n cs)
      | _ \<Rightarrow> c # replaceAll p f (Some c) cs)"
  by pat_completeness auto
termination by (relation "measure (\<lambda>(p, f, prev, s). length s)") auto

definition substitution :: "Rule \<Rightarrow> string \<Rightarrow> string" where
  "substitution rule m =
     (case rule_replace rule of Some r \<Rightarrow> r
      | None \<Rightarrow> takeWhile (\<lambda>c. c \<noteq> CHR ''='') m @ ''='' @ placeholder)"

definition redactString :: "string \<Rightarrow> Rule list \<Rightarrow> string" where
  "redactString value rules =
     foldl (\<lambda>text rule. replaceAll (rule_pattern rule) (substitution rule) None text) value rules"

section \<open>Sensitive keys and the structural walk\<close>

definition sensitiveKeySuffixes :: "string list" where
  "sensitiveKeySuffixes = [''authorization'', ''cookie'', ''apikey'', ''token'', ''password'', ''secret'']"

definition isSensitiveKey :: "string \<Rightarrow> bool" where
  "isSensitiveKey key =
     (let canonical = filter isAlnum (toLowerCase key) in list_ex (\<lambda>s. suffix s canonical) sensitiveKeySuffixes)"

fun redact :: "Rule list \<Rightarrow> json \<Rightarrow> json" where
  "redact rules (JStr s) = JStr (redactString s rules)"
| "redact rules (JArr xs) = JArr (map (redact rules) xs)"
| "redact rules (JObj fs) =
     JObj (map (\<lambda>(k, v). (k, if isSensitiveKey k then JStr placeholder else redact rules v)) fs)"
| "redact rules v = v"

definition verbatimNamespaces :: "string list" where
  "verbatimNamespaces =
     [''flows.cache.'', ''flows.engine.deferred-completed'', ''flows.engine.clock-scheduled'',
      ''flows.engine.clock-completed'', ''flows.engine.deferred-snapshot'', ''flows.engine.clock-snapshot'',
      ''flows.run.'', ''flows.attempt.'']"

definition isVerbatimEventType :: "string \<Rightarrow> bool" where
  "isVerbatimEventType eventType = list_ex (\<lambda>ns. prefix ns eventType) verbatimNamespaces"

section \<open>What redaction does and does not change\<close>

lemma redactString_nil [simp]: "redactString s [] = s"
  by (simp add: redactString_def)

text \<open>With no textual rule and no sensitive name, the walk is the identity.\<close>

fun plainKeys :: "json \<Rightarrow> bool" where
  "plainKeys (JArr xs) = list_all plainKeys xs"
| "plainKeys (JObj fs) = list_all (\<lambda>(k, v). \<not> isSensitiveKey k \<and> plainKeys v) fs"
| "plainKeys _ = True"

fun strings :: "json \<Rightarrow> string list" where
  "strings (JStr s) = [s]"
| "strings (JArr xs) = concat (map strings xs)"
| "strings (JObj fs) = concat (map (\<lambda>(k, v). strings v) fs)"
| "strings _ = []"

lemma redact_id:
  "plainKeys v \<Longrightarrow> \<forall>s \<in> set (strings v). redactString s rules = s \<Longrightarrow> redact rules v = v"
proof (induction rules v rule: redact.induct)
  case (2 rules xs)
  then show ?case by (auto simp: list_all_iff intro!: map_idI)
next
  case (3 rules fs)
  then show ?case by (auto simp: list_all_iff intro!: map_idI)
qed auto

text \<open>A field with a sensitive name is replaced wholesale, however deep it sits.\<close>

fun reachable :: "json \<Rightarrow> (string \<times> json) set" where
  "reachable (JArr xs) = (\<Union>x \<in> set xs. reachable x)"
| "reachable (JObj fs) = (\<Union>(k, v) \<in> set fs. insert (k, v) (reachable v))"
| "reachable _ = {}"

lemma redact_sensitive:
  "(k, v) \<in> reachable (redact rules x) \<Longrightarrow> isSensitiveKey k \<Longrightarrow> v = JStr placeholder"
proof (induction rules x rule: redact.induct)
  case (2 rules xs)
  then show ?case by auto
next
  case (3 rules fs)
  then show ?case by (fastforce split: if_splits prod.splits)
qed auto

end
