(* ===== verification/GrantCodec.thy ===== *)
theory GrantCodec
  imports GrantStore Redaction
begin

text \<open>
  Grant events as journal payloads (\<^verbatim>\<open>packages/kernel/src/GrantEvent.ts\<close>): the JSON form of the five schema
  classes, the strict decoder, and what the journal's redaction does to an encoded event.
\<close>

section \<open>Encoding\<close>

definition encodeCapability :: "Capability \<Rightarrow> json" where
  "encodeCapability c = JObj [(''action'', JStr (actionText (cap_action c))), (''resource'', JStr (cap_resource c))]"

definition encodePattern :: "CapabilityPattern \<Rightarrow> json" where
  "encodePattern p = JObj [(''action'', JStr (patternActionText (pat_action p))), (''resource'', JStr (pat_resource p))]"

fun eventTypeOf :: "GrantEvent \<Rightarrow> string" where
  "eventTypeOf (OnceGrant _ _ _ _ _ _) = ''flows.kernel.grant.once.v1''"
| "eventTypeOf (RunGrant _ _ _ _ _ _) = ''flows.kernel.grant.run.v1''"
| "eventTypeOf (RememberedGrant _ _ _ _ _ _) = ''flows.kernel.grant.remembered.v1''"
| "eventTypeOf (DeniedGrant _ _ _ _ _ _) = ''flows.kernel.grant.denied.v1''"
| "eventTypeOf (EnvelopeGrant _ _ _ _) = ''flows.kernel.grant.envelope.v1''"

fun tagOf :: "GrantEvent \<Rightarrow> string" where
  "tagOf (OnceGrant _ _ _ _ _ _) = ''@smthrs/kernel/GrantEvent/OnceGrant''"
| "tagOf (RunGrant _ _ _ _ _ _) = ''@smthrs/kernel/GrantEvent/RunGrant''"
| "tagOf (RememberedGrant _ _ _ _ _ _) = ''@smthrs/kernel/GrantEvent/RememberedGrant''"
| "tagOf (DeniedGrant _ _ _ _ _ _) = ''@smthrs/kernel/GrantEvent/DeniedGrant''"
| "tagOf (EnvelopeGrant _ _ _ _) = ''@smthrs/kernel/GrantEvent/EnvelopeGrant''"

definition digestField :: "string option \<Rightarrow> (string \<times> json) list" where
  "digestField d = (case d of None \<Rightarrow> [] | Some t \<Rightarrow> [(''planDigest'', JStr t)])"

definition requestFields :: "string \<Rightarrow> string \<Rightarrow> string option \<Rightarrow> Capability \<Rightarrow> CapabilityPattern \<Rightarrow> string \<Rightarrow> EffectTier \<Rightarrow> (string \<times> json) list" where
  "requestFields requestId run d capability pattern scope tier =
     [(''requestId'', JStr requestId), (''runId'', JStr run)] @ digestField d
     @ [(''capability'', encodeCapability capability), (''pattern'', encodePattern pattern),
        (''scope'', JStr scope), (''tier'', JStr (tierText tier))]"

fun bodyFields :: "GrantEvent \<Rightarrow> (string \<times> json) list" where
  "bodyFields (OnceGrant rid run d c p tier) = requestFields rid run d c p ''once'' tier"
| "bodyFields (RunGrant rid run d c p tier) = requestFields rid run (Some d) c p ''run'' tier"
| "bodyFields (RememberedGrant rid run d c p tier) = requestFields rid run d c p ''remembered'' tier"
| "bodyFields (DeniedGrant rid run d c p tier) = requestFields rid run d c p ''once'' tier"
| "bodyFields (EnvelopeGrant run d ps scope) =
     [(''runId'', JStr run), (''planDigest'', JStr d), (''patterns'', JArr (map encodePattern ps)), (''scope'', JStr scope)]"

definition encodeGrantEvent :: "GrantEvent \<Rightarrow> json" where
  "encodeGrantEvent ev = JObj ((''_tag'', JStr (tagOf ev)) # (''eventType'', JStr (eventTypeOf ev)) # bodyFields ev)"

section \<open>Decoding\<close>

text \<open>A struct decodes when every key is declared (excess keys are an error) and every field decodes.\<close>

definition field :: "string \<Rightarrow> (string \<times> json) list \<Rightarrow> (json \<Rightarrow> 'a option) \<Rightarrow> 'a option" where
  "field k fs dec = (case map_of fs k of None \<Rightarrow> None | Some v \<Rightarrow> dec v)"

definition optionalField :: "string \<Rightarrow> (string \<times> json) list \<Rightarrow> (json \<Rightarrow> 'a option) \<Rightarrow> 'a option option" where
  "optionalField k fs dec = (case map_of fs k of None \<Rightarrow> Some None | Some v \<Rightarrow> map_option Some (dec v))"

definition declared :: "string list \<Rightarrow> (string \<times> json) list \<Rightarrow> bool" where
  "declared ks fs \<longleftrightarrow> list_all (\<lambda>(k, v). k \<in> set ks) fs"

fun str :: "json \<Rightarrow> string option" where
  "str (JStr s) = Some s"
| "str _ = None"

definition literal :: "string \<Rightarrow> json \<Rightarrow> unit option" where
  "literal t v = (if v = JStr t then Some () else None)"

definition patternActions :: "PatternAction list" where
  "patternActions = map Exactly actions @ [FsAny, NetAny, ModelAny, ProcAny, JjAny, AnyAction]"

definition decodeCapability :: "json \<Rightarrow> Capability option" where
  "decodeCapability v = (case v of
      JObj fs \<Rightarrow>
        if \<not> declared [''action'', ''resource''] fs then None
        else Option.bind (field ''action'' fs (\<lambda>a. find (\<lambda>x. a = JStr (actionText x)) actions)) (\<lambda>a.
             Option.bind (field ''resource'' fs str) (\<lambda>r. Some \<lparr>cap_action = a, cap_resource = r\<rparr>))
    | _ \<Rightarrow> None)"

definition decodePattern :: "json \<Rightarrow> CapabilityPattern option" where
  "decodePattern v = (case v of
      JObj fs \<Rightarrow>
        if \<not> declared [''action'', ''resource''] fs then None
        else Option.bind (field ''action'' fs (\<lambda>a. find (\<lambda>x. a = JStr (patternActionText x)) patternActions)) (\<lambda>a.
             Option.bind (field ''resource'' fs str) (\<lambda>r. Some \<lparr>pat_action = a, pat_resource = r\<rparr>))
    | _ \<Rightarrow> None)"

fun all_some :: "'a option list \<Rightarrow> 'a list option" where
  "all_some [] = Some []"
| "all_some (None # _) = None"
| "all_some (Some x # xs) = map_option ((#) x) (all_some xs)"

definition decodePatterns :: "json \<Rightarrow> CapabilityPattern list option" where
  "decodePatterns v = (case v of JArr vs \<Rightarrow> all_some (map decodePattern vs) | _ \<Rightarrow> None)"

definition decodeTier :: "json \<Rightarrow> EffectTier option" where
  "decodeTier v = find (\<lambda>t. v = JStr (tierText t)) [Sealed, Compensable, Irreversible]"

definition requestKeys :: "string list" where
  "requestKeys = [''_tag'', ''eventType'', ''requestId'', ''runId'', ''planDigest'', ''capability'', ''pattern'', ''scope'', ''tier'']"

definition decodeRequest :: "(string \<times> json) list \<Rightarrow> string \<Rightarrow> string \<Rightarrow> string
    \<Rightarrow> (string \<times> string \<times> string option \<times> Capability \<times> CapabilityPattern \<times> EffectTier) option" where
  "decodeRequest fs tag type scope =
     (if \<not> declared requestKeys fs then None
      else Option.bind (field ''_tag'' fs (literal tag)) (\<lambda>_.
           Option.bind (field ''eventType'' fs (literal type)) (\<lambda>_.
           Option.bind (field ''requestId'' fs str) (\<lambda>rid.
           Option.bind (field ''runId'' fs str) (\<lambda>run.
           Option.bind (optionalField ''planDigest'' fs str) (\<lambda>d.
           Option.bind (field ''capability'' fs decodeCapability) (\<lambda>c.
           Option.bind (field ''pattern'' fs decodePattern) (\<lambda>p.
           Option.bind (field ''scope'' fs (literal scope)) (\<lambda>_.
           Option.bind (field ''tier'' fs decodeTier) (\<lambda>t. Some (rid, run, d, c, p, t)))))))))))"

definition decodeOnce :: "(string \<times> json) list \<Rightarrow> GrantEvent option" where
  "decodeOnce fs = map_option (\<lambda>(rid, run, d, c, p, t). OnceGrant rid run d c p t)
     (decodeRequest fs ''@smthrs/kernel/GrantEvent/OnceGrant'' ''flows.kernel.grant.once.v1'' ''once'')"

definition decodeRemembered :: "(string \<times> json) list \<Rightarrow> GrantEvent option" where
  "decodeRemembered fs = map_option (\<lambda>(rid, run, d, c, p, t). RememberedGrant rid run d c p t)
     (decodeRequest fs ''@smthrs/kernel/GrantEvent/RememberedGrant'' ''flows.kernel.grant.remembered.v1'' ''remembered'')"

definition decodeDenied :: "(string \<times> json) list \<Rightarrow> GrantEvent option" where
  "decodeDenied fs = map_option (\<lambda>(rid, run, d, c, p, t). DeniedGrant rid run d c p t)
     (decodeRequest fs ''@smthrs/kernel/GrantEvent/DeniedGrant'' ''flows.kernel.grant.denied.v1'' ''once'')"

definition decodeRun :: "(string \<times> json) list \<Rightarrow> GrantEvent option" where
  "decodeRun fs = Option.bind
     (decodeRequest fs ''@smthrs/kernel/GrantEvent/RunGrant'' ''flows.kernel.grant.run.v1'' ''run'')
     (\<lambda>(rid, run, d, c, p, t). map_option (\<lambda>digest. RunGrant rid run digest c p t) d)"

definition decodeEnvelope :: "(string \<times> json) list \<Rightarrow> GrantEvent option" where
  "decodeEnvelope fs =
     (if \<not> declared [''_tag'', ''eventType'', ''runId'', ''planDigest'', ''patterns'', ''scope''] fs then None
      else Option.bind (field ''_tag'' fs (literal ''@smthrs/kernel/GrantEvent/EnvelopeGrant'')) (\<lambda>_.
           Option.bind (field ''eventType'' fs (literal ''flows.kernel.grant.envelope.v1'')) (\<lambda>_.
           Option.bind (field ''runId'' fs str) (\<lambda>run.
           Option.bind (field ''planDigest'' fs str) (\<lambda>d.
           Option.bind (field ''patterns'' fs decodePatterns) (\<lambda>ps.
           Option.bind (field ''scope'' fs (\<lambda>v. find (\<lambda>t. v = JStr t) [''run'', ''remembered''])) (\<lambda>scope.
           Some (EnvelopeGrant run d ps scope))))))))"

text \<open>The union takes the first member that decodes.\<close>

definition decodeGrantEvent :: "json \<Rightarrow> GrantEvent option" where
  "decodeGrantEvent v = (case v of
      JObj fs \<Rightarrow> (case filter (\<lambda>x. x \<noteq> None) [decodeOnce fs, decodeRemembered fs, decodeDenied fs, decodeEnvelope fs, decodeRun fs] of
          [] \<Rightarrow> None | x # _ \<Rightarrow> x)
    | _ \<Rightarrow> None)"

section \<open>Round trip\<close>

lemma find_patternAction: "find ((=) a) patternActions = Some a"
proof (cases a)
  case (Exactly b)
  then show ?thesis by (cases b) (simp_all add: patternActions_def actions_def)
qed (simp_all add: patternActions_def actions_def)

lemma find_actionText: "find ((=) a) actions = Some a"
  by (cases a) (simp_all add: actions_def)

lemma decodeCapability_encode [simp]: "decodeCapability (encodeCapability c) = Some c"
  by (simp add: decodeCapability_def encodeCapability_def declared_def field_def find_actionText)

lemma decodePattern_encode [simp]: "decodePattern (encodePattern p) = Some p"
  by (simp add: decodePattern_def encodePattern_def declared_def field_def find_patternAction)

lemma decodePatterns_encode [simp]: "decodePatterns (JArr (map encodePattern ps)) = Some ps"
  by (induction ps) (simp_all add: decodePatterns_def)

lemma decodeTier_encode [simp]: "decodeTier (JStr (tierText t)) = Some t"
  by (cases t) (simp_all add: decodeTier_def)

definition tagged :: "string \<Rightarrow> string \<Rightarrow> (string \<times> json) list \<Rightarrow> (string \<times> json) list" where
  "tagged tag type body = (''_tag'', JStr tag) # (''eventType'', JStr type) # body"

lemma decodeRequest_encode:
  "decodeRequest (tagged tag type (requestFields rid run d c p scope tier)) tag' type' scope' =
     (if tag' = tag \<and> type' = type \<and> scope' = scope then Some (rid, run, d, c, p, tier) else None)"
  by (cases d) (simp_all add: decodeRequest_def tagged_def requestFields_def digestField_def declared_def requestKeys_def
      field_def optionalField_def literal_def)

lemma decodeRequest_envelope: "decodeRequest (tagged tag type (bodyFields (EnvelopeGrant run d ps scope))) tag' type' scope' = None"
  by (simp add: decodeRequest_def tagged_def declared_def requestKeys_def)

lemma decodeEnvelope_request: "decodeEnvelope (tagged tag type (requestFields rid run d c p scope tier)) = None"
  by (simp add: decodeEnvelope_def tagged_def requestFields_def declared_def)

lemma decodeEnvelope_encode:
  "decodeEnvelope (tagged ''@smthrs/kernel/GrantEvent/EnvelopeGrant'' ''flows.kernel.grant.envelope.v1'' (bodyFields (EnvelopeGrant run d ps scope)))
     = (if isEnvelopeScope scope then Some (EnvelopeGrant run d ps scope) else None)"
  by (simp add: decodeEnvelope_def tagged_def declared_def field_def literal_def isEnvelopeScope_def)

fun scopeOk :: "GrantEvent \<Rightarrow> bool" where
  "scopeOk (EnvelopeGrant _ _ _ scope) = isEnvelopeScope scope"
| "scopeOk _ = True"

lemmas decode_defs = decodeGrantEvent_def encodeGrantEvent_def tagged_def [symmetric] decodeOnce_def decodeRemembered_def
  decodeDenied_def decodeRun_def

theorem decode_encode: "decodeGrantEvent (encodeGrantEvent ev) = (if scopeOk ev then Some ev else None)"
proof (cases ev)
  case (EnvelopeGrant run d ps scope)
  then show ?thesis by (simp add: decode_defs decodeRequest_envelope decodeEnvelope_encode del: bodyFields.simps)
qed (simp_all add: decode_defs decodeRequest_encode decodeEnvelope_request)

section \<open>What redaction does to an event\<close>

definition scrubCapability :: "Rule list \<Rightarrow> Capability \<Rightarrow> Capability" where
  "scrubCapability rules c = c\<lparr>cap_resource := redactString (cap_resource c) rules\<rparr>"

definition scrubPattern :: "Rule list \<Rightarrow> CapabilityPattern \<Rightarrow> CapabilityPattern" where
  "scrubPattern rules p = p\<lparr>pat_resource := redactString (pat_resource p) rules\<rparr>"

fun scrubEvent :: "Rule list \<Rightarrow> GrantEvent \<Rightarrow> GrantEvent" where
  "scrubEvent rules (OnceGrant rid run d c p t) =
     OnceGrant (redactString rid rules) (redactString run rules) (map_option (\<lambda>x. redactString x rules) d) (scrubCapability rules c) (scrubPattern rules p) t"
| "scrubEvent rules (RunGrant rid run d c p t) =
     RunGrant (redactString rid rules) (redactString run rules) (redactString d rules) (scrubCapability rules c) (scrubPattern rules p) t"
| "scrubEvent rules (RememberedGrant rid run d c p t) =
     RememberedGrant (redactString rid rules) (redactString run rules) (map_option (\<lambda>x. redactString x rules) d) (scrubCapability rules c) (scrubPattern rules p) t"
| "scrubEvent rules (DeniedGrant rid run d c p t) =
     DeniedGrant (redactString rid rules) (redactString run rules) (map_option (\<lambda>x. redactString x rules) d) (scrubCapability rules c) (scrubPattern rules p) t"
| "scrubEvent rules (EnvelopeGrant run d ps scope) =
     EnvelopeGrant (redactString run rules) (redactString d rules) (map (scrubPattern rules) ps) scope"

text \<open>The constant texts of the codec, which the rules in force must leave alone.\<close>

definition codecTexts :: "string list" where
  "codecTexts = map patternActionText patternActions @ map tierText [Sealed, Compensable, Irreversible]
     @ [''once'', ''run'', ''remembered''] 
     @ [''@smthrs/kernel/GrantEvent/OnceGrant'', ''@smthrs/kernel/GrantEvent/RunGrant'', ''@smthrs/kernel/GrantEvent/RememberedGrant'',
        ''@smthrs/kernel/GrantEvent/DeniedGrant'', ''@smthrs/kernel/GrantEvent/EnvelopeGrant'', ''flows.kernel.grant.once.v1'',
        ''flows.kernel.grant.run.v1'', ''flows.kernel.grant.remembered.v1'', ''flows.kernel.grant.denied.v1'', ''flows.kernel.grant.envelope.v1'']"

definition codecPlain :: "Rule list \<Rightarrow> bool" where
  "codecPlain rules \<longleftrightarrow> list_all (\<lambda>t. redactString t rules = t) codecTexts"

text \<open>A text without an assignment, a key prefix or the word bearer is left alone by the default rules.\<close>

fun quiet :: "string \<Rightarrow> bool" where
  "quiet [] = True"
| "quiet (c # cs) = (c \<noteq> CHR ''='' \<and> \<not> (take 2 (c # cs) \<in> {''sk'', ''pk''} \<and> take 1 (drop 1 cs) \<in> {''-'', ''_''})
     \<and> \<not> (c \<in> {CHR ''b'', CHR ''B''} \<and> take 2 cs \<in> {''ea'', ''eA'', ''Ea'', ''EA''}) \<and> quiet cs)"

lemma lower_eq:
  assumes "lower c = x"
  shows "c = x \<or> (of_char c :: nat) + 32 = of_char x"
proof (cases "65 \<le> (of_char c :: nat) \<and> (of_char c :: nat) \<le> 90")
  case True
  then have "x = char_of ((of_char c :: nat) + 32)" using assms by (simp add: lower_def)
  then have "(of_char x :: nat) = (of_char c + 32) mod 256" by simp
  with True show ?thesis by simp
qed (use assms in \<open>auto simp: lower_def\<close>)

lemma lower_cases:
  "lower c = CHR ''b'' \<Longrightarrow> c \<in> {CHR ''b'', CHR ''B''}" "lower c = CHR ''e'' \<Longrightarrow> c \<in> {CHR ''e'', CHR ''E''}"
  "lower c = CHR ''a'' \<Longrightarrow> c \<in> {CHR ''a'', CHR ''A''}"
proof -
  have eq: "c = d" if "(of_char c :: nat) = of_char d" for d using that by (metis of_char_eq_iff)
  show "lower c = CHR ''b'' \<Longrightarrow> c \<in> {CHR ''b'', CHR ''B''}" "lower c = CHR ''e'' \<Longrightarrow> c \<in> {CHR ''e'', CHR ''E''}"
    "lower c = CHR ''a'' \<Longrightarrow> c \<in> {CHR ''a'', CHR ''A''}"
    using eq [of "CHR ''B''"] eq [of "CHR ''E''"] eq [of "CHR ''A''"] by (auto dest!: lower_eq)
qed

lemma quiet_drop: "quiet (a @ b) \<Longrightarrow> quiet b"
  by (induction a) auto

lemma quiet_patterns:
  assumes "quiet t"
  shows "apiKeyPattern prev t = None" "bearerPattern prev t = None" "assignmentPattern prev t = None"
proof -
  show "apiKeyPattern prev t = None"
  proof (rule ccontr)
    assume "apiKeyPattern prev t \<noteq> None"
    then have k: "take 2 t = ''sk'' \<or> take 2 t = ''pk''" "length t > 3" "t ! 2 = CHR ''-'' \<or> t ! 2 = CHR ''_''"
      by (auto simp: apiKeyPattern_def split: if_splits)
    then obtain a b c d where "t = a # b # c # d" 
      by (cases t; cases "tl t"; cases "tl (tl t)") auto
    with k assms show False by auto
  qed
  show "bearerPattern prev t = None"
  proof (rule ccontr)
    assume "bearerPattern prev t \<noteq> None"
    then have "toLowerCase (take 6 t) = ''bearer''" by (auto simp: bearerPattern_def split: if_splits)
    then obtain a b c d where t: "t = a # b # c # d" "lower a = CHR ''b''" "lower b = CHR ''e''" "lower c = CHR ''a''"
      by (cases t; cases "tl t"; cases "tl (tl t)") (auto simp: toLowerCase_def)
    from lower_cases(1) [OF t(2)] lower_cases(2) [OF t(3)] lower_cases(3) [OF t(4)] t(1) assms show False by auto
  qed
  have eq: "CHR ''='' \<notin> set u" if "quiet u" for u using that by (induction u) auto
  show "assignmentPattern prev t = None"
  proof (rule ccontr)
    assume "assignmentPattern prev t \<noteq> None"
    then obtain n where "hd_opt (drop n t) = Some (CHR ''='')"
      by (auto simp: assignmentPattern_def find_Some_iff split: if_splits option.splits)
    then have "CHR ''='' \<in> set (drop n t)" by (auto simp: hd_opt_def split: list.splits)
    then show False using eq [OF assms] by (meson in_set_dropD)
  qed
qed

lemma replaceAll_same: "(\<And>prev a b. s = a @ b \<Longrightarrow> p prev b = None) \<Longrightarrow> replaceAll p f prev s = s"
proof (induction s arbitrary: prev)
  case (Cons c cs)
  have "p prev (c # cs) = None" using Cons.prems [of "[]"] by simp
  moreover have "replaceAll p f (Some c) cs = cs" by (rule Cons.IH) (use Cons.prems [of "c # _"] in simp)
  ultimately show ?case by simp
qed simp

lemma quiet_redact:
  assumes "quiet t"
  shows "redactString t defaultRules = t"
proof -
  have q: "quiet b" if "t = a @ b" for a b using assms that quiet_drop by blast
  have "replaceAll apiKeyPattern f prev t = t" "replaceAll bearerPattern f prev t = t" "replaceAll assignmentPattern f prev t = t" for f prev
    by (rule replaceAll_same; rule quiet_patterns, rule q, assumption)+
  then show ?thesis by (simp add: redactString_def defaultRules_def)
qed

lemma codecPlain_default: "codecPlain defaultRules"
proof -
  have "list_all quiet codecTexts" by (simp add: codecTexts_def patternActions_def actions_def)
  then show ?thesis using quiet_redact by (simp add: codecPlain_def list_all_iff)
qed

lemma codecPlain_text: "codecPlain rules \<Longrightarrow> t \<in> set codecTexts \<Longrightarrow> redactString t rules = t"
  by (simp add: codecPlain_def list_all_iff)

lemma patternAction_text: "patternActionText a \<in> set codecTexts" "actionText b \<in> set codecTexts"
proof -
  have all: "x \<in> set patternActions" for x using find_patternAction [of x] by (metis find_Some_iff2 nth_mem)
  show "patternActionText a \<in> set codecTexts" "actionText b \<in> set codecTexts"
    using all [of a] all [of "Exactly b"] by (force simp: codecTexts_def)+
qed

lemma plainKey [simp]:
  "\<not> isSensitiveKey ''_tag''" "\<not> isSensitiveKey ''eventType''" "\<not> isSensitiveKey ''requestId''" "\<not> isSensitiveKey ''runId''"
  "\<not> isSensitiveKey ''planDigest''" "\<not> isSensitiveKey ''capability''" "\<not> isSensitiveKey ''pattern''" "\<not> isSensitiveKey ''scope''"
  "\<not> isSensitiveKey ''tier''" "\<not> isSensitiveKey ''patterns''" "\<not> isSensitiveKey ''action''" "\<not> isSensitiveKey ''resource''"
  by code_simp+

lemma redact_parts:
  assumes "codecPlain rules"
  shows "redact rules (encodeCapability c) = encodeCapability (scrubCapability rules c)"
    "redact rules (encodePattern p) = encodePattern (scrubPattern rules p)"
  using codecPlain_text [OF assms patternAction_text(1)] codecPlain_text [OF assms patternAction_text(2)]
  by (simp_all add: encodeCapability_def encodePattern_def scrubCapability_def scrubPattern_def)

theorem redact_encode:
  assumes "codecPlain rules" "scopeOk ev"
  shows "redact rules (encodeGrantEvent ev) = encodeGrantEvent (scrubEvent rules ev)"
proof -
  note unchanged = codecPlain_text [OF assms(1)]
  have tier: "redactString (tierText t) rules = tierText t" for t by (cases t; rule unchanged) (simp_all add: codecTexts_def)
  have plain: "redactString (tagOf ev) rules = tagOf ev" "redactString (eventTypeOf ev) rules = eventTypeOf ev"
    "redactString ''once'' rules = ''once''" "redactString ''run'' rules = ''run''" "redactString ''remembered'' rules = ''remembered''"
    by (cases ev; rule unchanged; simp add: codecTexts_def)+
  have same: "tagOf (scrubEvent rules ev) = tagOf ev" "eventTypeOf (scrubEvent rules ev) = eventTypeOf ev" by (cases ev; simp)+
  have "map (\<lambda>(k, v). (k, if isSensitiveKey k then JStr placeholder else redact rules v)) (bodyFields ev) = bodyFields (scrubEvent rules ev)"
  proof (cases ev)
    case (EnvelopeGrant run d ps scope)
    then have "scope = ''run'' \<or> scope = ''remembered''" using assms(2) by (simp add: isEnvelopeScope_def)
    then show ?thesis using EnvelopeGrant plain(4,5) by (auto simp: redact_parts [OF assms(1)])
  qed (simp_all add: requestFields_def digestField_def tier plain redact_parts [OF assms(1)] split: option.splits)
  then show ?thesis by (simp add: encodeGrantEvent_def same plain)
qed

end
