(* ===== verification/GrantLog.thy ===== *)
theory GrantLog
  imports GrantStore
begin

text \<open>
  The interface between the grant store and the log its hook writes: the calls of a history, the event each call
  offers to the hook, and, for any hook that appends to a log, that the store's rules and the log grow by the
  same patterns.
\<close>

section \<open>Histories of calls\<close>

datatype GrantCall =
    CallCheck CapabilitySet Capability json
  | CallEndWait string
  | CallReply string string "CapabilityPattern option"
  | CallEnvelope EnvelopeGrantOptions
  | CallClose

fun perform :: "'p MakeOptions \<Rightarrow> GrantCall \<Rightarrow> 'p grants \<Rightarrow> 'p grants" where
  "perform opts (CallCheck ceiling c meta) s = snd (check opts ceiling c meta s)"
| "perform opts (CallEndWait rid) s = snd (endWait rid s)"
| "perform opts (CallReply rid resolution p) s = snd (reply opts rid resolution p s)"
| "perform opts (CallEnvelope env) s = snd (grantEnvelope opts env s)"
| "perform opts CallClose s = closeStore s"

definition performs :: "'p MakeOptions \<Rightarrow> GrantCall list \<Rightarrow> 'p grants \<Rightarrow> 'p grants" where
  "performs opts calls s = foldl (\<lambda>s call. perform opts call s) s calls"

lemma performs_simps [simp]:
  "performs opts [] s = s" "performs opts (call # calls) s = performs opts calls (perform opts call s)"
  by (simp_all add: performs_def)

lemma perform_step: "grant_step opts s (perform opts call s)"
proof (cases call)
  case (CallCheck ceiling c meta)
  then show ?thesis by (metis perform.simps(1) g_check prod.collapse)
next
  case (CallEndWait rid)
  then show ?thesis by (metis perform.simps(2) g_endWait prod.collapse)
next
  case (CallReply rid resolution p)
  then show ?thesis by (metis perform.simps(3) g_reply prod.collapse)
next
  case (CallEnvelope env)
  then show ?thesis by (metis perform.simps(4) g_envelope prod.collapse)
qed (simp add: g_close)

lemma performs_steps: "(grant_step opts)\<^sup>*\<^sup>* s (performs opts calls s)"
proof (induction calls arbitrary: s)
  case (Cons call calls)
  have "(grant_step opts)\<^sup>*\<^sup>* s (performs opts calls (perform opts call s))"
    by (rule converse_rtranclp_into_rtranclp [OF perform_step Cons.IH])
  then show ?case by simp
qed simp

text \<open>The event a call asks the hook to make durable, if it gets that far.\<close>

fun eventOf :: "'p MakeOptions \<Rightarrow> GrantCall \<Rightarrow> 'p grants \<Rightarrow> GrantEvent option" where
  "eventOf opts (CallReply rid resolution supplied) s =
     (case find (\<lambda>e. pe_requestId e = rid) (pending s) of
        None \<Rightarrow> None
      | Some e \<Rightarrow>
          let c = pe_capability e; tier = pe_tier e; run = runIdOf opts in
          if resolution = ''once'' then Some (OnceGrant rid run (mo_planDigest opts) c (exactPattern c) tier)
          else if resolution = ''run''
          then map_option (\<lambda>d. RunGrant rid run d c (replyPattern ''run'' supplied e) tier) (mo_planDigest opts)
          else if resolution = ''remembered''
          then Some (RememberedGrant rid run (mo_planDigest opts) c (replyPattern ''remembered'' supplied e) tier)
          else Some (DeniedGrant rid run (mo_planDigest opts) c (exactPattern c) tier))"
| "eventOf opts (CallEnvelope env) s =
     Some (EnvelopeGrant (runIdOf opts) (eg_planDigest env) (canonicalEnvelopePatterns (eg_patterns env)) (scopeOf (eg_scope env)))"
| "eventOf opts _ s = None"

fun offered :: "'p MakeOptions \<Rightarrow> GrantCall list \<Rightarrow> 'p grants \<Rightarrow> GrantEvent list" where
  "offered opts [] s = []"
| "offered opts (call # calls) s =
     (case eventOf opts call s of None \<Rightarrow> [] | Some ev \<Rightarrow> [ev]) @ offered opts calls (perform opts call s)"

section \<open>What an event grants\<close>

fun rememberedPatterns :: "GrantEvent \<Rightarrow> CapabilityPattern set" where
  "rememberedPatterns (RememberedGrant _ _ _ _ p _) = {p}"
| "rememberedPatterns (EnvelopeGrant _ _ ps scope) = (if scope = ''remembered'' then set ps else {})"
| "rememberedPatterns _ = {}"

fun runPatterns :: "GrantEvent \<Rightarrow> CapabilityPattern set" where
  "runPatterns (RunGrant _ _ _ _ p _) = {p}"
| "runPatterns (EnvelopeGrant _ _ ps scope) = (if scope = ''remembered'' then {} else set ps)"
| "runPatterns _ = {}"

fun validEvent :: "'p MakeOptions \<Rightarrow> GrantEvent \<Rightarrow> bool" where
  "validEvent opts (RunGrant _ run d c p tier) \<longleftrightarrow>
     run = runIdOf opts \<and> mo_planDigest opts = Some d \<and> isValidGrantPattern p c tier (mo_workspaceRoot opts)"
| "validEvent opts (RememberedGrant _ run _ c p tier) \<longleftrightarrow> isValidGrantPattern p c tier (mo_workspaceRoot opts)"
| "validEvent opts (EnvelopeGrant run d ps scope) \<longleftrightarrow> run = runIdOf opts \<and> mo_planDigest opts = Some d
     \<and> isEnvelopeScope scope \<and> (\<forall>p \<in> set ps. isValidEnvelopePattern p (mo_workspaceRoot opts))"
| "validEvent opts (OnceGrant _ run _ _ _ _) \<longleftrightarrow> run = runIdOf opts"
| "validEvent opts (DeniedGrant _ run _ _ _ _) \<longleftrightarrow> run = runIdOf opts"

abbreviation rememberedOf :: "'p grants \<Rightarrow> PermissionRule set" where
  "rememberedOf s \<equiv> set (rememberedRules s)"

abbreviation runOf :: "'p grants \<Rightarrow> PermissionRule set" where
  "runOf s \<equiv> set (envelopeRules s) \<union> fst ` set (runRules s)"

definition quietStep :: "'p MakeOptions \<Rightarrow> 'p grants \<Rightarrow> 'p grants \<Rightarrow> bool" where
  "quietStep opts s s' \<longleftrightarrow> hookSide opts s s' \<and> rememberedOf s' = rememberedOf s \<and> runOf s' = runOf s"

definition loudStep :: "'p MakeOptions \<Rightarrow> 'p grants \<Rightarrow> GrantEvent \<Rightarrow> 'p grants \<Rightarrow> bool" where
  "loudStep opts s ev s' \<longleftrightarrow> evidenced opts s s' ev \<and> validEvent opts ev
     \<and> rememberedOf s' = rememberedOf s \<union> allowRule ` rememberedPatterns ev
     \<and> runOf s' = runOf s \<union> allowRule ` runPatterns ev"

lemma resolveCovered_rules:
  assumes "requestsOk s"
  shows "rememberedOf (resolveCovered s) = rememberedOf s" "runOf (resolveCovered s) = runOf s" "persisted (resolveCovered s) = persisted s"
  using resolveCovered_spec(1) [OF assms] by (auto simp: sameRules_def)

lemma untouched_quiet: "untouched s s' \<Longrightarrow> hookSide opts s s' \<Longrightarrow> quietStep opts s s'"
  by (auto simp: untouched_def quietStep_def)

text \<open>Only a call whose event the hook accepted changes the rules, and it adds exactly the patterns of that event.\<close>

theorem perform_shape:
  assumes "requestsOk s"
  shows "quietStep opts s (perform opts call s) \<or> (\<exists>ev. eventOf opts call s = Some ev \<and> loudStep opts s ev (perform opts call s))"
proof (cases call)
  case (CallCheck ceiling c meta)
  obtain x s' where r: "check opts ceiling c meta s = (x, s')" by (rule prod.exhaust)
  have "persisted s' = persisted s" using r
    by (auto simp: check_def Let_def split: if_splits RuleEffect.splits)
  with r have "quietStep opts s s'"
    by (elim check_cases) (auto simp: quietStep_def hookSide_def untouched_def)
  then show ?thesis using CallCheck r by simp
next
  case (CallEndWait rid)
  then show ?thesis by (simp add: quietStep_def hookSide_def endWait_def)
next
  case (CallReply rid resolution supplied)
  obtain z s' where r: "reply opts rid resolution supplied s = (z, s')" by (rule prod.exhaust)
  have uniq: "find (\<lambda>e. pe_requestId e = pe_requestId x) (pending s) = Some x" if "x \<in> set (pending s)" for x
    using assms that by (auto simp: requestsOk_def find_Some_iff distinct_conv_nth in_set_conv_nth)
  from r have "quietStep opts s s' \<or> (\<exists>ev. eventOf opts call s = Some ev \<and> loudStep opts s ev s')"
  proof (cases rule: reply_cases)
    case failed
    then show ?thesis using untouched_quiet by blast
  next
    case (once e p)
    then have "loudStep opts s (OnceGrant rid (runIdOf opts) (mo_planDigest opts) (pe_capability e) (exactPattern (pe_capability e)) (pe_tier e)) s'"
      by (simp add: loudStep_def evidenced_def)
    then show ?thesis using once uniq [OF once(3)] CallReply by (auto simp: Let_def)
  next
    case (run e d pat p)
    let ?t = "s\<lparr>persisted := p, runRules := runRules s @ [(allowRule pat, pe_ceiling e)]\<rparr>"
    have t: "requestsOk ?t" using assms by simp
    have "loudStep opts s (RunGrant rid (runIdOf opts) d (pe_capability e) pat (pe_tier e)) s'"
      using run resolveCovered_rules [OF t] by (auto simp: loudStep_def evidenced_def)
    then show ?thesis using run uniq [OF run(3)] CallReply by (auto simp: Let_def)
  next
    case (remembered e pat p)
    let ?t = "s\<lparr>persisted := p, rememberedRules := rememberedRules s @ [allowRule pat]\<rparr>"
    have t: "requestsOk ?t" using assms by simp
    have "loudStep opts s (RememberedGrant rid (runIdOf opts) (mo_planDigest opts) (pe_capability e) pat (pe_tier e)) s'"
      using remembered resolveCovered_rules [OF t] by (auto simp: loudStep_def evidenced_def)
    then show ?thesis using remembered uniq [OF remembered(3)] CallReply by (auto simp: Let_def)
  next
    case (denied e p)
    then have "loudStep opts s (DeniedGrant rid (runIdOf opts) (mo_planDigest opts) (pe_capability e) (exactPattern (pe_capability e)) (pe_tier e)) s'"
      by (simp add: loudStep_def evidenced_def)
    then show ?thesis using denied uniq [OF denied(3)] CallReply by (auto simp: Let_def)
  qed
  then show ?thesis using CallReply r by simp
next
  case (CallEnvelope env)
  obtain z s' where r: "grantEnvelope opts env s = (z, s')" by (rule prod.exhaust)
  from r have "quietStep opts s s' \<or> (\<exists>ev. eventOf opts call s = Some ev \<and> loudStep opts s ev s')"
  proof (cases rule: grantEnvelope_cases)
    case failed
    then show ?thesis using untouched_quiet by blast
  next
    case same
    then show ?thesis by (simp add: quietStep_def)
  next
    case (granted p scope ps sg)
    let ?t = "activateEnvelope scope ps (s\<lparr>persisted := p, grantedEnvelopes := insert sg (grantedEnvelopes s)\<rparr>)"
    have t: "requestsOk ?t" using assms by simp
    have "loudStep opts s (EnvelopeGrant (runIdOf opts) (eg_planDigest env) ps scope) s'"
      using granted resolveCovered_rules [OF t] by (auto simp: loudStep_def evidenced_def activateEnvelope_def)
    then show ?thesis using granted CallEnvelope by simp
  qed
  then show ?thesis using CallEnvelope r by simp
next
  case CallClose
  note f = close_fold [of "\<lambda>e. Inl (PermissionDenied (pe_capability e) ''grant store closed'')" "s\<lparr>closed := True, pending := []\<rparr>" "pending s",
    folded closeStore_def, unfolded Let_def]
  then have "sameRules (s\<lparr>closed := True, pending := []\<rparr>) (closeStore s)" by (simp add: closeStore_def)
  then show ?thesis using CallClose by (simp add: quietStep_def hookSide_def sameRules_def)
qed

section \<open>A hook that writes a log\<close>

text \<open>
  The contract of the hook: an accepted event is in the log afterwards, as the log stores it (\<open>scrub\<close>); a refused one
  leaves the log as it was.
\<close>

locale grant_log =
  fixes hook :: "'p persist"
    and good :: "'p \<Rightarrow> bool"
    and recorded :: "'p \<Rightarrow> GrantEvent set"
    and scrub :: "GrantEvent \<Rightarrow> GrantEvent"
    and storable :: "GrantEvent \<Rightarrow> bool"
  assumes hook_ok: "good p \<Longrightarrow> storable ev \<Longrightarrow> hook ev p = (Inr (), p') \<Longrightarrow> good p' \<and> recorded p' = insert (scrub ev) (recorded p)"
    and hook_failed: "good p \<Longrightarrow> hook ev p = (Inl x, p') \<Longrightarrow> good p' \<and> recorded p' = recorded p"
begin

text \<open>A store whose rules are those it was made with and those its log grants.\<close>

definition logged :: "'p MakeOptions \<Rightarrow> PermissionRule set \<Rightarrow> PermissionRule set \<Rightarrow> 'p grants \<Rightarrow> bool" where
  "logged opts base baseRun s \<longleftrightarrow> good (persisted s)
     \<and> rememberedOf s = base \<union> allowRule ` \<Union> (rememberedPatterns ` recorded (persisted s))
     \<and> runOf s = baseRun \<union> allowRule ` \<Union> (runPatterns ` recorded (persisted s))"

lemma perform_logged:
  assumes "logged opts base baseRun s" "requestsOk s" "mo_persist opts = hook"
    and "\<And>ev. eventOf opts call s = Some ev \<Longrightarrow> validEvent opts ev \<Longrightarrow> storable ev \<and> scrub ev = ev"
  shows "logged opts base baseRun (perform opts call s)"
    "\<exists>E. (\<forall>ev \<in> E. validEvent opts ev) \<and> recorded (persisted (perform opts call s)) = recorded (persisted s) \<union> E"
proof -
  let ?s = "perform opts call s"
  have "logged opts base baseRun ?s
    \<and> (\<exists>E. (\<forall>ev \<in> E. validEvent opts ev) \<and> recorded (persisted ?s) = recorded (persisted s) \<union> E)"
    using perform_shape [OF assms(2), of opts call]
  proof (elim disjE exE conjE)
    assume q: "quietStep opts s ?s"
    then have "good (persisted ?s) \<and> recorded (persisted ?s) = recorded (persisted s)"
      using assms(1,3) hook_failed by (auto simp: quietStep_def hookSide_def logged_def)
    then show ?thesis using q assms(1) by (auto simp: logged_def quietStep_def)
  next
    fix ev assume e: "eventOf opts call s = Some ev" "loudStep opts s ev ?s"
    then have v: "validEvent opts ev" by (simp add: loudStep_def)
    have "good (persisted ?s) \<and> recorded (persisted ?s) = insert ev (recorded (persisted s))"
      using e assms(1,3) assms(4) [OF e(1) v] hook_ok by (auto simp: loudStep_def evidenced_def logged_def)
    then show ?thesis using e(2) assms(1) v by (auto simp: logged_def loudStep_def)
  qed
  then show "logged opts base baseRun ?s"
    "\<exists>E. (\<forall>ev \<in> E. validEvent opts ev) \<and> recorded (persisted ?s) = recorded (persisted s) \<union> E" by blast+
qed

theorem performs_logged:
  assumes "logged opts base baseRun s" "storeOk opts s" "mo_persist opts = hook" "\<not> hasResourceWildcard (mo_workspaceRoot opts)"
    and "\<forall>ev \<in> set (offered opts calls s). validEvent opts ev \<longrightarrow> storable ev \<and> scrub ev = ev"
  shows "logged opts base baseRun (performs opts calls s)
    \<and> (\<exists>E. (\<forall>ev \<in> E. validEvent opts ev) \<and> recorded (persisted (performs opts calls s)) = recorded (persisted s) \<union> E)"
  using assms
proof (induction calls arbitrary: s)
  case Nil
  then show ?case by (auto intro: exI [of _ "{}"])
next
  case (Cons call calls)
  let ?s = "perform opts call s"
  have r: "requestsOk s" using Cons.prems(2) by (simp add: storeOk_def)
  have ev: "storable ev \<and> scrub ev = ev" if "eventOf opts call s = Some ev" "validEvent opts ev" for ev
    using Cons.prems(5) that by auto
  note step = perform_logged [OF Cons.prems(1) r Cons.prems(3) ev]
  have ok: "storeOk opts ?s" by (rule step_storeOk [OF perform_step Cons.prems(2,4)])
  have "logged opts base baseRun (performs opts calls ?s)
    \<and> (\<exists>F. (\<forall>ev \<in> F. validEvent opts ev) \<and> recorded (persisted (performs opts calls ?s)) = recorded (persisted ?s) \<union> F)"
    by (rule Cons.IH [OF step(1) ok Cons.prems(3,4)]) (use Cons.prems(5) in auto)
  then obtain F where F: "logged opts base baseRun (performs opts calls ?s)" "\<forall>ev \<in> F. validEvent opts ev"
    "recorded (persisted (performs opts calls ?s)) = recorded (persisted ?s) \<union> F" by blast
  obtain E where E: "\<forall>ev \<in> E. validEvent opts ev" "recorded (persisted ?s) = recorded (persisted s) \<union> E"
    using step(2) by blast
  have "recorded (persisted (performs opts calls ?s)) = recorded (persisted s) \<union> (E \<union> F)" using E(2) F(3) by blast
  moreover have "\<forall>ev \<in> E \<union> F. validEvent opts ev" using E(1) F(2) by blast
  ultimately have "\<exists>G. (\<forall>ev \<in> G. validEvent opts ev) \<and> recorded (persisted (performs opts calls ?s)) = recorded (persisted s) \<union> G"
    by (intro exI [of _ "E \<union> F"] conjI)
  with F(1) show ?case unfolding performs_simps by (rule conjI)
qed

end

end
