(* ===== verification/Consensus.thy ===== *)
theory Consensus
  imports Flows_Prelude
begin

text \<open>
  The consensus strategy that arbitrates who may write a run
  (\<^verbatim>\<open>packages/journal/src/Consensus.ts\<close>): process identities, liveness evidence, the outcome
  types, the service as a record of operations over the strategy's own state, the refusing stub
  \<open>makeNoop\<close> and the in-memory strategy \<open>makeLocal\<close>. The contract every strategy has to meet is the
  locale \<open>consensus_strategy\<close>; what a caller may conclude from it is proved once inside.
\<close>

section \<open>Identities, constants and evidence\<close>

record OwnerId =
  hostId :: string
  pid :: int
  nonce :: string

definition heartbeatInterval :: ms where
  "heartbeatInterval = 1000"

definition heartbeatStaleAfter :: ms where
  "heartbeatStaleAfter = 30000"

definition heartbeatSkewAllowance :: ms where
  "heartbeatSkewAllowance = 10000"

definition heartbeatWriteTolerance :: ms where
  "heartbeatWriteTolerance = heartbeatStaleAfter - heartbeatSkewAllowance - heartbeatInterval"

abbreviation staleAfterMs :: ms where
  "staleAfterMs \<equiv> heartbeatStaleAfter"

datatype EvidenceKind = SameHostPidDead | CrossHostUnreachableStale

record LivenessEvidence =
  expectedOwner :: OwnerId
  checkedAtMs :: ms
  evidenceKind :: EvidenceKind

definition sameOwner :: "OwnerId \<Rightarrow> OwnerId \<Rightarrow> bool" where
  "sameOwner l r \<longleftrightarrow> hostId l = hostId r \<and> pid l = pid r \<and> nonce l = nonce r"

lemma sameOwner_iff [simp]: "sameOwner l r \<longleftrightarrow> l = r"
  by (cases l; cases r) (auto simp: sameOwner_def)

definition matchesEvidence :: "OwnerId \<Rightarrow> OwnerId \<Rightarrow> ms \<Rightarrow> LivenessEvidence \<Rightarrow> bool" where
  "matchesEvidence expected observer nowMs evidence =
     (if \<not> sameOwner expected (expectedOwner evidence) \<or> checkedAtMs evidence \<noteq> nowMs then False
      else case evidenceKind evidence of
        SameHostPidDead \<Rightarrow> hostId expected = hostId observer
      | CrossHostUnreachableStale \<Rightarrow> hostId expected \<noteq> hostId observer)"

lemma matchesEvidence_expected:
  "matchesEvidence x obs t ev \<Longrightarrow> expectedOwner ev = x \<and> checkedAtMs ev = t"
  by (auto simp: matchesEvidence_def split: if_splits)

section \<open>Outcomes and errors\<close>

datatype RejectionReason =
    Already_claimed | Owner_held | Owner_live | Evidence_invalid
  | Claim_fresh | Claim_changed | Unavailable

datatype ClaimOutcome = Claimed ms | Rejected RejectionReason

datatype ActivateOutcome = Activated | ActivateLost

datatype HeartbeatOutcome = Renewed ms | HeartbeatLost

datatype RecoverOutcome = Recovered | RecoverRejected RejectionReason

datatype ConsensusErrorCode = Fence_lost | Persistence_failed

record ConsensusError =
  ce_code :: ConsensusErrorCode
  ce_message :: string

definition fenceLost :: "string \<Rightarrow> OwnerId \<Rightarrow> ConsensusError" where
  "fenceLost runId owner =
     \<lparr>ce_code = Fence_lost,
      ce_message = ''run '' @ runId @ '' is no longer owned by '' @ hostId owner @ '':''
        @ show_int (pid owner) @ '':'' @ nonce owner\<rparr>"

lemma fenceLost_code [simp]: "ce_code (fenceLost r w) = Fence_lost"
  by (simp add: fenceLost_def)

section \<open>Leases\<close>

record LeaseOwner =
  lo_id :: OwnerId
  lo_grantedAtMs :: ms
  lo_heartbeatAtMs :: ms

record LeaseClaim =
  lc_id :: OwnerId
  lc_claimedAtMs :: ms

record LocalLease =
  lease_owner :: "LeaseOwner option"
  lease_claim :: "LeaseClaim option"

definition freshLease :: LocalLease where
  "freshLease = \<lparr>lease_owner = None, lease_claim = None\<rparr>"

text \<open>
  A database-backed strategy may have to answer for a run whose ownership was recorded in
  \<open>flows_runs\<close> before leases existed; these are the columns it reads there. \<open>None\<close> is a database
  without the table.
\<close>

record LegacyRun =
  lg_running :: bool
  lg_owner :: "OwnerId option"
  lg_heartbeatAtMs :: "ms option"
  lg_claim :: "OwnerId option"
  lg_claimedAtMs :: "ms option"

type_synonym legacy_runs = "(string \<rightharpoonup> LegacyRun) option"

definition legacyStaleOwner :: "legacy_runs \<Rightarrow> string \<Rightarrow> OwnerId \<Rightarrow> ms \<Rightarrow> bool" where
  "legacyStaleOwner tbl runId owner nowMs =
     (case tbl of None \<Rightarrow> False
      | Some t \<Rightarrow>
        (case t runId of None \<Rightarrow> False
         | Some row \<Rightarrow>
             lg_running row \<and> lg_owner row = Some owner
             \<and> (case lg_heartbeatAtMs row of None \<Rightarrow> False | Some h \<Rightarrow> h < nowMs - staleAfterMs)
             \<and> lg_claim row = None))"

datatype LegacyClaimState = LegacyMissing | LegacyStale | LegacyFresh

definition legacyClaimState :: "legacy_runs \<Rightarrow> string \<Rightarrow> OwnerId \<Rightarrow> ms \<Rightarrow> ms \<Rightarrow> LegacyClaimState" where
  "legacyClaimState tbl runId claimant grantedAtMs nowMs =
     (case tbl of None \<Rightarrow> LegacyMissing
      | Some t \<Rightarrow>
        (case t runId of None \<Rightarrow> LegacyMissing
         | Some row \<Rightarrow>
             if lg_claim row = Some claimant \<and> lg_claimedAtMs row = Some grantedAtMs
             then (if grantedAtMs < nowMs - staleAfterMs then LegacyStale else LegacyFresh)
             else LegacyMissing))"

section \<open>The service\<close>

text \<open>
  The operations of a strategy over its state \<open>'l\<close>. \<open>c_rollback before after\<close> is what is left of
  the strategy's state when the write transaction it took part in fails: a lease row rolls back
  with the transaction, a lease in process memory does not.
\<close>

record 'l Service =
  c_claim :: "string \<Rightarrow> OwnerId \<Rightarrow> ms \<Rightarrow> ('l, ConsensusError, ClaimOutcome) txn"
  c_activate :: "string \<Rightarrow> OwnerId \<Rightarrow> ms \<Rightarrow> ms \<Rightarrow> ('l, ConsensusError, ActivateOutcome) txn"
  c_heartbeat :: "string \<Rightarrow> OwnerId \<Rightarrow> ms \<Rightarrow> ('l, ConsensusError, HeartbeatOutcome) txn"
  c_release :: "string \<Rightarrow> OwnerId \<Rightarrow> ('l, ConsensusError, unit) txn"
  c_steal :: "legacy_runs \<Rightarrow> string \<Rightarrow> OwnerId \<Rightarrow> ms \<Rightarrow> LivenessEvidence
                \<Rightarrow> ('l, ConsensusError, ClaimOutcome) txn"
  c_recover :: "legacy_runs \<Rightarrow> string \<Rightarrow> OwnerId \<Rightarrow> ms \<Rightarrow> OwnerId \<Rightarrow> ms \<Rightarrow> LivenessEvidence
                \<Rightarrow> ('l, ConsensusError, RecoverOutcome) txn"
  c_guard :: "string \<Rightarrow> OwnerId \<Rightarrow> ('l, ConsensusError, unit) txn"
  c_rollback :: "'l \<Rightarrow> 'l \<Rightarrow> 'l"

definition makeNoop :: "unit Service" where
  "makeNoop =
     \<lparr>c_claim = (\<lambda>_ _ _. retT (Rejected Unavailable)),
      c_activate = (\<lambda>_ _ _ _. retT ActivateLost),
      c_heartbeat = (\<lambda>_ _ _. retT HeartbeatLost),
      c_release = (\<lambda>_ _. retT ()),
      c_steal = (\<lambda>_ _ _ _ _. retT (Rejected Unavailable)),
      c_recover = (\<lambda>_ _ _ _ _ _ _. retT (RecoverRejected Unavailable)),
      c_guard = (\<lambda>runId owner. failT (fenceLost runId owner)),
      c_rollback = (\<lambda>before after. after)\<rparr>"

section \<open>The in-memory strategy\<close>

type_synonym local_leases = "string \<rightharpoonup> LocalLease"

definition leaseOf :: "string \<Rightarrow> local_leases \<Rightarrow> LocalLease \<times> local_leases" where
  "leaseOf runId m =
     (case m runId of Some existing \<Rightarrow> (existing, m)
      | None \<Rightarrow> (freshLease, m(runId \<mapsto> freshLease)))"

definition prune :: "string \<Rightarrow> local_leases \<Rightarrow> local_leases" where
  "prune runId m =
     (case m runId of None \<Rightarrow> m
      | Some lease \<Rightarrow>
          if lease_owner lease = None \<and> lease_claim lease = None then m(runId := None) else m)"

definition local_claim ::
  "string \<Rightarrow> OwnerId \<Rightarrow> ms \<Rightarrow> (local_leases, ConsensusError, ClaimOutcome) txn" where
  "local_claim runId claimant nowMs = (\<lambda>m0.
     let (lease, m) = leaseOf runId m0 in
     if lease_claim lease \<noteq> None then (Inr (Rejected Already_claimed), m)
     else if lease_owner lease \<noteq> None then (Inr (Rejected Owner_held), m)
     else (Inr (Claimed nowMs),
           m(runId \<mapsto> lease\<lparr>lease_claim := Some \<lparr>lc_id = claimant, lc_claimedAtMs = nowMs\<rparr>\<rparr>)))"

definition local_activate ::
  "string \<Rightarrow> OwnerId \<Rightarrow> ms \<Rightarrow> ms \<Rightarrow> (local_leases, ConsensusError, ActivateOutcome) txn" where
  "local_activate runId owner grantedAtMs nowMs = (\<lambda>m0.
     let (lease, m) = leaseOf runId m0 in
     case lease_claim lease of
       None \<Rightarrow> (Inr ActivateLost, prune runId m)
     | Some claim \<Rightarrow>
         if \<not> sameOwner (lc_id claim) owner \<or> lc_claimedAtMs claim \<noteq> grantedAtMs
         then (Inr ActivateLost, prune runId m)
         else (Inr Activated,
               m(runId \<mapsto> lease\<lparr>lease_claim := None,
                   lease_owner := Some \<lparr>lo_id = owner, lo_grantedAtMs = grantedAtMs,
                                       lo_heartbeatAtMs = nowMs\<rparr>\<rparr>)))"

definition local_heartbeat ::
  "string \<Rightarrow> OwnerId \<Rightarrow> ms \<Rightarrow> (local_leases, ConsensusError, HeartbeatOutcome) txn" where
  "local_heartbeat runId owner nowMs = (\<lambda>m.
     case m runId of None \<Rightarrow> (Inr HeartbeatLost, m)
     | Some lease \<Rightarrow>
       (case lease_owner lease of None \<Rightarrow> (Inr HeartbeatLost, m)
        | Some lo \<Rightarrow>
            if \<not> sameOwner (lo_id lo) owner then (Inr HeartbeatLost, m)
            else let h = max (lo_heartbeatAtMs lo) nowMs in
              (Inr (Renewed h),
               m(runId \<mapsto> lease\<lparr>lease_owner := Some (lo\<lparr>lo_heartbeatAtMs := h\<rparr>)\<rparr>))))"

definition local_release ::
  "string \<Rightarrow> OwnerId \<Rightarrow> (local_leases, ConsensusError, unit) txn" where
  "local_release runId owner = (\<lambda>m.
     case m runId of None \<Rightarrow> (Inr (), m)
     | Some lease \<Rightarrow>
       let lease1 = (case lease_claim lease of None \<Rightarrow> lease
                     | Some c \<Rightarrow> if sameOwner (lc_id c) owner then lease\<lparr>lease_claim := None\<rparr> else lease);
           lease2 = (case lease_owner lease1 of None \<Rightarrow> lease1
                     | Some lo \<Rightarrow> if sameOwner (lo_id lo) owner then lease1\<lparr>lease_owner := None\<rparr> else lease1)
       in (Inr (), prune runId (m(runId \<mapsto> lease2))))"

definition local_steal ::
  "legacy_runs \<Rightarrow> string \<Rightarrow> OwnerId \<Rightarrow> ms \<Rightarrow> LivenessEvidence
     \<Rightarrow> (local_leases, ConsensusError, ClaimOutcome) txn" where
  "local_steal _ runId claimant nowMs evidence = (\<lambda>m.
     if \<not> matchesEvidence (expectedOwner evidence) claimant nowMs evidence
     then (Inr (Rejected Evidence_invalid), m)
     else case m runId of None \<Rightarrow> (Inr (Rejected Evidence_invalid), m)
     | Some lease \<Rightarrow>
       if lease_claim lease \<noteq> None then (Inr (Rejected Already_claimed), m)
       else (case lease_owner lease of None \<Rightarrow> (Inr (Rejected Evidence_invalid), m)
        | Some lo \<Rightarrow>
            if \<not> sameOwner (lo_id lo) (expectedOwner evidence) then (Inr (Rejected Evidence_invalid), m)
            else if lo_heartbeatAtMs lo \<ge> nowMs - staleAfterMs then (Inr (Rejected Owner_live), m)
            else (Inr (Claimed nowMs),
                  m(runId \<mapsto> lease\<lparr>lease_claim := Some \<lparr>lc_id = claimant, lc_claimedAtMs = nowMs\<rparr>\<rparr>))))"

definition local_recover ::
  "legacy_runs \<Rightarrow> string \<Rightarrow> OwnerId \<Rightarrow> ms \<Rightarrow> OwnerId \<Rightarrow> ms \<Rightarrow> LivenessEvidence
     \<Rightarrow> (local_leases, ConsensusError, RecoverOutcome) txn" where
  "local_recover _ runId staleClaimant grantedAtMs observer nowMs evidence = (\<lambda>m.
     if \<not> matchesEvidence staleClaimant observer nowMs evidence
     then (Inr (RecoverRejected Evidence_invalid), m)
     else case m runId of None \<Rightarrow> (Inr (RecoverRejected Claim_changed), m)
     | Some lease \<Rightarrow>
       (case lease_claim lease of None \<Rightarrow> (Inr (RecoverRejected Claim_changed), m)
        | Some c \<Rightarrow>
            if \<not> sameOwner (lc_id c) staleClaimant \<or> lc_claimedAtMs c \<noteq> grantedAtMs
            then (Inr (RecoverRejected Claim_changed), m)
            else if lc_claimedAtMs c \<ge> nowMs - staleAfterMs then (Inr (RecoverRejected Claim_fresh), m)
            else (Inr Recovered, prune runId (m(runId \<mapsto> lease\<lparr>lease_claim := None\<rparr>)))))"

definition local_guard ::
  "string \<Rightarrow> OwnerId \<Rightarrow> (local_leases, ConsensusError, unit) txn" where
  "local_guard runId owner = (\<lambda>m.
     case m runId of None \<Rightarrow> (Inl (fenceLost runId owner), m)
     | Some lease \<Rightarrow>
       (case lease_owner lease of None \<Rightarrow> (Inl (fenceLost runId owner), m)
        | Some lo \<Rightarrow>
            if sameOwner (lo_id lo) owner then (Inr (), m) else (Inl (fenceLost runId owner), m)))"

definition makeLocal :: "local_leases Service" where
  "makeLocal =
     \<lparr>c_claim = local_claim, c_activate = local_activate, c_heartbeat = local_heartbeat,
      c_release = local_release, c_steal = local_steal, c_recover = local_recover,
      c_guard = local_guard, c_rollback = (\<lambda>before after. after)\<rparr>"

section \<open>Commands\<close>

text \<open>
  One call of the service by some process, as data: a history of a strategy is a list of these.
  A call that fails leaves whatever the strategy's rollback leaves.
\<close>

datatype LeaseCommand =
    CmdClaim string OwnerId ms
  | CmdActivate string OwnerId ms ms
  | CmdHeartbeat string OwnerId ms
  | CmdRelease string OwnerId
  | CmdSteal string OwnerId ms LivenessEvidence
  | CmdRecover string OwnerId ms OwnerId ms LivenessEvidence
  | CmdGuard string OwnerId

datatype Answer =
    AnsClaim ClaimOutcome
  | AnsActivate ActivateOutcome
  | AnsHeartbeat HeartbeatOutcome
  | AnsRelease
  | AnsRecover RecoverOutcome
  | AnsGuard

definition mapT :: "('a \<Rightarrow> 'b) \<Rightarrow> ('s, 'e, 'a) txn \<Rightarrow> ('s, 'e, 'b) txn" where
  "mapT f m = bindT m (\<lambda>a. retT (f a))"

fun call :: "'l Service \<Rightarrow> legacy_runs \<Rightarrow> LeaseCommand \<Rightarrow> ('l, ConsensusError, Answer) txn" where
  "call S tbl (CmdClaim r w t) = mapT AnsClaim (c_claim S r w t)"
| "call S tbl (CmdActivate r w g t) = mapT AnsActivate (c_activate S r w g t)"
| "call S tbl (CmdHeartbeat r w t) = mapT AnsHeartbeat (c_heartbeat S r w t)"
| "call S tbl (CmdRelease r w) = mapT (\<lambda>_. AnsRelease) (c_release S r w)"
| "call S tbl (CmdSteal r w t ev) = mapT AnsClaim (c_steal S tbl r w t ev)"
| "call S tbl (CmdRecover r w g obs t ev) = mapT AnsRecover (c_recover S tbl r w g obs t ev)"
| "call S tbl (CmdGuard r w) = mapT (\<lambda>_. AnsGuard) (c_guard S r w)"

lemma mapT_Inr [simp]: "mapT f m s = (Inr b, s') \<longleftrightarrow> (\<exists>a. m s = (Inr a, s') \<and> b = f a)"
  by (auto simp: mapT_def bindT_Inr)

lemma mapT_Inl [simp]: "mapT f m s = (Inl e, s') \<longleftrightarrow> m s = (Inl e, s')"
  by (auto simp: mapT_def bindT_def retT_def split: prod.splits sum.splits)

definition exec :: "'l Service \<Rightarrow> legacy_runs \<Rightarrow> 'l \<Rightarrow> LeaseCommand \<Rightarrow> 'l" where
  "exec S tbl l c = (case call S tbl c l of (Inl e, l') \<Rightarrow> c_rollback S l l' | (Inr u, l') \<Rightarrow> l')"

definition execs :: "'l Service \<Rightarrow> legacy_runs \<Rightarrow> 'l \<Rightarrow> LeaseCommand list \<Rightarrow> 'l" where
  "execs S tbl = foldl (exec S tbl)"

fun cmd_run :: "LeaseCommand \<Rightarrow> string" where
  "cmd_run (CmdClaim r _ _) = r"
| "cmd_run (CmdActivate r _ _ _) = r"
| "cmd_run (CmdHeartbeat r _ _) = r"
| "cmd_run (CmdRelease r _) = r"
| "cmd_run (CmdSteal r _ _ _) = r"
| "cmd_run (CmdRecover r _ _ _ _ _) = r"
| "cmd_run (CmdGuard r _) = r"

text \<open>The clock reading a command presents, where it presents one for a staleness decision.\<close>

fun cmd_steal_clock :: "LeaseCommand \<Rightarrow> ms option" where
  "cmd_steal_clock (CmdSteal _ _ t _) = Some t"
| "cmd_steal_clock _ = None"

section \<open>The contract of a strategy\<close>

definition released :: "OwnerId \<Rightarrow> LocalLease \<Rightarrow> LocalLease" where
  "released w lease =
     \<lparr>lease_owner = (case lease_owner lease of None \<Rightarrow> None
        | Some lo \<Rightarrow> if lo_id lo = w then None else Some lo),
      lease_claim = (case lease_claim lease of None \<Rightarrow> None
        | Some c \<Rightarrow> if lc_id c = w then None else Some c)\<rparr>"

abbreviation holds :: "LocalLease \<Rightarrow> OwnerId \<Rightarrow> bool" where
  "holds lease w \<equiv> (\<exists>lo. lease_owner lease = Some lo \<and> lo_id lo = w)"

abbreviation claimedBy :: "OwnerId \<Rightarrow> ms \<Rightarrow> LeaseClaim" where
  "claimedBy w t \<equiv> \<lparr>lc_id = w, lc_claimedAtMs = t\<rparr>"

text \<open>
  \<open>view\<close> reads a run's lease out of the strategy's state. The laws say of every operation when it
  grants, what the lease is afterwards and that no other run's lease moves (rules R1, R3, R4 and R5
  of the consensus module).
\<close>

locale consensus_strategy =
  fixes S :: "'l Service"
    and view :: "'l \<Rightarrow> string \<Rightarrow> LocalLease"
    and inv :: "'l \<Rightarrow> bool"
  assumes claim_granted:
      "inv l \<Longrightarrow> c_claim S r w t l = (Inr (Claimed g), l') \<Longrightarrow>
         g = t \<and> view l r = freshLease \<and>
         view l' = (view l)(r := freshLease\<lparr>lease_claim := Some (claimedBy w t)\<rparr>)"
    and claim_rejected:
      "inv l \<Longrightarrow> c_claim S r w t l = (Inr (Rejected x), l') \<Longrightarrow>
         view l' = view l \<and> (x \<noteq> Unavailable \<longrightarrow> view l r \<noteq> freshLease)"
    and activate_granted:
      "inv l \<Longrightarrow> c_activate S r w g t l = (Inr Activated, l') \<Longrightarrow>
         lease_claim (view l r) = Some (claimedBy w g) \<and>
         view l' = (view l)(r := \<lparr>lease_owner = Some \<lparr>lo_id = w, lo_grantedAtMs = g, lo_heartbeatAtMs = t\<rparr>,
                                 lease_claim = None\<rparr>)"
    and activate_lost:
      "inv l \<Longrightarrow> c_activate S r w g t l = (Inr ActivateLost, l') \<Longrightarrow>
         view l' = view l \<and> lease_claim (view l r) \<noteq> Some (claimedBy w g)"
    and heartbeat_renewed:
      "inv l \<Longrightarrow> c_heartbeat S r w t l = (Inr (Renewed h), l') \<Longrightarrow>
         \<exists>lo. lease_owner (view l r) = Some lo \<and> lo_id lo = w \<and> h = max (lo_heartbeatAtMs lo) t \<and>
           view l' = (view l)(r := (view l r)\<lparr>lease_owner := Some (lo\<lparr>lo_heartbeatAtMs := h\<rparr>)\<rparr>)"
    and heartbeat_lost:
      "inv l \<Longrightarrow> c_heartbeat S r w t l = (Inr HeartbeatLost, l') \<Longrightarrow>
         view l' = view l \<and> \<not> holds (view l r) w"
    and release_done:
      "inv l \<Longrightarrow> c_release S r w l = (Inr (), l') \<Longrightarrow> view l' = (view l)(r := released w (view l r))"
    and steal_granted:
      "inv l \<Longrightarrow> c_steal S tbl r w t ev l = (Inr (Claimed g), l') \<Longrightarrow>
         g = t \<and> matchesEvidence (expectedOwner ev) w t ev \<and> lease_claim (view l r) = None \<and>
         (view l r = freshLease \<and> legacyStaleOwner tbl r (expectedOwner ev) t \<or>
          (\<exists>lo. lease_owner (view l r) = Some lo \<and> lo_id lo = expectedOwner ev \<and>
                lo_heartbeatAtMs lo < t - staleAfterMs)) \<and>
         view l' = (view l)(r := (view l r)\<lparr>lease_claim := Some (claimedBy w t)\<rparr>)"
    and steal_rejected:
      "inv l \<Longrightarrow> c_steal S tbl r w t ev l = (Inr (Rejected x), l') \<Longrightarrow> view l' = view l"
    and recover_done:
      "inv l \<Longrightarrow> c_recover S tbl r w g obs t ev l = (Inr Recovered, l') \<Longrightarrow>
         matchesEvidence w obs t ev \<and> g < t - staleAfterMs \<and>
         (view l r = freshLease \<and> legacyClaimState tbl r w g t = LegacyStale \<or>
          lease_claim (view l r) = Some (claimedBy w g)) \<and>
         view l' = (view l)(r := (view l r)\<lparr>lease_claim := None\<rparr>)"
    and recover_rejected:
      "inv l \<Longrightarrow> c_recover S tbl r w g obs t ev l = (Inr (RecoverRejected x), l') \<Longrightarrow> view l' = view l"
    and guard_held:
      "inv l \<Longrightarrow> c_guard S r w l = (Inr (), l') \<Longrightarrow> l' = l \<and> holds (view l r) w"
    and guard_refused:
      "inv l \<Longrightarrow> c_guard S r w l = (Inl e, l') \<Longrightarrow>
         l' = l \<and> (ce_code e = Fence_lost \<longrightarrow> \<not> holds (view l r) w)"
    and call_failed: "inv l \<Longrightarrow> call S tbl c l = (Inl e, l') \<Longrightarrow> l' = l"
    and call_inv: "inv l \<Longrightarrow> call S tbl c l = (Inr a, l') \<Longrightarrow> inv l'"
    and rollback_same [simp]: "c_rollback S l l = l"
    and rollback_inv: "inv l \<Longrightarrow> inv l' \<Longrightarrow> inv (c_rollback S l l')"
begin

text \<open>The law of each operation as an elimination over its outcome.\<close>

lemma claim_view:
  assumes "inv l" "c_claim S r w t l = (Inr x, l')"
  shows "view l' = view l \<or>
    view l r = freshLease \<and> view l' = (view l)(r := freshLease\<lparr>lease_claim := Some (claimedBy w t)\<rparr>)"
  using assms by (cases x) (auto dest: claim_granted claim_rejected)

lemma steal_view:
  assumes "inv l" "c_steal S tbl r w t ev l = (Inr x, l')"
  shows "view l' = view l \<or> view l' = (view l)(r := (view l r)\<lparr>lease_claim := Some (claimedBy w t)\<rparr>)"
  using assms by (cases x) (auto dest: steal_granted steal_rejected)

lemma recover_view:
  assumes "inv l" "c_recover S tbl r w g obs t ev l = (Inr x, l')"
  shows "view l' = view l \<or> view l' = (view l)(r := (view l r)\<lparr>lease_claim := None\<rparr>)"
  using assms by (cases x) (auto dest: recover_done recover_rejected)

lemma exec_inv: "inv l \<Longrightarrow> inv (exec S tbl l c)"
  by (cases "call S tbl c l")
    (auto simp: exec_def dest: call_failed [rotated] call_inv [rotated] split: sum.splits)

lemma execs_inv: "inv l \<Longrightarrow> inv (execs S tbl l cs)"
  by (induction cs arbitrary: l) (auto simp: execs_def exec_inv)

text \<open>R1, R3: the guard admits at most one process.\<close>

lemma guard_exclusive:
  assumes "inv l" "c_guard S r a l = (Inr (), l1)" "c_guard S r b l = (Inr (), l2)"
  shows "a = b"
  using guard_held [OF assms(1,2)] guard_held [OF assms(1,3)] by auto

text \<open>R3: once another process is activated, the displaced owner's guard refuses.\<close>

lemma activation_fences_out:
  assumes "inv l" "c_activate S r w g t l = (Inr Activated, l')" "a \<noteq> w"
  shows "c_guard S r a l' \<noteq> (Inr (), l'')"
proof
  assume "c_guard S r a l' = (Inr (), l'')"
  moreover have "call S None (CmdActivate r w g t) l = (Inr (AnsActivate Activated), l')"
    using assms(2) by simp
  then have "inv l'" by (rule call_inv [OF assms(1)])
  ultimately have "holds (view l' r) a" using guard_held by blast
  with activate_granted [OF assms(1,2)] assms(3) show False by auto
qed

text \<open>
  The lease: while the owner's last stamp is not older than the staleness cutoff by any clock a
  thief presents, and no claim is pending, nothing but the owner's own release ends its hold.
\<close>

definition secure :: "string \<Rightarrow> OwnerId \<Rightarrow> ms \<Rightarrow> 'l \<Rightarrow> bool" where
  "secure r a h l \<longleftrightarrow> inv l \<and> lease_claim (view l r) = None \<and>
     (\<exists>lo. lease_owner (view l r) = Some lo \<and> lo_id lo = a \<and> h \<le> lo_heartbeatAtMs lo)"

definition harmless :: "string \<Rightarrow> OwnerId \<Rightarrow> ms \<Rightarrow> LeaseCommand \<Rightarrow> bool" where
  "harmless r a h c \<longleftrightarrow> c \<noteq> CmdRelease r a \<and>
     (cmd_run c = r \<longrightarrow> (\<forall>t. cmd_steal_clock c = Some t \<longrightarrow> t \<le> h + staleAfterMs))"

lemma secure_view: "secure r a h l \<Longrightarrow> inv l' \<Longrightarrow> view l' r = view l r \<Longrightarrow> secure r a h l'"
  by (auto simp: secure_def)

lemma secure_claim:
  assumes "secure r a h l" "c_claim S r' w t l = (Inr x, l')" "inv l'"
  shows "secure r a h l'"
proof -
  have "inv l" "view l r \<noteq> freshLease" using assms(1) by (auto simp: secure_def freshLease_def)
  with claim_view [OF _ assms(2)] have "view l' r = view l r" by (cases "r' = r") auto
  with assms show ?thesis by (blast intro: secure_view)
qed

lemma secure_activate:
  assumes "secure r a h l" "c_activate S r' w g t l = (Inr x, l')" "inv l'"
  shows "secure r a h l'"
proof -
  have "inv l" "lease_claim (view l r) = None" using assms(1) by (auto simp: secure_def)
  with assms(2) have "view l' r = view l r"
    by (cases x; cases "r' = r") (auto dest: activate_granted activate_lost)
  with assms show ?thesis by (blast intro: secure_view)
qed

lemma secure_heartbeat:
  assumes "secure r a h l" "c_heartbeat S r' w t l = (Inr x, l')" "inv l'"
  shows "secure r a h l'"
proof (cases x)
  case (Renewed h')
  have "inv l" using assms(1) by (simp add: secure_def)
  from heartbeat_renewed [OF this] assms(2) Renewed show ?thesis
    using assms(1,3) by (cases "r' = r") (fastforce simp: secure_def)+
next
  case HeartbeatLost
  with assms show ?thesis by (auto simp: secure_def dest: heartbeat_lost)
qed

lemma secure_release:
  assumes "secure r a h l" "c_release S r' w l = (Inr (), l')" "inv l'" "\<not> (r' = r \<and> w = a)"
  shows "secure r a h l'"
proof -
  have "inv l" using assms(1) by (simp add: secure_def)
  from release_done [OF this assms(2)] assms(1,3,4) show ?thesis
    by (cases "r' = r") (auto simp: secure_def released_def)
qed

lemma secure_steal:
  assumes "secure r a h l" "c_steal S tbl r' w t ev l = (Inr x, l')" "inv l'"
    and "r' = r \<Longrightarrow> t \<le> h + staleAfterMs"
  shows "secure r a h l'"
proof (cases x)
  case (Claimed g)
  have inv: "inv l" using assms(1) by (simp add: secure_def)
  from steal_granted [OF inv] assms(2) Claimed have granted:
    "view l r' = freshLease \<or> (\<exists>lo. lease_owner (view l r') = Some lo \<and> lo_heartbeatAtMs lo < t - staleAfterMs)"
    "view l' = (view l)(r' := (view l r')\<lparr>lease_claim := Some (claimedBy w t)\<rparr>)" by blast+
  have "r' \<noteq> r" using assms(1,4) granted(1) by (auto simp: secure_def freshLease_def)
  with granted(2) assms show ?thesis by (auto simp: secure_def)
next
  case (Rejected y)
  with assms show ?thesis by (auto simp: secure_def dest: steal_rejected)
qed

lemma secure_recover:
  assumes "secure r a h l" "c_recover S tbl r' w g obs t ev l = (Inr x, l')" "inv l'"
  shows "secure r a h l'"
proof -
  have "inv l" using assms(1) by (simp add: secure_def)
  from recover_view [OF this assms(2)] assms(1,3) show ?thesis
    by (cases "r' = r") (auto simp: secure_def)
qed

lemma secure_exec:
  assumes "secure r a h l" "harmless r a h c"
  shows "secure r a h (exec S tbl l c)"
proof (cases "call S tbl c l")
  case (Pair res l')
  have inv: "inv l" using assms(1) by (simp add: secure_def)
  show ?thesis
  proof (cases res)
    case (Inl e)
    with Pair inv have "l' = l" by (auto dest: call_failed)
    with Pair Inl assms(1) show ?thesis by (simp add: exec_def)
  next
    case (Inr u)
    with Pair have eq: "call S tbl c l = (Inr u, l')" by simp
    note inv' = call_inv [OF inv eq]
    have "secure r a h l'"
      using eq assms inv'
      by (cases c) (auto simp: harmless_def dest: guard_held [OF inv]
          intro: secure_claim secure_activate secure_heartbeat secure_release secure_steal secure_recover)
    with eq show ?thesis by (simp add: exec_def)
  qed
qed

lemma secure_execs: "secure r a h l \<Longrightarrow> \<forall>c \<in> set cs. harmless r a h c \<Longrightarrow> secure r a h (execs S tbl l cs)"
  by (induction cs arbitrary: l) (auto simp: execs_def secure_exec)

text \<open>R4: a claim that was recovered, released or replaced cannot be activated any more.\<close>

lemma stale_grant_never_activates:
  assumes "inv l" "lease_claim (view l r) \<noteq> Some (claimedBy w g)"
  shows "c_activate S r w g t l \<noteq> (Inr Activated, l')"
  using activate_granted [OF assms(1), of r w g t l'] assms(2) by blast

end

section \<open>The strategies of this module meet the contract\<close>

definition local_view :: "local_leases \<Rightarrow> string \<Rightarrow> LocalLease" where
  "local_view m r = (case m r of None \<Rightarrow> freshLease | Some lease \<Rightarrow> lease)"

lemma local_view_upd [simp]:
  "local_view (m(r \<mapsto> lease)) = (local_view m)(r := lease)"
  "local_view (m(r := None)) = (local_view m)(r := freshLease)"
  by (auto simp: local_view_def)

text \<open>No entry is kept for a run nobody owns or claims.\<close>

definition local_inv :: "local_leases \<Rightarrow> bool" where
  "local_inv m \<longleftrightarrow> (\<forall>r. m r \<noteq> Some freshLease)"

lemma lease_eq_iff:
  "(a :: LocalLease) = b \<longleftrightarrow> lease_owner a = lease_owner b \<and> lease_claim a = lease_claim b"
  by (cases a; cases b) auto

lemma freshLease_sel [simp]: "lease_owner freshLease = None" "lease_claim freshLease = None"
  by (simp_all add: freshLease_def)

lemma fresh_iff:
  "(lease = freshLease) = (lease_owner lease = None \<and> lease_claim lease = None)"
  "(freshLease = lease) = (lease_owner lease = None \<and> lease_claim lease = None)"
  by (auto simp: lease_eq_iff)

lemma claimedBy_eq [simp]: "claimedBy (lc_id c) (lc_claimedAtMs c) = c"
  by simp

lemmas local_defs =
  makeLocal_def local_claim_def local_activate_def local_heartbeat_def local_release_def
  local_steal_def local_recover_def local_guard_def leaseOf_def prune_def

lemma local_inv_claim: "local_inv m \<Longrightarrow> c_claim makeLocal r w t m = (x, m') \<Longrightarrow> local_inv m' \<and> isl x = False"
  by (auto simp: local_defs local_inv_def lease_eq_iff split: option.splits if_splits)

lemma local_inv_activate:
  "local_inv m \<Longrightarrow> c_activate makeLocal r w g t m = (x, m') \<Longrightarrow> local_inv m' \<and> isl x = False"
  by (auto simp: local_defs local_inv_def lease_eq_iff split: option.splits if_splits)

lemma local_inv_heartbeat:
  "local_inv m \<Longrightarrow> c_heartbeat makeLocal r w t m = (x, m') \<Longrightarrow> local_inv m' \<and> isl x = False"
  by (auto simp: local_defs local_inv_def lease_eq_iff Let_def split: option.splits if_splits)

lemma local_inv_release: "local_inv m \<Longrightarrow> c_release makeLocal r w m = (x, m') \<Longrightarrow> local_inv m' \<and> isl x = False"
  by (auto simp: local_defs local_inv_def lease_eq_iff Let_def split: option.splits if_splits)

lemma local_inv_steal:
  "local_inv m \<Longrightarrow> c_steal makeLocal tbl r w t ev m = (x, m') \<Longrightarrow> local_inv m' \<and> isl x = False"
  by (auto simp: local_defs local_inv_def lease_eq_iff split: option.splits if_splits)

lemma local_inv_recover:
  "local_inv m \<Longrightarrow> c_recover makeLocal tbl r w g obs t ev m = (x, m') \<Longrightarrow> local_inv m' \<and> isl x = False"
  by (auto simp: local_defs local_inv_def lease_eq_iff split: option.splits if_splits)

lemmas local_invs =
  local_inv_claim local_inv_activate local_inv_heartbeat local_inv_release local_inv_steal local_inv_recover

lemma local_guard_same: "c_guard makeLocal r w m = (x, m') \<Longrightarrow> m' = m"
  by (auto simp: local_defs split: option.splits if_splits)

lemma local_call:
  assumes "local_inv m" "call makeLocal tbl c m = (x, m')"
  shows "local_inv m' \<and> (isl x \<longrightarrow> m' = m)"
proof (cases x)
  case (Inl e)
  with assms show ?thesis
    by (cases c) (auto dest: local_invs [OF assms(1)] local_guard_same)
next
  case (Inr a)
  with assms show ?thesis
    by (cases c) (auto dest: local_invs [OF assms(1)] local_guard_same)
qed

interpretation local: consensus_strategy makeLocal local_view local_inv
proof (unfold_locales, goal_cases)
  case (1 l r w t g l')
  then show ?case
    by (cases "l r") (auto simp: local_defs local_view_def lease_eq_iff split: option.splits if_splits)
next
  case (2 l r w t x l')
  then show ?case
    by (cases "l r") (auto simp: local_defs local_view_def lease_eq_iff split: option.splits if_splits)
next
  case (3 l r w g t l')
  then show ?case
    by (cases "l r") (auto simp: local_defs local_view_def lease_eq_iff split: option.splits if_splits)
next
  case (4 l r w g t l')
  then show ?case
    by (cases "l r") (auto simp: local_defs local_view_def lease_eq_iff split: option.splits if_splits)
next
  case (5 l r w t h l')
  then show ?case
    by (cases "l r") (auto simp: local_defs local_view_def Let_def split: option.splits if_splits)
next
  case (6 l r w t l')
  then show ?case
    by (cases "l r") (auto simp: local_defs local_view_def Let_def split: option.splits if_splits)
next
  case (7 l r w l')
  then show ?case
    by (cases "l r") (auto simp: local_defs local_view_def lease_eq_iff released_def Let_def
        split: option.splits if_splits)
next
  case (8 l tbl r w t ev g l')
  then show ?case
    by (cases "l r") (auto simp: local_defs local_view_def split: option.splits if_splits)
next
  case (9 l tbl r w t ev x l')
  then show ?case
    by (cases "l r") (auto simp: local_defs local_view_def split: option.splits if_splits)
next
  case (10 l tbl r w g obs t ev l')
  then show ?case
    by (cases "l r") (auto simp: local_defs local_view_def fresh_iff split: option.splits if_splits)
next
  case (11 l tbl r w g obs t ev x l')
  then show ?case
    by (cases "l r") (auto simp: local_defs local_view_def split: option.splits if_splits)
next
  case (12 l r w l')
  then show ?case
    by (cases "l r") (auto simp: local_defs local_view_def split: option.splits if_splits)
next
  case (13 l r w e l')
  then show ?case
    by (cases "l r") (auto simp: local_defs local_view_def split: option.splits if_splits)
next
  case (14 l tbl c e l')
  then show ?case using local_call [of l tbl c "Inl e" l'] by simp
next
  case (15 l tbl c a l')
  then show ?case using local_call [of l tbl c "Inr a" l'] by simp
next
  case (16 l)
  then show ?case by (simp add: makeLocal_def)
next
  case (17 l l')
  then show ?case by (simp add: makeLocal_def)
qed

interpretation noop: consensus_strategy makeNoop "\<lambda>_ _. freshLease" "\<lambda>_. True"
  by unfold_locales (auto simp: makeNoop_def released_def freshLease_def fenceLost_def retT_def failT_def)

end
