(* ===== verification/Journal.thy ===== *)
theory Journal
  imports Consensus Redaction "HOL-Library.List_Lexorder" "HOL-Library.Char_ord"
begin

text \<open>
  The durable journal (\<^verbatim>\<open>packages/journal/src/JournalEvent.ts\<close>, \<^verbatim>\<open>Journal.ts\<close> and
  \<^verbatim>\<open>SqlJournal.ts\<close>): events, the tables \<open>flows_journal_events\<close> and \<open>flows_journal_checkpoints\<close>, the
  allocation floors and the source-event index kept in process memory, fenced durable appends inside
  write transactions, paged reads, checkpoints and compaction.

  A JSON column is represented by the value it encodes, so two columns are equal exactly when
  their texts are. The state of the operations is open at its end (\<open>'z\<close>): the stores that write
  their rows in the same transaction extend it with their own tables.
\<close>

section \<open>Events\<close>

record Input =
  in_runId :: string
  in_sourceId :: string
  in_sourceSeq :: "int option"
  in_eventType :: string
  in_payload :: json
  in_meta :: "json option"

record Entry =
  runId :: string
  seq :: int
  eventId :: string
  sourceId :: string
  sourceSeq :: int
  emittedAtMs :: ms
  eventType :: string
  payload :: json
  meta :: json

definition makeEventId :: "string \<Rightarrow> string \<Rightarrow> int \<Rightarrow> string" where
  "makeEventId r src n =
     ''flows:event:'' @ show_nat (length r) @ '':'' @ r @ show_nat (length src) @ '':'' @ src @ show_int n"

definition sourceKey :: "string \<Rightarrow> string \<Rightarrow> string" where
  "sourceKey r src = show_nat (length r) @ '':'' @ r @ show_nat (length src) @ '':'' @ src"

definition sourceEventKey :: "string \<Rightarrow> string \<Rightarrow> int \<Rightarrow> string" where
  "sourceEventKey r src n = sourceKey r src @ '':'' @ show_int n"

section \<open>Errors and receipts\<close>

datatype JournalErrorCode =
    Invalid_event | Journal_closed | Queue_overflow | Sink_failed | Fence_lost_journal
  | Idempotency_conflict | Sequence_conflict | Decode_failed | Compacted | Checkpoint_invalid
  | Reader_behind | Projection_failed | Unknown_failure

record JournalError =
  je_code :: JournalErrorCode
  je_message :: string
  je_checkpointSeq :: "int option"

text \<open>
  A failure inside a write transaction: a journal error, a strategy's error, a violated table
  constraint, one of these wrapped as the cause of a \<open>sink_failed\<close>, or an error of the caller's own.
\<close>

datatype Cause =
    CJournal JournalError
  | CConsensus ConsensusError
  | CConstraint
  | CSink string Cause
  | COther string

fun isJournalError :: "Cause \<Rightarrow> bool" where
  "isJournalError (CJournal _) = True"
| "isJournalError (CSink _ _) = True"
| "isJournalError _ = False"

definition error :: "JournalErrorCode \<Rightarrow> string \<Rightarrow> JournalError" where
  "error code message = \<lparr>je_code = code, je_message = message, je_checkpointSeq = None\<rparr>"

abbreviation failJ :: "JournalErrorCode \<Rightarrow> string \<Rightarrow> ('s, Cause, 'a) txn" where
  "failJ code message \<equiv> failT (CJournal (error code message))"

datatype EventStatus = Pending | Committed

datatype EmitReceipt =
    Accepted int int
  | Duplicate int int EventStatus

section \<open>State\<close>

datatype Status = Open | Closing | Closed

record SourceEvent =
  se_seq :: int
  se_eventType :: string
  se_payload :: json
  se_meta :: json
  se_status :: EventStatus

record Checkpoint =
  cp_runId :: string
  cp_seq :: int
  cp_state :: json
  cp_createdAtMs :: ms
  cp_compactedAtMs :: "ms option"

text \<open>
  The first three fields are database tables (\<open>leases\<close> is the consensus strategy's state); the rest is
  process memory, which no rollback touches. \<open>clock\<close> gives the readings of the process clock in
  order and \<open>tick\<close> counts those taken. \<open>settlements\<close> is the list of commits parked until the
  outermost transaction commits.
\<close>

record 'l journal_db =
  leases :: 'l
  events :: "Entry list"
  checkpoints :: "Checkpoint list"
  status :: Status
  sequences :: "string \<rightharpoonup> int"
  sourceSequences :: "string \<rightharpoonup> int"
  sourceEvents :: "(string \<times> SourceEvent) list"
  readers :: "string \<Rightarrow> int list"
  settlements :: "(Entry \<times> int) list"
  clock :: "nat \<Rightarrow> ms"
  tick :: nat

record 'l Config =
  consensus :: "'l Service"
  rules :: "Rule list"
  sourceEventCache :: nat

type_synonym ('l, 'z, 'a) jtxn = "(('l, 'z) journal_db_scheme, Cause, 'a) txn"

definition currentTimeMillis :: "('l, 'z, ms) jtxn" where
  "currentTimeMillis = (\<lambda>s. (Inr (clock s (tick s)), s\<lparr>tick := tick s + 1\<rparr>))"

definition consensusT :: "('l, ConsensusError, 'a) txn \<Rightarrow> ('l, 'z, 'a) jtxn" where
  "consensusT m = (\<lambda>s. case m (leases s) of
      (Inl e, l) \<Rightarrow> (Inl (CConsensus e), s\<lparr>leases := l\<rparr>)
    | (Inr a, l) \<Rightarrow> (Inr a, s\<lparr>leases := l\<rparr>))"

section \<open>Allocation floors and the source-event index\<close>

definition orZero :: "int option \<Rightarrow> int" where
  "orZero x = (case x of None \<Rightarrow> 0 | Some n \<Rightarrow> n)"

definition raiseSequenceFloor :: "string \<Rightarrow> int \<Rightarrow> ('l, 'z) journal_db_scheme \<Rightarrow> ('l, 'z) journal_db_scheme" where
  "raiseSequenceFloor r n s =
     s\<lparr>sequences := (sequences s)(r \<mapsto> max (orZero (sequences s r)) (n + 1))\<rparr>"

definition raiseSourceSequenceFloor ::
  "string \<Rightarrow> string \<Rightarrow> int \<Rightarrow> ('l, 'z) journal_db_scheme \<Rightarrow> ('l, 'z) journal_db_scheme" where
  "raiseSourceSequenceFloor r src n s =
     (let key = sourceKey r src in
      s\<lparr>sourceSequences := (sourceSequences s)(key \<mapsto> max (orZero (sourceSequences s key)) (n + 1))\<rparr>)"

text \<open>\<open>Map.delete\<close> and \<open>Map.set\<close> on an insertion-ordered map, then eviction of the oldest committed entry.\<close>

fun evictFirst :: "string \<Rightarrow> (string \<times> SourceEvent) list \<Rightarrow> (string \<times> SourceEvent) list" where
  "evictFirst identity [] = []"
| "evictFirst identity ((k, e) # rest) =
     (if se_status e \<noteq> Committed \<or> k = identity then (k, e) # evictFirst identity rest else rest)"

definition retain ::
  "'l Config \<Rightarrow> string \<Rightarrow> SourceEvent \<Rightarrow> ('l, 'z) journal_db_scheme \<Rightarrow> ('l, 'z) journal_db_scheme" where
  "retain cfg identity event s =
     (let m = filter (\<lambda>(k, _). k \<noteq> identity) (sourceEvents s) @ [(identity, event)] in
      s\<lparr>sourceEvents := (if length m \<le> sourceEventCache cfg then m else evictFirst identity m)\<rparr>)"

definition rememberCommitted ::
  "'l Config \<Rightarrow> Entry \<Rightarrow> int \<Rightarrow> ('l, 'z) journal_db_scheme \<Rightarrow> ('l, 'z) journal_db_scheme" where
  "rememberCommitted cfg queued n s =
     raiseSourceSequenceFloor (runId queued) (sourceId queued) (sourceSeq queued)
       (raiseSequenceFloor (runId queued) n
         (retain cfg (sourceEventKey (runId queued) (sourceId queued) (sourceSeq queued))
           \<lparr>se_seq = n, se_eventType = eventType queued, se_payload = payload queued,
            se_meta = meta queued, se_status = Committed\<rparr> s))"

text \<open>\<open>SELECT MAX(column) + 1 ... ?? 0\<close>\<close>

definition maxPlus1 :: "int list \<Rightarrow> int" where
  "maxPlus1 ns = (case ns of [] \<Rightarrow> 0 | n # rest \<Rightarrow> foldl max n rest + 1)"

definition nextDurableSeq :: "string \<Rightarrow> Entry list \<Rightarrow> int" where
  "nextDurableSeq r evs = maxPlus1 (map seq (filter (\<lambda>e. runId e = r) evs))"

definition nextDurableSourceSeq :: "string \<Rightarrow> string \<Rightarrow> Entry list \<Rightarrow> int" where
  "nextDurableSourceSeq r src evs =
     maxPlus1 (map sourceSeq (filter (\<lambda>e. runId e = r \<and> sourceId e = src) evs))"

definition allocatable :: "int \<Rightarrow> bool" where
  "allocatable n \<longleftrightarrow> isSafeInteger n \<and> n \<ge> 0 \<and> n \<noteq> MAX_SAFE_INTEGER"

section \<open>Admission\<close>

definition prepare :: "'l Config \<Rightarrow> Input \<Rightarrow> ms \<Rightarrow> ('l, 'z, json \<times> json) jtxn" where
  "prepare cfg input now = (\<lambda>s.
     if status s \<noteq> Open then failJ Journal_closed ''journal is closed'' s
     else if \<not> (case in_sourceSeq input of None \<Rightarrow> True | Some n \<Rightarrow> isSafeInteger n \<and> n \<ge> 0)
     then failJ Invalid_event ''event violates the journal input contract'' s
     else if in_runId input = [] \<or> in_sourceId input = [] \<or> in_eventType input = []
     then failJ Invalid_event ''runId, sourceId, and eventType must not be empty'' s
     else if \<not> isSafeInteger now \<or> now < 0
     then failJ Invalid_event ''emittedAtMs must be a non-negative safe integer'' s
     else let scrub = (if isVerbatimEventType (in_eventType input) then id else redact (rules cfg)) in
       retT (scrub (in_payload input), scrub (case in_meta input of None \<Rightarrow> JNull | Some v \<Rightarrow> v)) s)"

definition fenceGuard :: "'l Config \<Rightarrow> string \<Rightarrow> OwnerId \<Rightarrow> ('l, 'z, unit) jtxn" where
  "fenceGuard cfg r w = (\<lambda>s.
     case consensusT (c_guard (consensus cfg) r w) s of
       (Inl (CConsensus e), s') \<Rightarrow>
         (Inl (if ce_code e = Fence_lost then CJournal (error Fence_lost_journal (ce_message e)) else CConsensus e), s')
     | res \<Rightarrow> res)"

definition sameContent :: "Entry \<Rightarrow> Entry \<Rightarrow> bool" where
  "sameContent row queued \<longleftrightarrow> eventType row = eventType queued \<and> payload row = payload queued \<and> meta row = meta queued"

definition sameIdentity :: "Entry \<Rightarrow> Entry \<Rightarrow> bool" where
  "sameIdentity row queued \<longleftrightarrow> eventId row = eventId queued
     \<or> (runId row = runId queued \<and> sourceId row = sourceId queued \<and> sourceSeq row = sourceSeq queued)"

definition selectExisting :: "Entry \<Rightarrow> ('l, 'z, Entry option) jtxn" where
  "selectExisting queued = (\<lambda>s.
     case sort_key seq (filter (\<lambda>row. sameIdentity row queued) (events s)) of
       [] \<Rightarrow> retT None s
     | row # _ \<Rightarrow>
         if \<not> sameContent row queued
         then failJ Idempotency_conflict
           (''source event '' @ sourceId queued @ '':'' @ show_int (sourceSeq queued) @ '' for run ''
             @ runId queued @ '' was reused with different content'') s
         else retT (Some row) s)"

definition event_check :: "Entry \<Rightarrow> bool" where
  "event_check e \<longleftrightarrow> runId e \<noteq> [] \<and> 0 \<le> seq e \<and> seq e \<le> 9007199254740991 \<and> eventId e \<noteq> []
     \<and> sourceId e \<noteq> [] \<and> 0 \<le> sourceSeq e \<and> sourceSeq e \<le> 9007199254740991
     \<and> 0 \<le> emittedAtMs e \<and> emittedAtMs e \<le> 9007199254740991 \<and> eventType e \<noteq> []"

definition conflicts :: "Entry \<Rightarrow> Entry \<Rightarrow> bool" where
  "conflicts row queued \<longleftrightarrow> sameIdentity row queued \<or> (runId row = runId queued \<and> seq row = seq queued)"

definition sequenceConflict :: "Entry \<Rightarrow> Cause" where
  "sequenceConflict queued = CJournal (error Sequence_conflict
     (''sequence '' @ show_int (seq queued) @ '' for run '' @ runId queued @ '' was committed by another writer''))"

text \<open>
  \<open>INSERT ... ON CONFLICT DO NOTHING RETURNING\<close>, then the second lookup when no row came back. The
  result is the committed row and whether this call inserted it.
\<close>

definition insertRow :: "Entry \<Rightarrow> ('l, 'z, Entry \<times> bool) jtxn" where
  "insertRow queued = (\<lambda>s.
     if \<not> event_check queued then failT CConstraint s
     else if \<not> list_ex (\<lambda>row. conflicts row queued) (events s)
     then (Inr (queued, True), s\<lparr>events := events s @ [queued]\<rparr>)
     else bindT (selectExisting queued) (\<lambda>raced. case raced of
         Some row \<Rightarrow> retT (row, False)
       | None \<Rightarrow> failT (sequenceConflict queued)) s)"

definition insertOne :: "'l Config \<Rightarrow> Entry \<Rightarrow> OwnerId option \<Rightarrow> ('l, 'z, Entry \<times> bool) jtxn" where
  "insertOne cfg queued owner =
     bindT (case owner of None \<Rightarrow> retT () | Some w \<Rightarrow> fenceGuard cfg (runId queued) w) (\<lambda>_.
     bindT (selectExisting queued) (\<lambda>duplicate. case duplicate of
       Some row \<Rightarrow> retT (row, False)
     | None \<Rightarrow> insertRow queued))"

definition rangeError :: "('s, Cause, 'a) txn" where
  "rangeError = failJ Invalid_event ''journal sequence is outside the allocatable safe integer range''"

definition allocateEntry :: "Input \<Rightarrow> json \<times> json \<Rightarrow> ms \<Rightarrow> ('l, 'z, Entry) jtxn" where
  "allocateEntry input pm now = (\<lambda>s.
     let r = in_runId input; src = in_sourceId input;
         ssq = (case in_sourceSeq input of Some n \<Rightarrow> n
                | None \<Rightarrow> max (nextDurableSourceSeq r src (events s)) (orZero (sourceSequences s (sourceKey r src)))) in
     if \<not> allocatable ssq then rangeError s
     else let sq = max (nextDurableSeq r (events s)) (orZero (sequences s r)) in
       if \<not> isSafeInteger sq \<or> sq = MAX_SAFE_INTEGER then rangeError s
       else retT \<lparr>runId = r, seq = sq, eventId = makeEventId r src ssq, sourceId = src, sourceSeq = ssq,
                  emittedAtMs = now, eventType = in_eventType input, payload = fst pm, meta = snd pm\<rparr>
              (raiseSourceSequenceFloor r src ssq (raiseSequenceFloor r sq s)))"

definition mapError :: "(Cause \<Rightarrow> Cause) \<Rightarrow> ('s, Cause, 'a) txn \<Rightarrow> ('s, Cause, 'a) txn" where
  "mapError f m = (\<lambda>s. case m s of (Inl e, s') \<Rightarrow> (Inl (f e), s') | (Inr a, s') \<Rightarrow> (Inr a, s'))"

definition asJournalError :: "string \<Rightarrow> Cause \<Rightarrow> Cause" where
  "asJournalError message cause = (if isJournalError cause then cause else CSink message cause)"

text \<open>
  \<open>emitDurable\<close> inside an open \<open>transact\<close>: the append is part of the caller's transaction and its
  settlement is parked.
\<close>

definition emitDurable :: "'l Config \<Rightarrow> Input \<Rightarrow> OwnerId option \<Rightarrow> ('l, 'z, EmitReceipt) jtxn" where
  "emitDurable cfg input owner =
     bindT currentTimeMillis (\<lambda>now.
     bindT (prepare cfg input now) (\<lambda>pm.
     mapError (asJournalError ''durable journal write failed'')
       (bindT (allocateEntry input pm now) (\<lambda>queued.
        bindT (insertOne cfg queued owner) (\<lambda>(entry, inserted). (\<lambda>s.
          (Inr (if inserted then Accepted (seq entry) (sourceSeq queued)
                else Duplicate (seq entry) (sourceSeq queued) Committed),
           s\<lparr>settlements := settlements s @ [(queued, seq entry)]\<rparr>)))))))"

section \<open>Transactions\<close>

text \<open>What a failed transaction leaves: the tables as they were, process memory as it is.\<close>

definition rollback ::
  "'l Config \<Rightarrow> ('l, 'z) journal_db_scheme \<Rightarrow> ('l, 'z) journal_db_scheme \<Rightarrow> ('l, 'z) journal_db_scheme" where
  "rollback cfg before after =
     journal_db.more_update (\<lambda>_. journal_db.more before)
       (after\<lparr>leases := c_rollback (consensus cfg) (leases before) (leases after),
              events := events before, checkpoints := checkpoints before, settlements := []\<rparr>)"

definition settleAll :: "'l Config \<Rightarrow> ('l, 'z) journal_db_scheme \<Rightarrow> ('l, 'z) journal_db_scheme" where
  "settleAll cfg s =
     (foldl (\<lambda>t (queued, n). rememberCommitted cfg queued n t) s (settlements s))\<lparr>settlements := []\<rparr>"

fun wrapDatabaseError :: "string \<Rightarrow> Cause \<Rightarrow> Cause" where
  "wrapDatabaseError message CConstraint = CSink message CConstraint"
| "wrapDatabaseError message cause = cause"

definition transact :: "'l Config \<Rightarrow> ('l, 'z, 'a) jtxn \<Rightarrow> ('l, 'z, 'a) jtxn" where
  "transact cfg body = (\<lambda>s.
     case body (s\<lparr>settlements := []\<rparr>) of
       (Inl e, s') \<Rightarrow> (Inl (wrapDatabaseError ''journal transaction failed'' e), rollback cfg s s')
     | (Inr a, s') \<Rightarrow> (Inr a, settleAll cfg s'))"

text \<open>\<open>emitDurable\<close> with no enclosing transaction opens its own and settles when it returns.\<close>

definition emitDurableAlone :: "'l Config \<Rightarrow> Input \<Rightarrow> OwnerId option \<Rightarrow> ('l, 'z, EmitReceipt) jtxn" where
  "emitDurableAlone cfg input owner = (\<lambda>s.
     case emitDurable cfg input owner (s\<lparr>settlements := []\<rparr>) of
       (Inl e, s') \<Rightarrow> (Inl e, rollback cfg s s')
     | (Inr a, s') \<Rightarrow> (Inr a, settleAll cfg s'))"

section \<open>Reads\<close>

record PageOptions =
  po_runId :: string
  po_after :: "int option"
  po_limit :: int

record EntriesPage =
  entries :: "Entry list"
  hasMore :: bool

definition maxOpt :: "int list \<Rightarrow> int option" where
  "maxOpt ns = (case ns of [] \<Rightarrow> None | n # rest \<Rightarrow> Some (foldl max n rest))"

definition compactionFloor :: "string \<Rightarrow> Checkpoint list \<Rightarrow> int option" where
  "compactionFloor r cps = maxOpt (map cp_seq (filter (\<lambda>c. cp_runId c = r \<and> cp_compactedAtMs c \<noteq> None) cps))"

definition rowsAfter :: "string \<Rightarrow> int \<Rightarrow> Entry list \<Rightarrow> Entry list" where
  "rowsAfter r after evs = sort_key seq (filter (\<lambda>e. runId e = r \<and> seq e > after) evs)"

definition compactedError :: "string \<Rightarrow> int \<Rightarrow> JournalError" where
  "compactedError r floor =
     \<lparr>je_code = Compacted,
      je_message = ''run '' @ r @ '' is compacted through sequence '' @ show_int floor
        @ ''; resync from its checkpoint'',
      je_checkpointSeq = Some floor\<rparr>"

definition readPage :: "PageOptions \<Rightarrow> ('l, 'z, EntriesPage) jtxn" where
  "readPage opts = (\<lambda>s.
     if po_runId opts = [] then failJ Invalid_event ''runId must not be empty'' s
     else if \<not> isSafeInteger (po_limit opts) \<or> po_limit opts \<le> 0
     then failJ Invalid_event ''limit must be a positive safe integer'' s
     else let after = (case po_after opts of None \<Rightarrow> -1 | Some n \<Rightarrow> n) in
       if \<not> isSafeInteger after \<or> after < -1
       then failJ Invalid_event ''after must be a canonical sequence or undefined'' s
       else let rows = take (nat (po_limit opts + 1)) (rowsAfter (po_runId opts) after (events s)) in
         case compactionFloor (po_runId opts) (checkpoints s) of
           Some floor \<Rightarrow>
             if after < floor - 1 then failT (CJournal (compactedError (po_runId opts) floor)) s
             else retT \<lparr>entries = take (nat (po_limit opts)) rows, hasMore = int (length rows) > po_limit opts\<rparr> s
         | None \<Rightarrow>
             retT \<lparr>entries = take (nat (po_limit opts)) rows, hasMore = int (length rows) > po_limit opts\<rparr> s)"

definition runs :: "('l, 'z, string list) jtxn" where
  "runs = (\<lambda>s. retT (sort (remdups (map runId (events s)))) s)"

lemma rowsAfter_set [simp]: "set (rowsAfter r a evs) = {e \<in> set evs. runId e = r \<and> seq e > a}"
  by (auto simp: rowsAfter_def)

lemma readPage_Inr:
  assumes "readPage opts s = (Inr page, s')"
  shows "s' = s \<and> po_limit opts > 0 \<and>
    (let rows = rowsAfter (po_runId opts) (case po_after opts of None \<Rightarrow> -1 | Some n \<Rightarrow> n) (events s);
         n = nat (po_limit opts) in
     entries page = take n rows \<and> (hasMore page \<longleftrightarrow> length rows > n))"
  using assms by (auto simp: readPage_def Let_def min_def split: if_splits option.splits)

lemma filter_length_less:
  assumes "\<And>x. Q x \<Longrightarrow> P x" "a \<in> set xs" "P a" "\<not> Q a"
  shows "length (filter Q xs) < length (filter P xs)"
  using assms(2)
proof (induction xs)
  case (Cons x xs)
  have "length (filter Q xs) \<le> length (filter P xs)"
    using assms(1) by (induction xs) (auto simp: le_SucI)
  then show ?case using Cons assms by (cases "x = a") (auto simp: less_Suc_eq_le)
qed simp

lemma readPage_progress:
  assumes "readPage \<lparr>po_runId = r, po_after = (if cursor < 0 then None else Some cursor), po_limit = b\<rparr> s = (Inr page, s')"
    and "hasMore page"
  shows "entries page \<noteq> [] \<and> length (filter (\<lambda>e. runId e = r \<and> seq e > max (seq (last (entries page))) (-1)) (events s))
       < length (filter (\<lambda>e. runId e = r \<and> seq e > max cursor (-1)) (events s))"
proof -
  let ?rows = "rowsAfter r (max cursor (-1)) (events s)"
  have "(case if cursor < 0 then None else Some cursor of None \<Rightarrow> - 1 | Some n \<Rightarrow> n) = max cursor (-1)" by auto
  with readPage_Inr [OF assms(1)] have page: "entries page = take (nat b) ?rows" "b > 0"
    "hasMore page \<longleftrightarrow> length ?rows > nat b"
    by (auto simp: Let_def)
  then have ne: "entries page \<noteq> []" using assms(2) by (cases ?rows) auto
  then have "last (entries page) \<in> set ?rows" using page(1) by (metis in_set_takeD last_in_set)
  with ne show ?thesis
    by (intro conjI filter_length_less [where a = "last (entries page)"]) auto
qed

text \<open>
  The read loop of a stream: pages of \<open>batchSize\<close> entries until one says there is no more, the
  cursor moving to the last entry read. The result is the entries and the new cursor.
\<close>

function readAvailable :: "string \<Rightarrow> int \<Rightarrow> int \<Rightarrow> ('l, 'z) journal_db_scheme \<Rightarrow> Cause + (Entry list \<times> int)" where
  "readAvailable r batchSize cursor s =
     (case readPage \<lparr>po_runId = r, po_after = (if cursor < 0 then None else Some cursor), po_limit = batchSize\<rparr> s of
        (Inl e, _) \<Rightarrow> Inl e
      | (Inr page, _) \<Rightarrow>
          let cursor' = (if entries page = [] then cursor else seq (last (entries page))) in
          if \<not> hasMore page then Inr (entries page, cursor')
          else case readAvailable r batchSize cursor' s of
            Inl e \<Rightarrow> Inl e
          | Inr (rest, final) \<Rightarrow> Inr (entries page @ rest, final))"
  by pat_completeness auto

termination
proof (relation "measure (\<lambda>(r, b, cursor, s). length (filter (\<lambda>e. runId e = r \<and> seq e > max cursor (-1)) (events s)))")
qed (auto dest!: sym [where s = "(_, _)"] readPage_progress)

declare readAvailable.simps [simp del]

section \<open>Checkpoints and compaction\<close>

text \<open>A write of the journal that is not part of a caller's transaction.\<close>

definition writeJ :: "'l Config \<Rightarrow> string \<Rightarrow> ('l, 'z, 'a) jtxn \<Rightarrow> ('l, 'z, 'a) jtxn" where
  "writeJ cfg message body = (\<lambda>s.
     case body s of
       (Inl e, s') \<Rightarrow> (Inl (asJournalError message e), (rollback cfg s s')\<lparr>settlements := settlements s\<rparr>)
     | (Inr a, s') \<Rightarrow> (Inr a, s'))"

definition guardOpt :: "'l Config \<Rightarrow> string \<Rightarrow> OwnerId option \<Rightarrow> ('l, 'z, unit) jtxn" where
  "guardOpt cfg r owner = (case owner of None \<Rightarrow> retT () | Some w \<Rightarrow> fenceGuard cfg r w)"

text \<open>\<open>INSERT ... ON CONFLICT (run_id, seq) DO UPDATE\<close>: a rewritten checkpoint keeps its compaction mark.\<close>

definition putCheckpoint :: "string \<Rightarrow> int \<Rightarrow> json \<Rightarrow> ms \<Rightarrow> ('l, 'z, Checkpoint) jtxn" where
  "putCheckpoint r n st now = (\<lambda>s.
     if \<not> (0 \<le> now \<and> now \<le> 9007199254740991) then failT CConstraint s
     else let fresh = \<lparr>cp_runId = r, cp_seq = n, cp_state = st, cp_createdAtMs = now, cp_compactedAtMs = None\<rparr> in
       (Inr fresh,
        s\<lparr>checkpoints :=
            (if list_ex (\<lambda>c. cp_runId c = r \<and> cp_seq c = n) (checkpoints s)
             then map (\<lambda>c. if cp_runId c = r \<and> cp_seq c = n
                           then c\<lparr>cp_state := st, cp_createdAtMs := now\<rparr> else c) (checkpoints s)
             else checkpoints s @ [fresh])\<rparr>))"

definition checkpoint :: "'l Config \<Rightarrow> string \<Rightarrow> int \<Rightarrow> json \<Rightarrow> OwnerId option \<Rightarrow> ('l, 'z, Checkpoint) jtxn" where
  "checkpoint cfg r n st owner = (\<lambda>s.
     if r = [] then failJ Invalid_event ''runId must not be empty'' s
     else if \<not> isSafeInteger n \<or> n < 0 then failJ Invalid_event ''seq must be a canonical committed sequence'' s
     else bindT currentTimeMillis (\<lambda>now.
       writeJ cfg ''durable checkpoint write failed''
        (bindT (guardOpt cfg r owner) (\<lambda>_. (\<lambda>s.
          if \<not> list_ex (\<lambda>e. runId e = r \<and> seq e = n) (events s)
          then failJ Checkpoint_invalid
            (''checkpoint sequence '' @ show_int n @ '' names no committed entry of run '' @ r) s
          else case compactionFloor r (checkpoints s) of
            Some floor \<Rightarrow>
              if n \<le> floor
              then failT (CJournal \<lparr>je_code = Checkpoint_invalid,
                     je_message = ''run '' @ r @ '' is already compacted through sequence '' @ show_int floor,
                     je_checkpointSeq = Some floor\<rparr>) s
              else putCheckpoint r n st now s
          | None \<Rightarrow> putCheckpoint r n st now s)))) s)"

definition newest :: "Checkpoint list \<Rightarrow> Checkpoint option" where
  "newest cps = hd_opt (rev (sort_key cp_seq cps))"

definition latestCheckpoint :: "string \<Rightarrow> ('l, 'z, Checkpoint option) jtxn" where
  "latestCheckpoint r = (\<lambda>s.
     if r = [] then failJ Invalid_event ''runId must not be empty'' s
     else retT (newest (filter (\<lambda>c. cp_runId c = r) (checkpoints s))) s)"

text \<open>\<open>event_type LIKE 'prefix%'\<close>: SQLite's LIKE ignores the case of ASCII letters.\<close>

definition likePrefix :: "string \<Rightarrow> string \<Rightarrow> bool" where
  "likePrefix p t = prefix p (toLowerCase t)"

definition isFoldHistory :: "string \<Rightarrow> bool" where
  "isFoldHistory t \<longleftrightarrow> likePrefix ''flows.run.'' t \<or> likePrefix ''flows.attempt.'' t"

record CompactedResult =
  ck_runId :: string
  ck_checkpointSeq :: int
  ck_deleted :: nat

definition behindError :: "string \<Rightarrow> int \<Rightarrow> Cause" where
  "behindError message n =
     CJournal \<lparr>je_code = Reader_behind, je_message = message, je_checkpointSeq = Some n\<rparr>"

definition truncateBelow :: "string \<Rightarrow> int \<Rightarrow> ms \<Rightarrow> ('l, 'z, CompactedResult) jtxn" where
  "truncateBelow r n now = (\<lambda>s.
     let doomed = length (filter (\<lambda>e. runId e = r \<and> seq e < n) (events s)) in
     if \<not> (0 \<le> now \<and> now \<le> 9007199254740991) then failT CConstraint s
     else
     (Inr \<lparr>ck_runId = r, ck_checkpointSeq = n, ck_deleted = doomed\<rparr>,
      s\<lparr>events := filter (\<lambda>e. \<not> (runId e = r \<and> seq e < n)) (events s),
        checkpoints := map (\<lambda>c. if cp_runId c = r \<and> cp_seq c = n then c\<lparr>cp_compactedAtMs := Some now\<rparr> else c)
          (filter (\<lambda>c. \<not> (cp_runId c = r \<and> cp_seq c < n)) (checkpoints s))\<rparr>))"

definition checkpointRow :: "string \<Rightarrow> int option \<Rightarrow> Checkpoint list \<Rightarrow> Checkpoint option" where
  "checkpointRow r upTo cps =
     (case upTo of None \<Rightarrow> newest (filter (\<lambda>c. cp_runId c = r) cps)
      | Some u \<Rightarrow> find (\<lambda>c. cp_runId c = r \<and> cp_seq c = u) cps)"

definition noCheckpoint :: "string \<Rightarrow> int option \<Rightarrow> Cause" where
  "noCheckpoint r upTo = CJournal (error Checkpoint_invalid
     (''run '' @ r @ '' has no checkpoint''
       @ (case upTo of None \<Rightarrow> [] | Some u \<Rightarrow> '' at sequence '' @ show_int u) @ '' to compact to''))"

text \<open>The refusals of a compaction to checkpoint \<open>n\<close>: a live reader below it, or fold history without its snapshot.\<close>

definition readerBehind :: "string \<Rightarrow> int \<Rightarrow> ('l, 'z) journal_db_scheme \<Rightarrow> bool" where
  "readerBehind r n s = list_ex (\<lambda>cursor. cursor < n - 1) (readers s r)"

definition foldBehind :: "string \<Rightarrow> int \<Rightarrow> Entry list \<Rightarrow> bool" where
  "foldBehind r n evs \<longleftrightarrow>
     list_ex (\<lambda>e. runId e = r \<and> seq e < n \<and> isFoldHistory (eventType e)) evs
     \<and> \<not> list_ex (\<lambda>e. runId e = r \<and> seq e \<ge> n \<and> eventType e = ''flows.run.snapshot'') evs"

definition compactTo :: "string \<Rightarrow> Checkpoint \<Rightarrow> ms \<Rightarrow> ('l, 'z, CompactedResult) jtxn" where
  "compactTo r row now = (\<lambda>s.
     let n = cp_seq row in
     if cp_compactedAtMs row \<noteq> None
     then retT \<lparr>ck_runId = r, ck_checkpointSeq = n, ck_deleted = 0\<rparr> s
     else if readerBehind r n s
     then failT (behindError (''a live stream of run '' @ r
            @ '' still needs sequences below checkpoint '' @ show_int n) n) s
     else if foldBehind r n (events s)
     then failT (behindError (''the run/attempt fold of run '' @ r
            @ '' still needs sequences below checkpoint '' @ show_int n
            @ ''; append a flows.run.snapshot at or after it before compacting'') n) s
     else truncateBelow r n now s)"

definition compact :: "'l Config \<Rightarrow> string \<Rightarrow> int option \<Rightarrow> OwnerId option \<Rightarrow> ('l, 'z, CompactedResult) jtxn" where
  "compact cfg r upTo owner = (\<lambda>s.
     if r = [] then failJ Invalid_event ''runId must not be empty'' s
     else bindT currentTimeMillis (\<lambda>now.
       writeJ cfg ''journal compaction failed''
        (bindT (guardOpt cfg r owner) (\<lambda>_. (\<lambda>s.
          case checkpointRow r upTo (checkpoints s) of
            None \<Rightarrow> failT (noCheckpoint r upTo) s
          | Some row \<Rightarrow> compactTo r row now s)))) s)"

section \<open>Identifiers and floors\<close>

lemma sourceKey_lengthPrefixed: "sourceKey r src = lengthPrefixed r @ lengthPrefixed src"
  by (simp add: sourceKey_def lengthPrefixed_def)

lemma makeEventId_lengthPrefixed:
  "makeEventId r src n = ''flows:event:'' @ lengthPrefixed r @ lengthPrefixed src @ show_int n"
  by (simp add: makeEventId_def lengthPrefixed_def)

lemma sourceKey_inject: "sourceKey r src = sourceKey r' src' \<longleftrightarrow> r = r' \<and> src = src'"
  unfolding sourceKey_lengthPrefixed
  by (metis append_Nil2 lengthPrefixed_append_inject)

lemma makeEventId_inject:
  "makeEventId r src n = makeEventId r' src' n' \<longleftrightarrow> r = r' \<and> src = src' \<and> n = n'"
  unfolding makeEventId_lengthPrefixed
  by (auto dest!: lengthPrefixed_append_inject)

lemma makeEventId_not_fork: "\<not> prefix ''fork:'' (makeEventId r src n)"
  by (simp add: makeEventId_def)

lemma foldl_max: "foldl max n ns = Max (set (n # ns))" for n :: int
proof (induction ns arbitrary: n)
  case (Cons a ns)
  then show ?case by (cases "set ns = {}") (auto simp: Max_insert max.assoc)
qed simp

lemma maxPlus1_greater: "n \<in> set ns \<Longrightarrow> n < maxPlus1 ns"
  by (cases ns) (auto simp: maxPlus1_def foldl_max)

lemma maxPlus1_nonneg: "\<forall>n \<in> set ns. 0 \<le> n \<Longrightarrow> 0 \<le> maxPlus1 ns"
  using maxPlus1_greater [of "hd ns" ns] by (cases ns) (auto simp: maxPlus1_def)

lemma maxPlus1_eqI:
  assumes "set ns \<subseteq> set ms" "\<forall>m \<in> set ms. \<exists>n \<in> set ns. m \<le> n"
  shows "maxPlus1 ns = maxPlus1 ms"
proof (cases "ms = []")
  case False
  then have "ns \<noteq> []" using assms(2) by (cases ms) auto
  have "Max (set ns) = Max (set ms)"
    using assms False by (intro Max_eq_if) auto
  with False \<open>ns \<noteq> []\<close> show ?thesis by (cases ns; cases ms) (auto simp: maxPlus1_def foldl_max)
qed (use assms in auto)

section \<open>Well-formed journals\<close>

text \<open>
  The invariant of the event table: in insertion order the sequences of each run rise strictly, no
  two rows share an identity, and a row's id is the one its triple mints unless a fork copied it.
\<close>

definition ordered :: "Entry list \<Rightarrow> bool" where
  "ordered = sorted_wrt (\<lambda>a b. runId a = runId b \<longrightarrow> seq a < seq b)"

definition evs_ok :: "Entry list \<Rightarrow> bool" where
  "evs_ok evs \<longleftrightarrow> ordered evs \<and> sorted_wrt (\<lambda>a b. \<not> sameIdentity a b) evs
     \<and> (\<forall>e \<in> set evs. event_check e
          \<and> (eventId e = makeEventId (runId e) (sourceId e) (sourceSeq e) \<or> prefix ''fork:'' (eventId e)))"

text \<open>
  Every checkpoint still has its own entry, nothing lies below a compacted one, and checkpoints are
  keyed by run and sequence.
\<close>

definition cp_good :: "Entry list \<Rightarrow> Checkpoint \<Rightarrow> bool" where
  "cp_good evs c \<longleftrightarrow> (\<exists>e \<in> set evs. runId e = cp_runId c \<and> seq e = cp_seq c)
     \<and> (cp_compactedAtMs c \<noteq> None \<longrightarrow> (\<forall>e \<in> set evs. runId e = cp_runId c \<longrightarrow> cp_seq c \<le> seq e))"

abbreviation cp_key :: "Checkpoint \<Rightarrow> string \<times> int" where
  "cp_key c \<equiv> (cp_runId c, cp_seq c)"

definition cps_ok :: "Entry list \<Rightarrow> Checkpoint list \<Rightarrow> bool" where
  "cps_ok evs cps \<longleftrightarrow> distinct (map cp_key cps) \<and> (\<forall>c \<in> set cps. cp_good evs c)"

lemma ordered_snoc:
  "ordered (evs @ [e]) \<longleftrightarrow> ordered evs \<and> (\<forall>x \<in> set evs. runId x = runId e \<longrightarrow> seq x < seq e)"
  by (auto simp: ordered_def sorted_wrt_append)

lemma ordered_filter: "ordered evs \<Longrightarrow> ordered (filter P evs)"
  by (simp add: ordered_def sorted_wrt_filter)

lemma evs_ok_filter: "evs_ok evs \<Longrightarrow> evs_ok (filter P evs)"
  by (auto simp: evs_ok_def ordered_filter sorted_wrt_filter)

lemma ordered_run_sorted: "ordered evs \<Longrightarrow> sorted_wrt (<) (map seq (filter (\<lambda>e. runId e = r) evs))"
proof -
  assume "ordered evs"
  then have "sorted_wrt (\<lambda>a b. runId a = runId b \<longrightarrow> seq a < seq b) (filter (\<lambda>e. runId e = r) evs)"
    by (simp add: ordered_def sorted_wrt_filter)
  then have "sorted_wrt (\<lambda>a b. seq a < seq b) (filter (\<lambda>e. runId e = r) evs)"
    by (rule sorted_wrt_mono_rel [rotated]) auto
  then show ?thesis by (simp add: sorted_wrt_map)
qed

text \<open>On a well-formed table ORDER BY seq returns a run's rows in insertion order.\<close>

lemma rowsAfter_ordered:
  assumes "ordered evs"
  shows "rowsAfter r a evs = filter (\<lambda>e. runId e = r \<and> seq e > a) evs"
proof -
  have "sorted_wrt (<) (map seq (filter (\<lambda>e. runId e = r) (filter (\<lambda>e. seq e > a) evs)))"
    by (intro ordered_run_sorted ordered_filter assms)
  moreover have "filter (\<lambda>e. runId e = r) (filter (\<lambda>e. seq e > a) evs) = filter (\<lambda>e. runId e = r \<and> seq e > a) evs"
    by (simp add: conj_commute)
  ultimately have "sorted (map seq (filter (\<lambda>e. runId e = r \<and> seq e > a) evs))"
    by (metis strict_sorted_imp_sorted)
  then show ?thesis by (simp add: rowsAfter_def sort_key_id_if_sorted)
qed

end
