(* ===== verification/SqlConsensus.thy ===== *)
theory SqlConsensus
  imports Consensus
begin

text \<open>
  The database-backed strategy (\<^verbatim>\<open>packages/journal/src/SqlConsensus.ts\<close>) over the table
  \<open>flows_consensus_leases\<close> with the nullable columns and CHECK constraints its migration declares
  (\<^verbatim>\<open>packages/journal/src/migrations/0003_consensus.ts\<close>). The table is shown to be an encoding of
  the in-memory strategy's map, and every statement to commute with that encoding, so the database
  strategy meets the contract of \<open>consensus_strategy\<close> and answers exactly as the in-memory one.
\<close>

section \<open>The lease table\<close>

record LeaseRow =
  owner_host_id :: "string option"
  owner_pid :: "int option"
  owner_nonce :: "string option"
  granted_at_ms :: "ms option"
  heartbeat_at_ms :: "ms option"
  claim_host_id :: "string option"
  claim_pid :: "int option"
  claim_nonce :: "string option"
  claimed_at_ms :: "ms option"

type_synonym lease_table = "string \<rightharpoonup> LeaseRow"

definition emptyLeaseRow :: LeaseRow where
  "emptyLeaseRow =
     \<lparr>owner_host_id = None, owner_pid = None, owner_nonce = None, granted_at_ms = None,
      heartbeat_at_ms = None, claim_host_id = None, claim_pid = None, claim_nonce = None,
      claimed_at_ms = None\<rparr>"

definition lease_check :: "string \<Rightarrow> LeaseRow \<Rightarrow> bool" where
  "lease_check runId row \<longleftrightarrow> length runId > 0
     \<and> (case granted_at_ms row of None \<Rightarrow> True | Some t \<Rightarrow> t \<ge> 0)
     \<and> (case heartbeat_at_ms row of None \<Rightarrow> True | Some t \<Rightarrow> t \<ge> 0)
     \<and> (case claimed_at_ms row of None \<Rightarrow> True | Some t \<Rightarrow> t \<ge> 0)"

definition strategyError :: ConsensusError where
  "strategyError = \<lparr>ce_code = Persistence_failed, ce_message = ''consensus lease operation failed''\<rparr>"

text \<open>A row write that violates a CHECK fails the statement and changes nothing.\<close>

definition putLease :: "string \<Rightarrow> LeaseRow \<Rightarrow> (lease_table, ConsensusError, unit) txn" where
  "putLease runId row = (\<lambda>t.
     if lease_check runId row then (Inr (), t(runId \<mapsto> row)) else (Inl strategyError, t))"

definition setClaim :: "OwnerId \<Rightarrow> ms \<Rightarrow> LeaseRow \<Rightarrow> LeaseRow" where
  "setClaim w t row = row\<lparr>claim_host_id := Some (hostId w), claim_pid := Some (pid w),
     claim_nonce := Some (nonce w), claimed_at_ms := Some t\<rparr>"

definition clearClaim :: "LeaseRow \<Rightarrow> LeaseRow" where
  "clearClaim row = row\<lparr>claim_host_id := None, claim_pid := None, claim_nonce := None, claimed_at_ms := None\<rparr>"

definition clearOwner :: "LeaseRow \<Rightarrow> LeaseRow" where
  "clearOwner row = row\<lparr>owner_host_id := None, owner_pid := None, owner_nonce := None,
     granted_at_ms := None, heartbeat_at_ms := None\<rparr>"

definition ownerIs :: "OwnerId \<Rightarrow> LeaseRow \<Rightarrow> bool" where
  "ownerIs w row \<longleftrightarrow> owner_host_id row = Some (hostId w) \<and> owner_pid row = Some (pid w)
     \<and> owner_nonce row = Some (nonce w)"

definition claimIs :: "OwnerId \<Rightarrow> LeaseRow \<Rightarrow> bool" where
  "claimIs w row \<longleftrightarrow> claim_host_id row = Some (hostId w) \<and> claim_pid row = Some (pid w)
     \<and> claim_nonce row = Some (nonce w)"

text \<open>\<open>column < value\<close> in a WHERE clause: NULL is not less than anything.\<close>

fun sqlLess :: "ms option \<Rightarrow> ms \<Rightarrow> bool" where
  "sqlLess None _ = False"
| "sqlLess (Some a) b = (a < b)"

definition sql_prune :: "string \<Rightarrow> (lease_table, ConsensusError, unit) txn" where
  "sql_prune runId = (\<lambda>t.
     case t runId of None \<Rightarrow> (Inr (), t)
     | Some row \<Rightarrow>
         if owner_host_id row = None \<and> claim_host_id row = None then (Inr (), t(runId := None))
         else (Inr (), t))"

section \<open>Operations\<close>

definition sql_claim ::
  "string \<Rightarrow> OwnerId \<Rightarrow> ms \<Rightarrow> (lease_table, ConsensusError, ClaimOutcome) txn" where
  "sql_claim runId claimant nowMs = (\<lambda>t.
     let excluded = setClaim claimant nowMs emptyLeaseRow in
     if \<not> lease_check runId excluded then (Inl strategyError, t)
     else case t runId of
       None \<Rightarrow> bindT (putLease runId excluded) (\<lambda>_. retT (Claimed nowMs)) t
     | Some row \<Rightarrow>
         if claim_host_id row = None \<and> owner_host_id row = None
         then bindT (putLease runId (setClaim claimant nowMs row)) (\<lambda>_. retT (Claimed nowMs)) t
         else if claim_host_id row \<noteq> None then (Inr (Rejected Already_claimed), t)
         else (Inr (Rejected Owner_held), t))"

definition sql_activate ::
  "string \<Rightarrow> OwnerId \<Rightarrow> ms \<Rightarrow> ms \<Rightarrow> (lease_table, ConsensusError, ActivateOutcome) txn" where
  "sql_activate runId owner grantedAtMs nowMs = (\<lambda>t.
     case t runId of None \<Rightarrow> (Inr ActivateLost, t)
     | Some row \<Rightarrow>
         if claimIs owner row \<and> claimed_at_ms row = Some grantedAtMs
         then bindT (putLease runId ((clearClaim row)
                \<lparr>owner_host_id := Some (hostId owner), owner_pid := Some (pid owner),
                 owner_nonce := Some (nonce owner), granted_at_ms := Some grantedAtMs,
                 heartbeat_at_ms := Some nowMs\<rparr>))
                (\<lambda>_. retT Activated) t
         else (Inr ActivateLost, t))"

definition sql_heartbeat ::
  "string \<Rightarrow> OwnerId \<Rightarrow> ms \<Rightarrow> (lease_table, ConsensusError, HeartbeatOutcome) txn" where
  "sql_heartbeat runId owner nowMs = (\<lambda>t.
     case t runId of None \<Rightarrow> (Inr HeartbeatLost, t)
     | Some row \<Rightarrow>
         if ownerIs owner row
         then let h = map_option (\<lambda>b. max b nowMs) (heartbeat_at_ms row) in
           bindT (putLease runId (row\<lparr>heartbeat_at_ms := h\<rparr>))
             (\<lambda>_. retT (Renewed (case h of None \<Rightarrow> 0 | Some b \<Rightarrow> b))) t
         else (Inr HeartbeatLost, t))"

definition sql_release :: "string \<Rightarrow> OwnerId \<Rightarrow> (lease_table, ConsensusError, unit) txn" where
  "sql_release runId owner = (\<lambda>t.
     let t1 = (case t runId of None \<Rightarrow> t
               | Some row \<Rightarrow> if claimIs owner row then t(runId \<mapsto> clearClaim row) else t);
         t2 = (case t1 runId of None \<Rightarrow> t1
               | Some row \<Rightarrow> if ownerIs owner row then t1(runId \<mapsto> clearOwner row) else t1)
     in sql_prune runId t2)"

definition sql_steal ::
  "legacy_runs \<Rightarrow> string \<Rightarrow> OwnerId \<Rightarrow> ms \<Rightarrow> LivenessEvidence
     \<Rightarrow> (lease_table, ConsensusError, ClaimOutcome) txn" where
  "sql_steal tbl runId claimant nowMs evidence = (\<lambda>t.
     if \<not> matchesEvidence (expectedOwner evidence) claimant nowMs evidence
     then (Inr (Rejected Evidence_invalid), t)
     else case t runId of
       None \<Rightarrow>
         if \<not> legacyStaleOwner tbl runId (expectedOwner evidence) nowMs
         then (Inr (Rejected Evidence_invalid), t)
         else bindT (putLease runId (setClaim claimant nowMs emptyLeaseRow)) (\<lambda>_. retT (Claimed nowMs)) t
     | Some row \<Rightarrow>
         if ownerIs (expectedOwner evidence) row
            \<and> sqlLess (heartbeat_at_ms row) (nowMs - staleAfterMs) \<and> claim_host_id row = None
         then bindT (putLease runId (setClaim claimant nowMs row)) (\<lambda>_. retT (Claimed nowMs)) t
         else if claim_host_id row \<noteq> None then (Inr (Rejected Already_claimed), t)
         else if \<not> ownerIs (expectedOwner evidence) row then (Inr (Rejected Evidence_invalid), t)
         else (Inr (Rejected Owner_live), t))"

definition sql_recover ::
  "legacy_runs \<Rightarrow> string \<Rightarrow> OwnerId \<Rightarrow> ms \<Rightarrow> OwnerId \<Rightarrow> ms \<Rightarrow> LivenessEvidence
     \<Rightarrow> (lease_table, ConsensusError, RecoverOutcome) txn" where
  "sql_recover tbl runId staleClaimant grantedAtMs observer nowMs evidence = (\<lambda>t.
     if \<not> matchesEvidence staleClaimant observer nowMs evidence
     then (Inr (RecoverRejected Evidence_invalid), t)
     else case t runId of
       None \<Rightarrow>
         (case legacyClaimState tbl runId staleClaimant grantedAtMs nowMs of
            LegacyStale \<Rightarrow> (Inr Recovered, t)
          | LegacyFresh \<Rightarrow> (Inr (RecoverRejected Claim_fresh), t)
          | LegacyMissing \<Rightarrow> (Inr (RecoverRejected Claim_changed), t))
     | Some row \<Rightarrow>
         if claimIs staleClaimant row \<and> claimed_at_ms row = Some grantedAtMs
            \<and> sqlLess (claimed_at_ms row) (nowMs - staleAfterMs)
         then bindT (putLease runId (clearClaim row))
                (\<lambda>_. bindT (sql_prune runId) (\<lambda>_. retT Recovered)) t
         else if claimIs staleClaimant row \<and> claimed_at_ms row = Some grantedAtMs
         then (Inr (RecoverRejected Claim_fresh), t)
         else (Inr (RecoverRejected Claim_changed), t))"

definition sql_guard :: "string \<Rightarrow> OwnerId \<Rightarrow> (lease_table, ConsensusError, unit) txn" where
  "sql_guard runId owner = (\<lambda>t.
     case t runId of None \<Rightarrow> (Inl (fenceLost runId owner), t)
     | Some row \<Rightarrow> if ownerIs owner row then (Inr (), t) else (Inl (fenceLost runId owner), t))"

definition makeSql :: "lease_table Service" where
  "makeSql =
     \<lparr>c_claim = sql_claim, c_activate = sql_activate, c_heartbeat = sql_heartbeat,
      c_release = sql_release, c_steal = sql_steal, c_recover = sql_recover,
      c_guard = sql_guard, c_rollback = (\<lambda>before after. before)\<rparr>"

section \<open>The table encodes the in-memory leases\<close>

definition encodeLease :: "LocalLease \<Rightarrow> LeaseRow" where
  "encodeLease lease =
     \<lparr>owner_host_id = map_option (hostId \<circ> lo_id) (lease_owner lease),
      owner_pid = map_option (pid \<circ> lo_id) (lease_owner lease),
      owner_nonce = map_option (nonce \<circ> lo_id) (lease_owner lease),
      granted_at_ms = map_option lo_grantedAtMs (lease_owner lease),
      heartbeat_at_ms = map_option lo_heartbeatAtMs (lease_owner lease),
      claim_host_id = map_option (hostId \<circ> lc_id) (lease_claim lease),
      claim_pid = map_option (pid \<circ> lc_id) (lease_claim lease),
      claim_nonce = map_option (nonce \<circ> lc_id) (lease_claim lease),
      claimed_at_ms = map_option lc_claimedAtMs (lease_claim lease)\<rparr>"

definition encodeTable :: "local_leases \<Rightarrow> lease_table" where
  "encodeTable m = (\<lambda>r. map_option encodeLease (m r))"

definition decodeLease :: "LeaseRow \<Rightarrow> LocalLease" where
  "decodeLease row =
     \<lparr>lease_owner = (case (owner_host_id row, owner_pid row, owner_nonce row, granted_at_ms row, heartbeat_at_ms row) of
          (Some h, Some p, Some n, Some g, Some b) \<Rightarrow>
            Some \<lparr>lo_id = \<lparr>hostId = h, pid = p, nonce = n\<rparr>, lo_grantedAtMs = g, lo_heartbeatAtMs = b\<rparr>
        | _ \<Rightarrow> None),
      lease_claim = (case (claim_host_id row, claim_pid row, claim_nonce row, claimed_at_ms row) of
          (Some h, Some p, Some n, Some t) \<Rightarrow>
            Some \<lparr>lc_id = \<lparr>hostId = h, pid = p, nonce = n\<rparr>, lc_claimedAtMs = t\<rparr>
        | _ \<Rightarrow> None)\<rparr>"

definition sql_view :: "lease_table \<Rightarrow> string \<Rightarrow> LocalLease" where
  "sql_view t r = (case t r of None \<Rightarrow> freshLease | Some row \<Rightarrow> decodeLease row)"

text \<open>Owner and claim columns are set or cleared as a group, and no row is kept with neither.\<close>

definition sql_inv :: "lease_table \<Rightarrow> bool" where
  "sql_inv t \<longleftrightarrow> (\<forall>r row. t r = Some row \<longrightarrow>
     encodeLease (decodeLease row) = row \<and> (owner_host_id row \<noteq> None \<or> claim_host_id row \<noteq> None))"

lemma decode_encodeLease [simp]: "decodeLease (encodeLease lease) = lease"
  by (cases lease) (auto simp: decodeLease_def encodeLease_def split: option.splits)

lemma encodeTable_upd [simp]:
  "encodeTable (m(r \<mapsto> lease)) = (encodeTable m)(r \<mapsto> encodeLease lease)"
  "encodeTable (m(r := None)) = (encodeTable m)(r := None)"
  by (auto simp: encodeTable_def)

lemma encodeTable_None [simp]: "encodeTable m r = None \<longleftrightarrow> m r = None"
  by (simp add: encodeTable_def)

lemma sql_view_encode [simp]: "sql_view (encodeTable m) = local_view m"
  by (auto simp: sql_view_def local_view_def encodeTable_def split: option.splits)

lemma OwnerId_eq_iff: "(a :: OwnerId) = b \<longleftrightarrow> hostId a = hostId b \<and> pid a = pid b \<and> nonce a = nonce b"
  by (cases a; cases b) auto

lemma encodeLease_owner_null [simp]: "owner_host_id (encodeLease l) = None \<longleftrightarrow> lease_owner l = None"
  by (simp add: encodeLease_def)

lemma encodeLease_claim_null [simp]: "claim_host_id (encodeLease l) = None \<longleftrightarrow> lease_claim l = None"
  by (simp add: encodeLease_def)

lemma ownerIs_encode [simp]: "ownerIs w (encodeLease l) \<longleftrightarrow> holds l w"
  by (cases "lease_owner l") (auto simp: ownerIs_def encodeLease_def OwnerId_eq_iff)

lemma claimIs_encode [simp]: "claimIs w (encodeLease l) \<longleftrightarrow> (\<exists>c. lease_claim l = Some c \<and> lc_id c = w)"
  by (cases "lease_claim l") (auto simp: claimIs_def encodeLease_def OwnerId_eq_iff)

lemma claimed_at_encode [simp]: "claimed_at_ms (encodeLease l) = map_option lc_claimedAtMs (lease_claim l)"
  by (simp add: encodeLease_def)

lemma heartbeat_encode [simp]: "heartbeat_at_ms (encodeLease l) = map_option lo_heartbeatAtMs (lease_owner l)"
  by (simp add: encodeLease_def)

lemma setClaim_encode [simp]:
  "setClaim w t (encodeLease l) = encodeLease (l\<lparr>lease_claim := Some (claimedBy w t)\<rparr>)"
  by (simp add: setClaim_def encodeLease_def)

lemma clearClaim_encode [simp]: "clearClaim (encodeLease l) = encodeLease (l\<lparr>lease_claim := None\<rparr>)"
  by (simp add: clearClaim_def encodeLease_def)

lemma clearOwner_encode [simp]: "clearOwner (encodeLease l) = encodeLease (l\<lparr>lease_owner := None\<rparr>)"
  by (simp add: clearOwner_def encodeLease_def)

lemma emptyLeaseRow_encode: "emptyLeaseRow = encodeLease freshLease"
  by (simp add: emptyLeaseRow_def encodeLease_def freshLease_def)

lemma activate_encode [simp]:
  "(encodeLease l)\<lparr>owner_host_id := Some (hostId w), owner_pid := Some (pid w),
     owner_nonce := Some (nonce w), granted_at_ms := Some g, heartbeat_at_ms := Some t\<rparr>
   = encodeLease (l\<lparr>lease_owner := Some \<lparr>lo_id = w, lo_grantedAtMs = g, lo_heartbeatAtMs = t\<rparr>\<rparr>)"
  by (simp add: encodeLease_def)

lemma sql_inv_encode [simp]: "sql_inv (encodeTable m) \<longleftrightarrow> local_inv m"
proof -
  have "(\<forall>row. encodeTable m r = Some row \<longrightarrow>
           encodeLease (decodeLease row) = row \<and> (owner_host_id row \<noteq> None \<or> claim_host_id row \<noteq> None))
        \<longleftrightarrow> m r \<noteq> Some freshLease" for r
    by (cases "m r") (simp_all add: encodeTable_def fresh_iff del: not_None_eq)
  then show ?thesis unfolding sql_inv_def local_inv_def by blast
qed

lemma sql_inv_obtain:
  assumes "sql_inv t"
  obtains m where "t = encodeTable m" and "local_inv m"
proof -
  let ?m = "\<lambda>r. map_option decodeLease (t r)"
  have "t = encodeTable ?m"
  proof
    fix r show "t r = encodeTable ?m r"
      using assms by (cases "t r") (auto simp: sql_inv_def encodeTable_def)
  qed
  with assms that show thesis by (metis sql_inv_encode)
qed

section \<open>Statement by statement, the table follows the in-memory map\<close>

text \<open>
  A statement on the encoded table either fails on a CHECK and leaves the table alone, or gives the
  in-memory strategy's answer and leaves the encoding of its map.
\<close>

definition follows ::
  "local_leases \<Rightarrow> (ConsensusError + 'a) \<times> lease_table \<Rightarrow> (ConsensusError + 'a) \<times> local_leases \<Rightarrow> bool" where
  "follows m y x \<longleftrightarrow> y = (Inl strategyError, encodeTable m) \<or> y = (fst x, encodeTable (snd x))"

lemma putLease_encode:
  "bindT (putLease r (encodeLease l)) f (encodeTable m) =
     (if lease_check r (encodeLease l) then f () (encodeTable (m(r \<mapsto> l)))
      else (Inl strategyError, encodeTable m))"
  by (simp add: bindT_def putLease_def)

lemma sql_prune_encode [simp]: "sql_prune r (encodeTable m) = (Inr (), encodeTable (prune r m))"
  by (cases "m r") (auto simp: sql_prune_def prune_def encodeTable_def fun_upd_def)

lemma bindT_prune_encode [simp]: "bindT (sql_prune r) f (encodeTable m) = f () (encodeTable (prune r m))"
  by (simp add: bindT_def)

lemma emptyLease_claim [simp]:
  "setClaim w t emptyLeaseRow = encodeLease (freshLease\<lparr>lease_claim := Some (claimedBy w t)\<rparr>)"
  by (simp add: emptyLeaseRow_encode)

lemma encodeTable_absent [simp]: "m r = None \<Longrightarrow> encodeTable m r = None"
  by simp

lemma encodeTable_Some [simp]: "m r = Some l \<Longrightarrow> encodeTable m r = Some (encodeLease l)"
  by (simp add: encodeTable_def)

lemma retT_apply [simp]: "retT a s = (Inr a, s)"
  by (simp add: retT_def)

lemma local_inv_lookup: "local_inv m \<Longrightarrow> m r = Some l \<Longrightarrow> lease_owner l = None \<Longrightarrow> lease_claim l \<noteq> None"
  by (metis fresh_iff(1) local_inv_def)

lemma sql_claim_follows:
  assumes "local_inv m"
  shows "follows m (sql_claim r w t (encodeTable m)) (local_claim r w t m)"
proof (cases "m r")
  case None
  then show ?thesis
    by (simp add: follows_def sql_claim_def local_claim_def leaseOf_def putLease_encode Let_def)
next
  case (Some l)
  then show ?thesis using local_inv_lookup [OF assms Some]
    by (auto simp: follows_def sql_claim_def local_claim_def leaseOf_def Let_def simp del: not_None_eq)
qed

lemma sql_activate_follows:
  assumes "local_inv m"
  shows "follows m (sql_activate r w g t (encodeTable m)) (local_activate r w g t m)"
proof (cases "m r")
  case None
  then show ?thesis
    by (simp add: follows_def sql_activate_def local_activate_def leaseOf_def prune_def fun_upd_idem)
next
  case (Some l)
  then show ?thesis using local_inv_lookup [OF assms Some]
    by (cases "lease_claim l")
      (auto simp: follows_def sql_activate_def local_activate_def leaseOf_def prune_def putLease_encode)
qed

lemma encodeLease_heartbeat [simp]:
  "lease_owner l = Some lo \<Longrightarrow>
     (encodeLease l)\<lparr>heartbeat_at_ms := Some h\<rparr> = encodeLease (l\<lparr>lease_owner := Some (lo\<lparr>lo_heartbeatAtMs := h\<rparr>)\<rparr>)"
  by (simp add: encodeLease_def)

lemma sql_heartbeat_follows:
  "follows m (sql_heartbeat r w t (encodeTable m)) (local_heartbeat r w t m)"
proof (cases "m r")
  case None
  then show ?thesis by (simp add: follows_def sql_heartbeat_def local_heartbeat_def)
next
  case (Some l)
  then show ?thesis
    by (cases "lease_owner l")
      (auto simp: follows_def sql_heartbeat_def local_heartbeat_def putLease_encode Let_def)
qed

lemma sql_release_follows: "sql_release r w (encodeTable m) = (Inr (), encodeTable (snd (local_release r w m)))"
proof (cases "m r")
  case None
  then show ?thesis by (simp add: sql_release_def local_release_def Let_def prune_def)
next
  case (Some l)
  then show ?thesis
    by (cases "lease_claim l"; cases "lease_owner l")
      (auto simp: sql_release_def local_release_def Let_def fun_upd_idem
        simp flip: encodeTable_upd)
qed

lemma sql_steal_follows:
  assumes "m r \<noteq> None \<or> \<not> legacyStaleOwner tbl r (expectedOwner ev) t"
  shows "follows m (sql_steal tbl r w t ev (encodeTable m)) (local_steal tbl' r w t ev m)"
proof (cases "m r")
  case None
  then show ?thesis using assms by (simp add: follows_def sql_steal_def local_steal_def)
next
  case (Some l)
  then show ?thesis
    by (cases "lease_owner l") (auto simp: follows_def sql_steal_def local_steal_def putLease_encode
        simp del: not_None_eq)
qed

lemma sql_recover_follows:
  assumes "m r \<noteq> None \<or> legacyClaimState tbl r w g t = LegacyMissing"
  shows "follows m (sql_recover tbl r w g obs t ev (encodeTable m)) (local_recover tbl' r w g obs t ev m)"
proof (cases "m r")
  case None
  then show ?thesis using assms by (simp add: follows_def sql_recover_def local_recover_def)
next
  case (Some l)
  then show ?thesis
    by (cases "lease_claim l") (auto simp: follows_def sql_recover_def local_recover_def putLease_encode
        simp flip: encodeTable_upd)
qed

lemma sql_guard_follows: "sql_guard r w (encodeTable m) = (fst (local_guard r w m), encodeTable m)"
proof (cases "m r")
  case None
  then show ?thesis by (simp add: sql_guard_def local_guard_def)
next
  case (Some l)
  then show ?thesis by (cases "lease_owner l") (auto simp: sql_guard_def local_guard_def)
qed

lemmas sql_defs = makeSql_def sql_claim_def sql_activate_def sql_heartbeat_def sql_release_def
  sql_steal_def sql_recover_def sql_guard_def

lemma sql_steal_legacy:
  assumes "m r = None" "legacyStaleOwner tbl r (expectedOwner ev) t"
    and "sql_steal tbl r w t ev (encodeTable m) = (Inr (Claimed g), t')"
  shows "g = t \<and> matchesEvidence (expectedOwner ev) w t ev
    \<and> t' = encodeTable (m(r \<mapsto> freshLease\<lparr>lease_claim := Some (claimedBy w t)\<rparr>))"
  using assms by (auto simp: sql_steal_def putLease_encode split: if_splits)

lemma sql_steal_rejected:
  "sql_steal tbl r w t ev s = (Inr (Rejected x), s') \<Longrightarrow> s' = s"
  by (auto simp: sql_steal_def putLease_def bindT_def split: option.splits if_splits)

lemma sql_recover_legacy:
  assumes "m r = None" "sql_recover tbl r w g obs t ev (encodeTable m) = (Inr x, t')"
  shows "t' = encodeTable m \<and> (x = Recovered \<longrightarrow>
    matchesEvidence w obs t ev \<and> legacyClaimState tbl r w g t = LegacyStale \<and> g < t - staleAfterMs)"
  using assms by (auto simp: sql_recover_def legacyClaimState_def
      split: if_splits LegacyClaimState.splits option.splits)

lemma sql_recover_rejected: "sql_recover tbl r w g obs t ev s = (Inr (RecoverRejected x), s') \<Longrightarrow> s' = s"
  by (auto simp: sql_recover_def putLease_def sql_prune_def bindT_def
      split: option.splits if_splits LegacyClaimState.splits)

lemma followsE:
  assumes "follows m y x" "y = (Inr a, t')"
  obtains m' where "x = (Inr a, m')" and "t' = encodeTable m'"
  using assms by (cases x) (auto simp: follows_def)

lemma makeSql_sel [simp]:
  "c_claim makeSql = sql_claim" "c_activate makeSql = sql_activate" "c_heartbeat makeSql = sql_heartbeat"
  "c_release makeSql = sql_release" "c_steal makeSql = sql_steal" "c_recover makeSql = sql_recover"
  "c_guard makeSql = sql_guard" "c_rollback makeSql = (\<lambda>before after. before)"
  by (simp_all add: makeSql_def)

lemma makeLocal_sel:
  "c_claim makeLocal = local_claim" "c_activate makeLocal = local_activate"
  "c_heartbeat makeLocal = local_heartbeat" "c_release makeLocal = local_release"
  "c_steal makeLocal = local_steal" "c_recover makeLocal = local_recover"
  "c_guard makeLocal = local_guard"
  by (simp_all add: makeLocal_def)

lemma sql_failed:
  assumes "call makeSql tbl c t = (Inl e, t')"
  shows "t' = t"
  using assms
  by (cases c) (auto simp: sql_defs putLease_def sql_prune_def bindT_def Let_def
      split: option.splits if_splits LegacyClaimState.splits)

lemma sql_steal_cases:
  assumes "local_inv m" "sql_steal tbl r w t ev (encodeTable m) = (Inr x, t')"
  obtains
    (local) m' where "local_steal tbl r w t ev m = (Inr x, m')" "t' = encodeTable m'"
  | (legacy) "m r = None" "legacyStaleOwner tbl r (expectedOwner ev) t"
      "x = Claimed t" "matchesEvidence (expectedOwner ev) w t ev"
      "t' = encodeTable (m(r \<mapsto> freshLease\<lparr>lease_claim := Some (claimedBy w t)\<rparr>))"
  | (rejected) y where "x = Rejected y" "t' = encodeTable m"
proof (cases "m r \<noteq> None \<or> \<not> legacyStaleOwner tbl r (expectedOwner ev) t")
  case True
  from followsE [OF sql_steal_follows [of m r tbl ev t w tbl, OF True] assms(2)] local show thesis by blast
next
  case False
  show thesis
  proof (cases x)
    case (Claimed g)
    with False assms(2) sql_steal_legacy [of m r tbl ev t w g t'] legacy show thesis by auto
  next
    case (Rejected y)
    with assms(2) sql_steal_rejected rejected show thesis by blast
  qed
qed

lemma sql_recover_cases:
  assumes "local_inv m" "sql_recover tbl r w g obs t ev (encodeTable m) = (Inr x, t')"
  obtains
    (local) m' where "local_recover tbl r w g obs t ev m = (Inr x, m')" "t' = encodeTable m'"
  | (legacy) "m r = None" "legacyClaimState tbl r w g t = LegacyStale" "g < t - staleAfterMs"
      "x = Recovered" "matchesEvidence w obs t ev" "t' = encodeTable m"
  | (rejected) y where "x = RecoverRejected y" "t' = encodeTable m"
proof (cases "m r")
  case None
  from sql_recover_legacy [OF None assms(2)] None legacy rejected show thesis by (cases x) auto
next
  case (Some l)
  then have "m r \<noteq> None \<or> legacyClaimState tbl r w g t = LegacyMissing" by simp
  from followsE [OF sql_recover_follows [of m r tbl w g t obs ev tbl, OF this] assms(2)] local show thesis by blast
qed

lemma sql_inv_step:
  assumes "local_inv m" "call makeSql tbl c (encodeTable m) = (Inr a, t')"
  shows "\<exists>m'. t' = encodeTable m' \<and> local_inv m'"
proof -
  note keep = local_call [OF assms(1)]
  show ?thesis
  proof (cases c)
    case (CmdClaim r w t)
    with assms(2) obtain x where "sql_claim r w t (encodeTable m) = (Inr x, t')" by auto
    from followsE [OF sql_claim_follows [OF assms(1)] this] keep [of None c] CmdClaim
    show ?thesis by (metis call.simps(1) local_inv_claim [OF assms(1)] makeLocal_sel(1))
  next
    case (CmdActivate r w g t)
    with assms(2) obtain x where "sql_activate r w g t (encodeTable m) = (Inr x, t')" by auto
    from followsE [OF sql_activate_follows [OF assms(1)] this]
    show ?thesis by (metis local_inv_activate [OF assms(1)] makeLocal_sel(2))
  next
    case (CmdHeartbeat r w t)
    with assms(2) obtain x where "sql_heartbeat r w t (encodeTable m) = (Inr x, t')" by auto
    from followsE [OF sql_heartbeat_follows this]
    show ?thesis by (metis local_inv_heartbeat [OF assms(1)] makeLocal_sel(3))
  next
    case (CmdRelease r w)
    with assms(2) have "t' = encodeTable (snd (local_release r w m))" by (auto simp: sql_release_follows)
    then show ?thesis by (metis local_inv_release [OF assms(1)] makeLocal_sel(4) prod.collapse)
  next
    case (CmdSteal r w t ev)
    with assms(2) obtain x where "sql_steal tbl r w t ev (encodeTable m) = (Inr x, t')" by auto
    from assms(1) this show ?thesis
    proof (cases rule: sql_steal_cases)
      case (local m')
      then show ?thesis using local_inv_steal [OF assms(1), of tbl r w t ev "Inr x" m'] makeLocal_sel by auto
    next
      case legacy
      then show ?thesis using assms(1)
        by (intro exI [of _ "m(r \<mapsto> freshLease\<lparr>lease_claim := Some (claimedBy w t)\<rparr>)"])
          (simp add: local_inv_def fresh_iff)
    qed (use assms(1) in blast)
  next
    case (CmdRecover r w g obs t ev)
    with assms(2) obtain x where "sql_recover tbl r w g obs t ev (encodeTable m) = (Inr x, t')" by auto
    from assms(1) this show ?thesis
    proof (cases rule: sql_recover_cases)
      case (local m')
      then show ?thesis using local_inv_recover [OF assms(1), of tbl r w g obs t ev "Inr x" m'] makeLocal_sel by auto
    qed (use assms(1) in blast)+
  next
    case (CmdGuard r w)
    with assms show ?thesis by (auto simp: sql_guard_follows)
  qed
qed

interpretation sql: consensus_strategy makeSql sql_view sql_inv
proof (unfold_locales, goal_cases)
  case (1 l r w t g l')
  from 1(1) obtain m where [simp]: "l = encodeTable m" and m: "local_inv m" by (rule sql_inv_obtain)
  from m 1(2) [simplified] obtain m' where
    "local_claim r w t m = (Inr (Claimed g), m')" "l' = encodeTable m'" by (rule followsE [OF sql_claim_follows])
  then show ?case using local.claim_granted [OF m, of r w t g m'] by (simp add: makeLocal_sel)
next
  case (2 l r w t x l')
  from 2(1) obtain m where [simp]: "l = encodeTable m" and m: "local_inv m" by (rule sql_inv_obtain)
  from m 2(2) [simplified] obtain m' where
    "local_claim r w t m = (Inr (Rejected x), m')" "l' = encodeTable m'" by (rule followsE [OF sql_claim_follows])
  then show ?case using local.claim_rejected [OF m, of r w t x m'] by (simp add: makeLocal_sel)
next
  case (3 l r w g t l')
  from 3(1) obtain m where [simp]: "l = encodeTable m" and m: "local_inv m" by (rule sql_inv_obtain)
  from m 3(2) [simplified] obtain m' where
    "local_activate r w g t m = (Inr Activated, m')" "l' = encodeTable m'" by (rule followsE [OF sql_activate_follows])
  then show ?case using local.activate_granted [OF m, of r w g t m'] by (simp add: makeLocal_sel)
next
  case (4 l r w g t l')
  from 4(1) obtain m where [simp]: "l = encodeTable m" and m: "local_inv m" by (rule sql_inv_obtain)
  from m 4(2) [simplified] obtain m' where
    "local_activate r w g t m = (Inr ActivateLost, m')" "l' = encodeTable m'" by (rule followsE [OF sql_activate_follows])
  then show ?case using local.activate_lost [OF m, of r w g t m'] by (simp add: makeLocal_sel)
next
  case (5 l r w t h l')
  from 5(1) obtain m where [simp]: "l = encodeTable m" and m: "local_inv m" by (rule sql_inv_obtain)
  from 5(2) [simplified] obtain m' where
    "local_heartbeat r w t m = (Inr (Renewed h), m')" "l' = encodeTable m'" by (rule followsE [OF sql_heartbeat_follows])
  then show ?case using local.heartbeat_renewed [OF m, of r w t h m'] by (simp add: makeLocal_sel)
next
  case (6 l r w t l')
  from 6(1) obtain m where [simp]: "l = encodeTable m" and m: "local_inv m" by (rule sql_inv_obtain)
  from 6(2) [simplified] obtain m' where
    "local_heartbeat r w t m = (Inr HeartbeatLost, m')" "l' = encodeTable m'" by (rule followsE [OF sql_heartbeat_follows])
  then show ?case using local.heartbeat_lost [OF m, of r w t m'] by (simp add: makeLocal_sel)
next
  case (7 l r w l')
  from 7(1) obtain m where [simp]: "l = encodeTable m" and m: "local_inv m" by (rule sql_inv_obtain)
  have "local_release r w m = (Inr (), snd (local_release r w m))"
    by (cases "m r") (auto simp: local_release_def Let_def)
  then show ?case using 7(2) local.release_done [OF m, of r w "snd (local_release r w m)"]
    by (auto simp: sql_release_follows makeLocal_sel)
next
  case (8 l tbl r w t ev g l')
  from 8(1) obtain m where [simp]: "l = encodeTable m" and m: "local_inv m" by (rule sql_inv_obtain)
  from 8(2) have "sql_steal tbl r w t ev (encodeTable m) = (Inr (Claimed g), l')" by simp
  with m show ?case
  proof (cases rule: sql_steal_cases)
    case (local m')
    then show ?thesis using local.steal_granted [OF m, of tbl r w t ev g m'] by (simp add: makeLocal_sel)
  next
    case legacy
    then show ?thesis by (simp add: local_view_def [of m r] del: encodeTable_upd)
  qed simp
next
  case (9 l tbl r w t ev x l')
  then show ?case by (auto dest: sql_steal_rejected)
next
  case (10 l tbl r w g obs t ev l')
  from 10(1) obtain m where [simp]: "l = encodeTable m" and m: "local_inv m" by (rule sql_inv_obtain)
  from 10(2) have "sql_recover tbl r w g obs t ev (encodeTable m) = (Inr Recovered, l')" by simp
  with m show ?case
  proof (cases rule: sql_recover_cases)
    case (local m')
    then show ?thesis using local.recover_done [OF m, of tbl r w g obs t ev m'] by (simp add: makeLocal_sel)
  next
    case legacy
    then show ?thesis by (simp add: local_view_def [of m r] fresh_iff)
  qed simp
next
  case (11 l tbl r w g obs t ev x l')
  then show ?case by (auto dest: sql_recover_rejected)
next
  case (12 l r w l')
  from 12(1) obtain m where [simp]: "l = encodeTable m" and m: "local_inv m" by (rule sql_inv_obtain)
  show ?case using 12(2) local.guard_held [OF m, of r w] local_guard_same [of r w m]
    by (cases "local_guard r w m") (auto simp: sql_guard_follows makeLocal_sel)
next
  case (13 l r w e l')
  from 13(1) obtain m where [simp]: "l = encodeTable m" and m: "local_inv m" by (rule sql_inv_obtain)
  show ?case using 13(2) local.guard_refused [OF m, of r w e] local_guard_same [of r w m]
    by (cases "local_guard r w m") (auto simp: sql_guard_follows makeLocal_sel)
next
  case (14 l tbl c e l')
  then show ?case by (blast dest: sql_failed)
next
  case (15 l tbl c a l')
  from 15(1) obtain m where [simp]: "l = encodeTable m" and m: "local_inv m" by (rule sql_inv_obtain)
  from sql_inv_step [OF m] 15(2) show ?case by fastforce
next
  case (16 l)
  then show ?case by simp
next
  case (17 l l')
  then show ?case by simp
qed

section \<open>Both strategies answer alike\<close>

text \<open>
  A history of commands with the answers it got, the state rolling back after a failed call as
  the strategy rolls back.
\<close>

primrec answers ::
  "'l Service \<Rightarrow> legacy_runs \<Rightarrow> 'l \<Rightarrow> LeaseCommand list \<Rightarrow> (ConsensusError + Answer) list \<times> 'l" where
  "answers S tbl l [] = ([], l)"
| "answers S tbl l (c # cs) =
     (case call S tbl c l of
        (Inl e, l') \<Rightarrow> map_prod (Cons (Inl e)) id (answers S tbl (c_rollback S l l') cs)
      | (Inr a, l') \<Rightarrow> map_prod (Cons (Inr a)) id (answers S tbl l' cs))"

text \<open>The columns' CHECK constraints, as a condition on what a command may store.\<close>

fun cmd_checked :: "LeaseCommand \<Rightarrow> bool" where
  "cmd_checked (CmdClaim r w t) \<longleftrightarrow> r \<noteq> [] \<and> t \<ge> 0"
| "cmd_checked (CmdActivate r w g t) \<longleftrightarrow> t \<ge> 0"
| "cmd_checked (CmdSteal r w t ev) \<longleftrightarrow> t \<ge> 0"
| "cmd_checked _ \<longleftrightarrow> True"

definition leases_checked :: "local_leases \<Rightarrow> bool" where
  "leases_checked m \<longleftrightarrow> (\<forall>r l. m r = Some l \<longrightarrow> lease_check r (encodeLease l))"

lemma leases_checkedD: "leases_checked m \<Longrightarrow> m r = Some l \<Longrightarrow> lease_check r (encodeLease l)"
  by (simp add: leases_checked_def)

lemma lease_check_encode:
  "lease_check r (encodeLease l) \<longleftrightarrow> r \<noteq> []
     \<and> (\<forall>lo. lease_owner l = Some lo \<longrightarrow> lo_grantedAtMs lo \<ge> 0 \<and> lo_heartbeatAtMs lo \<ge> 0)
     \<and> (\<forall>c. lease_claim l = Some c \<longrightarrow> lc_claimedAtMs c \<ge> 0)"
  by (auto simp: lease_check_def encodeLease_def split: option.splits)

definition exactly ::
  "(ConsensusError + 'a) \<times> lease_table \<Rightarrow> (ConsensusError + 'a) \<times> local_leases \<Rightarrow> bool" where
  "exactly y x \<longleftrightarrow> y = (fst x, encodeTable (snd x)) \<and> leases_checked (snd x)"

lemma leases_checked_upd:
  "leases_checked m \<Longrightarrow> lease_check r (encodeLease l) \<Longrightarrow> leases_checked (m(r \<mapsto> l))"
  "leases_checked m \<Longrightarrow> leases_checked (m(r := None))"
  by (auto simp: leases_checked_def)

lemma leases_checked_prune: "leases_checked m \<Longrightarrow> leases_checked (prune r m)"
  by (auto simp: leases_checked_def prune_def split: option.splits)

lemmas checked_intros = leases_checked_upd leases_checked_prune

lemma exactly_mapT:
  "exactly (f (encodeTable m)) (g m) \<Longrightarrow> exactly (mapT k f (encodeTable m)) (mapT k g m)"
  by (cases "g m"; cases "fst (g m)") (auto simp: exactly_def mapT_def bindT_def)

lemmas exact_simps = exactly_def putLease_encode lease_check_encode leaseOf_def Let_def

lemma exact_claim:
  assumes "local_inv m" "leases_checked m" "r \<noteq> []" "t \<ge> 0"
  shows "exactly (sql_claim r w t (encodeTable m)) (local_claim r w t m)"
  using assms local_inv_lookup [OF assms(1), of r]
  by (cases "m r") (auto simp: exact_simps sql_claim_def local_claim_def
      simp del: not_None_eq intro!: checked_intros)

lemma exact_activate:
  assumes "local_inv m" "leases_checked m" "t \<ge> 0"
  shows "exactly (sql_activate r w g t (encodeTable m)) (local_activate r w g t m)"
proof (cases "m r")
  case None
  with assms show ?thesis by (simp add: exact_simps sql_activate_def local_activate_def prune_def fun_upd_idem)
next
  case (Some l)
  with assms local_inv_lookup [OF assms(1) Some] leases_checkedD [OF assms(2) Some] show ?thesis
    by (cases "lease_claim l") (auto simp: exact_simps sql_activate_def local_activate_def prune_def
        intro!: checked_intros)
qed

lemma exact_heartbeat:
  assumes "leases_checked m"
  shows "exactly (sql_heartbeat r w t (encodeTable m)) (local_heartbeat r w t m)"
proof (cases "m r")
  case None
  with assms show ?thesis by (simp add: exact_simps sql_heartbeat_def local_heartbeat_def)
next
  case (Some l)
  with assms leases_checkedD [OF assms Some] show ?thesis
    by (cases "lease_owner l") (auto simp: exact_simps sql_heartbeat_def local_heartbeat_def
        intro!: checked_intros)
qed

lemma exact_release:
  assumes "leases_checked m"
  shows "exactly (sql_release r w (encodeTable m)) (local_release r w m)"
proof (cases "m r")
  case None
  with assms show ?thesis by (simp add: exact_simps sql_release_follows local_release_def)
next
  case (Some l)
  with assms leases_checkedD [OF assms Some] show ?thesis
    by (cases "lease_claim l"; cases "lease_owner l")
      (auto simp: exact_simps sql_release_follows local_release_def intro!: checked_intros)
qed

lemma exact_steal:
  assumes "leases_checked m" "t \<ge> 0"
  shows "exactly (sql_steal None r w t ev (encodeTable m)) (local_steal None r w t ev m)"
proof (cases "m r")
  case None
  with assms show ?thesis by (simp add: exact_simps sql_steal_def local_steal_def legacyStaleOwner_def)
next
  case (Some l)
  with assms leases_checkedD [OF assms(1) Some] show ?thesis
    by (cases "lease_owner l") (auto simp: exact_simps sql_steal_def local_steal_def
        simp del: not_None_eq intro!: checked_intros)
qed

lemma exact_recover:
  assumes "leases_checked m"
  shows "exactly (sql_recover None r w g obs t ev (encodeTable m)) (local_recover None r w g obs t ev m)"
proof (cases "m r")
  case None
  with assms show ?thesis by (simp add: exact_simps sql_recover_def local_recover_def legacyClaimState_def)
next
  case (Some l)
  with assms leases_checkedD [OF assms Some] show ?thesis
    by (cases "lease_claim l") (auto simp: exact_simps sql_recover_def local_recover_def
        simp flip: encodeTable_upd intro!: checked_intros)
qed

lemma exact_guard:
  assumes "leases_checked m"
  shows "exactly (sql_guard r w (encodeTable m)) (local_guard r w m)"
  using assms local_guard_same [of r w m] by (cases "local_guard r w m") (auto simp: exactly_def sql_guard_follows makeLocal_sel)

lemma exact_call:
  assumes "local_inv m" "leases_checked m" "cmd_checked c"
  shows "exactly (call makeSql None c (encodeTable m)) (call makeLocal None c m)"
  using assms
  by (cases c) (auto simp: makeLocal_sel intro!: exactly_mapT exact_claim exact_activate exact_heartbeat
      exact_release exact_steal exact_recover exact_guard)

lemma exact_answers:
  assumes "local_inv m" "leases_checked m" "\<forall>c \<in> set cs. cmd_checked c"
  shows "answers makeSql None (encodeTable m) cs =
    map_prod id encodeTable (answers makeLocal None m cs)"
  using assms
proof (induction cs arbitrary: m)
  case (Cons c cs)
  obtain x m' where x: "call makeLocal None c m = (x, m')" by fastforce
  have *: "call makeSql None c (encodeTable m) = (x, encodeTable m')" "leases_checked m'"
    using exact_call [OF Cons.prems(1,2), of c] Cons.prems(3) x by (auto simp: exactly_def)
  have m': "local_inv m'" "isl x \<Longrightarrow> m' = m" using local_call [OF Cons.prems(1) x] by auto
  show ?case
    using Cons.IH [OF m'(1) *(2)] Cons.prems(3) x * m'(2)
    by (cases x) (auto simp: makeLocal_def map_prod_def split: prod.splits)
qed simp

end
