(* ===== verification/Journal_Log.thy ===== *)
theory Journal_Log
  imports Journal SqlConsensus
begin

text \<open>
  What the stores that write through the journal may rely on. The locale \<open>journal_service\<close> puts the
  journal on top of a consensus strategy; inside it a durable append is shown to add exactly one
  entry at the end of its run or nothing, to be fenced before it is deduplicated, and to keep the
  table's invariant; paged reads return the whole suffix of a run; compaction keeps the sequence
  allocator and refuses what a reader still needs.
\<close>

section \<open>Appends\<close>

definition scrubbed :: "'l Config \<Rightarrow> Input \<Rightarrow> json \<Rightarrow> json" where
  "scrubbed cfg input v = (if isVerbatimEventType (in_eventType input) then v else redact (rules cfg) v)"

definition metaOf :: "Input \<Rightarrow> json" where
  "metaOf input = (case in_meta input of None \<Rightarrow> JNull | Some v \<Rightarrow> v)"

text \<open>Everything but the event table and process memory is as before.\<close>

definition frame :: "('l, 'z) journal_db_scheme \<Rightarrow> ('l, 'z) journal_db_scheme \<Rightarrow> bool" where
  "frame s s' \<longleftrightarrow> leases s' = leases s \<and> checkpoints s' = checkpoints s \<and> status s' = status s
     \<and> readers s' = readers s \<and> clock s' = clock s \<and> journal_db.more s' = journal_db.more s"

lemma frame_refl [simp]: "frame s s"
  by (simp add: frame_def)

lemma frame_trans: "frame a b \<Longrightarrow> frame b c \<Longrightarrow> frame a c"
  by (simp add: frame_def)

text \<open>The entry an admitted input becomes.\<close>

definition entryOf :: "'l Config \<Rightarrow> Input \<Rightarrow> Entry \<Rightarrow> bool" where
  "entryOf cfg input e \<longleftrightarrow> runId e = in_runId input \<and> sourceId e = in_sourceId input
     \<and> eventId e = makeEventId (runId e) (sourceId e) (sourceSeq e)
     \<and> eventType e = in_eventType input \<and> payload e = scrubbed cfg input (in_payload input)
     \<and> meta e = scrubbed cfg input (metaOf input)
     \<and> (\<forall>n. in_sourceSeq input = Some n \<longrightarrow> sourceSeq e = n)"

lemma prepare_Inr:
  "prepare cfg input now s = (Inr pm, s') \<Longrightarrow>
     s' = s \<and> status s = Open \<and> in_runId input \<noteq> [] \<and> in_sourceId input \<noteq> [] \<and> in_eventType input \<noteq> []
     \<and> isSafeInteger now \<and> 0 \<le> now
     \<and> pm = (scrubbed cfg input (in_payload input), scrubbed cfg input (metaOf input))"
  by (auto simp: prepare_def scrubbed_def metaOf_def Let_def split: if_splits)

lemma prepare_Inl: "prepare cfg input now s = (Inl c, s') \<Longrightarrow> s' = s"
  by (auto simp: prepare_def Let_def split: if_splits)

lemma frame_floors [simp]:
  "frame s (raiseSequenceFloor r n s') = frame s s'"
  "frame s (raiseSourceSequenceFloor r src n s') = frame s s'"
  "events (raiseSequenceFloor r n s') = events s'"
  "events (raiseSourceSequenceFloor r src n s') = events s'"
  "leases (raiseSequenceFloor r n s') = leases s'"
  "leases (raiseSourceSequenceFloor r src n s') = leases s'"
  by (simp_all add: frame_def raiseSequenceFloor_def raiseSourceSequenceFloor_def Let_def)

lemma allocatable_check: "allocatable n \<Longrightarrow> 0 \<le> n \<and> n \<le> 9007199254740991"
  by (auto simp: allocatable_def isSafeInteger_def MAX_SAFE_INTEGER_def)

text \<open>An allocated entry lies above every entry of its run.\<close>

lemma allocateEntry_Inr:
  assumes "allocateEntry input pm now s = (Inr e, s')"
  shows "frame s s' \<and> events s' = events s \<and> runId e = in_runId input \<and> sourceId e = in_sourceId input
    \<and> eventId e = makeEventId (runId e) (sourceId e) (sourceSeq e) \<and> eventType e = in_eventType input
    \<and> payload e = fst pm \<and> meta e = snd pm \<and> emittedAtMs e = now \<and> allocatable (sourceSeq e)
    \<and> isSafeInteger (seq e) \<and> (\<forall>n. in_sourceSeq input = Some n \<longrightarrow> sourceSeq e = n)
    \<and> (\<forall>x \<in> set (events s). runId x = runId e \<longrightarrow> seq x < seq e)
    \<and> (in_sourceSeq input = None \<longrightarrow>
         (\<forall>x \<in> set (events s). runId x = runId e \<and> sourceId x = sourceId e \<longrightarrow> sourceSeq x < sourceSeq e))
    \<and> nextDurableSeq (runId e) (events s) \<le> seq e \<and> orZero (sequences s (runId e)) \<le> seq e"
proof -
  have above: "x \<in> set (events s) \<Longrightarrow> runId x = r \<Longrightarrow> seq x < max (nextDurableSeq r (events s)) k" for x r k
    using maxPlus1_greater [of "seq x" "map seq (filter (\<lambda>e. runId e = r) (events s))"]
    by (auto simp: nextDurableSeq_def less_max_iff_disj)
  have above': "x \<in> set (events s) \<Longrightarrow> runId x = r \<Longrightarrow> sourceId x = src \<Longrightarrow>
      sourceSeq x < max (nextDurableSourceSeq r src (events s)) k" for x r src k
    using maxPlus1_greater [of "sourceSeq x" "map sourceSeq (filter (\<lambda>e. runId e = r \<and> sourceId e = src) (events s))"]
    by (auto simp: nextDurableSourceSeq_def less_max_iff_disj)
  show ?thesis
    using assms above above'
    by (auto simp: allocateEntry_def rangeError_def Let_def split: if_splits option.splits)
qed

lemma allocateEntry_Inl: "allocateEntry input pm now s = (Inl c, s') \<Longrightarrow> s' = s"
  by (auto simp: allocateEntry_def rangeError_def Let_def split: if_splits)

lemma selectExisting_Inr:
  assumes "selectExisting q s = (Inr d, s')"
  shows "s' = s \<and> (case d of None \<Rightarrow> \<forall>x \<in> set (events s). \<not> sameIdentity x q
     | Some row \<Rightarrow> row \<in> set (events s) \<and> sameIdentity row q \<and> sameContent row q)"
proof (cases "sort_key seq (filter (\<lambda>row. sameIdentity row q) (events s))")
  case Nil
  then have "filter (\<lambda>row. sameIdentity row q) (events s) = []"
    by (metis length_0_conv length_sort)
  with Nil assms show ?thesis by (auto simp: selectExisting_def filter_empty_conv)
next
  case (Cons row rest)
  then have "row \<in> set (filter (\<lambda>row. sameIdentity row q) (events s))"
    by (metis list.set_intros(1) set_sort)
  with Cons assms show ?thesis by (auto simp: selectExisting_def split: if_splits)
qed

lemma selectExisting_state: "selectExisting q s = (d, s') \<Longrightarrow> s' = s"
  by (auto simp: selectExisting_def split: list.splits if_splits)

lemma insertRow_Inr:
  assumes "insertRow q s = (Inr (row, ins), s')"
  shows "frame s s' \<and> (if ins
    then row = q \<and> events s' = events s @ [q] \<and> event_check q \<and> (\<forall>x \<in> set (events s). \<not> conflicts x q)
    else events s' = events s \<and> row \<in> set (events s) \<and> sameIdentity row q \<and> sameContent row q)"
proof (cases "event_check q \<and> \<not> list_ex (\<lambda>row. conflicts row q) (events s)")
  case True
  with assms show ?thesis by (auto simp: insertRow_def list_ex_iff frame_def)
next
  case False
  with assms obtain raced s1 where "selectExisting q s = (Inr raced, s1)"
    "(case raced of Some row \<Rightarrow> retT (row, False) | None \<Rightarrow> failT (sequenceConflict q)) s1 = (Inr (row, ins), s')"
    by (auto simp: insertRow_def bindT_Inr split: if_splits)
  with selectExisting_Inr [of q s raced s1] show ?thesis by (auto split: option.splits)
qed

lemma insertRow_Inl: "insertRow q s = (Inl c, s') \<Longrightarrow> s' = s"
  by (auto simp: insertRow_def bindT_def dest: selectExisting_state
      split: if_splits prod.splits sum.splits option.splits)

lemma mapError_Inr [simp]: "mapError f m s = (Inr a, s') \<longleftrightarrow> m s = (Inr a, s')"
  by (auto simp: mapError_def split: prod.splits sum.splits)

lemma bindT_currentTimeMillis [simp]:
  "bindT currentTimeMillis f s = f (clock s (tick s)) (s\<lparr>tick := Suc (tick s)\<rparr>)"
  by (simp add: bindT_def currentTimeMillis_def)

lemma evs_ok_snoc:
  assumes "evs_ok evs" "event_check e" "\<forall>x \<in> set evs. \<not> conflicts x e"
    and "\<forall>x \<in> set evs. runId x = runId e \<longrightarrow> seq x < seq e"
    and "eventId e = makeEventId (runId e) (sourceId e) (sourceSeq e)"
  shows "evs_ok (evs @ [e])"
  using assms by (auto simp: evs_ok_def ordered_snoc sorted_wrt_append conflicts_def)

lemma evs_ok_unique:
  assumes "evs_ok evs" "x \<in> set evs" "y \<in> set evs"
    and "runId x = runId y" "sourceId x = sourceId y" "sourceSeq x = sourceSeq y"
  shows "x = y"
proof (rule ccontr)
  assume "x \<noteq> y"
  with assms(2,3) obtain i j where "i < length evs" "j < length evs" "evs ! i = x" "evs ! j = y" "i \<noteq> j"
    by (metis in_set_conv_nth)
  moreover have "sameIdentity x y" "sameIdentity y x" using assms(4-6) by (auto simp: sameIdentity_def)
  ultimately show False using assms(1)
    by (auto simp: evs_ok_def sorted_wrt_iff_nth_less) (metis linorder_neqE_nat)
qed

text \<open>A row with a minted or forked id shares an entry's identity only through its triple.\<close>

lemma sameIdentity_triple:
  assumes "evs_ok evs" "row \<in> set evs" "eventId e = makeEventId (runId e) (sourceId e) (sourceSeq e)"
  shows "sameIdentity row e \<longleftrightarrow> runId row = runId e \<and> sourceId row = sourceId e \<and> sourceSeq row = sourceSeq e"
  using assms makeEventId_not_fork [of "runId e" "sourceId e" "sourceSeq e"]
  by (auto simp: evs_ok_def sameIdentity_def makeEventId_inject)

locale journal_service = consensus_strategy S view inv
  for S :: "'l Service" and view :: "'l \<Rightarrow> string \<Rightarrow> LocalLease" and inv :: "'l \<Rightarrow> bool" +
  fixes cfg :: "'l Config"
  assumes cfg_consensus [simp]: "consensus cfg = S"
begin

lemma fenceGuard_Inr:
  fixes s :: "('l, 'z) journal_db_scheme"
  assumes "inv (leases s)" "fenceGuard cfg r w s = (Inr u, s')"
  shows "s' = s \<and> holds (view (leases s) r) w"
  using assms guard_held [OF assms(1), of r w]
  by (auto simp: fenceGuard_def consensusT_def split: prod.splits sum.splits Cause.splits)

lemma fenceGuard_state:
  fixes s :: "('l, 'z) journal_db_scheme"
  assumes "inv (leases s)" "fenceGuard cfg r w s = (x, s')"
  shows "s' = s"
  using assms guard_held [OF assms(1), of r w] guard_refused [OF assms(1), of r w]
  by (auto simp: fenceGuard_def consensusT_def split: prod.splits sum.splits Cause.splits)

lemma guardOpt_Inr:
  fixes s :: "('l, 'z) journal_db_scheme"
  assumes "inv (leases s)" "guardOpt cfg r owner s = (Inr u, s')"
  shows "s' = s \<and> (\<forall>w. owner = Some w \<longrightarrow> holds (view (leases s) r) w)"
  using assms fenceGuard_Inr by (auto simp: guardOpt_def split: option.splits)

lemma guardOpt_state:
  fixes s :: "('l, 'z) journal_db_scheme"
  assumes "inv (leases s)" "guardOpt cfg r owner s = (x, s')"
  shows "s' = s"
  using assms fenceGuard_state by (auto simp: guardOpt_def split: option.splits)

lemma insertOne_Inr:
  fixes s :: "('l, 'z) journal_db_scheme"
  assumes "inv (leases s)" "insertOne cfg q owner s = (Inr (row, ins), s')"
  shows "frame s s' \<and> (\<forall>w. owner = Some w \<longrightarrow> holds (view (leases s) (runId q)) w) \<and>
    (if ins then row = q \<and> events s' = events s @ [q] \<and> event_check q \<and> (\<forall>x \<in> set (events s). \<not> conflicts x q)
     else events s' = events s \<and> row \<in> set (events s) \<and> sameIdentity row q \<and> sameContent row q)"
proof -
  from assms(2) obtain u s1 d s2 where
    g: "guardOpt cfg (runId q) owner s = (Inr u, s1)" and d: "selectExisting q s1 = (Inr d, s2)"
    and rest: "(case d of Some row \<Rightarrow> retT (row, False) | None \<Rightarrow> insertRow q) s2 = (Inr (row, ins), s')"
    unfolding insertOne_def guardOpt_def by (auto simp: bindT_Inr)
  have [simp]: "s1 = s" "s2 = s" using guardOpt_Inr [OF assms(1) g] selectExisting_Inr [OF d] by auto
  have g': "\<forall>w. owner = Some w \<longrightarrow> holds (view (leases s) (runId q)) w" using guardOpt_Inr [OF assms(1) g] by auto
  show ?thesis
  proof (cases d)
    case None
    with rest g' insertRow_Inr [of q s row ins s'] show ?thesis by auto
  next
    case (Some x)
    with rest selectExisting_Inr [OF d] g' show ?thesis by auto
  qed
qed

lemma insertOne_Inl:
  fixes s :: "('l, 'z) journal_db_scheme"
  assumes "inv (leases s)" "insertOne cfg q owner s = (Inl c, s')"
  shows "s' = s"
proof (cases "guardOpt cfg (runId q) owner s")
  case (Pair g s1)
  have [simp]: "s1 = s" by (rule guardOpt_state [OF assms(1) Pair])
  show ?thesis
  proof (cases "selectExisting q s")
    case (Pair d s2)
    then have [simp]: "s2 = s" by (rule selectExisting_state)
    show ?thesis
      using assms(2) Pair \<open>guardOpt cfg (runId q) owner s = (g, s1)\<close> insertRow_Inl [of q s c s']
      unfolding insertOne_def guardOpt_def [symmetric]
      by (auto simp: bindT_def split: sum.splits option.splits if_splits)
  qed
qed

text \<open>A successful append: one fresh entry at the end of the table, or the committed duplicate.\<close>

lemma emit_Inr:
  fixes s :: "('l, 'z) journal_db_scheme"
  assumes "inv (leases s)" "emitDurable cfg input owner s = (Inr rc, s')"
  obtains e where "frame s s'" "entryOf cfg input e"
    "\<forall>w. owner = Some w \<longrightarrow> holds (view (leases s) (in_runId input)) w"
    "rc = Accepted (seq e) (sourceSeq e) \<and> events s' = events s @ [e] \<and> event_check e
       \<and> (\<forall>x \<in> set (events s). \<not> conflicts x e)
       \<and> (\<forall>x \<in> set (events s). runId x = runId e \<longrightarrow> seq x < seq e)
     \<or> (\<exists>row \<in> set (events s). rc = Duplicate (seq row) (sourceSeq e) Committed \<and> sameIdentity row e
          \<and> sameContent row e \<and> events s' = events s)"
    "in_sourceSeq input = None \<Longrightarrow>
       \<forall>x \<in> set (events s). runId x = runId e \<and> sourceId x = sourceId e \<longrightarrow> sourceSeq x < sourceSeq e"
proof -
  let ?s1 = "s\<lparr>tick := Suc (tick s)\<rparr>" and ?now = "clock s (tick s)"
  from assms(2) obtain pm s2 q s3 row ins s4 where
    p: "prepare cfg input ?now ?s1 = (Inr pm, s2)" and a: "allocateEntry input pm ?now s2 = (Inr q, s3)"
    and i: "insertOne cfg q owner s3 = (Inr (row, ins), s4)"
    and r: "rc = (if ins then Accepted (seq row) (sourceSeq q) else Duplicate (seq row) (sourceSeq q) Committed)"
    and s': "s' = s4\<lparr>settlements := settlements s4 @ [(q, seq row)]\<rparr>"
    unfolding emitDurable_def
    by (auto simp: bindT_Inr split: prod.splits)
  from prepare_Inr [OF p] have [simp]: "s2 = ?s1" and pm: "pm = (scrubbed cfg input (in_payload input), scrubbed cfg input (metaOf input))" by auto
  note al = allocateEntry_Inr [OF a]
  have inv3: "inv (leases s3)" using al assms(1) by (simp add: frame_def)
  note ins = insertOne_Inr [OF inv3 i]
  have same: "leases s3 = leases s" "events s3 = events s" using al by (auto simp: frame_def)
  have fr: "frame s s'" using al ins s' by (auto simp: frame_def)
  have ent: "entryOf cfg input q" using al pm by (auto simp: entryOf_def)
  have ev: "events s' = events s4" using s' by simp
  have own: "\<forall>w. owner = Some w \<longrightarrow> holds (view (leases s) (in_runId input)) w"
    using ins same al by auto
  show thesis
  proof (rule that [OF fr ent own])
    show "rc = Accepted (seq q) (sourceSeq q) \<and> events s' = events s @ [q] \<and> event_check q
       \<and> (\<forall>x \<in> set (events s). \<not> conflicts x q)
       \<and> (\<forall>x \<in> set (events s). runId x = runId q \<longrightarrow> seq x < seq q)
     \<or> (\<exists>row \<in> set (events s). rc = Duplicate (seq row) (sourceSeq q) Committed \<and> sameIdentity row q
          \<and> sameContent row q \<and> events s' = events s)"
      using ins r ev same al by (cases ins) auto
    show "\<forall>x \<in> set (events s). runId x = runId q \<and> sourceId x = sourceId q \<longrightarrow> sourceSeq x < sourceSeq q"
      if "in_sourceSeq input = None"
      using al that by auto
  qed
qed

text \<open>A failed append has written nothing.\<close>

lemma emit_Inl:
  fixes s :: "('l, 'z) journal_db_scheme"
  assumes "inv (leases s)" "emitDurable cfg input owner s = (Inl c, s')"
  shows "frame s s' \<and> events s' = events s"
proof -
  let ?s1 = "s\<lparr>tick := Suc (tick s)\<rparr>" and ?now = "clock s (tick s)"
  obtain p s2 where p: "prepare cfg input ?now ?s1 = (p, s2)" by fastforce
  show ?thesis
  proof (cases p)
    case (Inl e)
    with p prepare_Inl [of cfg input ?now ?s1 e s2] assms(2) show ?thesis
      by (auto simp: emitDurable_def bindT_def currentTimeMillis_def  frame_def)
  next
    case (Inr pm)
    with p prepare_Inr [of cfg input ?now ?s1 pm s2] have [simp]: "s2 = ?s1" by simp
    obtain a s3 where a: "allocateEntry input pm ?now ?s1 = (a, s3)" by fastforce
    show ?thesis
    proof (cases a)
      case (Inl e)
      with a allocateEntry_Inl [of input pm ?now ?s1 e s3] assms(2) p Inr show ?thesis
        by (auto simp: emitDurable_def bindT_def currentTimeMillis_def  mapError_def frame_def)
    next
      case (Inr q)
      with a have al: "allocateEntry input pm ?now ?s1 = (Inr q, s3)" by simp
      then have fr: "frame s s3" "events s3 = events s" using allocateEntry_Inr [OF al] by (auto simp: frame_def)
      then have "inv (leases s3)" using assms(1) by (simp add: frame_def)
      from insertOne_Inl [OF this, of q owner] assms(2) p \<open>p = Inr pm\<close> al fr show ?thesis
        by (auto simp: emitDurable_def bindT_def currentTimeMillis_def  mapError_def
            split: prod.splits sum.splits)
    qed
  qed
qed

lemma emit_evs_ok:
  fixes s :: "('l, 'z) journal_db_scheme"
  assumes "inv (leases s)" "evs_ok (events s)" "emitDurable cfg input owner s = (x, s')"
  shows "evs_ok (events s')"
proof (cases x)
  case (Inl c)
  with assms emit_Inl show ?thesis by metis
next
  case (Inr rc)
  with assms(3) have "emitDurable cfg input owner s = (Inr rc, s')" by simp
  from emit_Inr [OF assms(1) this] show ?thesis
  proof cases
    case (1 e)
    then show ?thesis using assms(2) evs_ok_snoc [of "events s" e] by (auto simp: entryOf_def)
  qed
qed

text \<open>An input that leaves the producer sequence to the journal is always a new entry.\<close>

lemma emit_fresh:
  fixes s :: "('l, 'z) journal_db_scheme"
  assumes "inv (leases s)" "evs_ok (events s)" "in_sourceSeq input = None"
    and "emitDurable cfg input owner s = (Inr rc, s')"
  obtains e where "frame s s'" "entryOf cfg input e" "events s' = events s @ [e]"
    "rc = Accepted (seq e) (sourceSeq e)" "event_check e"
    "\<forall>x \<in> set (events s). runId x = runId e \<longrightarrow> seq x < seq e"
    "\<forall>w. owner = Some w \<longrightarrow> holds (view (leases s) (in_runId input)) w"
proof -
  from emit_Inr [OF assms(1,4)] show thesis
  proof cases
    case (1 e)
    have "\<not> (\<exists>row \<in> set (events s). sameIdentity row e)"
      using sameIdentity_triple [OF assms(2), of _ e] 1(2,5) assms(3) by (fastforce simp: entryOf_def)
    with 1 that [of e] show thesis by blast
  qed
qed

text \<open>R3: the fence is checked before the duplicate lookup, so a displaced owner gets no receipt.\<close>

lemma emit_unowned_fails:
  fixes s :: "('l, 'z) journal_db_scheme"
  assumes "inv (leases s)" "\<not> holds (view (leases s) (in_runId input)) w"
  shows "emitDurable cfg input (Some w) s \<noteq> (Inr rc, s')"
  using emit_Inr [OF assms(1), of input "Some w" rc s'] assms(2) by blast

text \<open>Resubmitting a committed source event answers with its sequence and writes nothing.\<close>

lemma emit_duplicate:
  fixes s :: "('l, 'z) journal_db_scheme"
  assumes "inv (leases s)" "evs_ok (events s)" "row \<in> set (events s)"
    and "runId row = in_runId input" "sourceId row = in_sourceId input" "in_sourceSeq input = Some (sourceSeq row)"
    and "emitDurable cfg input owner s = (Inr rc, s')"
  shows "rc = Duplicate (seq row) (sourceSeq row) Committed \<and> events s' = events s
    \<and> eventType row = in_eventType input \<and> payload row = scrubbed cfg input (in_payload input)
    \<and> meta row = scrubbed cfg input (metaOf input)"
proof -
  from emit_Inr [OF assms(1,7)] show ?thesis
  proof cases
    case (1 e)
    have row: "sameIdentity row e"
      using 1(2) assms(4-6) by (auto simp: sameIdentity_def entryOf_def)
    have minted: "eventId e = makeEventId (runId e) (sourceId e) (sourceSeq e)" using 1(2) by (simp add: entryOf_def)
    have uniq: "x = row" if "x \<in> set (events s)" "sameIdentity x e" for x
      using that row sameIdentity_triple [OF assms(2) that(1) minted] sameIdentity_triple [OF assms(2,3) minted]
        evs_ok_unique [OF assms(2) that(1) assms(3)] by simp
    have "conflicts row e" using row by (simp add: conflicts_def)
    with 1(4) assms(3) obtain x where x: "x \<in> set (events s)" "rc = Duplicate (seq x) (sourceSeq e) Committed"
      "sameIdentity x e" "sameContent x e" "events s' = events s" by blast
    with uniq have "x = row" by blast
    with x have "rc = Duplicate (seq row) (sourceSeq e) Committed" "sameContent row e" "events s' = events s" by simp_all
    with 1(2) assms(6) show ?thesis by (auto simp: sameContent_def entryOf_def)
  qed
qed

end

section \<open>Transactions\<close>

lemma settle_tables:
  "frame s (rememberCommitted cfg q n s) \<and> events (rememberCommitted cfg q n s) = events s"
  by (simp add: rememberCommitted_def retain_def Let_def frame_def raiseSequenceFloor_def raiseSourceSequenceFloor_def)

lemma settle_fold:
  "frame s (foldl (\<lambda>t (q, n). rememberCommitted cfg q n t) s qs)
   \<and> events (foldl (\<lambda>t (q, n). rememberCommitted cfg q n t) s qs) = events s"
proof (induction qs arbitrary: s)
  case (Cons x qs)
  then show ?case using settle_tables [of s cfg "fst x" "snd x"]
    by (cases x) (auto intro: frame_trans)
qed simp

lemma settleAll_tables: "frame s (settleAll cfg s) \<and> events (settleAll cfg s) = events s"
  using settle_fold [of s cfg "settlements s"] by (auto simp: settleAll_def frame_def)

lemma transact_Inr:
  assumes "transact cfg body s = (Inr a, s')"
  obtains s1 where "body (s\<lparr>settlements := []\<rparr>) = (Inr a, s1)" "frame s1 s'" "events s' = events s1"
  using assms settleAll_tables [of _ cfg]
  by (auto simp: transact_def split: prod.splits sum.splits)

text \<open>A transaction that fails leaves every table as it was.\<close>

lemma transact_Inl:
  assumes "transact cfg body s = (Inl c, s')"
  obtains c' s1 where "body (s\<lparr>settlements := []\<rparr>) = (Inl c', s1)"
    "c = wrapDatabaseError ''journal transaction failed'' c'"
    "events s' = events s" "checkpoints s' = checkpoints s" "journal_db.more s' = journal_db.more s"
    "leases s' = c_rollback (consensus cfg) (leases s) (leases s1)"
    "status s' = status s1" "readers s' = readers s1" "clock s' = clock s1"
  using assms by (cases s) (auto simp: transact_def rollback_def split: prod.splits sum.splits)

section \<open>Reading a run\<close>

lemma rowsAfter_drop:
  assumes "ordered evs" "rows = rowsAfter r a evs" "0 < n" "n \<le> length rows"
  shows "rowsAfter r (seq (last (take n rows))) evs = drop n rows"
proof -
  let ?b = "seq (last (take n rows))"
  have rows: "rows = filter (\<lambda>e. runId e = r \<and> seq e > a) evs"
    using assms(1,2) by (simp add: rowsAfter_ordered)
  have "ordered rows" unfolding rows by (rule ordered_filter [OF assms(1)])
  moreover have run: "\<forall>e \<in> set rows. runId e = r" unfolding rows by simp
  ultimately have inc: "sorted_wrt (\<lambda>x y. seq x < seq y) rows"
    unfolding ordered_def by (auto elim!: sorted_wrt_mono_rel [rotated])
  have ne: "take n rows \<noteq> []" using assms(3,4) by (cases rows) auto
  have "last (take n rows) \<in> set rows" using ne by (meson in_set_takeD last_in_set)
  then have b: "?b > a" unfolding rows by simp
  have split: "sorted_wrt (\<lambda>x y. seq x < seq y) (take n rows @ drop n rows)" using inc by simp
  have low: "\<forall>e \<in> set (take n rows). \<not> seq e > ?b"
  proof -
    obtain init where init: "take n rows = init @ [last (take n rows)]"
      using ne by (metis append_butlast_last_id)
    from split have "sorted_wrt (\<lambda>x y. seq x < seq y) (init @ [last (take n rows)])"
      using init by (metis sorted_wrt_append)
    then have "\<forall>e \<in> set init. seq e < ?b" by (simp add: sorted_wrt_append)
    then show ?thesis by (subst init) auto
  qed
  have high: "\<forall>e \<in> set (drop n rows). seq e > ?b"
    using sorted_wrt_append [THEN iffD1, OF split] last_in_set [OF ne] by blast
  have "rowsAfter r ?b evs = filter (\<lambda>e. seq e > ?b) rows"
    using assms(1) b unfolding rows by (auto simp: rowsAfter_ordered intro: filter_cong)
  also have "\<dots> = filter (\<lambda>e. seq e > ?b) (take n rows) @ filter (\<lambda>e. seq e > ?b) (drop n rows)"
    by (metis append_take_drop_id filter_append)
  also have "\<dots> = drop n rows" using low high by (simp add: filter_empty_conv)
  finally show ?thesis .
qed

text \<open>
  The read loop of a stream returns every committed entry of the run above its cursor, in
  sequence order, whatever the page size.
\<close>

lemma readAvailable_all:
  fixes s :: "('l, 'z) journal_db_scheme"
  assumes "evs_ok (events s)" "r \<noteq> []" "0 < b" "isSafeInteger b" "-1 \<le> c" "isSafeInteger c"
    and "\<forall>f. compactionFloor r (checkpoints s) = Some f \<longrightarrow> f - 1 \<le> c"
  shows "\<exists>c'. readAvailable r b c s = Inr (rowsAfter r c (events s), c')
    \<and> c' = (if rowsAfter r c (events s) = [] then c else seq (last (rowsAfter r c (events s))))"
  using assms
proof (induction r b c s rule: readAvailable.induct)
  case (1 r b c s)
  let ?rows = "rowsAfter r c (events s)"
  let ?page = "\<lparr>entries = take (nat b) ?rows, hasMore = length ?rows > nat b\<rparr>"
  have ord: "ordered (events s)" using "1.prems"(1) by (simp add: evs_ok_def)
  have c: "(case if c < 0 then None else Some c of None \<Rightarrow> - 1 | Some n \<Rightarrow> n) = c"
    using "1.prems"(5) by auto
  have page: "readPage \<lparr>po_runId = r, po_after = (if c < 0 then None else Some c), po_limit = b\<rparr> s = (Inr ?page, s)"
    using "1.prems" c by (auto simp: readPage_def Let_def min_def split: option.splits)
  show ?case
  proof (cases "length ?rows > nat b")
    case False
    then show ?thesis using page by (subst readAvailable.simps) (auto simp: Let_def)
  next
    case True
    have ne: "take (nat b) ?rows \<noteq> []" using True "1.prems"(3) by (cases ?rows) auto
    let ?c' = "seq (last (take (nat b) ?rows))"
    have mem: "last (take (nat b) ?rows) \<in> set ?rows" using ne by (meson in_set_takeD last_in_set)
    then have c': "c < ?c'" "isSafeInteger ?c'"
      using "1.prems"(1) by (auto simp: evs_ok_def event_check_def isSafeInteger_def MAX_SAFE_INTEGER_def)
    have drop: "rowsAfter r ?c' (events s) = drop (nat b) ?rows"
      using rowsAfter_drop [OF ord refl, of "nat b" r c] True "1.prems"(3) by simp
    have "\<exists>c''. readAvailable r b ?c' s = Inr (rowsAfter r ?c' (events s), c'')
      \<and> c'' = (if rowsAfter r ?c' (events s) = [] then ?c' else seq (last (rowsAfter r ?c' (events s))))"
      using "1.IH" [of "Inr ?page" s ?page ?c'] page ne True "1.prems" c' by fastforce
    then show ?thesis
      using page ne True drop by (subst readAvailable.simps) (auto simp: Let_def last_drop)
  qed
qed

section \<open>Checkpoints and compaction\<close>

lemma cps_ok_append:
  assumes "cps_ok evs cps" "\<forall>x \<in> set evs. runId x = runId e \<longrightarrow> seq x < seq e"
  shows "cps_ok (evs @ [e]) cps"
proof -
  have "cp_good (evs @ [e]) c" if "cp_good evs c" for c
    using that assms(2) by (fastforce simp: cp_good_def)
  with assms(1) show ?thesis by (simp add: cps_ok_def)
qed

lemma cps_ok_map:
  assumes "cps_ok evs cps" "\<And>c. cp_key (f c) = cp_key c" "\<And>c. c \<in> set cps \<Longrightarrow> cp_good evs c \<Longrightarrow> cp_good evs' (f c)"
  shows "cps_ok evs' (map f cps)"
proof -
  have "map cp_key (map f cps) = map cp_key cps" using assms(2) by auto
  then have "distinct (map cp_key (map f cps))" using assms(1) by (simp only: cps_ok_def)
  moreover have "\<forall>c \<in> set (map f cps). cp_good evs' c" using assms(1,3) by (auto simp: cps_ok_def)
  ultimately show ?thesis by (simp only: cps_ok_def)
qed

lemma cps_ok_filter: "cps_ok evs cps \<Longrightarrow> cps_ok evs (filter P cps)"
  by (simp add: cps_ok_def distinct_map_filter)

lemma newest_in: "newest cps = Some c \<Longrightarrow> c \<in> set cps"
proof -
  assume "newest cps = Some c"
  then obtain rest where "rev (sort_key cp_seq cps) = c # rest" by (auto simp: newest_def hd_opt_def split: list.splits)
  then have "c \<in> set (rev (sort_key cp_seq cps))" by (metis list.set_intros(1))
  then show "c \<in> set cps" by simp
qed

lemma putCheckpoint_Inr:
  assumes "putCheckpoint r n st now s = (Inr c, s')" "cps_ok (events s) (checkpoints s)"
    and "\<exists>e \<in> set (events s). runId e = r \<and> seq e = n"
  shows "cps_ok (events s') (checkpoints s') \<and> events s' = events s \<and> leases s' = leases s
    \<and> journal_db.more s' = journal_db.more s"
proof -
  let ?f = "\<lambda>c. if cp_runId c = r \<and> cp_seq c = n then c\<lparr>cp_state := st, cp_createdAtMs := now\<rparr> else c"
  let ?new = "\<lparr>cp_runId = r, cp_seq = n, cp_state = st, cp_createdAtMs = now, cp_compactedAtMs = None\<rparr>"
  have "cps_ok (events s) (map ?f (checkpoints s))"
    by (rule cps_ok_map [OF assms(2)]) (auto simp: cp_good_def)
  moreover have "cps_ok (events s) (checkpoints s @ [?new])"
    if "\<not> list_ex (\<lambda>c. cp_runId c = r \<and> cp_seq c = n) (checkpoints s)"
    using that assms(2,3) by (force simp: cps_ok_def cp_good_def list_ex_iff)
  ultimately show ?thesis
    using assms(1) by (auto simp: putCheckpoint_def Let_def split: if_splits)
qed

lemma truncateBelow_Inr:
  assumes "truncateBelow r n now s = (Inr res, s')"
  shows "events s' = filter (\<lambda>e. \<not> (runId e = r \<and> seq e < n)) (events s) \<and> leases s' = leases s
    \<and> checkpoints s' = map (\<lambda>c. if cp_runId c = r \<and> cp_seq c = n then c\<lparr>cp_compactedAtMs := Some now\<rparr> else c)
          (filter (\<lambda>c. \<not> (cp_runId c = r \<and> cp_seq c < n)) (checkpoints s))
    \<and> journal_db.more s' = journal_db.more s
    \<and> ck_checkpointSeq res = n \<and> ck_deleted res = length (filter (\<lambda>e. runId e = r \<and> seq e < n) (events s))"
  using assms by (auto simp: truncateBelow_def Let_def split: if_splits)

lemma truncate_cps_ok:
  assumes "cps_ok evs cps"
  shows "cps_ok (filter (\<lambda>e. \<not> (runId e = r \<and> seq e < n)) evs)
    (map (\<lambda>c. if cp_runId c = r \<and> cp_seq c = n then c\<lparr>cp_compactedAtMs := Some now\<rparr> else c)
      (filter (\<lambda>c. \<not> (cp_runId c = r \<and> cp_seq c < n)) cps))"
proof (rule cps_ok_map [OF cps_ok_filter [OF assms]])
  fix c
  assume c: "c \<in> set (filter (\<lambda>c. \<not> (cp_runId c = r \<and> cp_seq c < n)) cps)" and "cp_good evs c"
  then obtain e where "e \<in> set evs" "runId e = cp_runId c" "seq e = cp_seq c" by (auto simp: cp_good_def)
  with c \<open>cp_good evs c\<close> show "cp_good (filter (\<lambda>e. \<not> (runId e = r \<and> seq e < n)) evs)
      (if cp_runId c = r \<and> cp_seq c = n then c\<lparr>cp_compactedAtMs := Some now\<rparr> else c)"
    by (auto simp: cp_good_def not_less intro!: bexI [of _ e])
qed auto

text \<open>
  The checkpointed entry survives, so truncation never lowers the sequence allocator of any run: a
  process that starts afterwards cannot hand out a truncated sequence again.
\<close>

lemma truncate_nextDurable:
  assumes "\<exists>e \<in> set evs. runId e = r \<and> seq e = n"
  shows "nextDurableSeq x (filter (\<lambda>e. \<not> (runId e = r \<and> seq e < n)) evs) = nextDurableSeq x evs"
  unfolding nextDurableSeq_def
proof (rule maxPlus1_eqI)
  show "\<forall>m \<in> set (map seq (filter (\<lambda>e. runId e = x) evs)).
      \<exists>k \<in> set (map seq (filter (\<lambda>e. runId e = x) (filter (\<lambda>e. \<not> (runId e = r \<and> seq e < n)) evs))). m \<le> k"
  proof
    fix m assume "m \<in> set (map seq (filter (\<lambda>e. runId e = x) evs))"
    then obtain e where e: "e \<in> set evs" "runId e = x" "m = seq e" by auto
    from assms obtain t where t: "t \<in> set evs" "runId t = r" "seq t = n" by blast
    show "\<exists>k \<in> set (map seq (filter (\<lambda>e. runId e = x) (filter (\<lambda>e. \<not> (runId e = r \<and> seq e < n)) evs))). m \<le> k"
    proof (cases "runId e = r \<and> seq e < n")
      case True
      with e t show ?thesis by (intro bexI [of _ n]) force+
    next
      case False
      with e show ?thesis by (intro bexI [of _ "seq e"]) auto
    qed
  qed
qed auto

lemma writeJ_Inr: "writeJ cfg m body s = (Inr a, s') \<longleftrightarrow> body s = (Inr a, s')"
  by (auto simp: writeJ_def split: prod.splits sum.splits)

lemma writeJ_Inl:
  assumes "writeJ cfg m body s = (Inl c, s')"
  obtains c' s1 where "body s = (Inl c', s1)" "events s' = events s" "checkpoints s' = checkpoints s"
    "leases s' = c_rollback (consensus cfg) (leases s) (leases s1)"
    "journal_db.more s' = journal_db.more s"
  using assms by (cases s) (auto simp: writeJ_def rollback_def split: prod.splits sum.splits)

context journal_service
begin

definition journal_ok :: "('l, 'z) journal_db_scheme \<Rightarrow> bool" where
  "journal_ok s \<longleftrightarrow> inv (leases s) \<and> evs_ok (events s) \<and> cps_ok (events s) (checkpoints s)"

lemma emit_journal_ok:
  fixes s :: "('l, 'z) journal_db_scheme"
  assumes "journal_ok s" "emitDurable cfg input owner s = (x, s')"
  shows "journal_ok s'"
proof (cases x)
  case (Inl c)
  with assms emit_Inl [of s input owner c s'] show ?thesis by (auto simp: journal_ok_def frame_def)
next
  case (Inr rc)
  have inv: "inv (leases s)" and cps: "cps_ok (events s) (checkpoints s)" using assms(1) by (auto simp: journal_ok_def)
  from Inr assms(2) have "emitDurable cfg input owner s = (Inr rc, s')" by simp
  from emit_Inr [OF inv this] show ?thesis
  proof cases
    case (1 e)
    have "cps_ok (events s') (checkpoints s')" using 1(1,4) cps cps_ok_append [OF cps] by (auto simp: frame_def)
    moreover have "evs_ok (events s')" using emit_evs_ok [OF inv _ assms(2)] assms(1) by (simp add: journal_ok_def)
    ultimately show ?thesis using 1(1) inv by (simp add: journal_ok_def frame_def)
  qed
qed

lemma compact_Inr:
  fixes s :: "('l, 'z) journal_db_scheme"
  assumes "inv (leases s)" "compact cfg r upTo owner s = (Inr res, s')"
  obtains
    (already) "events s' = events s" "checkpoints s' = checkpoints s" "leases s' = leases s"
      "journal_db.more s' = journal_db.more s"
  | (truncated) c now where "c \<in> set (checkpoints s)" "cp_runId c = r" "cp_seq c = ck_checkpointSeq res"
      "\<not> readerBehind r (cp_seq c) s" "\<not> foldBehind r (cp_seq c) (events s)"
      "truncateBelow r (cp_seq c) now (s\<lparr>tick := Suc (tick s)\<rparr>) = (Inr res, s')"
proof -
  let ?s1 = "s\<lparr>tick := Suc (tick s)\<rparr>"
  have inv1: "inv (leases ?s1)" using assms(1) by simp
  from assms(2) obtain u s2 where g: "guardOpt cfg r owner ?s1 = (Inr u, s2)"
    and rest: "(case checkpointRow r upTo (checkpoints s2) of None \<Rightarrow> failT (noCheckpoint r upTo) s2
        | Some row \<Rightarrow> compactTo r row (clock s (tick s)) s2) = (Inr res, s')"
    unfolding compact_def by (auto simp: writeJ_Inr bindT_Inr split: if_splits)
  have [simp]: "s2 = ?s1" using guardOpt_Inr [OF inv1 g] by simp
  from rest obtain c where c: "checkpointRow r upTo (checkpoints s) = Some c"
    and rest': "compactTo r c (clock s (tick s)) ?s1 = (Inr res, s')"
    by (auto split: option.splits)
  have mem: "c \<in> set (checkpoints s)" "cp_runId c = r"
    using c by (auto simp: checkpointRow_def split: option.splits dest!: newest_in simp: find_Some_iff in_set_conv_nth)
  show thesis
  proof (cases "cp_compactedAtMs c")
    case (Some t)
    with rest' already show thesis by (auto simp: compactTo_def)
  next
    case None
    with rest' have t: "truncateBelow r (cp_seq c) (clock s (tick s)) ?s1 = (Inr res, s')"
      and rd: "\<not> readerBehind r (cp_seq c) ?s1" and fb: "\<not> foldBehind r (cp_seq c) (events s)"
      by (auto simp: compactTo_def Let_def split: if_splits)
    have "cp_seq c = ck_checkpointSeq res" using truncateBelow_Inr [OF t] by simp
    with truncated [of c "clock s (tick s)"] mem t rd fb show thesis by (simp add: readerBehind_def)
  qed
qed

lemma compact_journal_ok:
  fixes s :: "('l, 'z) journal_db_scheme"
  assumes "journal_ok s" "compact cfg r upTo owner s = (Inr res, s')"
  shows "journal_ok s' \<and> nextDurableSeq x (events s') = nextDurableSeq x (events s)"
proof -
  have inv: "inv (leases s)" using assms(1) by (simp add: journal_ok_def)
  from inv assms(2) show ?thesis
  proof (cases rule: compact_Inr)
    case already
    with assms(1) show ?thesis by (simp add: journal_ok_def)
  next
    case (truncated c now)
    have "\<exists>e \<in> set (events s). runId e = r \<and> seq e = cp_seq c"
      using assms(1) truncated(1,2) by (auto simp: journal_ok_def cps_ok_def cp_good_def)
    from truncate_nextDurable [OF this] truncateBelow_Inr [OF truncated(6)] assms(1)
      truncate_cps_ok [of "events s" "checkpoints s" r "cp_seq c" now]
      evs_ok_filter [of "events s" "\<lambda>e. \<not> (runId e = r \<and> seq e < cp_seq c)"]
    show ?thesis by (simp add: journal_ok_def)
  qed
qed

end

definition sqlConfig :: "Rule list \<Rightarrow> nat \<Rightarrow> lease_table Config" where
  "sqlConfig rs n = \<lparr>consensus = makeSql, rules = rs, sourceEventCache = n\<rparr>"

definition localConfig :: "Rule list \<Rightarrow> nat \<Rightarrow> local_leases Config" where
  "localConfig rs n = \<lparr>consensus = makeLocal, rules = rs, sourceEventCache = n\<rparr>"

interpretation sqlj: journal_service makeSql sql_view sql_inv "sqlConfig rs n" for rs n
  by unfold_locales (simp add: sqlConfig_def)

interpretation localj: journal_service makeLocal local_view local_inv "localConfig rs n" for rs n
  by unfold_locales (simp add: localConfig_def)

end
