(* ===== verification/GrantReplay.thy ===== *)
theory GrantReplay
  imports GrantCodec GrantLog Journal_Log
begin

text \<open>
  The journal-backed grant store (\<^verbatim>\<open>packages/kernel/src/JournalGrantStore.ts\<close>): decisions are durable journal
  events, and a new store replays the policy journal and the journal of its run, page by page, into rules.
\<close>

section \<open>Options and trusted entries\<close>

record JournalGrantStoreOptions =
  jg_runId :: string
  jg_policyRunId :: string
  jg_sourceId :: string
  jg_planDigest :: string
  jg_attended :: bool
  jg_rules :: "PermissionRule list list"
  jg_envelope :: "(CapabilityPattern list \<times> string option) option"

definition journalFailed :: "string \<Rightarrow> PermissionError" where
  "journalFailed message = GrantStoreError Journal_failed (Some message)"

definition invalidReplay :: "string \<Rightarrow> PermissionError" where
  "invalidReplay message = GrantStoreError Invalid_resolution (Some message)"

definition knownEventTypes :: "string list" where
  "knownEventTypes =
     [''flows.kernel.grant.once.v1'', ''flows.kernel.grant.run.v1'', ''flows.kernel.grant.remembered.v1'',
      ''flows.kernel.grant.denied.v1'', ''flows.kernel.grant.envelope.v1'']"

definition decodeTrustedEntry :: "Entry \<Rightarrow> string \<Rightarrow> PermissionError + GrantEvent option" where
  "decodeTrustedEntry entry source =
     (if sourceId entry \<noteq> source \<or> eventType entry \<notin> set knownEventTypes then Inr None
      else case decodeGrantEvent (payload entry) of
          None \<Rightarrow> Inl (invalidReplay (''invalid grant payload at journal sequence '' @ show_int (seq entry)))
        | Some event \<Rightarrow>
            if eventTypeOf event \<noteq> eventType entry
            then Inl (invalidReplay (''grant envelope/payload type mismatch at journal sequence '' @ show_int (seq entry)))
            else Inr (Some event))"

section \<open>Replay\<close>

text \<open>What a replay has collected: the rules in order and the signatures of the envelopes.\<close>

type_synonym replayed = "PermissionRule list \<times> string list"

definition rememberedEntry :: "string \<Rightarrow> string \<Rightarrow> replayed \<Rightarrow> Entry \<Rightarrow> PermissionError + replayed" where
  "rememberedEntry source root acc entry =
     (case decodeTrustedEntry entry source of
        Inl e \<Rightarrow> Inl e
      | Inr None \<Rightarrow> Inr acc
      | Inr (Some event) \<Rightarrow>
          (case event of
             RememberedGrant _ _ _ capability pattern tier \<Rightarrow>
               if \<not> isValidGrantPattern pattern capability tier root
               then Inl (invalidReplay (''unsafe remembered grant event: '' @ show_int (seq entry)))
               else Inr (fst acc @ [allowRule pattern], snd acc)
           | EnvelopeGrant _ digest patterns scope \<Rightarrow>
               if scope = ''remembered''
               then (if list_ex (\<lambda>p. \<not> isValidEnvelopePattern p root) patterns
                     then Inl (invalidReplay (''unsafe remembered envelope event: '' @ show_int (seq entry)))
                     else Inr (fst acc @ map allowRule patterns, snd acc @ [envelopeSignature digest scope patterns]))
               else Inl (invalidReplay (''run-scoped event found in policy journal: '' @ show_int (seq entry)))
           | _ \<Rightarrow> Inl (invalidReplay (''run-scoped event found in policy journal: '' @ show_int (seq entry)))))"

fun eventRunId :: "GrantEvent \<Rightarrow> string" where
  "eventRunId (OnceGrant _ run _ _ _ _) = run"
| "eventRunId (RunGrant _ run _ _ _ _) = run"
| "eventRunId (RememberedGrant _ run _ _ _ _) = run"
| "eventRunId (DeniedGrant _ run _ _ _ _) = run"
| "eventRunId (EnvelopeGrant run _ _ _) = run"

definition runEntry :: "string \<Rightarrow> string \<Rightarrow> string \<Rightarrow> string \<Rightarrow> replayed \<Rightarrow> Entry \<Rightarrow> PermissionError + replayed" where
  "runEntry run source planDigest root acc entry =
     (case decodeTrustedEntry entry source of
        Inl e \<Rightarrow> Inl e
      | Inr None \<Rightarrow> Inr acc
      | Inr (Some event) \<Rightarrow>
          if eventRunId event \<noteq> run
          then Inl (invalidReplay (''grant payload run mismatch at journal sequence '' @ show_int (seq entry)))
          else (case event of
             OnceGrant _ _ _ _ _ _ \<Rightarrow> Inr acc
           | DeniedGrant _ _ _ _ _ _ \<Rightarrow> Inr acc
           | RunGrant _ _ digest capability pattern tier \<Rightarrow>
               if digest \<noteq> planDigest then Inr acc
               else if \<not> isValidGrantPattern pattern capability tier root
               then Inl (invalidReplay (''unsafe run grant event: '' @ show_int (seq entry)))
               else Inr (fst acc @ [allowRule pattern], snd acc)
           | EnvelopeGrant _ digest patterns scope \<Rightarrow>
               if scope = ''run''
               then (if digest \<noteq> planDigest then Inr acc
                     else if list_ex (\<lambda>p. \<not> isValidEnvelopePattern p root) patterns
                     then Inl (invalidReplay (''unsafe run envelope event: '' @ show_int (seq entry)))
                     else Inr (fst acc @ map allowRule patterns, snd acc @ [envelopeSignature digest scope patterns]))
               else Inl (invalidReplay (''remembered event found in run journal: '' @ show_int (seq entry)))
           | RememberedGrant _ _ _ _ _ _ \<Rightarrow>
               Inl (invalidReplay (''remembered event found in run journal: '' @ show_int (seq entry)))))"

fun foldM :: "('b \<Rightarrow> 'a \<Rightarrow> 'e + 'b) \<Rightarrow> 'b \<Rightarrow> 'a list \<Rightarrow> 'e + 'b" where
  "foldM f acc [] = Inr acc"
| "foldM f acc (x # xs) = (case f acc x of Inl e \<Rightarrow> Inl e | Inr acc' \<Rightarrow> foldM f acc' xs)"

text \<open>
  The loop over pages of 256, with its guard against a page that does not advance. \<open>cursor\<close> is \<open>after\<close>, with -1 for
  a read from the start. A failed read is \<open>message\<close> as \<open>journal_failed\<close>.
\<close>

function replayPages :: "string \<Rightarrow> (replayed \<Rightarrow> Entry \<Rightarrow> PermissionError + replayed) \<Rightarrow> string \<Rightarrow> int \<Rightarrow> replayed
    \<Rightarrow> ('l, 'z) journal_db_scheme \<Rightarrow> PermissionError + replayed" where
  "replayPages message f r cursor acc s =
     (case readPage \<lparr>po_runId = r, po_after = (if cursor < 0 then None else Some cursor), po_limit = 256\<rparr> s of
        (Inl _, _) \<Rightarrow> Inl (journalFailed message)
      | (Inr page, _) \<Rightarrow>
          if entries page \<noteq> [] \<and> \<not> cursor < 0 \<and> seq (last (entries page)) \<le> cursor
          then Inl (invalidReplay (''non-advancing journal page at sequence '' @ show_int (seq (last (entries page)))))
          else case foldM f acc (entries page) of
              Inl e \<Rightarrow> Inl e
            | Inr acc' \<Rightarrow>
                if \<not> hasMore page \<or> entries page = [] then Inr acc'
                else replayPages message f r (seq (last (entries page))) acc' s)"
  by pat_completeness auto
termination
proof (relation "measure (\<lambda>(m, f, r, cursor, acc, s). length (filter (\<lambda>e. runId e = r \<and> seq e > max cursor (-1)) (events s)))")
qed (auto simp del: max_less_iff_conj dest!: sym [where s = "(_, _)"] readPage_progress)

declare replayPages.simps [simp del]

definition replayRememberedRules :: "string \<Rightarrow> string \<Rightarrow> string \<Rightarrow> ('l, 'z) journal_db_scheme \<Rightarrow> PermissionError + replayed" where
  "replayRememberedRules policyRun source root =
     replayPages ''could not replay remembered grants'' (rememberedEntry source root) policyRun (-1) ([], [])"

definition replayRunRules :: "string \<Rightarrow> string \<Rightarrow> string \<Rightarrow> string \<Rightarrow> ('l, 'z) journal_db_scheme \<Rightarrow> PermissionError + replayed" where
  "replayRunRules run source planDigest root =
     replayPages ''could not replay run grants'' (runEntry run source planDigest root) run (-1) ([], [])"

section \<open>Persistence and construction\<close>

definition persistInput :: "JournalGrantStoreOptions \<Rightarrow> GrantEvent \<Rightarrow> Input" where
  "persistInput jo event =
     \<lparr>in_runId = (case event of
         RememberedGrant _ _ _ _ _ _ \<Rightarrow> jg_policyRunId jo
       | EnvelopeGrant _ _ _ scope \<Rightarrow> if scope = ''remembered'' then jg_policyRunId jo else jg_runId jo
       | _ \<Rightarrow> jg_runId jo),
      in_sourceId = jg_sourceId jo, in_sourceSeq = None, in_eventType = eventTypeOf event,
      in_payload = encodeGrantEvent event, in_meta = None\<rparr>"

definition persistJ :: "'l Config \<Rightarrow> JournalGrantStoreOptions \<Rightarrow> ('l, 'z) journal_db_scheme persist" where
  "persistJ cfg jo event s =
     (case emitDurableAlone cfg (persistInput jo event) None s of
        (Inl _, s') \<Rightarrow> (Inl (journalFailed ''could not persist grant event''), s')
      | (Inr _, s') \<Rightarrow> (Inr (), s'))"

text \<open>The options the in-memory store is built with, from what was replayed.\<close>

definition storeOptions :: "'l Config \<Rightarrow> JournalGrantStoreOptions \<Rightarrow> string \<Rightarrow> replayed \<Rightarrow> replayed
    \<Rightarrow> ('l, 'z) journal_db_scheme MakeOptions" where
  "storeOptions cfg jo root policy run =
     \<lparr>mo_attended = jg_attended jo,
      mo_rules = NestedRules (if jg_rules jo = [] then [[], fst policy] else jg_rules jo @ [fst policy]),
      mo_runRules = fst run,
      mo_envelope = map_option (\<lambda>(ps, scope). \<lparr>eg_planDigest = jg_planDigest jo, eg_patterns = ps, eg_scope = scope\<rparr>) (jg_envelope jo),
      mo_envelopeSignatures = snd policy @ snd run,
      mo_runId = Some (jg_runId jo), mo_planDigest = Some (jg_planDigest jo),
      mo_persist = persistJ cfg jo, mo_workspaceRoot = root\<rparr>"

text \<open>
  Construction. The replay of the first lines reads the journal \<open>s\<close>; when an envelope has to be made durable, the
  affected journal is replayed again under the construction lock, when the journal is \<open>locked\<close>. The result is the
  options and the store.
\<close>

definition makeJournal :: "'l Config \<Rightarrow> JournalGrantStoreOptions \<Rightarrow> string \<Rightarrow> CapabilitySet
    \<Rightarrow> ('l, 'z) journal_db_scheme \<Rightarrow> ('l, 'z) journal_db_scheme
    \<Rightarrow> (PermissionError + ('l, 'z) journal_db_scheme MakeOptions \<times> ('l, 'z) journal_db_scheme grants) \<times> ('l, 'z) journal_db_scheme" where
  "makeJournal cfg jo root ceiling s locked =
     (let policyOf = replayRememberedRules (jg_policyRunId jo) (jg_sourceId jo) root;
          runOf = replayRunRules (jg_runId jo) (jg_sourceId jo) (jg_planDigest jo) root;
          build = (\<lambda>policy run t. case makeGrants (storeOptions cfg jo root policy run) ceiling t of
              (Inl e, t') \<Rightarrow> (Inl e, t')
            | (Inr g, t') \<Rightarrow> (Inr (storeOptions cfg jo root policy run, g), t')) in
      if jg_planDigest jo = [] then (Inl (GrantStoreError Invalid_resolution (Some ''journal-backed grants require a plan digest'')), s)
      else case policyOf s of
          Inl e \<Rightarrow> (Inl e, s)
        | Inr policy \<Rightarrow>
            (case runOf s of
               Inl e \<Rightarrow> (Inl e, s)
             | Inr run \<Rightarrow>
                 (case jg_envelope jo of
                    None \<Rightarrow> build policy run s
                  | Some (patterns, scope) \<Rightarrow>
                      if patterns = [] then build policy run s
                      else let sc = scopeOf scope; signature = envelopeSignature (jg_planDigest jo) sc patterns in
                        if signature \<in> set (snd (if sc = ''remembered'' then policy else run)) then build policy run s
                        else if sc = ''remembered''
                        then (case policyOf locked of Inl e \<Rightarrow> (Inl e, locked) | Inr policy' \<Rightarrow> build policy' run locked)
                        else (case runOf locked of Inl e \<Rightarrow> (Inl e, locked) | Inr run' \<Rightarrow> build policy run' locked))))"

section \<open>Replay is a fold over the run\<close>

lemma foldM_append: "foldM f acc (xs @ ys) = (case foldM f acc xs of Inl e \<Rightarrow> Inl e | Inr acc' \<Rightarrow> foldM f acc' ys)"
  by (induction xs arbitrary: acc) (auto split: sum.splits)

text \<open>Whatever the pages, a replay is the fold over all retained entries of the run after the cursor.\<close>

theorem replayPages_fold:
  assumes "evs_ok (events s)" "r \<noteq> []" "-1 \<le> c" "isSafeInteger c"
    and "\<forall>n. compactionFloor r (checkpoints s) = Some n \<longrightarrow> n - 1 \<le> c"
  shows "replayPages m f r c acc s = foldM f acc (rowsAfter r c (events s))"
  using assms
proof (induction m f r c acc s rule: replayPages.induct)
  case (1 m f r c acc s)
  let ?rows = "rowsAfter r c (events s)"
  let ?page = "\<lparr>entries = take 256 ?rows, hasMore = length ?rows > 256\<rparr>"
  have ord: "ordered (events s)" using "1.prems"(1) by (simp add: evs_ok_def)
  have c: "(case if c < 0 then None else Some c of None \<Rightarrow> - 1 | Some n \<Rightarrow> n) = c" using "1.prems"(3) by auto
  have page: "readPage \<lparr>po_runId = r, po_after = (if c < 0 then None else Some c), po_limit = 256\<rparr> s = (Inr ?page, s)"
    using "1.prems" c by (auto simp: readPage_def Let_def min_def isSafeInteger_def MAX_SAFE_INTEGER_def split: option.splits)
  have later: "\<forall>e \<in> set ?rows. c < seq e" by simp
  have guard: "\<not> (take 256 ?rows \<noteq> [] \<and> \<not> c < 0 \<and> seq (last (take 256 ?rows)) \<le> c)"
    using later by (metis in_set_takeD last_in_set leD)
  show ?case
  proof (cases "length ?rows > 256")
    case False
    then show ?thesis using page guard by (subst replayPages.simps) (auto split: sum.splits)
  next
    case True
    have ne: "take 256 ?rows \<noteq> []" using True by (cases ?rows) auto
    let ?c' = "seq (last (take 256 ?rows))"
    have mem: "last (take 256 ?rows) \<in> set ?rows" using ne by (meson in_set_takeD last_in_set)
    then have c': "c < ?c'" "isSafeInteger ?c'"
      using "1.prems"(1) by (auto simp: evs_ok_def event_check_def isSafeInteger_def MAX_SAFE_INTEGER_def)
    have drop: "rowsAfter r ?c' (events s) = drop 256 ?rows"
      using rowsAfter_drop [OF ord refl, of 256 r c] True by simp
    have IH: "replayPages m f r ?c' acc' s = foldM f acc' (drop 256 ?rows)" if "foldM f acc (take 256 ?rows) = Inr acc'" for acc'
      using "1.IH" [of "Inr ?page" s ?page acc'] page guard ne True "1.prems" c' that drop by fastforce
    have "foldM f acc ?rows = foldM f acc (take 256 ?rows @ drop 256 ?rows)" by simp
    also have "\<dots> = (case foldM f acc (take 256 ?rows) of Inl e \<Rightarrow> Inl e | Inr acc' \<Rightarrow> foldM f acc' (drop 256 ?rows))"
      by (rule foldM_append)
    finally show ?thesis
      using page guard ne True IH by (subst replayPages.simps) (auto split: sum.splits)
  qed
qed

section \<open>What a replay accepts and collects\<close>

fun rememberedPass :: "string \<Rightarrow> GrantEvent \<Rightarrow> bool" where
  "rememberedPass root (RememberedGrant _ _ _ c p tier) = isValidGrantPattern p c tier root"
| "rememberedPass root (EnvelopeGrant _ _ ps scope) \<longleftrightarrow> scope = ''remembered'' \<and> (\<forall>p \<in> set ps. isValidEnvelopePattern p root)"
| "rememberedPass root _ = False"

fun ofPlan :: "string \<Rightarrow> GrantEvent \<Rightarrow> bool" where
  "ofPlan d (RunGrant _ _ d' _ _ _) \<longleftrightarrow> d' = d"
| "ofPlan d (EnvelopeGrant _ d' _ scope) \<longleftrightarrow> scope = ''remembered'' \<or> d' = d"
| "ofPlan d _ = True"

fun runPass :: "string \<Rightarrow> string \<Rightarrow> GrantEvent \<Rightarrow> bool" where
  "runPass d root (RunGrant _ _ d' c p tier) \<longleftrightarrow> (d' = d \<longrightarrow> isValidGrantPattern p c tier root)"
| "runPass d root (EnvelopeGrant _ d' ps scope) \<longleftrightarrow> scope = ''run'' \<and> (d' = d \<longrightarrow> (\<forall>p \<in> set ps. isValidEnvelopePattern p root))"
| "runPass d root (RememberedGrant _ _ _ _ _ _) = False"
| "runPass d root _ = True"

text \<open>An entry passes when it is foreign or decodes to an event of the expected kind.\<close>

definition entryPass :: "string \<Rightarrow> (GrantEvent \<Rightarrow> bool) \<Rightarrow> Entry \<Rightarrow> bool" where
  "entryPass source ok e \<longleftrightarrow> (case decodeTrustedEntry e source of Inl x \<Rightarrow> False | Inr None \<Rightarrow> True | Inr (Some ev) \<Rightarrow> ok ev)"

definition trustedEvents :: "string \<Rightarrow> Entry set \<Rightarrow> GrantEvent set" where
  "trustedEvents source es = {ev. \<exists>e \<in> es. decodeTrustedEntry e source = Inr (Some ev)}"

lemma trustedEvents_insert:
  "trustedEvents source (insert e es) =
     (case decodeTrustedEntry e source of Inr (Some ev) \<Rightarrow> insert ev (trustedEvents source es) | _ \<Rightarrow> trustedEvents source es)"
  by (auto simp: trustedEvents_def split: sum.splits option.splits)

lemma rememberedEntry_Inr:
  "rememberedEntry source root acc e = Inr acc' \<longleftrightarrow> entryPass source (rememberedPass root) e
     \<and> (case decodeTrustedEntry e source of
          Inr (Some ev) \<Rightarrow> fst acc' = fst acc @ map allowRule (case ev of RememberedGrant _ _ _ _ p _ \<Rightarrow> [p] | EnvelopeGrant _ _ ps _ \<Rightarrow> ps | _ \<Rightarrow> [])
            \<and> snd acc' = snd acc @ (case ev of EnvelopeGrant _ d ps scope \<Rightarrow> [envelopeSignature d scope ps] | _ \<Rightarrow> [])
        | _ \<Rightarrow> acc' = acc)"
  by (cases acc; cases acc')
    (auto simp: rememberedEntry_def entryPass_def list_ex_iff split: sum.splits option.splits GrantEvent.splits if_splits)

lemma runEntry_Inr:
  "runEntry run source d root acc e = Inr acc' \<longleftrightarrow> entryPass source (\<lambda>ev. eventRunId ev = run \<and> runPass d root ev) e
     \<and> (case decodeTrustedEntry e source of
          Inr (Some ev) \<Rightarrow> fst acc' = fst acc @ map allowRule (case ev of RunGrant _ _ d' _ p _ \<Rightarrow> if d' = d then [p] else []
              | EnvelopeGrant _ d' ps _ \<Rightarrow> if d' = d then ps else [] | _ \<Rightarrow> [])
            \<and> snd acc' = snd acc @ (case ev of EnvelopeGrant _ d' ps scope \<Rightarrow> if d' = d then [envelopeSignature d' scope ps] else [] | _ \<Rightarrow> [])
        | _ \<Rightarrow> acc' = acc)"
  by (cases acc; cases acc')
    (auto simp: runEntry_def entryPass_def list_ex_iff split: sum.splits option.splits GrantEvent.splits if_splits)

lemma rememberedEntry_rules:
  assumes "rememberedEntry source root acc e = Inr acc'"
  shows "set (fst acc') = set (fst acc) \<union> allowRule ` \<Union> (rememberedPatterns ` trustedEvents source {e})"
  using assms by (auto simp: rememberedEntry_Inr trustedEvents_def entryPass_def split: sum.splits option.splits GrantEvent.splits)

lemma runEntry_rules:
  assumes "runEntry run source d root acc e = Inr acc'"
  shows "set (fst acc') = set (fst acc) \<union> allowRule ` \<Union> (runPatterns ` {ev \<in> trustedEvents source {e}. ofPlan d ev})"
  using assms by (auto simp: runEntry_Inr trustedEvents_def entryPass_def split: sum.splits option.splits GrantEvent.splits if_splits)

lemma trustedEvents_Un: "trustedEvents source (a \<union> b) = trustedEvents source a \<union> trustedEvents source b"
  by (auto simp: trustedEvents_def)

lemma foldM_rules:
  assumes "\<And>acc e acc'. f acc e = Inr acc' \<Longrightarrow> set (fst acc') = set (fst acc) \<union> allowRule ` \<Union> (pats ` {ev \<in> trustedEvents source {e}. Q ev})"
    and "foldM f acc es = Inr acc'"
  shows "set (fst acc') = set (fst acc) \<union> allowRule ` \<Union> (pats ` {ev \<in> trustedEvents source (set es). Q ev})"
  using assms(2)
proof (induction es arbitrary: acc)
  case (Cons e es)
  then obtain b where b: "f acc e = Inr b" "foldM f b es = Inr acc'" by (auto split: sum.splits)
  have "trustedEvents source (set (e # es)) = trustedEvents source {e} \<union> trustedEvents source (set es)"
    using trustedEvents_Un [of source "{e}" "set es"] by simp
  then show ?case using Cons.IH [OF b(2)] assms(1) [OF b(1)] by auto
qed (simp add: trustedEvents_def)

lemma foldM_pass:
  assumes "\<And>acc e. (\<exists>acc'. f acc e = Inr acc') \<longleftrightarrow> P e"
  shows "(\<exists>acc'. foldM f acc es = Inr acc') \<longleftrightarrow> (\<forall>e \<in> set es. P e)"
proof (induction es arbitrary: acc)
  case (Cons e es)
  show ?case
  proof (cases "f acc e")
    case (Inl x)
    with assms [of acc e] show ?thesis by auto
  next
    case (Inr b)
    with assms [of acc e] Cons.IH [of b] show ?thesis by auto
  qed
qed simp

lemma rememberedEntry_pass: "(\<exists>acc'. rememberedEntry source root acc e = Inr acc') \<longleftrightarrow> entryPass source (rememberedPass root) e"
  by (cases acc) (auto simp: rememberedEntry_def entryPass_def list_ex_iff split: sum.splits option.splits GrantEvent.splits)

lemma runEntry_pass:
  "(\<exists>acc'. runEntry run source d root acc e = Inr acc') \<longleftrightarrow> entryPass source (\<lambda>ev. eventRunId ev = run \<and> runPass d root ev) e"
  by (cases acc) (auto simp: runEntry_def entryPass_def list_ex_iff split: sum.splits option.splits GrantEvent.splits)

text \<open>Both replays over a journal that has not been compacted.\<close>

definition entriesOf :: "string \<Rightarrow> Entry list \<Rightarrow> Entry set" where
  "entriesOf r evs = {e \<in> set evs. runId e = r}"

lemma rowsAfter_all:
  assumes "evs_ok evs"
  shows "set (rowsAfter r (-1) evs) = entriesOf r evs"
  using assms by (fastforce simp: entriesOf_def evs_ok_def event_check_def)

lemma replay_rows:
  assumes "evs_ok (events s)" "r \<noteq> []" "compactionFloor r (checkpoints s) = None"
  shows "replayPages m f r (-1) ([], []) s = foldM f ([], []) (rowsAfter r (-1) (events s))"
  by (rule replayPages_fold) (use assms in \<open>simp_all add: isSafeInteger_def MAX_SAFE_INTEGER_def\<close>)

theorem replayRememberedRules_iff:
  assumes "evs_ok (events s)" "r \<noteq> []" "compactionFloor r (checkpoints s) = None"
  shows "(\<exists>acc. replayRememberedRules r source root s = Inr acc) \<longleftrightarrow> (\<forall>e \<in> entriesOf r (events s). entryPass source (rememberedPass root) e)"
    and "replayRememberedRules r source root s = Inr acc \<Longrightarrow>
      set (fst acc) = allowRule ` \<Union> (rememberedPatterns ` trustedEvents source (entriesOf r (events s)))"
proof -
  note rows = replay_rows [OF assms] rowsAfter_all [OF assms(1)]
  show "(\<exists>acc. replayRememberedRules r source root s = Inr acc) \<longleftrightarrow> (\<forall>e \<in> entriesOf r (events s). entryPass source (rememberedPass root) e)"
    using foldM_pass [of "rememberedEntry source root" "entryPass source (rememberedPass root)", OF rememberedEntry_pass]
    by (simp add: replayRememberedRules_def rows del: rowsAfter_set)
  assume "replayRememberedRules r source root s = Inr acc"
  then have "foldM (rememberedEntry source root) ([], []) (rowsAfter r (-1) (events s)) = Inr acc"
    by (simp add: replayRememberedRules_def rows del: rowsAfter_set)
  from foldM_rules [where Q = "\<lambda>_. True" and f = "rememberedEntry source root" and pats = rememberedPatterns and source = source, OF _ this]
  show "set (fst acc) = allowRule ` \<Union> (rememberedPatterns ` trustedEvents source (entriesOf r (events s)))"
    using rememberedEntry_rules by (simp add: rows del: rowsAfter_set)
qed

theorem replayRunRules_iff:
  assumes "evs_ok (events s)" "r \<noteq> []" "compactionFloor r (checkpoints s) = None"
  shows "(\<exists>acc. replayRunRules r source d root s = Inr acc)
      \<longleftrightarrow> (\<forall>e \<in> entriesOf r (events s). entryPass source (\<lambda>ev. eventRunId ev = r \<and> runPass d root ev) e)"
    and "replayRunRules r source d root s = Inr acc \<Longrightarrow>
      set (fst acc) = allowRule ` \<Union> (runPatterns ` {ev \<in> trustedEvents source (entriesOf r (events s)). ofPlan d ev})"
proof -
  note rows = replay_rows [OF assms] rowsAfter_all [OF assms(1)]
  show "(\<exists>acc. replayRunRules r source d root s = Inr acc)
      \<longleftrightarrow> (\<forall>e \<in> entriesOf r (events s). entryPass source (\<lambda>ev. eventRunId ev = r \<and> runPass d root ev) e)"
    using foldM_pass [of "runEntry r source d root" "entryPass source (\<lambda>ev. eventRunId ev = r \<and> runPass d root ev)", OF runEntry_pass]
    by (simp add: replayRunRules_def rows del: rowsAfter_set)
  assume "replayRunRules r source d root s = Inr acc"
  then have "foldM (runEntry r source d root) ([], []) (rowsAfter r (-1) (events s)) = Inr acc"
    by (simp add: replayRunRules_def rows del: rowsAfter_set)
  from foldM_rules [where Q = "ofPlan d" and f = "runEntry r source d root" and pats = runPatterns and source = source, OF _ this]
  show "set (fst acc) = allowRule ` \<Union> (runPatterns ` {ev \<in> trustedEvents source (entriesOf r (events s)). ofPlan d ev})"
    using runEntry_rules by (simp add: rows del: rowsAfter_set)
qed

section \<open>The journal as the log of the store\<close>

lemma grant_not_verbatim: "\<not> isVerbatimEventType (eventTypeOf ev)"
  by (cases ev) (simp_all add: isVerbatimEventType_def verbatimNamespaces_def)

lemma known_eventTypeOf [simp]: "eventTypeOf ev \<in> set knownEventTypes"
  by (cases ev) (simp_all add: knownEventTypes_def)

lemma eventTypeOf_scrub [simp]: "eventTypeOf (scrubEvent rs ev) = eventTypeOf ev"
  by (cases ev) simp_all

lemma scopeOk_scrub [simp]: "scopeOk (scrubEvent rs ev) = scopeOk ev"
  by (cases ev) simp_all

definition kernelEvents :: "JournalGrantStoreOptions \<Rightarrow> Entry list \<Rightarrow> GrantEvent set" where
  "kernelEvents jo evs =
     {ev \<in> trustedEvents (jg_sourceId jo) (entriesOf (jg_policyRunId jo) evs \<union> entriesOf (jg_runId jo) evs). ofPlan (jg_planDigest jo) ev}"

definition kernelJournal :: "JournalGrantStoreOptions \<Rightarrow> ('l, 'z) journal_db_scheme \<Rightarrow> bool" where
  "kernelJournal jo s \<longleftrightarrow> evs_ok (events s) \<and> jg_policyRunId jo \<noteq> [] \<and> jg_runId jo \<noteq> [] \<and> jg_policyRunId jo \<noteq> jg_runId jo
     \<and> compactionFloor (jg_policyRunId jo) (checkpoints s) = None \<and> compactionFloor (jg_runId jo) (checkpoints s) = None"

lemma in_runId_persist: "in_runId (persistInput jo ev) \<in> {jg_policyRunId jo, jg_runId jo}"
  by (cases ev) (simp_all add: persistInput_def)

lemma entriesOf_snoc: "entriesOf r (evs @ [e]) = (if runId e = r then insert e (entriesOf r evs) else entriesOf r evs)"
  by (auto simp: entriesOf_def)

context journal_service
begin

lemma persist_ok:
  assumes "inv (leases s)" "kernelJournal jo s" "persistJ cfg jo ev s = (Inr (), s')"
  obtains e where "inv (leases s')" "kernelJournal jo s'" "events s' = events s @ [e]" "runId e = in_runId (persistInput jo ev)"
    "sourceId e = jg_sourceId jo" "eventType e = eventTypeOf ev" "payload e = redact (rules cfg) (encodeGrantEvent ev)"
proof -
  let ?s = "s\<lparr>settlements := []\<rparr>"
  from assms(3) obtain rc s1 where em: "emitDurable cfg (persistInput jo ev) None ?s = (Inr rc, s1)" "s' = settleAll cfg s1"
    by (auto simp: persistJ_def emitDurableAlone_def split: prod.splits sum.splits)
  have pre: "inv (leases ?s)" "evs_ok (events ?s)" "in_sourceSeq (persistInput jo ev) = None"
    using assms(1,2) by (auto simp: kernelJournal_def persistInput_def)
  have settled: "frame s1 s'" "events s' = events s1" using settleAll_tables [of s1 cfg] em(2) by simp_all
  from emit_fresh [OF pre em(1)] obtain e where e: "frame ?s s1" "entryOf cfg (persistInput jo ev) e" "events s1 = events ?s @ [e]"
    by blast
  have ok: "evs_ok (events s1)" by (rule emit_evs_ok [OF pre(1,2) em(1)])
  have same: "leases s' = leases s" "checkpoints s' = checkpoints s" using settled(1) e(1) by (simp_all add: frame_def)
  show thesis
  proof (rule that)
    show "inv (leases s')" using assms(1) same by simp
    show "kernelJournal jo s'" using assms(2) ok settled(2) same by (simp add: kernelJournal_def)
    show "events s' = events s @ [e]" using settled(2) e(3) by simp
    show "runId e = in_runId (persistInput jo ev)" "sourceId e = jg_sourceId jo" "eventType e = eventTypeOf ev"
      "payload e = redact (rules cfg) (encodeGrantEvent ev)"
      using e(2) grant_not_verbatim by (simp_all add: entryOf_def scrubbed_def persistInput_def)
  qed
qed

lemma persist_failed:
  assumes "inv (leases s)" "kernelJournal jo s" "persistJ cfg jo ev s = (Inl x, s')"
  shows "inv (leases s') \<and> kernelJournal jo s' \<and> events s' = events s"
proof -
  let ?s = "s\<lparr>settlements := []\<rparr>"
  from assms(3) obtain c s1 where em: "emitDurable cfg (persistInput jo ev) None ?s = (Inl c, s1)" "s' = rollback cfg s s1"
    by (auto simp: persistJ_def emitDurableAlone_def split: prod.splits sum.splits)
  have "frame ?s s1" using emit_Inl [OF _ em(1)] assms(1) by simp
  then have "leases s' = leases s" using em(2) by (simp add: rollback_def frame_def)
  then show ?thesis using assms(1,2) em(2) by (simp add: rollback_def kernelJournal_def)
qed

text \<open>An accepted event is read back by both replays as the journal stored it: redacted.\<close>

lemma persist_recorded:
  assumes "inv (leases s)" "kernelJournal jo s" "persistJ cfg jo ev s = (Inr (), s')"
    "codecPlain (rules cfg)" "scopeOk ev" "ofPlan (jg_planDigest jo) (scrubEvent (rules cfg) ev)"
  shows "inv (leases s') \<and> kernelJournal jo s' \<and> kernelEvents jo (events s') = insert (scrubEvent (rules cfg) ev) (kernelEvents jo (events s))"
proof -
  from persist_ok [OF assms(1-3)] obtain e where e: "inv (leases s')" "kernelJournal jo s'" "events s' = events s @ [e]"
    "runId e = in_runId (persistInput jo ev)" "sourceId e = jg_sourceId jo" "eventType e = eventTypeOf ev"
    "payload e = redact (rules cfg) (encodeGrantEvent ev)" by blast
  have "decodeTrustedEntry e (jg_sourceId jo) = Inr (Some (scrubEvent (rules cfg) ev))"
    using e(5-7) assms(5) by (simp add: decodeTrustedEntry_def redact_encode [OF assms(4,5)] decode_encode)
  then show ?thesis using e(1-4) in_runId_persist [of jo ev] assms(6)
    by (auto simp: kernelEvents_def entriesOf_snoc trustedEvents_insert Un_insert_left Un_insert_right)
qed

end

text \<open>Every retained entry of the two journals passes its replay; an event lands well when its entry will.\<close>

definition replayable :: "JournalGrantStoreOptions \<Rightarrow> string \<Rightarrow> Entry list \<Rightarrow> bool" where
  "replayable jo root evs \<longleftrightarrow>
     (\<forall>e \<in> entriesOf (jg_policyRunId jo) evs. entryPass (jg_sourceId jo) (rememberedPass root) e)
     \<and> (\<forall>e \<in> entriesOf (jg_runId jo) evs. entryPass (jg_sourceId jo) (\<lambda>ev. eventRunId ev = jg_runId jo \<and> runPass (jg_planDigest jo) root ev) e)"

definition landsWell :: "JournalGrantStoreOptions \<Rightarrow> string \<Rightarrow> string \<Rightarrow> GrantEvent \<Rightarrow> bool" where
  "landsWell jo root target ev \<longleftrightarrow> scopeOk ev \<and> ofPlan (jg_planDigest jo) ev
     \<and> (target = jg_policyRunId jo \<longrightarrow> rememberedPass root ev)
     \<and> (target = jg_runId jo \<longrightarrow> eventRunId ev = jg_runId jo \<and> runPass (jg_planDigest jo) root ev)"

lemma entriesOf_other: "r \<noteq> runId e \<Longrightarrow> entriesOf r (evs @ [e]) = entriesOf r evs"
  by (auto simp: entriesOf_def)

interpretation sql_log: grant_log "persistJ (sqlConfig rs n) jo"
    "\<lambda>s :: (lease_table, 'z) journal_db_scheme. sql_inv (leases s) \<and> kernelJournal jo s \<and> replayable jo root (events s)"
    "\<lambda>s. kernelEvents jo (events s)" "scrubEvent rs"
    "\<lambda>ev. codecPlain rs \<and> landsWell jo root (in_runId (persistInput jo ev)) (scrubEvent rs ev)"
  for rs n jo root
proof unfold_locales
  fix s s' :: "(lease_table, 'z) journal_db_scheme" and ev
  assume g: "sql_inv (leases s) \<and> kernelJournal jo s \<and> replayable jo root (events s)"
    and st: "codecPlain rs \<and> landsWell jo root (in_runId (persistInput jo ev)) (scrubEvent rs ev)"
    and p: "persistJ (sqlConfig rs n) jo ev s = (Inr (), s')"
  have "rules (sqlConfig rs n) = rs" by (simp add: sqlConfig_def)
  note persist = sqlj.persist_ok [where rs = rs and n = n and s = s and jo = jo and ev = ev, unfolded this]
    sqlj.persist_recorded [where rs = rs and n = n and s = s and jo = jo and ev = ev, unfolded this]
  have sc: "scopeOk ev" using st by (simp add: landsWell_def)
  from persist(1) [OF _ _ p] g obtain e where e: "events s' = events s @ [e]" "runId e = in_runId (persistInput jo ev)"
    "sourceId e = jg_sourceId jo" "eventType e = eventTypeOf ev" "payload e = redact rs (encodeGrantEvent ev)" by blast
  have dec: "decodeTrustedEntry e (jg_sourceId jo) = Inr (Some (scrubEvent rs ev))"
    using e(3-5) st sc by (simp add: decodeTrustedEntry_def redact_encode decode_encode)
  have "replayable jo root (events s')" using g st dec e(1,2) in_runId_persist [of jo ev]
    by (auto simp: replayable_def e(1) entriesOf_snoc entryPass_def landsWell_def kernelJournal_def)
  then show "(sql_inv (leases s') \<and> kernelJournal jo s' \<and> replayable jo root (events s'))
      \<and> kernelEvents jo (events s') = insert (scrubEvent rs ev) (kernelEvents jo (events s))"
    using persist(2) [OF _ _ p _ sc] g st by (simp add: landsWell_def)
next
  fix s s' :: "(lease_table, 'z) journal_db_scheme" and ev x
  assume "sql_inv (leases s) \<and> kernelJournal jo s \<and> replayable jo root (events s)" "persistJ (sqlConfig rs n) jo ev s = (Inl x, s')"
  then show "(sql_inv (leases s') \<and> kernelJournal jo s' \<and> replayable jo root (events s')) \<and> kernelEvents jo (events s') = kernelEvents jo (events s)"
    using sqlj.persist_failed [of s jo rs n ev x s'] by simp
qed

text \<open>On a journal that passes, the two replays split its events between them.\<close>

lemma kernelEvents_split:
  assumes "replayable jo root evs" "jg_policyRunId jo \<noteq> jg_runId jo"
  shows "\<Union> (rememberedPatterns ` kernelEvents jo evs) = \<Union> (rememberedPatterns ` trustedEvents (jg_sourceId jo) (entriesOf (jg_policyRunId jo) evs))"
    "\<Union> (runPatterns ` kernelEvents jo evs)
       = \<Union> (runPatterns ` {ev \<in> trustedEvents (jg_sourceId jo) (entriesOf (jg_runId jo) evs). ofPlan (jg_planDigest jo) ev})"
proof -
  have policy: "rememberedPass root ev" if "ev \<in> trustedEvents (jg_sourceId jo) (entriesOf (jg_policyRunId jo) evs)" for ev
    using assms(1) that by (auto simp: replayable_def trustedEvents_def entryPass_def)
  have run: "runPass (jg_planDigest jo) root ev" if "ev \<in> trustedEvents (jg_sourceId jo) (entriesOf (jg_runId jo) evs)" for ev
    using assms(1) that by (auto simp: replayable_def trustedEvents_def entryPass_def)
  have p: "rememberedPass root ev \<Longrightarrow> ofPlan d ev \<and> runPatterns ev = {}" "runPass d root ev \<Longrightarrow> rememberedPatterns ev = {}" for ev d
    by (cases ev; simp)+
  show "\<Union> (rememberedPatterns ` kernelEvents jo evs) = \<Union> (rememberedPatterns ` trustedEvents (jg_sourceId jo) (entriesOf (jg_policyRunId jo) evs))"
    using policy run p by (fastforce simp: kernelEvents_def trustedEvents_Un)
  show "\<Union> (runPatterns ` kernelEvents jo evs)
       = \<Union> (runPatterns ` {ev \<in> trustedEvents (jg_sourceId jo) (entriesOf (jg_runId jo) evs). ofPlan (jg_planDigest jo) ev})"
    using policy run p by (fastforce simp: kernelEvents_def trustedEvents_Un)
qed

end
