(* ===== verification/GrantRestart.thy ===== *)
theory GrantRestart
  imports GrantReplay
begin

text \<open>
  A restart of the journal-backed grant store: a store built from the journal another one has written grants what
  that one granted, as long as redaction leaves the events alone.
\<close>

lemma makeJournal_plain:
  assumes "jg_envelope jo = None"
  shows "makeJournal cfg jo root ceiling s locked = (Inr (opts, g), s1) \<longleftrightarrow>
    jg_planDigest jo \<noteq> [] \<and> (\<exists>policy run.
      replayRememberedRules (jg_policyRunId jo) (jg_sourceId jo) root s = Inr policy
      \<and> replayRunRules (jg_runId jo) (jg_sourceId jo) (jg_planDigest jo) root s = Inr run
      \<and> opts = storeOptions cfg jo root policy run \<and> makeGrants opts ceiling s = (Inr g, s1))"
  using assms by (auto simp: makeJournal_def Let_def split: sum.splits prod.splits if_splits)

definition extraRules :: "JournalGrantStoreOptions \<Rightarrow> PermissionRule list" where
  "extraRules jo = concat (tl (jg_rules jo))"

definition configuredOf :: "JournalGrantStoreOptions \<Rightarrow> PermissionRule list" where
  "configuredOf jo = (case jg_rules jo of [] \<Rightarrow> [] | rs # _ \<Rightarrow> rs)"

lemma storeOptions_sel [simp]:
  "mo_runRules (storeOptions cfg jo root policy run) = fst run" "mo_persist (storeOptions cfg jo root policy run) = persistJ cfg jo"
  "mo_workspaceRoot (storeOptions cfg jo root policy run) = root" "mo_planDigest (storeOptions cfg jo root policy run) = Some (jg_planDigest jo)"
  "runIdOf (storeOptions cfg jo root policy run) = jg_runId jo"
  "normalizeRules (mo_rules (storeOptions cfg jo root policy run)) = (configuredOf jo, extraRules jo @ fst policy)"
  by (simp_all add: storeOptions_def runIdOf_def normalizeRules_def configuredOf_def extraRules_def split: list.splits)

lemma makeGrants_plain:
  assumes "jg_envelope jo = None"
  shows "makeGrants (storeOptions cfg jo root policy run) ceiling s = (Inr g, s1) \<longleftrightarrow>
    \<not> list_ex (unsafeRule root) (extraRules jo @ fst policy @ fst run) \<and> s1 = s
    \<and> g = \<lparr>configuredRules = configuredOf jo, envelopeRules = [], runRules = map (\<lambda>rule. (rule, ceiling)) (fst run),
        rememberedRules = extraRules jo @ fst policy, pending = [], answered = Map.empty,
        grantedEnvelopes = set (snd policy @ snd run), nextRequestId = 1, closed = False, persisted = s\<rparr>"
proof -
  have "mo_envelope (storeOptions cfg jo root policy run) = None" "mo_envelopeSignatures (storeOptions cfg jo root policy run) = snd policy @ snd run"
    using assms by (simp_all add: storeOptions_def)
  note env = this
  show ?thesis by (simp add: makeGrants_def Let_def env) auto
qed

text \<open>A valid event of a store that redaction leaves alone lands well in the journal of the store.\<close>

lemma valid_landsWell:
  assumes "validEvent (storeOptions cfg jo root policy run) ev" "jg_policyRunId jo \<noteq> jg_runId jo"
  shows "landsWell jo root (in_runId (persistInput jo ev)) ev"
  using assms by (cases ev) (auto simp: landsWell_def persistInput_def isEnvelopeScope_def)

lemma kernel_replays:
  assumes "kernelJournal jo t"
  shows "(\<exists>acc. replayRememberedRules (jg_policyRunId jo) (jg_sourceId jo) root t = Inr acc) \<longleftrightarrow>
        (\<forall>e \<in> entriesOf (jg_policyRunId jo) (events t). entryPass (jg_sourceId jo) (rememberedPass root) e)"
    and "replayRememberedRules (jg_policyRunId jo) (jg_sourceId jo) root t = Inr acc \<Longrightarrow>
        set (fst acc) = allowRule ` \<Union> (rememberedPatterns ` trustedEvents (jg_sourceId jo) (entriesOf (jg_policyRunId jo) (events t)))"
    and "(\<exists>acc. replayRunRules (jg_runId jo) (jg_sourceId jo) d root t = Inr acc) \<longleftrightarrow>
        (\<forall>e \<in> entriesOf (jg_runId jo) (events t). entryPass (jg_sourceId jo) (\<lambda>ev. eventRunId ev = jg_runId jo \<and> runPass d root ev) e)"
    and "replayRunRules (jg_runId jo) (jg_sourceId jo) d root t = Inr acc \<Longrightarrow>
        set (fst acc) = allowRule ` \<Union> (runPatterns ` {ev \<in> trustedEvents (jg_sourceId jo) (entriesOf (jg_runId jo) (events t)). ofPlan d ev})"
proof -
  have k: "evs_ok (events t)" "jg_policyRunId jo \<noteq> []" "jg_runId jo \<noteq> []"
    "compactionFloor (jg_policyRunId jo) (checkpoints t) = None" "compactionFloor (jg_runId jo) (checkpoints t) = None"
    using assms by (simp_all add: kernelJournal_def)
  note p = replayRememberedRules_iff [OF k(1,2,4)] and r = replayRunRules_iff [OF k(1,3,5)]
  show "(\<exists>acc. replayRememberedRules (jg_policyRunId jo) (jg_sourceId jo) root t = Inr acc) \<longleftrightarrow>
        (\<forall>e \<in> entriesOf (jg_policyRunId jo) (events t). entryPass (jg_sourceId jo) (rememberedPass root) e)" by (rule p(1))
  show "(\<exists>acc. replayRunRules (jg_runId jo) (jg_sourceId jo) d root t = Inr acc) \<longleftrightarrow>
        (\<forall>e \<in> entriesOf (jg_runId jo) (events t). entryPass (jg_sourceId jo) (\<lambda>ev. eventRunId ev = jg_runId jo \<and> runPass d root ev) e)"
    by (rule r(1))
  show "replayRememberedRules (jg_policyRunId jo) (jg_sourceId jo) root t = Inr acc \<Longrightarrow>
        set (fst acc) = allowRule ` \<Union> (rememberedPatterns ` trustedEvents (jg_sourceId jo) (entriesOf (jg_policyRunId jo) (events t)))" by (rule p(2))
  show "replayRunRules (jg_runId jo) (jg_sourceId jo) d root t = Inr acc \<Longrightarrow>
        set (fst acc) = allowRule ` \<Union> (runPatterns ` {ev \<in> trustedEvents (jg_sourceId jo) (entriesOf (jg_runId jo) (events t)). ofPlan d ev})"
    by (rule r(2))
qed

theorem restart_rules:
  fixes s :: "(lease_table, 'z) journal_db_scheme"
  assumes "sql_inv (leases s)" "kernelJournal jo s" "jg_envelope jo = None" "codecPlain rs" "\<not> hasResourceWildcard root"
    and made: "makeJournal (sqlConfig rs n) jo root ceiling s s = (Inr (opts, g), s1)"
    and fixed: "\<forall>ev \<in> set (offered opts calls g). scrubEvent rs ev = ev"
  defines "h \<equiv> performs opts calls g"
  shows "kernelJournal jo (persisted h)"
    and "\<exists>opts' g'. makeJournal (sqlConfig rs n) jo root ceiling' (persisted h) (persisted h) = (Inr (opts', g'), persisted h)
    \<and> configuredRules g' = configuredRules h \<and> rememberedOf g' = rememberedOf h \<and> runOf g' = runOf h"
proof -
  let ?cfg = "sqlConfig rs n" and ?src = "jg_sourceId jo" and ?d = "jg_planDigest jo"
  note kj = assms(2) [unfolded kernelJournal_def]
  from made obtain policy run where
    m: "?d \<noteq> []" "replayRememberedRules (jg_policyRunId jo) ?src root s = Inr policy"
      "replayRunRules (jg_runId jo) ?src ?d root s = Inr run" "opts = storeOptions ?cfg jo root policy run"
      "makeGrants opts ceiling s = (Inr g, s1)"
    unfolding makeJournal_plain [OF assms(3)] by blast
  have sel: "persisted g = s" "rememberedOf g = set (extraRules jo) \<union> set (fst policy)" "runOf g = set (fst run)"
    using m(5) unfolding m(4) makeGrants_plain [OF assms(3)] by (auto simp: image_image)
  note remembered_iff = kernel_replays
  have rep: "replayable jo root (events s)"
    using remembered_iff(1,3) [OF assms(2)] m(2,3) unfolding replayable_def by blast
  have ne: "jg_policyRunId jo \<noteq> jg_runId jo" using kj by simp
  have log: "sql_log.logged jo root opts (set (extraRules jo)) {} g"
    unfolding sql_log.logged_def sel kernelEvents_split [OF rep ne]
    using assms(1,2) rep remembered_iff(2,4) [OF assms(2)] m(2,3) by simp
  have ok: "storeOk opts g" by (rule makeGrants_storeOk [OF m(5)])
  have opts: "mo_persist opts = persistJ ?cfg jo" "mo_workspaceRoot opts = root" unfolding m(4) by simp_all
  have land: "\<forall>ev \<in> set (offered opts calls g). validEvent opts ev \<longrightarrow>
      (codecPlain rs \<and> landsWell jo root (in_runId (persistInput jo ev)) (scrubEvent rs ev)) \<and> scrubEvent rs ev = ev"
  proof (intro ballI impI)
    fix ev assume ev: "ev \<in> set (offered opts calls g)" "validEvent opts ev"
    have "landsWell jo root (in_runId (persistInput jo ev)) ev" by (rule valid_landsWell [OF ev(2) [unfolded m(4)] ne])
    then show "(codecPlain rs \<and> landsWell jo root (in_runId (persistInput jo ev)) (scrubEvent rs ev)) \<and> scrubEvent rs ev = ev"
      using fixed ev(1) assms(4) by simp
  qed
  have wild: "\<not> hasResourceWildcard (mo_workspaceRoot opts)" using assms(5) opts by simp
  have hl: "sql_log.logged jo root opts (set (extraRules jo)) {} h"
    unfolding h_def using sql_log.performs_logged [OF log ok opts(1) wild land] by blast
  let ?t = "persisted h"
  have t: "kernelJournal jo ?t" "replayable jo root (events ?t)" using hl by (simp_all add: sql_log.logged_def)
  obtain policy' run' where r: "replayRememberedRules (jg_policyRunId jo) ?src root ?t = Inr policy'"
      "replayRunRules (jg_runId jo) ?src ?d root ?t = Inr run'"
    using remembered_iff(1,3) [OF t(1)] t(2) unfolding replayable_def by blast
  have rules: "rememberedOf h = set (extraRules jo) \<union> set (fst policy')" "runOf h = set (fst run')"
    using hl remembered_iff(2,4) [OF t(1)] r kernelEvents_split [OF t(2) ne] by (simp_all add: sql_log.logged_def)
  have hok: "storeOk opts h" unfolding h_def by (rule history_storeOk [OF performs_steps ok wild])
  then have safe: "\<not> list_ex (unsafeRule root) (extraRules jo @ fst policy' @ fst run')"
    using rules opts(2) by (auto simp: storeOk_def rulesSafe_def grantedRules_def list_ex_iff)
  have conf: "configuredRules h = configuredOf jo" using hok unfolding m(4) by (simp add: storeOk_def openOk_def)
  let ?opts' = "storeOptions ?cfg jo root policy' run'"
  obtain g' where g': "makeGrants ?opts' ceiling' ?t = (Inr g', ?t)" "configuredRules g' = configuredOf jo"
      "rememberedOf g' = set (extraRules jo) \<union> set (fst policy')" "runOf g' = set (fst run')"
    using safe unfolding makeGrants_plain [OF assms(3)] by (auto simp: image_image)
  have "makeJournal ?cfg jo root ceiling' ?t ?t = (Inr (?opts', g'), ?t)"
    unfolding makeJournal_plain [OF assms(3)] using m(1) r g'(1) by blast
  then show "\<exists>opts' g'. makeJournal (sqlConfig rs n) jo root ceiling' (persisted h) (persisted h) = (Inr (opts', g'), persisted h)
    \<and> configuredRules g' = configuredRules h \<and> rememberedOf g' = rememberedOf h \<and> runOf g' = runOf h"
    using g' rules conf by metis
  show "kernelJournal jo (persisted h)" by (rule t(1))
qed

end
