(* ===== verification/RunStore.thy ===== *)
theory RunStore
  imports Journal_Log Json_Text
begin

text \<open>
  The run store (\<^verbatim>\<open>packages/run-store/src/RunStore.ts\<close>): the table \<open>flows_runs\<close> with the CHECK
  constraints of its migrations, and every operation of the service. Each operation is one write
  transaction that asks the consensus strategy, moves the row and appends the event describing the
  move. The table \<open>flows_attempts\<close> is part of the same state because both stores share a transaction.
\<close>

section \<open>Rows and errors\<close>

datatype RunStatus = RSpending | RSrunning | RSsuspended | RScompleted | RSfailed | RScancelled

fun statusText :: "RunStatus \<Rightarrow> string" where
  "statusText RSpending = ''pending''"
| "statusText RSrunning = ''running''"
| "statusText RSsuspended = ''suspended''"
| "statusText RScompleted = ''completed''"
| "statusText RSfailed = ''failed''"
| "statusText RScancelled = ''cancelled''"

fun terminal :: "RunStatus \<Rightarrow> bool" where
  "terminal RScompleted = True"
| "terminal RSfailed = True"
| "terminal RScancelled = True"
| "terminal _ = False"

text \<open>A row of \<open>flows_runs\<close>, keyed by \<open>run_id\<close>; NULL is \<open>None\<close>.\<close>

record RunRow =
  r_status :: RunStatus
  createdAtMs :: ms
  startedAtMs :: "ms option"
  finishedAtMs :: "ms option"
  ownerHostId :: "string option"
  ownerPid :: "int option"
  ownerNonce :: "string option"
  heartbeatAtMs :: "ms option"
  claimHostId :: "string option"
  claimPid :: "int option"
  claimNonce :: "string option"
  claimedAtMs :: "ms option"
  parentRunId :: "string option"
  cancelRequestedAtMs :: "ms option"
  waitingReason :: "string option"
  waitingWakeAtMs :: "ms option"
  waitingToken :: "string option"
  lineageId :: "string option"
  roundOrdinal :: "int option"
  stateJson :: string

record AttemptRow =
  a_state :: string
  a_startedAtMs :: ms
  a_finishedAtMs :: "ms option"
  a_heartbeatAtMs :: "ms option"
  a_checkpointJson :: "string option"
  a_errorJson :: "string option"
  a_outcomeJson :: "string option"
  a_metaJson :: string

type_synonym attempt_key = "string \<times> string \<times> int"

record 'l store = "'l journal_db" +
  runRows :: "string \<rightharpoonup> RunRow"
  attemptRows :: "attempt_key \<rightharpoonup> AttemptRow"

type_synonym ('l, 'a) stxn = "('l store, Cause, 'a) txn"

definition safeMs :: "int \<Rightarrow> bool" where
  "safeMs n \<longleftrightarrow> 0 \<le> n \<and> n \<le> 9007199254740991"

definition optSafe :: "int option \<Rightarrow> bool" where
  "optSafe x = (case x of None \<Rightarrow> True | Some n \<Rightarrow> safeMs n)"

definition optNonempty :: "string option \<Rightarrow> bool" where
  "optNonempty x = (case x of None \<Rightarrow> True | Some s \<Rightarrow> s \<noteq> [])"

fun identityGroup :: "string option \<Rightarrow> int option \<Rightarrow> string option \<Rightarrow> ms option \<Rightarrow> bool" where
  "identityGroup (Some h) (Some p) (Some n) (Some t) = (h \<noteq> [] \<and> p \<ge> 0 \<and> n \<noteq> [])"
| "identityGroup _ _ _ _ = False"

definition run_check :: "string \<Rightarrow> RunRow \<Rightarrow> bool" where
  "run_check r row \<longleftrightarrow> r \<noteq> []
     \<and> safeMs (createdAtMs row) \<and> optSafe (startedAtMs row) \<and> optSafe (finishedAtMs row)
     \<and> optSafe (heartbeatAtMs row) \<and> optSafe (claimedAtMs row) \<and> optNonempty (parentRunId row)
     \<and> optSafe (cancelRequestedAtMs row) \<and> optNonempty (waitingReason row) \<and> optSafe (waitingWakeAtMs row)
     \<and> optNonempty (waitingToken row) \<and> isJsonString (stateJson row)
     \<and> (if r_status row = RSrunning
        then identityGroup (ownerHostId row) (ownerPid row) (ownerNonce row) (heartbeatAtMs row)
        else ownerHostId row = None \<and> ownerPid row = None \<and> ownerNonce row = None \<and> heartbeatAtMs row = None)
     \<and> (claimHostId row = None \<and> claimPid row = None \<and> claimNonce row = None \<and> claimedAtMs row = None
        \<or> identityGroup (claimHostId row) (claimPid row) (claimNonce row) (claimedAtMs row))
     \<and> (waitingReason row = None \<longrightarrow> waitingWakeAtMs row = None \<and> waitingToken row = None)
     \<and> optNonempty (lineageId row) \<and> optSafe (roundOrdinal row)"

datatype RunStoreErrorCode = Invalid_run | Not_found_row | Constraint | Decode_failed_run | Persistence_failed_run

record RunStoreError =
  rse_code :: RunStoreErrorCode
  rse_method :: string

fun hasConstraint :: "Cause \<Rightarrow> bool" where
  "hasConstraint CConstraint = True"
| "hasConstraint (CSink _ c) = hasConstraint c"
| "hasConstraint _ = False"

definition persistenceError :: "string \<Rightarrow> Cause \<Rightarrow> RunStoreError" where
  "persistenceError m c =
     \<lparr>rse_code = (if hasConstraint c then Constraint else Persistence_failed_run), rse_method = m\<rparr>"

definition invalidRunError :: "string \<Rightarrow> RunStoreError" where
  "invalidRunError m = \<lparr>rse_code = Invalid_run, rse_method = m\<rparr>"

record RunSnapshot =
  snap_status :: RunStatus
  snap_owner :: "OwnerId option"
  snap_heartbeatAtMs :: "ms option"

section \<open>Outcomes\<close>

datatype RunOutcome =
    OClaimed ms | ONotFound | OAlreadyClaimed | OHeartbeatFresh | OSnapshotChanged | OEvidenceRequired
  | OActivated | OClaimLost | OAbandoned | ORecovered | OClaimFresh | OClaimChanged | OLivenessUnconfirmed
  | OUpdated | OFenceLost | OTransitioned | OGuardFailed | OCancelRequested ms | OAlreadyRequested ms

section \<open>Row predicates\<close>

definition ownerFromColumns :: "string option \<Rightarrow> int option \<Rightarrow> string option \<Rightarrow> OwnerId option option" where
  "ownerFromColumns h p n =
     (case (h, p, n) of
        (None, None, None) \<Rightarrow> Some None
      | (Some h', Some p', Some n') \<Rightarrow> Some (Some \<lparr>hostId = h', pid = p', nonce = n'\<rparr>)
      | _ \<Rightarrow> None)"

definition rowMatchesClaim :: "RunRow \<Rightarrow> OwnerId \<Rightarrow> ms \<Rightarrow> bool" where
  "rowMatchesClaim row w t \<longleftrightarrow> claimHostId row = Some (hostId w) \<and> claimPid row = Some (pid w)
     \<and> claimNonce row = Some (nonce w) \<and> claimedAtMs row = Some t"

definition rowOwnedBy :: "RunRow \<Rightarrow> OwnerId \<Rightarrow> bool" where
  "rowOwnedBy row w \<longleftrightarrow> r_status row = RSrunning \<and> ownerHostId row = Some (hostId w)
     \<and> ownerPid row = Some (pid w) \<and> ownerNonce row = Some (nonce w)"

definition snapshotMatchesRow :: "RunRow \<Rightarrow> RunSnapshot \<Rightarrow> bool" where
  "snapshotMatchesRow row expected \<longleftrightarrow> r_status row = snap_status expected
     \<and> ownerHostId row = map_option hostId (snap_owner expected)
     \<and> ownerPid row = map_option pid (snap_owner expected)
     \<and> ownerNonce row = map_option nonce (snap_owner expected)
     \<and> heartbeatAtMs row = snap_heartbeatAtMs expected"

definition claimColumnsFree :: "RunRow \<Rightarrow> bool" where
  "claimColumnsFree row \<longleftrightarrow> claimHostId row = None \<and> claimPid row = None \<and> claimNonce row = None \<and> claimedAtMs row = None"

record RunView =
  v_owner :: "OwnerId option"
  v_claim :: "OwnerId option"
  v_row :: RunRow

definition decodeRunRow :: "string \<Rightarrow> RunRow \<Rightarrow> RunStoreError + RunView" where
  "decodeRunRow m row =
     (case (ownerFromColumns (ownerHostId row) (ownerPid row) (ownerNonce row),
            ownerFromColumns (claimHostId row) (claimPid row) (claimNonce row)) of
        (Some w, Some c) \<Rightarrow>
          let invalidOwner = (w = None \<and> heartbeatAtMs row \<noteq> None) \<or> (w \<noteq> None \<and> heartbeatAtMs row = None)
                \<or> (if r_status row = RSrunning then w = None else w \<noteq> None);
              invalidClaim = (c = None \<and> claimedAtMs row \<noteq> None) \<or> (c \<noteq> None \<and> claimedAtMs row = None) in
          if invalidOwner \<or> invalidClaim \<or> \<not> isJsonString (stateJson row)
          then Inl \<lparr>rse_code = Decode_failed_run, rse_method = m\<rparr>
          else Inr \<lparr>v_owner = w, v_claim = c, v_row = row\<rparr>
      | _ \<Rightarrow> Inl \<lparr>rse_code = Decode_failed_run, rse_method = m\<rparr>)"

definition heartbeatStaleAfterMs :: ms where
  "heartbeatStaleAfterMs = heartbeatStaleAfter"

definition classifyClaimLoss :: "RunRow option \<Rightarrow> ms \<Rightarrow> RunOutcome" where
  "classifyClaimLoss rowO nowMs =
     (case rowO of None \<Rightarrow> ONotFound
      | Some row \<Rightarrow>
          if claimHostId row \<noteq> None then OAlreadyClaimed
          else if r_status row = RSrunning
            \<and> (case heartbeatAtMs row of None \<Rightarrow> False | Some h \<Rightarrow> h \<ge> nowMs - heartbeatStaleAfterMs)
          then OHeartbeatFresh
          else OSnapshotChanged)"

definition evidenceMatches :: "RunSnapshot \<Rightarrow> OwnerId \<Rightarrow> ms \<Rightarrow> LivenessEvidence \<Rightarrow> bool" where
  "evidenceMatches expected claimant nowMs evidence \<longleftrightarrow>
     snap_status expected = RSrunning
     \<and> (case snap_owner expected of None \<Rightarrow> False | Some w \<Rightarrow> matchesEvidence w claimant nowMs evidence)"

section \<open>Statements\<close>

definition selectRun :: "string \<Rightarrow> ('l, RunRow option) stxn" where
  "selectRun r = getT (\<lambda>s. runRows s r)"

text \<open>Writing a row fails on a violated CHECK or foreign key and then changes nothing.\<close>

definition putRun :: "string \<Rightarrow> RunRow \<Rightarrow> ('l, unit) stxn" where
  "putRun r row = (\<lambda>s.
     if run_check r row \<and> (case parentRunId row of None \<Rightarrow> True | Some p \<Rightarrow> p = r \<or> runRows s p \<noteq> None)
     then (Inr (), s\<lparr>runRows := (runRows s)(r \<mapsto> row)\<rparr>)
     else (Inl CConstraint, s))"

definition insertRun :: "string \<Rightarrow> RunRow \<Rightarrow> ('l, unit) stxn" where
  "insertRun r row = (\<lambda>s. if runRows s r \<noteq> None then (Inl CConstraint, s) else putRun r row s)"

text \<open>\<open>UPDATE flows_runs SET f WHERE run_id = r AND p RETURNING run_id\<close>: whether a row was updated.\<close>

definition updateRun :: "string \<Rightarrow> (RunRow \<Rightarrow> bool) \<Rightarrow> (RunRow \<Rightarrow> RunRow) \<Rightarrow> ('l, bool) stxn" where
  "updateRun r p f = (\<lambda>s.
     case runRows s r of None \<Rightarrow> (Inr False, s)
     | Some row \<Rightarrow> if p row then bindT (putRun r (f row)) (\<lambda>_. retT True) s else (Inr False, s))"

definition setRowClaim :: "OwnerId \<Rightarrow> ms \<Rightarrow> RunRow \<Rightarrow> RunRow" where
  "setRowClaim w t row = row\<lparr>claimHostId := Some (hostId w), claimPid := Some (pid w),
     claimNonce := Some (nonce w), claimedAtMs := Some t\<rparr>"

definition clearRowClaim :: "RunRow \<Rightarrow> RunRow" where
  "clearRowClaim row = row\<lparr>claimHostId := None, claimPid := None, claimNonce := None, claimedAtMs := None\<rparr>"

definition setRowOwner :: "OwnerId \<Rightarrow> ms \<Rightarrow> RunRow \<Rightarrow> RunRow" where
  "setRowOwner w t row = row\<lparr>r_status := RSrunning, startedAtMs := coalesce (startedAtMs row) (Some t),
     finishedAtMs := None, ownerHostId := Some (hostId w), ownerPid := Some (pid w),
     ownerNonce := Some (nonce w), heartbeatAtMs := Some t\<rparr>"

definition clearRowOwner :: "RunRow \<Rightarrow> RunRow" where
  "clearRowOwner row = row\<lparr>ownerHostId := None, ownerPid := None, ownerNonce := None, heartbeatAtMs := None\<rparr>"

text \<open>The columns the database-backed strategy reads of a run that has no lease.\<close>

definition legacyOf :: "RunRow \<Rightarrow> LegacyRun" where
  "legacyOf row =
     \<lparr>lg_running = (r_status row = RSrunning),
      lg_owner = (case ownerFromColumns (ownerHostId row) (ownerPid row) (ownerNonce row) of
                    Some w \<Rightarrow> w | None \<Rightarrow> None),
      lg_heartbeatAtMs = heartbeatAtMs row,
      lg_claim = (case ownerFromColumns (claimHostId row) (claimPid row) (claimNonce row) of
                    Some c \<Rightarrow> c | None \<Rightarrow> None),
      lg_claimedAtMs = claimedAtMs row\<rparr>"

definition legacyTable :: "'l store \<Rightarrow> legacy_runs" where
  "legacyTable s = Some (\<lambda>r. map_option legacyOf (runRows s r))"

definition stealT :: "'l Config \<Rightarrow> string \<Rightarrow> OwnerId \<Rightarrow> ms \<Rightarrow> LivenessEvidence \<Rightarrow> ('l, ClaimOutcome) stxn" where
  "stealT cfg r w t ev = (\<lambda>s. consensusT (c_steal (consensus cfg) (legacyTable s) r w t ev) s)"

definition recoverT ::
  "'l Config \<Rightarrow> string \<Rightarrow> OwnerId \<Rightarrow> ms \<Rightarrow> OwnerId \<Rightarrow> ms \<Rightarrow> LivenessEvidence \<Rightarrow> ('l, RecoverOutcome) stxn" where
  "recoverT cfg r w g obs t ev = (\<lambda>s. consensusT (c_recover (consensus cfg) (legacyTable s) r w g obs t ev) s)"

abbreviation claimT where "claimT cfg r w t \<equiv> consensusT (c_claim (consensus cfg) r w t)"
abbreviation activateT where "activateT cfg r w g t \<equiv> consensusT (c_activate (consensus cfg) r w g t)"
abbreviation releaseT where "releaseT cfg r w \<equiv> consensusT (c_release (consensus cfg) r w)"
abbreviation heartbeatT where "heartbeatT cfg r w t \<equiv> consensusT (c_heartbeat (consensus cfg) r w t)"

section \<open>Journal records\<close>

definition ownerJson :: "OwnerId \<Rightarrow> json" where
  "ownerJson w = JObj [(''hostId'', JStr (hostId w)), (''pid'', JInt (pid w)), (''nonce'', JStr (nonce w))]"

definition lineageMeta :: "string \<Rightarrow> json" where
  "lineageMeta r = JObj [(''lineageId'', JStr (r @ ''/root''))]"

datatype Transition = TClaimed | TActivated | TReleased | TStolen | TExpired

fun transitionText :: "Transition \<Rightarrow> string" where
  "transitionText TClaimed = ''claimed''"
| "transitionText TActivated = ''activated''"
| "transitionText TReleased = ''released''"
| "transitionText TStolen = ''stolen''"
| "transitionText TExpired = ''expired''"

definition transitionInput :: "string \<Rightarrow> Transition \<Rightarrow> OwnerId \<Rightarrow> ms option \<Rightarrow> Input" where
  "transitionInput r k w g =
     \<lparr>in_runId = r,
      in_sourceId = ''flows/run-store/consensus:'' @ hostId w @ '':'' @ show_int (pid w) @ '':'' @ nonce w,
      in_sourceSeq = None,
      in_eventType = ''flows.consensus.'' @ transitionText k,
      in_payload = JObj [(''owner'', ownerJson w), (''grantedAtMs'', nullOr JInt g)],
      in_meta = Some (lineageMeta r)\<rparr>"

definition recordTransition ::
  "'l Config \<Rightarrow> string \<Rightarrow> Transition \<Rightarrow> OwnerId \<Rightarrow> ms option \<Rightarrow> ('l, unit) stxn" where
  "recordTransition cfg r k w g = mapT (\<lambda>_. ()) (emitDurable cfg (transitionInput r k w g) None)"

definition runEventInput :: "string \<Rightarrow> string \<Rightarrow> fields \<Rightarrow> Input" where
  "runEventInput r kind fs =
     \<lparr>in_runId = r, in_sourceId = ''flows/run-store/run'', in_sourceSeq = None,
      in_eventType = ''flows.run.'' @ kind, in_payload = JObj fs, in_meta = Some (lineageMeta r)\<rparr>"

definition recordRunEvent ::
  "'l Config \<Rightarrow> string \<Rightarrow> string \<Rightarrow> fields \<Rightarrow> OwnerId option \<Rightarrow> ('l, unit) stxn" where
  "recordRunEvent cfg r kind fs owner = mapT (\<lambda>_. ()) (emitDurable cfg (runEventInput r kind fs) owner)"

definition writeThrough :: "'l Config \<Rightarrow> string \<Rightarrow> ('l, 'a) stxn \<Rightarrow> ('l store, RunStoreError, 'a) txn" where
  "writeThrough cfg m body = (\<lambda>s.
     case transact cfg body s of (Inl c, s') \<Rightarrow> (Inl (persistenceError m c), s') | (Inr a, s') \<Rightarrow> (Inr a, s'))"

text \<open>A write transaction with no journal append in it.\<close>

definition writeRun :: "'l Config \<Rightarrow> string \<Rightarrow> ('l, 'a) stxn \<Rightarrow> ('l store, RunStoreError, 'a) txn" where
  "writeRun cfg m body = (\<lambda>s.
     case body s of
       (Inl c, s') \<Rightarrow> (Inl (persistenceError m c), (rollback cfg s s')\<lparr>settlements := settlements s\<rparr>)
     | (Inr a, s') \<Rightarrow> (Inr a, s'))"

section \<open>Operations\<close>

type_synonym ('l, 'a) rtxn = "('l store, RunStoreError, 'a) txn"

text \<open>An operation that reads the process clock before its transaction.\<close>

definition withClock :: "(ms \<Rightarrow> ('l, 'a) rtxn) \<Rightarrow> ('l, 'a) rtxn" where
  "withClock f = (\<lambda>s. f (clock s (tick s)) (s\<lparr>tick := Suc (tick s)\<rparr>))"

record CreateOptions =
  co_parentRunId :: "string option"
  co_lineageId :: "string option"
  co_roundOrdinal :: "int option"

definition pendingRow :: "string \<Rightarrow> CreateOptions \<Rightarrow> ms \<Rightarrow> RunRow" where
  "pendingRow st opts now =
     \<lparr>r_status = RSpending, createdAtMs = now, startedAtMs = None, finishedAtMs = None,
      ownerHostId = None, ownerPid = None, ownerNonce = None, heartbeatAtMs = None,
      claimHostId = None, claimPid = None, claimNonce = None, claimedAtMs = None,
      parentRunId = co_parentRunId opts, cancelRequestedAtMs = None, waitingReason = None,
      waitingWakeAtMs = None, waitingToken = None, lineageId = co_lineageId opts,
      roundOrdinal = co_roundOrdinal opts, stateJson = st\<rparr>"

definition createdFields :: "string \<Rightarrow> CreateOptions \<Rightarrow> ms \<Rightarrow> fields" where
  "createdFields st opts now =
     [(''createdAtMs'', JInt now), (''parentRunId'', nullOr JStr (co_parentRunId opts)),
      (''lineageId'', nullOr JStr (co_lineageId opts)), (''roundOrdinal'', nullOr JInt (co_roundOrdinal opts)),
      (''stateJson'', JStr st)]"

definition invalidLineage :: "CreateOptions \<Rightarrow> bool" where
  "invalidLineage opts \<longleftrightarrow> (co_lineageId opts = None) \<noteq> (co_roundOrdinal opts = None)
     \<or> co_lineageId opts = Some []
     \<or> (case co_roundOrdinal opts of None \<Rightarrow> False | Some n \<Rightarrow> \<not> isSafeInteger n \<or> n < 0)"

definition create :: "'l Config \<Rightarrow> string \<Rightarrow> string \<Rightarrow> CreateOptions \<Rightarrow> ('l, unit) rtxn" where
  "create cfg r st opts =
     (if r = [] \<or> \<not> isJsonString st \<or> co_parentRunId opts = Some [] \<or> invalidLineage opts
      then failT (invalidRunError ''create'')
      else withClock (\<lambda>now. writeThrough cfg ''create''
        (bindT (insertRun r (pendingRow st opts now)) (\<lambda>_.
         recordRunEvent cfg r ''created'' (createdFields st opts now) None))))"

definition get :: "string \<Rightarrow> ('l, RunView) rtxn" where
  "get r = (\<lambda>s. case runRows s r of
      None \<Rightarrow> (Inl \<lparr>rse_code = Not_found_row, rse_method = ''get''\<rparr>, s)
    | Some row \<Rightarrow> (decodeRunRow ''get'' row, s))"

definition requestCancelBody :: "'l Config \<Rightarrow> string \<Rightarrow> ms \<Rightarrow> ('l, RunOutcome) stxn" where
  "requestCancelBody cfg r nowMs =
     (let record = updateRun r (\<lambda>row. cancelRequestedAtMs row = None) (\<lambda>row. row\<lparr>cancelRequestedAtMs := Some nowMs\<rparr>);
          journalIt = bindT (recordRunEvent cfg r ''cancel-requested'' [(''requestedAtMs'', JInt nowMs)] None)
            (\<lambda>_. retT (OCancelRequested nowMs)) in
      bindT record (\<lambda>recorded.
      if recorded then journalIt
      else bindT (selectRun r) (\<lambda>current. case current of
          None \<Rightarrow> retT ONotFound
        | Some row \<Rightarrow>
            (case cancelRequestedAtMs row of
               Some t \<Rightarrow> retT (OAlreadyRequested t)
             | None \<Rightarrow> bindT record (\<lambda>retried. if retried then journalIt else retT ONotFound)))))"

definition requestCancel :: "'l Config \<Rightarrow> string \<Rightarrow> ms \<Rightarrow> ('l, RunOutcome) rtxn" where
  "requestCancel cfg r nowMs =
     (if \<not> isSafeInteger nowMs \<or> nowMs < 0 then failT (invalidRunError ''requestCancel'')
      else writeThrough cfg ''requestCancel'' (requestCancelBody cfg r nowMs))"

definition claimBody :: "'l Config \<Rightarrow> string \<Rightarrow> RunSnapshot \<Rightarrow> OwnerId \<Rightarrow> ms \<Rightarrow> ('l, RunOutcome) stxn" where
  "claimBody cfg r expected claimant nowMs =
     bindT (selectRun r) (\<lambda>rowO.
       if \<not> (case rowO of None \<Rightarrow> False | Some row \<Rightarrow>
              (r_status row = RSpending \<or> r_status row = RSsuspended)
              \<and> snapshotMatchesRow row expected \<and> claimColumnsFree row)
       then retT (classifyClaimLoss rowO nowMs)
       else bindT (claimT cfg r claimant nowMs) (\<lambda>grant. case grant of
           Rejected _ \<Rightarrow> retT (classifyClaimLoss rowO nowMs)
         | Claimed g \<Rightarrow>
             bindT (updateRun r (\<lambda>_. True) (setRowClaim claimant g)) (\<lambda>_.
             bindT (recordTransition cfg r TClaimed claimant (Some g)) (\<lambda>_.
             retT (OClaimed g)))))"

definition claim :: "'l Config \<Rightarrow> string \<Rightarrow> RunSnapshot \<Rightarrow> OwnerId \<Rightarrow> ms \<Rightarrow> ('l, RunOutcome) rtxn" where
  "claim cfg r expected claimant nowMs = writeThrough cfg ''claim'' (claimBody cfg r expected claimant nowMs)"

text \<open>
  The grant of \<open>claimAndOwn\<close>: a free run is claimed, one's own stale run re-granted, another's stolen.
  The last branch needs an expected owner on a run that is not running, which no row that passes its
  CHECK can match.
\<close>

definition grantFor :: "'l Config \<Rightarrow> string \<Rightarrow> OwnerId option \<Rightarrow> OwnerId \<Rightarrow> ms \<Rightarrow> LivenessEvidence option
    \<Rightarrow> ('l, ClaimOutcome) stxn" where
  "grantFor cfg r expectedOwner0 w nowMs evidence =
     (case expectedOwner0 of
        None \<Rightarrow> claimT cfg r w nowMs
      | Some x \<Rightarrow>
          if sameOwner x w
          then bindT (releaseT cfg r w) (\<lambda>_. claimT cfg r w nowMs)
          else (case evidence of
              Some ev \<Rightarrow> stealT cfg r w nowMs ev
            | None \<Rightarrow> retT (Rejected Evidence_invalid)))"

definition ownAdmissible :: "RunRow option \<Rightarrow> RunSnapshot \<Rightarrow> ms \<Rightarrow> bool" where
  "ownAdmissible rowO expected nowMs = (case rowO of None \<Rightarrow> False | Some row \<Rightarrow>
     (r_status row = RSpending \<or> r_status row = RSsuspended \<or> r_status row = RSrunning)
     \<and> snapshotMatchesRow row expected \<and> claimColumnsFree row
     \<and> (r_status row \<noteq> RSrunning
        \<or> (case heartbeatAtMs row of None \<Rightarrow> True | Some h \<Rightarrow> h < nowMs - heartbeatStaleAfterMs)))"

definition runningFields :: "ms \<Rightarrow> fields" where
  "runningFields t = [(''status'', JStr ''running''), (''atMs'', JInt t)]"

definition claimAndOwnBody ::
  "'l Config \<Rightarrow> string \<Rightarrow> RunSnapshot \<Rightarrow> OwnerId \<Rightarrow> ms \<Rightarrow> LivenessEvidence option \<Rightarrow> ('l, RunOutcome) stxn" where
  "claimAndOwnBody cfg r expected w nowMs evidence =
     bindT (selectRun r) (\<lambda>rowO.
       if \<not> ownAdmissible rowO expected nowMs then retT (classifyClaimLoss rowO nowMs)
       else bindT (grantFor cfg r (snap_owner expected) w nowMs evidence) (\<lambda>grant. case grant of
           Rejected _ \<Rightarrow> retT (classifyClaimLoss rowO nowMs)
         | Claimed g \<Rightarrow>
             bindT (activateT cfg r w g nowMs) (\<lambda>activation. case activation of
               ActivateLost \<Rightarrow> bindT (releaseT cfg r w) (\<lambda>_. retT (classifyClaimLoss rowO nowMs))
             | Activated \<Rightarrow>
                 bindT (updateRun r (\<lambda>_. True) (setRowOwner w nowMs)) (\<lambda>_.
                 bindT (recordTransition cfg r
                   (case snap_owner expected of None \<Rightarrow> TClaimed
                    | Some x \<Rightarrow> if sameOwner x w then TClaimed else TStolen) w (Some g)) (\<lambda>_.
                 bindT (recordTransition cfg r TActivated w (Some g)) (\<lambda>_.
                 bindT (recordRunEvent cfg r ''transitioned'' (runningFields nowMs) (Some w)) (\<lambda>_.
                 retT OActivated)))))))"

definition canReplaceExpectedOwner :: "RunSnapshot \<Rightarrow> OwnerId \<Rightarrow> ms \<Rightarrow> LivenessEvidence option \<Rightarrow> bool" where
  "canReplaceExpectedOwner expected w nowMs evidence \<longleftrightarrow>
     snap_status expected \<noteq> RSrunning
     \<or> (case snap_owner expected of None \<Rightarrow> False | Some x \<Rightarrow> sameOwner x w)
     \<or> (case evidence of None \<Rightarrow> False | Some ev \<Rightarrow> evidenceMatches expected w nowMs ev)"

definition claimAndOwn ::
  "'l Config \<Rightarrow> string \<Rightarrow> RunSnapshot \<Rightarrow> OwnerId \<Rightarrow> ms \<Rightarrow> LivenessEvidence option \<Rightarrow> ('l, RunOutcome) rtxn" where
  "claimAndOwn cfg r expected w nowMs evidence =
     (if \<not> canReplaceExpectedOwner expected w nowMs evidence
      then (\<lambda>s. let loss = classifyClaimLoss (runRows s r) nowMs in
             (Inr (if loss = OSnapshotChanged then OEvidenceRequired else loss), s))
      else writeThrough cfg ''claimAndOwn'' (claimAndOwnBody cfg r expected w nowMs evidence))"

definition activateBody ::
  "'l Config \<Rightarrow> string \<Rightarrow> OwnerId \<Rightarrow> ms \<Rightarrow> RunSnapshot \<Rightarrow> ms \<Rightarrow> ('l, RunOutcome) stxn" where
  "activateBody cfg r claimant t expected now =
     (let dropClaim = updateRun r (\<lambda>row. rowMatchesClaim row claimant t) clearRowClaim in
      bindT (selectRun r) (\<lambda>rowO. case rowO of
        None \<Rightarrow> retT OClaimLost
      | Some row \<Rightarrow>
          if \<not> rowMatchesClaim row claimant t then retT OClaimLost
          else if \<not> snapshotMatchesRow row expected
          then bindT (releaseT cfg r claimant) (\<lambda>_. bindT dropClaim (\<lambda>_. retT OSnapshotChanged))
          else bindT (activateT cfg r claimant t now) (\<lambda>activation. case activation of
            ActivateLost \<Rightarrow> bindT dropClaim (\<lambda>_. retT OClaimLost)
          | Activated \<Rightarrow>
              bindT (updateRun r (\<lambda>_. True) (\<lambda>row. clearRowClaim (setRowOwner claimant now row))) (\<lambda>_.
              bindT (recordTransition cfg r TActivated claimant (Some t)) (\<lambda>_.
              bindT (recordRunEvent cfg r ''transitioned'' (runningFields now) (Some claimant)) (\<lambda>_.
              retT OActivated))))))"

definition activate :: "'l Config \<Rightarrow> string \<Rightarrow> OwnerId \<Rightarrow> ms \<Rightarrow> RunSnapshot \<Rightarrow> ('l, RunOutcome) rtxn" where
  "activate cfg r claimant t expected =
     withClock (\<lambda>now. writeThrough cfg ''activate'' (activateBody cfg r claimant t expected now))"

definition abandonClaimBody :: "'l Config \<Rightarrow> string \<Rightarrow> OwnerId \<Rightarrow> ms \<Rightarrow> ('l, RunOutcome) stxn" where
  "abandonClaimBody cfg r claimant t =
     bindT (updateRun r (\<lambda>row. rowMatchesClaim row claimant t) clearRowClaim) (\<lambda>changed.
       if \<not> changed then retT OClaimLost
       else bindT (releaseT cfg r claimant) (\<lambda>_.
            bindT (recordTransition cfg r TReleased claimant (Some t)) (\<lambda>_. retT OAbandoned)))"

definition abandonClaim :: "'l Config \<Rightarrow> string \<Rightarrow> OwnerId \<Rightarrow> ms \<Rightarrow> ('l, RunOutcome) rtxn" where
  "abandonClaim cfg r claimant t = writeThrough cfg ''abandonClaim'' (abandonClaimBody cfg r claimant t)"

definition recoverClaimBody ::
  "'l Config \<Rightarrow> string \<Rightarrow> OwnerId \<Rightarrow> ms \<Rightarrow> OwnerId \<Rightarrow> ms \<Rightarrow> LivenessEvidence \<Rightarrow> ('l, RunOutcome) stxn" where
  "recoverClaimBody cfg r stale t observer nowMs evidence =
     bindT (selectRun r) (\<lambda>rowO. case rowO of
       None \<Rightarrow> retT ONotFound
     | Some row \<Rightarrow>
         if \<not> rowMatchesClaim row stale t then retT OClaimChanged
         else if t \<ge> nowMs - heartbeatStaleAfterMs then retT OClaimFresh
         else bindT (recoverT cfg r stale t observer nowMs evidence) (\<lambda>outcome. case outcome of
             RecoverRejected _ \<Rightarrow> retT OClaimChanged
           | Recovered \<Rightarrow>
               bindT (updateRun r (\<lambda>_. True) clearRowClaim) (\<lambda>_.
               bindT (recordTransition cfg r TExpired stale (Some t)) (\<lambda>_. retT ORecovered))))"

definition recoverClaim ::
  "'l Config \<Rightarrow> string \<Rightarrow> OwnerId \<Rightarrow> ms \<Rightarrow> OwnerId \<Rightarrow> ms \<Rightarrow> LivenessEvidence \<Rightarrow> ('l, RunOutcome) rtxn" where
  "recoverClaim cfg r stale t observer nowMs evidence =
     (if \<not> matchesEvidence stale observer nowMs evidence then retT OLivenessUnconfirmed
      else writeThrough cfg ''recoverClaim'' (recoverClaimBody cfg r stale t observer nowMs evidence))"

definition heartbeatBody :: "'l Config \<Rightarrow> string \<Rightarrow> OwnerId \<Rightarrow> ms \<Rightarrow> ('l, RunOutcome) stxn" where
  "heartbeatBody cfg r w nowMs =
     (let lost = bindT (selectRun r) (\<lambda>current. retT (if current = None then ONotFound else OFenceLost)) in
      bindT (heartbeatT cfg r w nowMs) (\<lambda>outcome. case outcome of
        HeartbeatLost \<Rightarrow> lost
      | Renewed h \<Rightarrow>
          bindT (updateRun r (\<lambda>row. rowOwnedBy row w)
                  (\<lambda>row. row\<lparr>heartbeatAtMs := map_option (\<lambda>b. max b h) (heartbeatAtMs row)\<rparr>)) (\<lambda>changed.
          if changed then retT OUpdated else lost)))"

definition heartbeat :: "'l Config \<Rightarrow> string \<Rightarrow> OwnerId \<Rightarrow> ms \<Rightarrow> ('l, RunOutcome) rtxn" where
  "heartbeat cfg r w nowMs =
     (if \<not> isSafeInteger nowMs \<or> nowMs < 0 then failT (invalidRunError ''heartbeat'')
      else writeRun cfg ''heartbeat'' (heartbeatBody cfg r w nowMs))"

datatype TransitionGuard = CancelAbsent | CancelPresent

definition guardBlocked :: "TransitionGuard option \<Rightarrow> RunRow \<Rightarrow> bool" where
  "guardBlocked g row = (case g of None \<Rightarrow> False
     | Some CancelAbsent \<Rightarrow> cancelRequestedAtMs row \<noteq> None
     | Some CancelPresent \<Rightarrow> cancelRequestedAtMs row = None)"

text \<open>The strategy's fence as a boolean; a failure that is not a lost fence propagates.\<close>

definition heldT :: "'l Config \<Rightarrow> string \<Rightarrow> OwnerId \<Rightarrow> ('l, bool) stxn" where
  "heldT cfg r w = (\<lambda>s.
     case consensusT (c_guard (consensus cfg) r w) s of
       (Inr _, s') \<Rightarrow> (Inr True, s')
     | (Inl (CConsensus e), s') \<Rightarrow> (if ce_code e = Fence_lost then (Inr False, s') else (Inl (CConsensus e), s'))
     | (Inl c, s') \<Rightarrow> (Inl c, s'))"

definition transitionFields :: "RunStatus \<Rightarrow> ms \<Rightarrow> string option \<Rightarrow> fields" where
  "transitionFields st t stj =
     [(''status'', JStr (statusText st)), (''atMs'', JInt t)]
     @ (case stj of None \<Rightarrow> [] | Some x \<Rightarrow> [(''stateJson'', JStr x)])"

definition withState :: "string option \<Rightarrow> RunRow \<Rightarrow> RunRow" where
  "withState stj row = row\<lparr>stateJson := (case stj of None \<Rightarrow> stateJson row | Some x \<Rightarrow> x)\<rparr>"

definition settleRow :: "RunStatus \<Rightarrow> ms \<Rightarrow> string option \<Rightarrow> RunRow \<Rightarrow> RunRow" where
  "settleRow st t stj row =
     withState stj ((clearRowClaim (clearRowOwner row))
       \<lparr>r_status := st, finishedAtMs := (if terminal st then Some t else None)\<rparr>)"

definition transitionOwnedBody ::
  "'l Config \<Rightarrow> string \<Rightarrow> OwnerId \<Rightarrow> RunStatus \<Rightarrow> string option \<Rightarrow> TransitionGuard option \<Rightarrow> ms \<Rightarrow> ('l, RunOutcome) stxn" where
  "transitionOwnedBody cfg r w st stj g now =
     bindT (heldT cfg r w) (\<lambda>held.
     bindT (selectRun r) (\<lambda>rowO. case rowO of
       None \<Rightarrow> retT ONotFound
     | Some row \<Rightarrow>
         if \<not> (held \<and> rowOwnedBy row w) then retT OFenceLost
         else if guardBlocked g row then retT OGuardFailed
         else if st = RSrunning
         then bindT (updateRun r (\<lambda>_. True) (\<lambda>row. withState stj (row\<lparr>r_status := RSrunning, finishedAtMs := None\<rparr>))) (\<lambda>_.
              bindT (recordRunEvent cfg r ''transitioned'' (transitionFields st now stj) (Some w)) (\<lambda>_.
              retT OTransitioned))
         else bindT (updateRun r (\<lambda>_. True) (settleRow st now stj)) (\<lambda>_.
              bindT (recordRunEvent cfg r ''transitioned'' (transitionFields st now stj) (Some w)) (\<lambda>_.
              bindT (releaseT cfg r w) (\<lambda>_.
              bindT (recordTransition cfg r TReleased w None) (\<lambda>_.
              retT OTransitioned))))))"

definition transitionOwned ::
  "'l Config \<Rightarrow> string \<Rightarrow> OwnerId \<Rightarrow> RunStatus \<Rightarrow> string option \<Rightarrow> TransitionGuard option \<Rightarrow> ('l, RunOutcome) rtxn" where
  "transitionOwned cfg r w st stj g =
     (if (case stj of None \<Rightarrow> False | Some x \<Rightarrow> \<not> isJsonString x) then failT (invalidRunError ''transitionOwned'')
      else withClock (\<lambda>now. writeThrough cfg ''transitionOwned'' (transitionOwnedBody cfg r w st stj g now)))"

definition stealAdmissible :: "RunRow option \<Rightarrow> RunSnapshot \<Rightarrow> ms \<Rightarrow> bool" where
  "stealAdmissible rowO expected nowMs = (case rowO of None \<Rightarrow> False | Some row \<Rightarrow>
     snapshotMatchesRow row expected \<and> claimColumnsFree row
     \<and> (case heartbeatAtMs row of None \<Rightarrow> False | Some h \<Rightarrow> h < nowMs - heartbeatStaleAfterMs))"

definition stealBody ::
  "'l Config \<Rightarrow> string \<Rightarrow> RunSnapshot \<Rightarrow> OwnerId \<Rightarrow> ms \<Rightarrow> LivenessEvidence \<Rightarrow> ('l, RunOutcome) stxn" where
  "stealBody cfg r expected claimant nowMs evidence =
     bindT (selectRun r) (\<lambda>rowO.
       if \<not> stealAdmissible rowO expected nowMs then retT (classifyClaimLoss rowO nowMs)
       else bindT (stealT cfg r claimant nowMs evidence) (\<lambda>grant. case grant of
           Rejected _ \<Rightarrow> retT (classifyClaimLoss rowO nowMs)
         | Claimed g \<Rightarrow>
             bindT (updateRun r (\<lambda>_. True) (setRowClaim claimant g)) (\<lambda>_.
             bindT (recordTransition cfg r TStolen claimant (Some g)) (\<lambda>_.
             retT (OClaimed g)))))"

definition steal ::
  "'l Config \<Rightarrow> string \<Rightarrow> RunSnapshot \<Rightarrow> OwnerId \<Rightarrow> ms \<Rightarrow> LivenessEvidence \<Rightarrow> ('l, RunOutcome) rtxn" where
  "steal cfg r expected claimant nowMs evidence =
     (if \<not> evidenceMatches expected claimant nowMs evidence then retT OSnapshotChanged
      else writeThrough cfg ''steal'' (stealBody cfg r expected claimant nowMs evidence))"

end
