(* ===== verification/AttemptStore.thy ===== *)
theory AttemptStore
  imports RunStore
begin

text \<open>
  The attempt store (\<^verbatim>\<open>packages/run-store/src/AttemptStore.ts\<close>) over \<open>flows_attempts\<close>: every write is
  admitted only while the run's row names the writing process as the owner of a running run, and
  appends the \<open>flows.attempt.*\<close> event describing it in the same transaction. A JSON value is
  persisted as its text, \<open>stringify v\<close>.
\<close>

section \<open>Inputs, options and results\<close>

record AttemptId =
  id_runId :: string
  id_stepKeyDigest :: string
  id_attempt :: int

record Attempt =
  at_id :: AttemptId
  at_state :: string
  at_startedAtMs :: ms
  at_finishedAtMs :: "ms option"
  at_heartbeatAtMs :: "ms option"
  at_checkpoint :: "json option"
  at_error :: "json option"
  at_outcome :: "json option"
  at_meta :: json

record FinishAttempt =
  fi_id :: AttemptId
  fi_state :: string
  fi_finishedAtMs :: ms
  fi_error :: "json option"
  fi_outcome :: "json option"
  fi_meta :: "json option"

record AttemptPatch =
  pa_checkpoint :: "json option"
  pa_error :: "json option"
  pa_outcome :: "json option"
  pa_meta :: "json option"

record Options =
  inProgressStates :: "string list"
  maxCheckpointBytes :: int
  upsert :: bool

datatype AttemptStoreErrorCode = Invalid_attempt | Constraint_attempt | Decode_failed_attempt | Persistence_failed_attempt | Unknown_attempt

record AttemptStoreError =
  ase_code :: AttemptStoreErrorCode
  ase_message :: string

datatype AttemptResult =
    AInserted | AUpserted | AExistingSame | AConflict | AFenceLost | ARunNotFound
  | AUpdated | ANotFound | AStateChanged | AFinished | APatched

definition defaultOptions :: Options where
  "defaultOptions = \<lparr>inProgressStates = [''running''], maxCheckpointBytes = 1024 * 1024, upsert = False\<rparr>"

definition makeWith :: "Options \<Rightarrow> AttemptStoreError + Options" where
  "makeWith opts =
     (if inProgressStates opts = [] \<or> list_ex (\<lambda>st. st = []) (inProgressStates opts)
      then Inl \<lparr>ase_code = Invalid_attempt, ase_message = ''inProgressStates must contain at least one non-empty state''\<rparr>
      else if \<not> isSafeInteger (maxCheckpointBytes opts) \<or> maxCheckpointBytes opts \<le> 0
      then Inl \<lparr>ase_code = Invalid_attempt, ase_message = ''maxCheckpointBytes must be a positive safe integer''\<rparr>
      else Inr opts)"

section \<open>Validation and statements\<close>

definition invalidAttempt :: "string \<Rightarrow> AttemptStoreError" where
  "invalidAttempt m = \<lparr>ase_code = Invalid_attempt, ase_message = m\<rparr>"

definition validateId :: "AttemptId \<Rightarrow> bool" where
  "validateId i \<longleftrightarrow> id_runId i \<noteq> [] \<and> id_stepKeyDigest i \<noteq> [] \<and> isSafeInteger (id_attempt i) \<and> id_attempt i \<ge> 0"

definition key :: "AttemptId \<Rightarrow> attempt_key" where
  "key i = (id_runId i, id_stepKeyDigest i, id_attempt i)"

definition checkpointFits :: "Options \<Rightarrow> json option \<Rightarrow> bool" where
  "checkpointFits opts c = (case c of None \<Rightarrow> True | Some v \<Rightarrow> int (utf8Length (stringify v)) \<le> maxCheckpointBytes opts)"

definition tooLarge :: "Options \<Rightarrow> string" where
  "tooLarge opts = ''checkpoint must not exceed '' @ show_int (maxCheckpointBytes opts) @ '' bytes''"

definition ownsRunningRun :: "RunRow \<Rightarrow> OwnerId \<Rightarrow> bool" where
  "ownsRunningRun row w \<longleftrightarrow> r_status row = RSrunning \<and> ownerHostId row = Some (hostId w)
     \<and> ownerPid row = Some (pid w) \<and> ownerNonce row = Some (nonce w)"

definition fenced :: "string \<Rightarrow> OwnerId \<Rightarrow> 'l store \<Rightarrow> bool" where
  "fenced r w s = (case runRows s r of None \<Rightarrow> False | Some row \<Rightarrow> ownsRunningRun row w)"

definition attempt_check :: "attempt_key \<Rightarrow> AttemptRow \<Rightarrow> bool" where
  "attempt_check k row = (case k of (r, d, n) \<Rightarrow>
     r \<noteq> [] \<and> d \<noteq> [] \<and> safeMs n \<and> a_state row \<noteq> [] \<and> safeMs (a_startedAtMs row)
     \<and> optSafe (a_finishedAtMs row) \<and> optSafe (a_heartbeatAtMs row)
     \<and> (case a_checkpointJson row of None \<Rightarrow> True | Some x \<Rightarrow> isJsonString x)
     \<and> (case a_errorJson row of None \<Rightarrow> True | Some x \<Rightarrow> isJsonString x)
     \<and> (case a_outcomeJson row of None \<Rightarrow> True | Some x \<Rightarrow> isJsonString x)
     \<and> isJsonString (a_metaJson row))"

definition putAttemptRow :: "attempt_key \<Rightarrow> AttemptRow \<Rightarrow> ('l, unit) stxn" where
  "putAttemptRow k row = (\<lambda>s.
     if attempt_check k row \<and> runRows s (fst k) \<noteq> None
     then (Inr (), s\<lparr>attemptRows := (attemptRows s)(k \<mapsto> row)\<rparr>)
     else (Inl CConstraint, s))"

text \<open>\<open>UPDATE flows_attempts SET f WHERE key AND p AND EXISTS (fence) RETURNING attempt\<close>\<close>

definition updateAttempt ::
  "AttemptId \<Rightarrow> OwnerId \<Rightarrow> (AttemptRow \<Rightarrow> bool) \<Rightarrow> (AttemptRow \<Rightarrow> AttemptRow) \<Rightarrow> ('l, bool) stxn" where
  "updateAttempt i w p f = (\<lambda>s.
     case attemptRows s (key i) of None \<Rightarrow> (Inr False, s)
     | Some row \<Rightarrow>
         if p row \<and> fenced (id_runId i) w s
         then bindT (putAttemptRow (key i) (f row)) (\<lambda>_. retT True) s
         else (Inr False, s))"

definition attemptRowOf :: "Attempt \<Rightarrow> AttemptRow" where
  "attemptRowOf a =
     \<lparr>a_state = at_state a, a_startedAtMs = at_startedAtMs a, a_finishedAtMs = at_finishedAtMs a,
      a_heartbeatAtMs = at_heartbeatAtMs a, a_checkpointJson = map_option stringify (at_checkpoint a),
      a_errorJson = map_option stringify (at_error a), a_outcomeJson = map_option stringify (at_outcome a),
      a_metaJson = stringify (at_meta a)\<rparr>"

definition insertAttempt :: "Attempt \<Rightarrow> OwnerId \<Rightarrow> ('l, bool) stxn" where
  "insertAttempt a w = (\<lambda>s.
     if \<not> fenced (id_runId (at_id a)) w s then (Inr False, s)
     else if \<not> attempt_check (key (at_id a)) (attemptRowOf a) then (Inl CConstraint, s)
     else if attemptRows s (key (at_id a)) \<noteq> None then (Inr False, s)
     else bindT (putAttemptRow (key (at_id a)) (attemptRowOf a)) (\<lambda>_. retT True) s)"

definition sameAttempt :: "AttemptRow \<Rightarrow> Attempt \<Rightarrow> bool" where
  "sameAttempt row a \<longleftrightarrow> a_state row = at_state a \<and> a_startedAtMs row = at_startedAtMs a
     \<and> a_finishedAtMs row = at_finishedAtMs a \<and> a_heartbeatAtMs row = at_heartbeatAtMs a
     \<and> a_checkpointJson row = map_option stringify (at_checkpoint a)
     \<and> a_errorJson row = map_option stringify (at_error a)
     \<and> a_outcomeJson row = map_option stringify (at_outcome a)
     \<and> a_metaJson row = stringify (at_meta a)"

section \<open>Transactions and events\<close>

type_synonym ('l, 'a) atxn = "('l store, AttemptStoreError, 'a) txn"

fun mapPersistenceError :: "Cause \<Rightarrow> AttemptStoreError" where
  "mapPersistenceError (COther m) = \<lparr>ase_code = Unknown_attempt, ase_message = m\<rparr>"
| "mapPersistenceError c =
     \<lparr>ase_code = (if hasConstraint c then Constraint_attempt else Persistence_failed_attempt),
      ase_message = ''attempt persistence failed''\<rparr>"

fun isJournalFenceLost :: "Cause \<Rightarrow> bool" where
  "isJournalFenceLost (CJournal e) = (je_code e = Fence_lost_journal)"
| "isJournalFenceLost _ = False"

definition writeAttempt :: "'l Config \<Rightarrow> ('l, AttemptResult) stxn \<Rightarrow> ('l, AttemptResult) atxn" where
  "writeAttempt cfg body = (\<lambda>s.
     case transact cfg body s of
       (Inr a, s') \<Rightarrow> (Inr a, s')
     | (Inl c, s') \<Rightarrow> if isJournalFenceLost c then (Inr AFenceLost, s') else (Inl (mapPersistenceError c), s'))"

definition attemptInput :: "string \<Rightarrow> string \<Rightarrow> fields \<Rightarrow> Input" where
  "attemptInput r kind fs =
     \<lparr>in_runId = r, in_sourceId = ''flows/run-store/attempt'', in_sourceSeq = None,
      in_eventType = ''flows.attempt.'' @ kind, in_payload = JObj fs, in_meta = Some (lineageMeta r)\<rparr>"

definition recordAttemptEvent ::
  "'l Config \<Rightarrow> string \<Rightarrow> OwnerId \<Rightarrow> string \<Rightarrow> fields \<Rightarrow> ('l, unit) stxn" where
  "recordAttemptEvent cfg r w kind fs = mapT (\<lambda>_. ()) (emitDurable cfg (attemptInput r kind fs) (Some w))"

fun present :: "string \<Rightarrow> json option \<Rightarrow> fields" where
  "present k None = []"
| "present k (Some v) = [(k, v)]"

definition idFields :: "AttemptId \<Rightarrow> fields" where
  "idFields i = [(''stepKeyDigest'', JStr (id_stepKeyDigest i)), (''attempt'', JInt (id_attempt i))]"

definition putPayload :: "Attempt \<Rightarrow> fields" where
  "putPayload a = idFields (at_id a)
     @ [(''state'', JStr (at_state a)), (''startedAtMs'', JInt (at_startedAtMs a))]
     @ present ''finishedAtMs'' (map_option JInt (at_finishedAtMs a))
     @ present ''checkpoint'' (at_checkpoint a) @ present ''error'' (at_error a)
     @ present ''outcome'' (at_outcome a) @ [(''meta'', at_meta a)]"

section \<open>Operations\<close>

definition validAttempt :: "Attempt \<Rightarrow> bool" where
  "validAttempt a \<longleftrightarrow> at_state a \<noteq> [] \<and> isSafeInteger (at_startedAtMs a) \<and> at_startedAtMs a \<ge> 0
     \<and> (case at_finishedAtMs a of None \<Rightarrow> True | Some t \<Rightarrow> isSafeInteger t \<and> t \<ge> 0)
     \<and> (case at_heartbeatAtMs a of None \<Rightarrow> True | Some t \<Rightarrow> isSafeInteger t \<and> t \<ge> 0)"

definition putBody :: "'l Config \<Rightarrow> Options \<Rightarrow> Attempt \<Rightarrow> OwnerId \<Rightarrow> ('l, AttemptResult) stxn" where
  "putBody cfg opts a w =
     (let r = id_runId (at_id a); journalIt = recordAttemptEvent cfg r w ''put'' (putPayload a) in
      bindT (insertAttempt a w) (\<lambda>inserted.
      if inserted then bindT journalIt (\<lambda>_. retT AInserted)
      else bindT (if upsert opts then updateAttempt (at_id a) w (\<lambda>_. True) (\<lambda>_. attemptRowOf a) else retT False) (\<lambda>replaced.
      if replaced then bindT journalIt (\<lambda>_. retT AUpserted)
      else bindT (selectRun r) (\<lambda>rowO. case rowO of
          None \<Rightarrow> retT ARunNotFound
        | Some run \<Rightarrow>
            if \<not> ownsRunningRun run w then retT AFenceLost
            else bindT (getT (\<lambda>s. attemptRows s (key (at_id a)))) (\<lambda>existing. case existing of
                None \<Rightarrow> failT (COther ''attempt disappeared during put'')
              | Some row \<Rightarrow> retT (if sameAttempt row a then AExistingSame else AConflict))))))"

definition put :: "'l Config \<Rightarrow> Options \<Rightarrow> Attempt \<Rightarrow> OwnerId \<Rightarrow> ('l, AttemptResult) atxn" where
  "put cfg opts a w =
     (if \<not> validateId (at_id a)
      then failT (invalidAttempt ''runId and stepKeyDigest must not be empty and attempt must be non-negative'')
      else if \<not> validAttempt a then failT (invalidAttempt ''attempt timestamps and state are invalid'')
      else if \<not> checkpointFits opts (at_checkpoint a) then failT (invalidAttempt (tooLarge opts))
      else writeAttempt cfg (putBody cfg opts a w))"

definition getAttempt :: "AttemptId \<Rightarrow> ('l, AttemptRow option) atxn" where
  "getAttempt i = (\<lambda>s.
     if \<not> validateId i
     then failT (invalidAttempt ''runId and stepKeyDigest must not be empty and attempt must be non-negative'') s
     else case attemptRows s (key i) of
       None \<Rightarrow> retT None s
     | Some row \<Rightarrow>
         if attempt_check (key i) row then retT (Some row) s
         else failT \<lparr>ase_code = Decode_failed_attempt, ase_message = ''could not decode flows_attempts row''\<rparr> s)"

text \<open>Why an update of an attempt touched no row.\<close>

definition classifyAttempt :: "AttemptId \<Rightarrow> OwnerId \<Rightarrow> ('l, AttemptResult) stxn" where
  "classifyAttempt i w =
     bindT (getT (\<lambda>s. attemptRows s (key i))) (\<lambda>found.
     if found = None then retT ANotFound
     else bindT (selectRun (id_runId i)) (\<lambda>rowO. case rowO of
         None \<Rightarrow> retT AFenceLost
       | Some run \<Rightarrow> retT (if ownsRunningRun run w then AStateChanged else AFenceLost)))"

definition attemptHeartbeatBody ::
  "'l Config \<Rightarrow> Options \<Rightarrow> AttemptId \<Rightarrow> OwnerId \<Rightarrow> ms \<Rightarrow> json option \<Rightarrow> ('l, AttemptResult) stxn" where
  "attemptHeartbeatBody cfg opts i w nowMs c =
     bindT (updateAttempt i w (\<lambda>row. a_state row \<in> set (inProgressStates opts))
       (\<lambda>row. row\<lparr>a_heartbeatAtMs := Some nowMs,
                  a_checkpointJson := coalesce (map_option stringify c) (a_checkpointJson row)\<rparr>)) (\<lambda>changed.
     if changed
     then (case c of
             None \<Rightarrow> retT AUpdated
           | Some v \<Rightarrow> bindT (recordAttemptEvent cfg (id_runId i) w ''checkpointed'' (idFields i @ [(''checkpoint'', v)]))
               (\<lambda>_. retT AUpdated))
     else classifyAttempt i w)"

definition attemptHeartbeat ::
  "'l Config \<Rightarrow> Options \<Rightarrow> AttemptId \<Rightarrow> OwnerId \<Rightarrow> ms \<Rightarrow> json option \<Rightarrow> ('l, AttemptResult) atxn" where
  "attemptHeartbeat cfg opts i w nowMs c =
     (if \<not> validateId i
      then failT (invalidAttempt ''runId and stepKeyDigest must not be empty and attempt must be non-negative'')
      else if \<not> isSafeInteger nowMs \<or> nowMs < 0
      then failT (invalidAttempt ''nowMs must be a non-negative safe integer'')
      else if \<not> checkpointFits opts c then failT (invalidAttempt (tooLarge opts))
      else writeAttempt cfg (attemptHeartbeatBody cfg opts i w nowMs c))"

definition finishedRow :: "FinishAttempt \<Rightarrow> AttemptRow \<Rightarrow> AttemptRow" where
  "finishedRow f row =
     row\<lparr>a_state := fi_state f, a_finishedAtMs := Some (fi_finishedAtMs f),
         a_errorJson := coalesce (map_option stringify (fi_error f)) (a_errorJson row),
         a_outcomeJson := coalesce (map_option stringify (fi_outcome f)) (a_outcomeJson row),
         a_metaJson := (case fi_meta f of None \<Rightarrow> a_metaJson row | Some v \<Rightarrow> stringify v)\<rparr>"

definition finishBody :: "'l Config \<Rightarrow> Options \<Rightarrow> FinishAttempt \<Rightarrow> OwnerId \<Rightarrow> ('l, AttemptResult) stxn" where
  "finishBody cfg opts f w =
     bindT (updateAttempt (fi_id f) w (\<lambda>row. a_state row \<in> set (inProgressStates opts)) (finishedRow f)) (\<lambda>changed.
     if changed
     then bindT (recordAttemptEvent cfg (id_runId (fi_id f)) w ''finished''
            (idFields (fi_id f) @ [(''state'', JStr (fi_state f)), (''finishedAtMs'', JInt (fi_finishedAtMs f))]
             @ present ''error'' (fi_error f) @ present ''outcome'' (fi_outcome f) @ present ''meta'' (fi_meta f)))
          (\<lambda>_. retT AFinished)
     else classifyAttempt (fi_id f) w)"

definition finish :: "'l Config \<Rightarrow> Options \<Rightarrow> FinishAttempt \<Rightarrow> OwnerId \<Rightarrow> ('l, AttemptResult) atxn" where
  "finish cfg opts f w =
     (if \<not> validateId (fi_id f)
      then failT (invalidAttempt ''runId and stepKeyDigest must not be empty and attempt must be non-negative'')
      else if fi_state f = [] \<or> fi_state f \<in> set (inProgressStates opts)
           \<or> \<not> isSafeInteger (fi_finishedAtMs f) \<or> fi_finishedAtMs f < 0
      then failT (invalidAttempt ''finish requires a terminal state and valid timestamp'')
      else writeAttempt cfg (finishBody cfg opts f w))"

definition patchedRow :: "AttemptPatch \<Rightarrow> AttemptRow \<Rightarrow> AttemptRow" where
  "patchedRow p row =
     row\<lparr>a_checkpointJson := coalesce (map_option stringify (pa_checkpoint p)) (a_checkpointJson row),
         a_errorJson := coalesce (map_option stringify (pa_error p)) (a_errorJson row),
         a_outcomeJson := coalesce (map_option stringify (pa_outcome p)) (a_outcomeJson row),
         a_metaJson := (case pa_meta p of None \<Rightarrow> a_metaJson row | Some v \<Rightarrow> stringify v)\<rparr>"

definition patchBody :: "'l Config \<Rightarrow> AttemptId \<Rightarrow> AttemptPatch \<Rightarrow> OwnerId \<Rightarrow> ('l, AttemptResult) stxn" where
  "patchBody cfg i p w =
     bindT (updateAttempt i w (\<lambda>_. True) (patchedRow p)) (\<lambda>changed.
     if changed
     then (if pa_checkpoint p = None \<and> pa_error p = None \<and> pa_outcome p = None \<and> pa_meta p = None
           then retT APatched
           else bindT (recordAttemptEvent cfg (id_runId i) w ''patched''
                  (idFields i @ present ''checkpoint'' (pa_checkpoint p) @ present ''error'' (pa_error p)
                   @ present ''outcome'' (pa_outcome p) @ present ''meta'' (pa_meta p)))
                (\<lambda>_. retT APatched))
     else bindT (getT (\<lambda>s. attemptRows s (key i))) (\<lambda>found. retT (if found = None then ANotFound else AFenceLost)))"

definition patch :: "'l Config \<Rightarrow> Options \<Rightarrow> AttemptId \<Rightarrow> AttemptPatch \<Rightarrow> OwnerId \<Rightarrow> ('l, AttemptResult) atxn" where
  "patch cfg opts i p w =
     (if \<not> validateId i
      then failT (invalidAttempt ''runId and stepKeyDigest must not be empty and attempt must be non-negative'')
      else if \<not> checkpointFits opts (pa_checkpoint p) then failT (invalidAttempt (tooLarge opts))
      else writeAttempt cfg (patchBody cfg i p w))"

end
