(* ===== verification/Fold.thy ===== *)
theory Fold
  imports AttemptStore
begin

text \<open>
  The fold that rebuilds run and attempt rows from the journal (\<^verbatim>\<open>packages/run-store/src/Fold.ts\<close>):
  the folded rows, the reducer over one committed entry, the two projections, the snapshot set that
  seeds a rebuild after compaction, and the rebuild itself.
\<close>

section \<open>Folded rows\<close>

record RunFoldRow =
  fr_status :: string
  fr_createdAtMs :: ms
  fr_startedAtMs :: "ms option"
  fr_finishedAtMs :: "ms option"
  fr_owner :: "OwnerId option"
  fr_heartbeatAtMs :: "ms option"
  fr_claim :: "OwnerId option"
  fr_claimedAtMs :: "ms option"
  fr_parentRunId :: "string option"
  fr_cancelRequestedAtMs :: "ms option"
  fr_lineageId :: "string option"
  fr_roundOrdinal :: "int option"
  fr_waitingReason :: "string option"
  fr_waitingWakeAtMs :: "ms option"
  fr_waitingToken :: "string option"
  fr_stateJson :: string

record AttemptFoldRow =
  fa_runId :: string
  fa_stepKeyDigest :: string
  fa_attempt :: int
  fa_state :: string
  fa_startedAtMs :: ms
  fa_finishedAtMs :: "ms option"
  fa_checkpointJson :: "string option"
  fa_errorJson :: "string option"
  fa_outcomeJson :: "string option"
  fa_metaJson :: string

record State =
  foldRuns :: "string \<rightharpoonup> RunFoldRow"
  foldAttempts :: "string \<rightharpoonup> AttemptFoldRow"

definition emptyState :: State where
  "emptyState = \<lparr>foldRuns = Map.empty, foldAttempts = Map.empty\<rparr>"

definition terminalStatuses :: "string list" where
  "terminalStatuses = [''completed'', ''failed'', ''cancelled'']"

section \<open>Reading payloads\<close>

definition ownerFrom :: "json option \<Rightarrow> OwnerId option" where
  "ownerFrom v =
     (case v of
        Some (JObj fs) \<Rightarrow>
          (case (map_of fs ''hostId'', map_of fs ''pid'', map_of fs ''nonce'') of
             (Some (JStr h), Some (JInt p), Some (JStr n)) \<Rightarrow>
               if isSafeInteger p then Some \<lparr>hostId = h, pid = p, nonce = n\<rparr> else None
           | _ \<Rightarrow> None)
      | _ \<Rightarrow> None)"

definition foldSameOwner :: "OwnerId option \<Rightarrow> OwnerId \<Rightarrow> bool" where
  "foldSameOwner l r = (case l of None \<Rightarrow> False | Some x \<Rightarrow> hostId x = hostId r \<and> pid x = pid r \<and> nonce x = nonce r)"

text \<open>\<open>None\<close> is \<open>undefined\<close>: the payload does not carry the column.\<close>

definition jsonColumn :: "fields \<Rightarrow> string \<Rightarrow> string \<Rightarrow> string option" where
  "jsonColumn fs valueKey jsonKey =
     (case map_of fs jsonKey of
        Some (JStr exact) \<Rightarrow> Some exact
      | _ \<Rightarrow> map_option stringify (map_of fs valueKey))"

text \<open>
  A column of an attempt mutation, or the current value when the payload omits it. Every decoded
  JSON value encodes, so the fallback for a value that does not is never taken.
\<close>

definition patchJson :: "fields \<Rightarrow> string \<Rightarrow> string \<Rightarrow> string option \<Rightarrow> string option" where
  "patchJson fs valueKey jsonKey current =
     (case map_of fs valueKey of
        None \<Rightarrow> current
      | Some v \<Rightarrow> (case map_of fs jsonKey of Some (JStr exact) \<Rightarrow> Some exact | _ \<Rightarrow> Some (stringify v)))"

definition attemptKey :: "string \<Rightarrow> string \<Rightarrow> int \<Rightarrow> string" where
  "attemptKey r d n = show_nat (length r) @ '':'' @ r @ show_nat (length d) @ '':'' @ d @ show_int n"

definition setWaiting :: "RunFoldRow \<Rightarrow> json \<Rightarrow> RunFoldRow" where
  "setWaiting row waiting =
     (case waiting of
        JNull \<Rightarrow> row\<lparr>fr_waitingReason := None, fr_waitingWakeAtMs := None, fr_waitingToken := None\<rparr>
      | JObj fs \<Rightarrow>
          (case map_of fs ''reason'' of
             Some (JStr reason) \<Rightarrow>
               row\<lparr>fr_waitingReason := Some reason, fr_waitingWakeAtMs := numberOrNull (map_of fs ''wakeAt''),
                   fr_waitingToken := stringOrNull (map_of fs ''token'')\<rparr>
           | _ \<Rightarrow> row)
      | _ \<Rightarrow> row)"

section \<open>Run events\<close>

definition createdRow :: "fields \<Rightarrow> RunFoldRow option" where
  "createdRow fs =
     (case (numberOrNull (map_of fs ''createdAtMs''), stringOrNull (map_of fs ''stateJson'')) of
        (Some t, Some st) \<Rightarrow>
          Some \<lparr>fr_status = ''pending'', fr_createdAtMs = t, fr_startedAtMs = None, fr_finishedAtMs = None,
                fr_owner = None, fr_heartbeatAtMs = None, fr_claim = None, fr_claimedAtMs = None,
                fr_parentRunId = stringOrNull (map_of fs ''parentRunId''), fr_cancelRequestedAtMs = None,
                fr_lineageId = stringOrNull (map_of fs ''lineageId''),
                fr_roundOrdinal = numberOrNull (map_of fs ''roundOrdinal''),
                fr_waitingReason = None, fr_waitingWakeAtMs = None, fr_waitingToken = None,
                fr_stateJson = st\<rparr>
      | _ \<Rightarrow> None)"

definition waitingOf :: "fields \<Rightarrow> fields option" where
  "waitingOf fs = (case map_of fs ''waiting'' of None \<Rightarrow> None | Some v \<Rightarrow> asRecord v)"

definition snapshotRow :: "fields \<Rightarrow> RunFoldRow option" where
  "snapshotRow fs =
     (case (stringOrNull (map_of fs ''status''), numberOrNull (map_of fs ''createdAtMs''),
            stringOrNull (map_of fs ''stateJson'')) of
        (Some stt, Some t, Some st) \<Rightarrow>
          let waiting = waitingOf fs in
          Some \<lparr>fr_status = stt, fr_createdAtMs = t,
                fr_startedAtMs = numberOrNull (map_of fs ''startedAtMs''),
                fr_finishedAtMs = numberOrNull (map_of fs ''finishedAtMs''),
                fr_owner = ownerFrom (map_of fs ''owner''),
                fr_heartbeatAtMs = numberOrNull (map_of fs ''heartbeatAtMs''),
                fr_claim = ownerFrom (map_of fs ''claim''),
                fr_claimedAtMs = numberOrNull (map_of fs ''claimedAtMs''),
                fr_parentRunId = stringOrNull (map_of fs ''parentRunId''),
                fr_cancelRequestedAtMs = numberOrNull (map_of fs ''cancelRequestedAtMs''),
                fr_lineageId = stringOrNull (map_of fs ''lineageId''),
                fr_roundOrdinal = numberOrNull (map_of fs ''roundOrdinal''),
                fr_waitingReason = (case waiting of None \<Rightarrow> None | Some w \<Rightarrow> stringOrNull (map_of w ''reason'')),
                fr_waitingWakeAtMs = (case waiting of None \<Rightarrow> None | Some w \<Rightarrow> numberOrNull (map_of w ''wakeAt'')),
                fr_waitingToken = (case waiting of None \<Rightarrow> None | Some w \<Rightarrow> stringOrNull (map_of w ''token'')),
                fr_stateJson = st\<rparr>
      | _ \<Rightarrow> None)"

definition transitionedRow :: "fields \<Rightarrow> RunFoldRow \<Rightarrow> RunFoldRow" where
  "transitionedRow fs row =
     (let st = (case stringOrNull (map_of fs ''stateJson'') of Some x \<Rightarrow> x | None \<Rightarrow> fr_stateJson row);
          moved =
            (case (stringOrNull (map_of fs ''status''), numberOrNull (map_of fs ''atMs'')) of
               (Some stt, Some atMs) \<Rightarrow>
                 if stt = ''running''
                 then row\<lparr>fr_status := stt, fr_startedAtMs := coalesce (fr_startedAtMs row) (Some atMs),
                          fr_finishedAtMs := None, fr_stateJson := st\<rparr>
                 else row\<lparr>fr_status := stt,
                          fr_finishedAtMs := (if stt \<in> set terminalStatuses then Some atMs else None),
                          fr_owner := None, fr_heartbeatAtMs := None, fr_claim := None, fr_claimedAtMs := None,
                          fr_stateJson := st\<rparr>
             | _ \<Rightarrow> row\<lparr>fr_stateJson := st\<rparr>) in
      case map_of fs ''waiting'' of None \<Rightarrow> moved | Some v \<Rightarrow> setWaiting moved v)"

definition applyRunEvent :: "State \<Rightarrow> Entry \<Rightarrow> fields \<Rightarrow> State" where
  "applyRunEvent state entry fs =
     (let r = runId entry; put = (\<lambda>row. state\<lparr>foldRuns := (foldRuns state)(r \<mapsto> row)\<rparr>) in
      if eventType entry = ''flows.run.created''
      then (case createdRow fs of None \<Rightarrow> state | Some row \<Rightarrow> put row)
      else if eventType entry = ''flows.run.snapshot''
      then (case snapshotRow fs of None \<Rightarrow> state | Some row \<Rightarrow> put row)
      else case foldRuns state r of
        None \<Rightarrow> state
      | Some row \<Rightarrow>
          if eventType entry = ''flows.run.cancel-requested''
          then (case numberOrNull (map_of fs ''requestedAtMs'') of
                  None \<Rightarrow> state | Some t \<Rightarrow> put (row\<lparr>fr_cancelRequestedAtMs := Some t\<rparr>))
          else if eventType entry = ''flows.run.transitioned'' then put (transitionedRow fs row)
          else state)"

section \<open>Ownership events\<close>

definition consensusRow :: "string \<Rightarrow> OwnerId \<Rightarrow> ms option \<Rightarrow> RunFoldRow \<Rightarrow> RunFoldRow" where
  "consensusRow kind w g row =
     (if kind = ''flows.consensus.claimed'' \<or> kind = ''flows.consensus.stolen''
      then row\<lparr>fr_claim := Some w, fr_claimedAtMs := g\<rparr>
      else if kind = ''flows.consensus.activated''
      then row\<lparr>fr_owner := Some w, fr_heartbeatAtMs := g, fr_claim := None, fr_claimedAtMs := None\<rparr>
      else if kind = ''flows.consensus.released''
      then row\<lparr>fr_owner := (if foldSameOwner (fr_owner row) w then None else fr_owner row),
               fr_heartbeatAtMs := (if foldSameOwner (fr_owner row) w then None else fr_heartbeatAtMs row),
               fr_claim := (if foldSameOwner (fr_claim row) w then None else fr_claim row),
               fr_claimedAtMs := (if foldSameOwner (fr_claim row) w then None else fr_claimedAtMs row)\<rparr>
      else if kind = ''flows.consensus.expired''
      then row\<lparr>fr_claim := (if foldSameOwner (fr_claim row) w then None else fr_claim row),
               fr_claimedAtMs := (if foldSameOwner (fr_claim row) w then None else fr_claimedAtMs row)\<rparr>
      else row)"

definition applyConsensusEvent :: "State \<Rightarrow> Entry \<Rightarrow> fields \<Rightarrow> State" where
  "applyConsensusEvent state entry fs =
     (case (foldRuns state (runId entry), ownerFrom (map_of fs ''owner'')) of
        (Some row, Some w) \<Rightarrow>
          state\<lparr>foldRuns := (foldRuns state)(runId entry \<mapsto>
            consensusRow (eventType entry) w (numberOrNull (map_of fs ''grantedAtMs'')) row)\<rparr>
      | _ \<Rightarrow> state)"

section \<open>Attempt events\<close>

definition putRow :: "string \<Rightarrow> string \<Rightarrow> int \<Rightarrow> fields \<Rightarrow> AttemptFoldRow option" where
  "putRow r d n fs =
     (case (stringOrNull (map_of fs ''state''), numberOrNull (map_of fs ''startedAtMs''),
            jsonColumn fs ''meta'' ''metaJson'') of
        (Some st, Some t, Some m) \<Rightarrow>
          Some \<lparr>fa_runId = r, fa_stepKeyDigest = d, fa_attempt = n, fa_state = st, fa_startedAtMs = t,
                fa_finishedAtMs = numberOrNull (map_of fs ''finishedAtMs''),
                fa_checkpointJson = jsonColumn fs ''checkpoint'' ''checkpointJson'',
                fa_errorJson = jsonColumn fs ''error'' ''errorJson'',
                fa_outcomeJson = jsonColumn fs ''outcome'' ''outcomeJson'',
                fa_metaJson = m\<rparr>
      | _ \<Rightarrow> None)"

definition patchMeta :: "fields \<Rightarrow> string \<Rightarrow> string" where
  "patchMeta fs current = (case patchJson fs ''meta'' ''metaJson'' (Some current) of None \<Rightarrow> current | Some m \<Rightarrow> m)"

definition mutateAttempt :: "string \<Rightarrow> fields \<Rightarrow> AttemptFoldRow \<Rightarrow> AttemptFoldRow" where
  "mutateAttempt kind fs row =
     (if kind = ''flows.attempt.checkpointed''
      then (case jsonColumn fs ''checkpoint'' ''checkpointJson'' of
              None \<Rightarrow> row | Some c \<Rightarrow> row\<lparr>fa_checkpointJson := Some c\<rparr>)
      else if kind = ''flows.attempt.finished''
      then (case (stringOrNull (map_of fs ''state''), numberOrNull (map_of fs ''finishedAtMs'')) of
              (Some st, Some t) \<Rightarrow>
                row\<lparr>fa_state := st, fa_finishedAtMs := Some t,
                    fa_errorJson := patchJson fs ''error'' ''errorJson'' (fa_errorJson row),
                    fa_outcomeJson := patchJson fs ''outcome'' ''outcomeJson'' (fa_outcomeJson row),
                    fa_metaJson := patchMeta fs (fa_metaJson row)\<rparr>
            | _ \<Rightarrow> row)
      else if kind = ''flows.attempt.patched''
      then row\<lparr>fa_checkpointJson := patchJson fs ''checkpoint'' ''checkpointJson'' (fa_checkpointJson row),
               fa_errorJson := patchJson fs ''error'' ''errorJson'' (fa_errorJson row),
               fa_outcomeJson := patchJson fs ''outcome'' ''outcomeJson'' (fa_outcomeJson row),
               fa_metaJson := patchMeta fs (fa_metaJson row)\<rparr>
      else row)"

definition applyAttemptEvent :: "State \<Rightarrow> Entry \<Rightarrow> fields \<Rightarrow> State" where
  "applyAttemptEvent state entry fs =
     (case (stringOrNull (map_of fs ''stepKeyDigest''), numberOrNull (map_of fs ''attempt'')) of
        (Some d, Some n) \<Rightarrow>
          let key = attemptKey (runId entry) d n;
              put = (\<lambda>row. state\<lparr>foldAttempts := (foldAttempts state)(key \<mapsto> row)\<rparr>) in
          if eventType entry = ''flows.attempt.put'' \<or> eventType entry = ''flows.attempt.snapshot''
          then (case putRow (runId entry) d n fs of None \<Rightarrow> state | Some row \<Rightarrow> put row)
          else (case foldAttempts state key of
                  None \<Rightarrow> state
                | Some row \<Rightarrow> put (mutateAttempt (eventType entry) fs row))
      | _ \<Rightarrow> state)"

section \<open>The reducer\<close>

definition reduceSync :: "State \<Rightarrow> Entry \<Rightarrow> State" where
  "reduceSync state entry =
     (case asRecord (payload entry) of
        None \<Rightarrow> state
      | Some fs \<Rightarrow>
          if prefix ''flows.run.'' (eventType entry) then applyRunEvent state entry fs
          else if prefix ''flows.consensus.'' (eventType entry) then applyConsensusEvent state entry fs
          else if prefix ''flows.attempt.'' (eventType entry) then applyAttemptEvent state entry fs
          else state)"

definition foldEntries :: "Entry list \<Rightarrow> State" where
  "foldEntries evs = foldl reduceSync emptyState evs"

definition runReduce :: "(string \<rightharpoonup> RunFoldRow) \<Rightarrow> Entry \<Rightarrow> (string \<rightharpoonup> RunFoldRow)" where
  "runReduce rs entry =
     (case asRecord (payload entry) of
        None \<Rightarrow> rs
      | Some fs \<Rightarrow>
          let state = \<lparr>foldRuns = rs, foldAttempts = Map.empty\<rparr> in
          if prefix ''flows.run.'' (eventType entry) then foldRuns (applyRunEvent state entry fs)
          else if prefix ''flows.consensus.'' (eventType entry) then foldRuns (applyConsensusEvent state entry fs)
          else rs)"

definition attemptReduce :: "(string \<rightharpoonup> AttemptFoldRow) \<Rightarrow> Entry \<Rightarrow> (string \<rightharpoonup> AttemptFoldRow)" where
  "attemptReduce as entry =
     (case asRecord (payload entry) of
        None \<Rightarrow> as
      | Some fs \<Rightarrow>
          if prefix ''flows.attempt.'' (eventType entry)
          then foldAttempts (applyAttemptEvent \<lparr>foldRuns = Map.empty, foldAttempts = as\<rparr> entry fs)
          else as)"

section \<open>Snapshots and rebuild\<close>

definition snapshotOwner :: "string option \<Rightarrow> int option \<Rightarrow> string option \<Rightarrow> json" where
  "snapshotOwner h p n =
     (case (h, p, n) of
        (Some h', Some p', Some n') \<Rightarrow> JObj [(''hostId'', JStr h'), (''pid'', JInt p'), (''nonce'', JStr n')]
      | _ \<Rightarrow> JNull)"

definition runSnapshotFields :: "RunRow \<Rightarrow> fields" where
  "runSnapshotFields row =
     [(''status'', JStr (statusText (r_status row))), (''createdAtMs'', JInt (createdAtMs row)),
      (''startedAtMs'', nullOr JInt (startedAtMs row)), (''finishedAtMs'', nullOr JInt (finishedAtMs row)),
      (''owner'', snapshotOwner (ownerHostId row) (ownerPid row) (ownerNonce row)),
      (''heartbeatAtMs'', nullOr JInt (heartbeatAtMs row)),
      (''claim'', snapshotOwner (claimHostId row) (claimPid row) (claimNonce row)),
      (''claimedAtMs'', nullOr JInt (claimedAtMs row)),
      (''parentRunId'', nullOr JStr (parentRunId row)),
      (''cancelRequestedAtMs'', nullOr JInt (cancelRequestedAtMs row)),
      (''lineageId'', nullOr JStr (lineageId row)),
      (''roundOrdinal'', nullOr JInt (roundOrdinal row)),
      (''waiting'', (case waitingReason row of
          None \<Rightarrow> JNull
        | Some reason \<Rightarrow> JObj [(''reason'', JStr reason), (''wakeAt'', nullOr JInt (waitingWakeAtMs row)),
                              (''token'', nullOr JStr (waitingToken row))])),
      (''stateJson'', JStr (stateJson row))]"

definition attemptSnapshotFields :: "string \<Rightarrow> int \<Rightarrow> AttemptRow \<Rightarrow> fields" where
  "attemptSnapshotFields d n row =
     [(''stepKeyDigest'', JStr d), (''attempt'', JInt n), (''state'', JStr (a_state row)),
      (''startedAtMs'', JInt (a_startedAtMs row)), (''finishedAtMs'', nullOr JInt (a_finishedAtMs row)),
      (''checkpointJson'', nullOr JStr (a_checkpointJson row)), (''errorJson'', nullOr JStr (a_errorJson row)),
      (''outcomeJson'', nullOr JStr (a_outcomeJson row)), (''metaJson'', JStr (a_metaJson row))]"

definition snapshotInput :: "string \<Rightarrow> string \<Rightarrow> fields \<Rightarrow> Input" where
  "snapshotInput r kind fs =
     \<lparr>in_runId = r, in_sourceId = ''flows/run-store/fold/snapshot'', in_sourceSeq = None,
      in_eventType = kind, in_payload = JObj fs, in_meta = Some (lineageMeta r)\<rparr>"

definition emitSnapshot :: "'l Config \<Rightarrow> string \<Rightarrow> string \<Rightarrow> fields \<Rightarrow> ('l, unit) stxn" where
  "emitSnapshot cfg r kind fs = mapT (\<lambda>_. ()) (emitDurable cfg (snapshotInput r kind fs) None)"

fun emitAttempts :: "'l Config \<Rightarrow> string \<Rightarrow> ((string \<times> int) \<times> AttemptRow) list \<Rightarrow> ('l, unit) stxn" where
  "emitAttempts cfg r [] = retT ()"
| "emitAttempts cfg r (((d, n), row) # rest) =
     bindT (emitSnapshot cfg r ''flows.attempt.snapshot'' (attemptSnapshotFields d n row)) (\<lambda>_.
     emitAttempts cfg r rest)"

text \<open>
  \<open>rows\<close> lists the run's attempt rows as \<open>SELECT ... ORDER BY step_key_digest, attempt\<close> returns them:
  every row of the run exactly once, in that order.
\<close>

definition attemptsOf :: "string \<Rightarrow> 'l store \<Rightarrow> ((string \<times> int) \<times> AttemptRow) list \<Rightarrow> bool" where
  "attemptsOf r s rows \<longleftrightarrow> sorted_wrt (\<lambda>a b. fst (fst a) < fst (fst b) \<or> fst (fst a) = fst (fst b) \<and> snd (fst a) < snd (fst b)) rows
     \<and> (\<forall>d n row. attemptRows s (r, d, n) = Some row \<longleftrightarrow> ((d, n), row) \<in> set rows)"

definition snapshot :: "'l Config \<Rightarrow> string \<Rightarrow> ((string \<times> int) \<times> AttemptRow) list \<Rightarrow> ('l, unit) stxn" where
  "snapshot cfg r rows = transact cfg
     (bindT (selectRun r) (\<lambda>rowO. case rowO of
        None \<Rightarrow> retT ()
      | Some row \<Rightarrow>
          bindT (emitSnapshot cfg r ''flows.run.snapshot'' (runSnapshotFields row)) (\<lambda>_.
          emitAttempts cfg r rows)))"

definition rebuildPageSize :: int where
  "rebuildPageSize = 256"

text \<open>Where the replay of a run starts and how many entries it has: a compacted run resumes at its floor.\<close>

definition replayWindow :: "string \<Rightarrow> 'l store \<Rightarrow> Cause + (int \<times> nat)" where
  "replayWindow r s =
     (case readAvailable r rebuildPageSize (-1) s of
        Inr (es, _) \<Rightarrow> Inr (-1, length es)
      | Inl (CJournal e) \<Rightarrow>
          (case (je_code e, je_checkpointSeq e) of
             (Compacted, Some n) \<Rightarrow>
               (case readAvailable r rebuildPageSize (n - 1) s of
                  Inr (es, _) \<Rightarrow> Inr (n - 1, length es)
                | Inl c \<Rightarrow> Inl c)
           | _ \<Rightarrow> Inl (CJournal e))
      | Inl c \<Rightarrow> Inl c)"

definition foldRun :: "int \<Rightarrow> string \<Rightarrow> 'l store \<Rightarrow> State \<Rightarrow> Cause + State" where
  "foldRun batchSize r s state =
     (case replayWindow r s of
        Inl c \<Rightarrow> Inl c
      | Inr (after, n) \<Rightarrow>
          (case readAvailable r batchSize after s of
             Inl c \<Rightarrow> Inl c
           | Inr (es, _) \<Rightarrow>
               Inr \<lparr>foldRuns = foldRuns state ++ foldl runReduce Map.empty (take n es),
                    foldAttempts = foldAttempts state ++ foldl attemptReduce Map.empty (take n es)\<rparr>))"

fun foldRunsFrom :: "int \<Rightarrow> string list \<Rightarrow> 'l store \<Rightarrow> State \<Rightarrow> Cause + State" where
  "foldRunsFrom b [] s state = Inr state"
| "foldRunsFrom b (r # rs) s state =
     (case foldRun b r s state of Inl c \<Rightarrow> Inl c | Inr state' \<Rightarrow> foldRunsFrom b rs s state')"

fun statusOf :: "string \<Rightarrow> RunStatus option" where
  "statusOf t =
     find (\<lambda>st. statusText st = t) [RSpending, RSrunning, RSsuspended, RScompleted, RSfailed, RScancelled]"

definition rowOfFold :: "RunFoldRow \<Rightarrow> RunRow option" where
  "rowOfFold f =
     (case statusOf (fr_status f) of
        None \<Rightarrow> None
      | Some st \<Rightarrow>
          Some \<lparr>r_status = st, createdAtMs = fr_createdAtMs f, startedAtMs = fr_startedAtMs f,
                finishedAtMs = fr_finishedAtMs f,
                ownerHostId = map_option hostId (fr_owner f), ownerPid = map_option pid (fr_owner f),
                ownerNonce = map_option nonce (fr_owner f), heartbeatAtMs = fr_heartbeatAtMs f,
                claimHostId = map_option hostId (fr_claim f), claimPid = map_option pid (fr_claim f),
                claimNonce = map_option nonce (fr_claim f), claimedAtMs = fr_claimedAtMs f,
                parentRunId = fr_parentRunId f, cancelRequestedAtMs = fr_cancelRequestedAtMs f,
                waitingReason = fr_waitingReason f, waitingWakeAtMs = fr_waitingWakeAtMs f,
                waitingToken = fr_waitingToken f, lineageId = fr_lineageId f,
                roundOrdinal = fr_roundOrdinal f, stateJson = fr_stateJson f\<rparr>)"

definition attemptOfFold :: "AttemptFoldRow \<Rightarrow> AttemptRow" where
  "attemptOfFold f =
     \<lparr>a_state = fa_state f, a_startedAtMs = fa_startedAtMs f, a_finishedAtMs = fa_finishedAtMs f,
      a_heartbeatAtMs = None, a_checkpointJson = fa_checkpointJson f, a_errorJson = fa_errorJson f,
      a_outcomeJson = fa_outcomeJson f, a_metaJson = fa_metaJson f\<rparr>"

text \<open>The attempt keys an event table can mention.\<close>

definition attemptKeysOf :: "Entry list \<Rightarrow> attempt_key list" where
  "attemptKeysOf evs =
     concat (map (\<lambda>e. case asRecord (payload e) of
         None \<Rightarrow> []
       | Some fs \<Rightarrow>
           (case (stringOrNull (map_of fs ''stepKeyDigest''), numberOrNull (map_of fs ''attempt'')) of
              (Some d, Some n) \<Rightarrow> [(runId e, d, n)]
            | _ \<Rightarrow> [])) evs)"

definition rebuiltRuns :: "State \<Rightarrow> string \<rightharpoonup> RunRow" where
  "rebuiltRuns state = (\<lambda>r. Option.bind (foldRuns state r) rowOfFold)"

definition rebuiltAttempts :: "State \<Rightarrow> attempt_key \<rightharpoonup> AttemptRow" where
  "rebuiltAttempts state = (\<lambda>(r, d, n). map_option attemptOfFold (foldAttempts state (attemptKey r d n)))"

text \<open>The CHECKs of the inserted rows, and the foreign keys at COMMIT.\<close>

definition rebuiltRunOk :: "State \<Rightarrow> string \<Rightarrow> bool" where
  "rebuiltRunOk state r =
     (case foldRuns state r of
        None \<Rightarrow> True
      | Some f \<Rightarrow>
          (case rowOfFold f of
             None \<Rightarrow> False
           | Some row \<Rightarrow> run_check r row
               \<and> (case parentRunId row of None \<Rightarrow> True | Some p \<Rightarrow> rebuiltRuns state p \<noteq> None)))"

definition rebuiltAttemptOk :: "State \<Rightarrow> attempt_key \<Rightarrow> bool" where
  "rebuiltAttemptOk state k =
     (case rebuiltAttempts state k of
        None \<Rightarrow> True
      | Some row \<Rightarrow> attempt_check k row \<and> rebuiltRuns state (fst k) \<noteq> None)"

definition rebuild :: "int \<Rightarrow> ('l, unit) stxn" where
  "rebuild batchSize =
     bindT runs (\<lambda>runIds. (\<lambda>s.
       case foldRunsFrom batchSize runIds s emptyState of
         Inl c \<Rightarrow> (Inl c, s)
       | Inr state \<Rightarrow>
           if list_all (rebuiltRunOk state) runIds \<and> list_all (rebuiltAttemptOk state) (attemptKeysOf (events s))
           then (Inr (), s\<lparr>runRows := rebuiltRuns state, attemptRows := rebuiltAttempts state\<rparr>)
           else (Inl CConstraint, s)))"

section \<open>Facts about the reducer\<close>

lemma attemptKey_inject: "attemptKey r d n = attemptKey r' d' n' \<longleftrightarrow> r = r' \<and> d = d' \<and> n = n'"
proof -
  have "attemptKey r d n = lengthPrefixed r @ lengthPrefixed d @ show_int n" for r d n
    by (simp add: attemptKey_def lengthPrefixed_def)
  then show ?thesis by (auto dest!: lengthPrefixed_append_inject)
qed

lemma foldSameOwner_iff [simp]: "foldSameOwner l w \<longleftrightarrow> l = Some w"
  by (cases l) (auto simp: foldSameOwner_def OwnerId_eq_iff)

lemma ownerFrom_ownerJson [simp]: "isSafeInteger (pid w) \<Longrightarrow> ownerFrom (Some (ownerJson w)) = Some w"
  by (simp add: ownerFrom_def ownerJson_def)

lemma foldEntries_snoc [simp]: "foldEntries (evs @ [e]) = reduceSync (foldEntries evs) e"
  by (simp add: foldEntries_def)

text \<open>An entry moves nothing of any other run.\<close>

lemma applyRunEvent_other:
  "r \<noteq> runId e \<Longrightarrow> foldRuns (applyRunEvent st e fs) r = foldRuns st r"
  "foldAttempts (applyRunEvent st e fs) = foldAttempts st"
  by (auto simp: applyRunEvent_def Let_def split: option.splits)

lemma applyConsensusEvent_other:
  "r \<noteq> runId e \<Longrightarrow> foldRuns (applyConsensusEvent st e fs) r = foldRuns st r"
  "foldAttempts (applyConsensusEvent st e fs) = foldAttempts st"
  by (auto simp: applyConsensusEvent_def split: option.splits)

lemma applyAttemptEvent_other:
  "foldRuns (applyAttemptEvent st e fs) = foldRuns st"
  "r \<noteq> runId e \<Longrightarrow> foldAttempts (applyAttemptEvent st e fs) (attemptKey r d n) = foldAttempts st (attemptKey r d n)"
  by (auto simp: applyAttemptEvent_def Let_def attemptKey_inject split: option.splits)

text \<open>The projections are the two halves of the reducer.\<close>

lemma runReduce_reduceSync: "runReduce (foldRuns st) e = foldRuns (reduceSync st e)"
proof -
  have run: "foldRuns (applyRunEvent \<lparr>foldRuns = foldRuns st, foldAttempts = a\<rparr> e fs) = foldRuns (applyRunEvent st e fs)" for a fs
    by (auto simp: applyRunEvent_def Let_def split: option.splits)
  have con: "foldRuns (applyConsensusEvent \<lparr>foldRuns = foldRuns st, foldAttempts = a\<rparr> e fs) = foldRuns (applyConsensusEvent st e fs)" for a fs
    by (auto simp: applyConsensusEvent_def split: option.splits)
  show ?thesis
    by (auto simp: runReduce_def reduceSync_def Let_def run con applyAttemptEvent_other split: option.splits)
qed

lemma attemptReduce_reduceSync: "attemptReduce (foldAttempts st) e = foldAttempts (reduceSync st e)"
proof -
  have att: "foldAttempts (applyAttemptEvent \<lparr>foldRuns = a, foldAttempts = foldAttempts st\<rparr> e fs)
      = foldAttempts (applyAttemptEvent st e fs)" for a fs
    by (auto simp: applyAttemptEvent_def Let_def split: option.splits)
  show ?thesis
    by (auto simp: attemptReduce_def reduceSync_def att applyRunEvent_other applyConsensusEvent_other prefix_def
        split: option.splits)
qed

lemma foldl_runReduce: "foldl runReduce (foldRuns st) es = foldRuns (foldl reduceSync st es)"
  by (induction es arbitrary: st) (simp_all add: runReduce_reduceSync)

lemma foldl_attemptReduce: "foldl attemptReduce (foldAttempts st) es = foldAttempts (foldl reduceSync st es)"
  by (induction es arbitrary: st) (simp_all add: attemptReduce_reduceSync)

end
