(* ===== verification/Store_Mirror.thy ===== *)
theory Store_Mirror
  imports Fold
begin

text \<open>
  The tables \<open>flows_runs\<close> and \<open>flows_attempts\<close> mirror the fold of the journal. A row and its folded
  row agree on every column but the heartbeat, which is deliberately not journaled, and, where
  \<open>activate\<close> has dropped a claim without an event, on every column but the claim. Every operation of
  the two stores preserves the relation, whether it succeeds or fails.
\<close>

section \<open>What an appended entry does to the fold\<close>

definition plainOwner :: "Rule list \<Rightarrow> OwnerId \<Rightarrow> bool" where
  "plainOwner rs w \<longleftrightarrow> redactString (hostId w) rs = hostId w \<and> redactString (nonce w) rs = nonce w
     \<and> isSafeInteger (pid w)"

lemma transition_not_verbatim [simplified, simp]: "\<not> isVerbatimEventType (''flows.consensus.'' @ t)"
  by (simp add: isVerbatimEventType_def verbatimNamespaces_def)

lemma run_verbatim [simplified, simp]: "isVerbatimEventType (''flows.run.'' @ t)"
  by (simp add: isVerbatimEventType_def verbatimNamespaces_def)

lemma attempt_verbatim [simplified, simp]: "isVerbatimEventType (''flows.attempt.'' @ t)"
  by (simp add: isVerbatimEventType_def verbatimNamespaces_def)

lemma consensus_keys_plain:
  "\<not> isSensitiveKey ''owner''" "\<not> isSensitiveKey ''grantedAtMs''" "\<not> isSensitiveKey ''hostId''"
  "\<not> isSensitiveKey ''pid''" "\<not> isSensitiveKey ''nonce''"
  by code_simp+

lemma transition_payload:
  assumes "entryOf cfg (transitionInput r k w g) e" "plainOwner (rules cfg) w"
  shows "runId e = r" "eventType e = ''flows.consensus.'' @ transitionText k"
    "payload e = JObj [(''owner'', ownerJson w), (''grantedAtMs'', nullOr JInt g)]"
proof -
  let ?p = "JObj [(''owner'', ownerJson w), (''grantedAtMs'', nullOr JInt g)]"
  have "redact (rules cfg) ?p = ?p"
    using assms(2) by (intro redact_id; cases g)
      (auto simp: ownerJson_def consensus_keys_plain plainOwner_def)
  with assms(1) show "runId e = r" "eventType e = ''flows.consensus.'' @ transitionText k" "payload e = ?p"
    by (auto simp: entryOf_def transitionInput_def scrubbed_def)
qed

lemma reduce_transition:
  assumes "entryOf cfg (transitionInput r k w g) e" "plainOwner (rules cfg) w" "pred_option isSafeInteger g"
    and "foldRuns st r = Some f"
  shows "reduceSync st e
    = st\<lparr>foldRuns := (foldRuns st)(r \<mapsto> consensusRow (''flows.consensus.'' @ transitionText k) w g f)\<rparr>"
  using transition_payload [OF assms(1,2)] assms(2-4)
  by (simp add: reduceSync_def applyConsensusEvent_def plainOwner_def)

lemma run_payload:
  assumes "entryOf cfg (runEventInput r kind fs) e"
  shows "runId e = r" "eventType e = ''flows.run.'' @ kind" "payload e = JObj fs"
  using assms by (simp_all add: entryOf_def runEventInput_def scrubbed_def)

lemma reduce_created:
  assumes "entryOf cfg (runEventInput r ''created'' fs) e" "createdRow fs = Some f"
  shows "reduceSync st e = st\<lparr>foldRuns := (foldRuns st)(r \<mapsto> f)\<rparr>"
  using run_payload [OF assms(1)] assms(2) by (simp add: reduceSync_def applyRunEvent_def)

lemma reduce_cancel:
  assumes "entryOf cfg (runEventInput r ''cancel-requested'' [(''requestedAtMs'', JInt t)]) e"
    and "isSafeInteger t" "foldRuns st r = Some f"
  shows "reduceSync st e = st\<lparr>foldRuns := (foldRuns st)(r \<mapsto> f\<lparr>fr_cancelRequestedAtMs := Some t\<rparr>)\<rparr>"
  using run_payload [OF assms(1)] assms(2,3) by (simp add: reduceSync_def applyRunEvent_def)

lemma reduce_transitioned:
  assumes "entryOf cfg (runEventInput r ''transitioned'' fs) e" "foldRuns st r = Some f"
  shows "reduceSync st e = st\<lparr>foldRuns := (foldRuns st)(r \<mapsto> transitionedRow fs f)\<rparr>"
  using run_payload [OF assms(1)] assms(2) by (simp add: reduceSync_def applyRunEvent_def)

text \<open>An event outside the three namespaces of the fold moves nothing.\<close>

definition foreign :: "string \<Rightarrow> bool" where
  "foreign t \<longleftrightarrow> \<not> prefix ''flows.run.'' t \<and> \<not> prefix ''flows.consensus.'' t \<and> \<not> prefix ''flows.attempt.'' t"

lemma reduce_foreign: "foreign (eventType e) \<Longrightarrow> reduceSync st e = st"
  by (auto simp: foreign_def reduceSync_def split: option.splits)

section \<open>Rows and folded rows\<close>

lemma statusOf_statusText [simp]: "statusOf (statusText st) = Some st"
  by (cases st) simp_all

lemma statusText_inject [simp]: "statusText a = statusText b \<longleftrightarrow> a = b"
  by (metis option.inject statusOf_statusText)

definition claimCols :: "RunRow \<Rightarrow> string option \<times> int option \<times> string option \<times> ms option" where
  "claimCols row = (claimHostId row, claimPid row, claimNonce row, claimedAtMs row)"

text \<open>The claim and the owner of a row are different processes.\<close>

definition claimApart :: "RunRow \<Rightarrow> bool" where
  "claimApart row \<longleftrightarrow> claimHostId row = None
     \<or> (claimHostId row, claimPid row, claimNonce row) \<noteq> (ownerHostId row, ownerPid row, ownerNonce row)"

text \<open>
  \<open>b\<close> asks for equal claims; without it the row may have lost a claim that the fold still has.
\<close>

definition agree :: "bool \<Rightarrow> RunRow \<Rightarrow> RunRow \<Rightarrow> bool" where
  "agree b row rebuilt \<longleftrightarrow>
     clearRowClaim (rebuilt\<lparr>heartbeatAtMs := None\<rparr>) = clearRowClaim (row\<lparr>heartbeatAtMs := None\<rparr>)
     \<and> (claimCols rebuilt = claimCols row \<or> \<not> b \<and> claimColumnsFree row)"

definition mirrors :: "bool \<Rightarrow> string \<Rightarrow> RunRow \<Rightarrow> RunFoldRow \<Rightarrow> bool" where
  "mirrors b r row f \<longleftrightarrow> run_check r row \<and> claimApart row \<and> (r_status row = RSrunning \<longrightarrow> startedAtMs row \<noteq> None)
     \<and> (\<exists>rebuilt. rowOfFold f = Some rebuilt \<and> run_check r rebuilt \<and> agree b row rebuilt)"

lemma RunRow_eq_iff:
  "(a :: RunRow) = b \<longleftrightarrow> r_status a = r_status b \<and> createdAtMs a = createdAtMs b \<and> startedAtMs a = startedAtMs b
     \<and> finishedAtMs a = finishedAtMs b \<and> ownerHostId a = ownerHostId b \<and> ownerPid a = ownerPid b
     \<and> ownerNonce a = ownerNonce b \<and> heartbeatAtMs a = heartbeatAtMs b \<and> claimHostId a = claimHostId b
     \<and> claimPid a = claimPid b \<and> claimNonce a = claimNonce b \<and> claimedAtMs a = claimedAtMs b
     \<and> parentRunId a = parentRunId b \<and> cancelRequestedAtMs a = cancelRequestedAtMs b
     \<and> waitingReason a = waitingReason b \<and> waitingWakeAtMs a = waitingWakeAtMs b
     \<and> waitingToken a = waitingToken b \<and> lineageId a = lineageId b \<and> roundOrdinal a = roundOrdinal b
     \<and> stateJson a = stateJson b"
  by (cases a; cases b) auto

text \<open>A folded row by its columns, and the columns that decide the CHECKs.\<close>

lemma rowOfFold_iff:
  "rowOfFold f = Some row \<longleftrightarrow> fr_status f = statusText (r_status row) \<and> fr_createdAtMs f = createdAtMs row
     \<and> fr_startedAtMs f = startedAtMs row \<and> fr_finishedAtMs f = finishedAtMs row
     \<and> map_option hostId (fr_owner f) = ownerHostId row \<and> map_option pid (fr_owner f) = ownerPid row
     \<and> map_option nonce (fr_owner f) = ownerNonce row \<and> fr_heartbeatAtMs f = heartbeatAtMs row
     \<and> map_option hostId (fr_claim f) = claimHostId row \<and> map_option pid (fr_claim f) = claimPid row
     \<and> map_option nonce (fr_claim f) = claimNonce row \<and> fr_claimedAtMs f = claimedAtMs row
     \<and> fr_parentRunId f = parentRunId row \<and> fr_cancelRequestedAtMs f = cancelRequestedAtMs row
     \<and> fr_waitingReason f = waitingReason row \<and> fr_waitingWakeAtMs f = waitingWakeAtMs row
     \<and> fr_waitingToken f = waitingToken row \<and> fr_lineageId f = lineageId row
     \<and> fr_roundOrdinal f = roundOrdinal row \<and> fr_stateJson f = stateJson row"
proof (cases "statusOf (fr_status f)")
  case None
  then have "fr_status f \<noteq> statusText (r_status row)" by (metis option.distinct(1) statusOf_statusText)
  with None show ?thesis by (simp only: rowOfFold_def option.case simp_thms option.distinct)
next
  case (Some st)
  then have "fr_status f = statusText st" unfolding statusOf.simps find_Some_iff by auto
  with Some show ?thesis by (simp only: rowOfFold_def option.case option.inject RunRow_eq_iff RunRow.simps statusText_inject)
qed

lemmas row_moves = setRowClaim_def clearRowClaim_def setRowOwner_def clearRowOwner_def withState_def settleRow_def

lemmas mirror_defs = mirrors_def agree_def claimCols_def claimApart_def claimColumnsFree_def RunRow_eq_iff rowOfFold_iff row_moves

text \<open>The CHECKs by group: the columns no operation on identities touches, the owner, the claim.\<close>

definition coreCheck :: "string \<Rightarrow> RunRow \<Rightarrow> bool" where
  "coreCheck r row \<longleftrightarrow> r \<noteq> []
     \<and> safeMs (createdAtMs row) \<and> optSafe (startedAtMs row) \<and> optSafe (finishedAtMs row)
     \<and> optNonempty (parentRunId row) \<and> optSafe (cancelRequestedAtMs row) \<and> optNonempty (waitingReason row)
     \<and> optSafe (waitingWakeAtMs row) \<and> optNonempty (waitingToken row) \<and> isJsonString (stateJson row)
     \<and> (waitingReason row = None \<longrightarrow> waitingWakeAtMs row = None \<and> waitingToken row = None)
     \<and> optNonempty (lineageId row) \<and> optSafe (roundOrdinal row)"

definition ownerCheck :: "RunRow \<Rightarrow> bool" where
  "ownerCheck row \<longleftrightarrow> optSafe (heartbeatAtMs row) \<and> (if r_status row = RSrunning
        then identityGroup (ownerHostId row) (ownerPid row) (ownerNonce row) (heartbeatAtMs row)
        else ownerHostId row = None \<and> ownerPid row = None \<and> ownerNonce row = None \<and> heartbeatAtMs row = None)"

definition claimCheck :: "RunRow \<Rightarrow> bool" where
  "claimCheck row \<longleftrightarrow> optSafe (claimedAtMs row) \<and> (claimColumnsFree row
        \<or> identityGroup (claimHostId row) (claimPid row) (claimNonce row) (claimedAtMs row))"

lemma run_check_groups: "run_check r row \<longleftrightarrow> coreCheck r row \<and> ownerCheck row \<and> claimCheck row"
  by (simp add: run_check_def coreCheck_def ownerCheck_def claimCheck_def claimColumnsFree_def) argo

lemma coreCheck_cong:
  "clearRowClaim (t\<lparr>heartbeatAtMs := None\<rparr>) = clearRowClaim (row\<lparr>heartbeatAtMs := None\<rparr>) \<Longrightarrow> coreCheck r t = coreCheck r row"
  by (simp add: coreCheck_def clearRowClaim_def RunRow_eq_iff)

definition validIdentity :: "OwnerId \<Rightarrow> ms \<Rightarrow> bool" where
  "validIdentity w t \<longleftrightarrow> hostId w \<noteq> [] \<and> pid w \<ge> 0 \<and> nonce w \<noteq> [] \<and> safeMs t"

lemma ownerCheck_moves [simp]:
  "ownerCheck (setRowClaim w g row) = ownerCheck row" "ownerCheck (clearRowClaim row) = ownerCheck row"
  "ownerCheck (setRowOwner w t row) = validIdentity w t"
  "ownerCheck (settleRow st t stj row) = (st \<noteq> RSrunning)"
  "ownerCheck (row\<lparr>cancelRequestedAtMs := c\<rparr>) = ownerCheck row"
  by (auto simp: ownerCheck_def row_moves optSafe_def validIdentity_def)

lemma claimCheck_moves [simp]:
  "claimCheck (setRowClaim w g row) = validIdentity w g" "claimCheck (clearRowClaim row)"
  "claimCheck (setRowOwner w t row) = claimCheck row" "claimCheck (settleRow st t stj row)"
  "claimCheck (row\<lparr>cancelRequestedAtMs := c\<rparr>) = claimCheck row"
  "claimCheck (row\<lparr>heartbeatAtMs := h\<rparr>) = claimCheck row"
  by (auto simp: claimCheck_def row_moves optSafe_def claimColumnsFree_def validIdentity_def)

lemma coreCheck_moves [simp]:
  "coreCheck r (setRowClaim w g row) = coreCheck r row" "coreCheck r (clearRowClaim row) = coreCheck r row"
  "coreCheck r (row\<lparr>heartbeatAtMs := h\<rparr>) = coreCheck r row"
  by (simp_all add: coreCheck_def setRowClaim_def clearRowClaim_def)

lemma moves_sel [simp]:
  "r_status (setRowClaim w g row) = r_status row" "startedAtMs (setRowClaim w g row) = startedAtMs row"
  "r_status (clearRowClaim row) = r_status row" "startedAtMs (clearRowClaim row) = startedAtMs row"
  "parentRunId (setRowClaim w g row) = parentRunId row" "parentRunId (clearRowClaim row) = parentRunId row"
  "parentRunId (setRowOwner w g row) = parentRunId row" "parentRunId (settleRow st g stj row) = parentRunId row"
  "r_status (settleRow st g stj row) = st"
  by (simp_all add: row_moves)

lemma mirrorsE:
  assumes "mirrors b r row f"
  obtains t where "run_check r row" "rowOfFold f = Some t" "agree b row t" "ownerCheck t" "claimCheck t"
  using assms by (auto simp: mirrors_def run_check_groups)

lemma mirrorsI:
  assumes "run_check r row" "claimApart row" "r_status row = RSrunning \<Longrightarrow> startedAtMs row \<noteq> None"
    and "rowOfFold f = Some t" "agree b row t" "ownerCheck t" "claimCheck t"
  shows "mirrors b r row f"
  using assms coreCheck_cong [of t row r] by (auto simp: mirrors_def run_check_groups agree_def)

lemmas agree_defs = agree_def claimCols_def claimColumnsFree_def RunRow_eq_iff row_moves

lemma mirrors_claim:
  assumes "mirrors b r row f" "run_check r (setRowClaim w g row)" "\<not> rowOwnedBy row w" "k = TClaimed \<or> k = TStolen"
  shows "mirrors b r (setRowClaim w g row) (consensusRow (''flows.consensus.'' @ transitionText k) w (Some g) f)"
  using assms(1)
proof (rule mirrorsE)
  fix t
  assume t: "run_check r row" "rowOfFold f = Some t" "agree b row t" "ownerCheck t" "claimCheck t"
  show ?thesis
  proof (rule mirrorsI [OF assms(2), where t = "setRowClaim w g t"])
    show "claimApart (setRowClaim w g row)"
      using t(1) assms(3) by (auto simp: claimApart_def setRowClaim_def rowOwnedBy_def run_check_groups ownerCheck_def split: if_splits)
    show "rowOfFold (consensusRow (''flows.consensus.'' @ transitionText k) w (Some g) f) = Some (setRowClaim w g t)"
      using t(2) assms(4) by (auto simp: consensusRow_def rowOfFold_iff setRowClaim_def)
    show "agree b (setRowClaim w g row) (setRowClaim w g t)" using t(3) by (auto simp: agree_defs)
    show "claimCheck (setRowClaim w g t)" using assms(2) by (simp add: run_check_groups)
  qed (use t(4) assms(1) in \<open>auto simp: mirrors_def\<close>)
qed

lemma mirrors_claimApart: "mirrors b r row f \<Longrightarrow> claimApart row"
  by (simp add: mirrors_def)

lemma claimApart_moves [simp]: "claimApart (clearRowClaim row)" "claimApart (settleRow st t stj row)"
  by (simp_all add: claimApart_def row_moves)

text \<open>A claim given back or recovered: the row's claim is the fold's.\<close>

lemma mirrors_unclaim:
  assumes "mirrors b r row f" "rowMatchesClaim row w t" "k = TReleased \<or> k = TExpired"
  shows "mirrors b r (clearRowClaim row) (consensusRow (''flows.consensus.'' @ transitionText k) w g f)"
  using assms(1)
proof (rule mirrorsE)
  fix u
  assume u: "run_check r row" "rowOfFold f = Some u" "agree b row u" "ownerCheck u" "claimCheck u"
  have cl: "claimHostId row = Some (hostId w)" "claimPid row = Some (pid w)" "claimNonce row = Some (nonce w)"
    using assms(2) by (auto simp: rowMatchesClaim_def)
  then have "claimCols u = claimCols row" using u(3) by (auto simp: agree_def claimColumnsFree_def)
  then have fc: "fr_claim f = Some w"
    using u(2) cl by (auto simp: rowOfFold_iff claimCols_def OwnerId_eq_iff)
  have fo: "fr_owner f \<noteq> Some w"
    using mirrors_claimApart [OF assms(1)] u(2,3) cl
    by (auto simp: rowOfFold_iff claimApart_def agree_def clearRowClaim_def RunRow_eq_iff)
  show ?thesis
  proof (rule mirrorsI [where t = "clearRowClaim u"])
    show "rowOfFold (consensusRow (''flows.consensus.'' @ transitionText k) w g f) = Some (clearRowClaim u)"
      using u(2) assms(3) fc fo by (auto simp: consensusRow_def rowOfFold_iff clearRowClaim_def)
    show "agree b (clearRowClaim row) (clearRowClaim u)" using u(3) by (auto simp: agree_defs)
  qed (use u assms(1) in \<open>auto simp: run_check_groups mirrors_def\<close>)
qed

text \<open>A claim dropped without an event stays in the fold.\<close>

lemma mirrors_drop:
  assumes "mirrors False r row f"
  shows "mirrors False r (clearRowClaim row) f"
  using assms
proof (rule mirrorsE)
  fix u
  assume u: "run_check r row" "rowOfFold f = Some u" "agree False row u" "ownerCheck u" "claimCheck u"
  have "agree False (clearRowClaim row) u" using u(3) by (simp add: agree_defs)
  with u assms show ?thesis by (intro mirrorsI [OF _ _ _ u(2)]) (auto simp: run_check_groups mirrors_def)
qed

text \<open>Activation: the ownership event and the transition to \<open>running\<close>.\<close>

lemma transitioned_running:
  assumes "isSafeInteger t"
  shows "transitionedRow (runningFields t) f
    = f\<lparr>fr_status := ''running'', fr_startedAtMs := coalesce (fr_startedAtMs f) (Some t), fr_finishedAtMs := None\<rparr>"
  using assms by (simp add: transitionedRow_def runningFields_def)

lemma safeMs_isSafe: "safeMs t \<Longrightarrow> isSafeInteger t"
  by (simp add: safeMs_def isSafeInteger_def MAX_SAFE_INTEGER_def)

lemma coalesce_Some_neq [simp]: "coalesce a (Some b) \<noteq> None"
  by (cases a) auto

lemma mirrors_own:
  assumes "mirrors b r row f" "run_check r (clearRowClaim (setRowOwner w t row))" "safeMs g"
  shows "mirrors b r (clearRowClaim (setRowOwner w t row))
    (transitionedRow (runningFields t) (consensusRow ''flows.consensus.activated'' w (Some g) f))"
  using assms(1)
proof (rule mirrorsE)
  fix u
  assume u: "run_check r row" "rowOfFold f = Some u" "agree b row u" "ownerCheck u" "claimCheck u"
  have v: "validIdentity w t" using assms(2) by (simp add: run_check_groups)
  then have t: "isSafeInteger t" by (simp add: validIdentity_def safeMs_isSafe)
  show ?thesis
  proof (rule mirrorsI [OF assms(2), where t = "clearRowClaim ((setRowOwner w t u)\<lparr>heartbeatAtMs := Some g\<rparr>)"])
    show "rowOfFold (transitionedRow (runningFields t) (consensusRow ''flows.consensus.activated'' w (Some g) f))
        = Some (clearRowClaim ((setRowOwner w t u)\<lparr>heartbeatAtMs := Some g\<rparr>))"
      using u(2) t by (simp add: transitioned_running consensusRow_def rowOfFold_iff row_moves)
    show "agree b (clearRowClaim (setRowOwner w t row)) (clearRowClaim ((setRowOwner w t u)\<lparr>heartbeatAtMs := Some g\<rparr>))"
      using u(3) by (auto simp: agree_defs)
    show "ownerCheck (clearRowClaim ((setRowOwner w t u)\<lparr>heartbeatAtMs := Some g\<rparr>))"
      using v assms(3) by (simp add: ownerCheck_def row_moves optSafe_def validIdentity_def)
  qed (simp_all add: setRowOwner_def)
qed

lemma mirrors_cancel:
  assumes "mirrors b r row f" "run_check r (row\<lparr>cancelRequestedAtMs := Some t\<rparr>)"
  shows "mirrors b r (row\<lparr>cancelRequestedAtMs := Some t\<rparr>) (f\<lparr>fr_cancelRequestedAtMs := Some t\<rparr>)"
  using assms(1)
proof (rule mirrorsE)
  fix u
  assume u: "run_check r row" "rowOfFold f = Some u" "agree b row u" "ownerCheck u" "claimCheck u"
  show ?thesis
    by (rule mirrorsI [OF assms(2), where t = "u\<lparr>cancelRequestedAtMs := Some t\<rparr>"])
      (use u assms(1) in \<open>auto simp: mirrors_def claimApart_def agree_defs rowOfFold_iff\<close>)
qed

lemma mirrors_heartbeat:
  assumes "mirrors b r row f" "run_check r (row\<lparr>heartbeatAtMs := h\<rparr>)"
  shows "mirrors b r (row\<lparr>heartbeatAtMs := h\<rparr>) f"
  using assms by (auto simp: mirrors_def claimApart_def agree_defs)

text \<open>A transition of a running run: within \<open>running\<close>, or out of it.\<close>

definition movedRow :: "RunStatus \<Rightarrow> ms \<Rightarrow> string option \<Rightarrow> RunFoldRow \<Rightarrow> RunFoldRow" where
  "movedRow st t stj f =
     (if st = RSrunning
      then f\<lparr>fr_status := ''running'', fr_startedAtMs := coalesce (fr_startedAtMs f) (Some t),
             fr_finishedAtMs := None, fr_stateJson := (case stj of None \<Rightarrow> fr_stateJson f | Some x \<Rightarrow> x)\<rparr>
      else f\<lparr>fr_status := statusText st, fr_finishedAtMs := (if terminal st then Some t else None),
             fr_owner := None, fr_heartbeatAtMs := None, fr_claim := None, fr_claimedAtMs := None,
             fr_stateJson := (case stj of None \<Rightarrow> fr_stateJson f | Some x \<Rightarrow> x)\<rparr>)"

lemma statusText_running [simp]: "statusText st = ''running'' \<longleftrightarrow> st = RSrunning"
  by (cases st) auto

lemma statusText_terminal [simp]: "statusText st \<in> set terminalStatuses \<longleftrightarrow> terminal st"
  by (cases st) (auto simp: terminalStatuses_def)

lemma transitioned_fields:
  assumes "isSafeInteger t"
  shows "transitionedRow (transitionFields st t stj) f = movedRow st t stj f"
  using assms by (cases stj)
    (auto simp: transitionedRow_def transitionFields_def movedRow_def simp del: set_simps)

lemma mirrors_settle:
  assumes "mirrors b r row f" "run_check r (settleRow st t stj row)" "st \<noteq> RSrunning" "isSafeInteger t"
  shows "mirrors b r (settleRow st t stj row) (transitionedRow (transitionFields st t stj) f)"
  using assms(1)
proof (rule mirrorsE)
  fix u
  assume u: "run_check r row" "rowOfFold f = Some u" "agree b row u" "ownerCheck u" "claimCheck u"
  show ?thesis
  proof (rule mirrorsI [OF assms(2), where t = "settleRow st t stj u"])
    show "rowOfFold (transitionedRow (transitionFields st t stj) f) = Some (settleRow st t stj u)"
      using u(2) assms(3,4)
      by (simp add: transitioned_fields movedRow_def rowOfFold_iff row_moves split: option.splits)
    show "agree b (settleRow st t stj row) (settleRow st t stj u)"
      using u(3) by (simp add: agree_defs split: option.splits)
  qed (use assms(3) in simp_all)
qed

text \<open>Releasing a lease nobody's folded row names changes no folded row.\<close>

lemma consensusRow_released_none:
  "fr_owner f = None \<Longrightarrow> fr_claim f = None \<Longrightarrow> consensusRow ''flows.consensus.released'' w g f = f"
  by (simp add: consensusRow_def)

lemma transitioned_settled:
  assumes "st \<noteq> RSrunning" "isSafeInteger t"
  shows "fr_owner (transitionedRow (transitionFields st t stj) f) = None \<and> fr_claim (transitionedRow (transitionFields st t stj) f) = None"
  using assms by (simp add: transitioned_fields movedRow_def)

lemma mirrors_running:
  assumes "mirrors b r row f" "r_status row = RSrunning" "isSafeInteger t"
    and "run_check r (withState stj (row\<lparr>r_status := RSrunning, finishedAtMs := None\<rparr>))"
  shows "mirrors b r (withState stj (row\<lparr>r_status := RSrunning, finishedAtMs := None\<rparr>))
    (transitionedRow (transitionFields RSrunning t stj) f)"
  using assms(1)
proof (rule mirrorsE)
  fix u
  assume u: "run_check r row" "rowOfFold f = Some u" "agree b row u" "ownerCheck u" "claimCheck u"
  let ?m = "\<lambda>row. withState stj (row\<lparr>r_status := RSrunning, finishedAtMs := None\<rparr>)"
  from assms(1,2) obtain t0 where t0: "startedAtMs row = Some t0" by (auto simp: mirrors_def)
  have st: "r_status u = RSrunning" "startedAtMs u = startedAtMs row"
    using u(3) assms(2) by (simp_all add: agree_def clearRowClaim_def RunRow_eq_iff)
  show ?thesis
  proof (rule mirrorsI [OF assms(4), where t = "?m u"])
    show "rowOfFold (transitionedRow (transitionFields RSrunning t stj) f) = Some (?m u)"
      using u(2) assms(3) st t0
      by (simp add: transitioned_fields movedRow_def rowOfFold_iff row_moves split: option.splits)
    show "agree b (?m row) (?m u)" using u(3) by (simp add: agree_defs split: option.splits)
    show "ownerCheck (?m u)" "claimCheck (?m u)" using u(4,5) st
      by (simp_all add: ownerCheck_def claimCheck_def claimColumnsFree_def withState_def)
    show "claimApart (?m row)" using mirrors_claimApart [OF assms(1)] by (simp add: claimApart_def withState_def)
  qed (simp add: t0 withState_def)
qed

lemma mirrors_created:
  assumes "run_check r (pendingRow st opts now)"
  shows "\<exists>f. createdRow (createdFields st opts now) = Some f \<and> mirrors b r (pendingRow st opts now) f"
proof -
  have safe: "isSafeInteger now" "pred_option isSafeInteger (co_roundOrdinal opts)"
    using assms by (auto simp: run_check_groups coreCheck_def pendingRow_def optSafe_def safeMs_isSafe split: option.splits)
  let ?f = "\<lparr>fr_status = ''pending'', fr_createdAtMs = now, fr_startedAtMs = None, fr_finishedAtMs = None,
      fr_owner = None, fr_heartbeatAtMs = None, fr_claim = None, fr_claimedAtMs = None,
      fr_parentRunId = co_parentRunId opts, fr_cancelRequestedAtMs = None, fr_lineageId = co_lineageId opts,
      fr_roundOrdinal = co_roundOrdinal opts, fr_waitingReason = None, fr_waitingWakeAtMs = None,
      fr_waitingToken = None, fr_stateJson = st\<rparr>"
  have "createdRow (createdFields st opts now) = Some ?f"
    using safe by (simp add: createdRow_def createdFields_def)
  moreover have "rowOfFold ?f = Some (pendingRow st opts now)" by (simp add: rowOfFold_iff pendingRow_def)
  then have "mirrors b r (pendingRow st opts now) ?f"
    using assms by (auto simp: mirrors_def agree_def claimApart_def pendingRow_def)
  ultimately show ?thesis by blast
qed

section \<open>The mirror\<close>

definition attMirrors :: "attempt_key \<Rightarrow> AttemptRow \<Rightarrow> AttemptFoldRow \<Rightarrow> bool" where
  "attMirrors k row f \<longleftrightarrow> attempt_check k row \<and> attemptOfFold f = row\<lparr>a_heartbeatAtMs := None\<rparr>"

definition mirrored :: "(Entry list \<Rightarrow> State) \<Rightarrow> bool \<Rightarrow> 'l store \<Rightarrow> bool" where
  "mirrored F b s \<longleftrightarrow> evs_ok (events s)
     \<and> (\<forall>r. rel_option (mirrors b r) (runRows s r) (foldRuns (F (events s)) r))
     \<and> (\<forall>r d n. rel_option (attMirrors (r, d, n)) (attemptRows s (r, d, n)) (foldAttempts (F (events s)) (attemptKey r d n)))
     \<and> (\<forall>r row p. runRows s r = Some row \<longrightarrow> parentRunId row = Some p \<longrightarrow> runRows s p \<noteq> None)
     \<and> (\<forall>r d n. attemptRows s (r, d, n) \<noteq> None \<longrightarrow> runRows s r \<noteq> None)"

text \<open>One run's row and its folded row move together.\<close>

lemma mirrored_move:
  assumes "mirrored F b s" "evs_ok (events s')" "runRows s' = (runRows s)(r \<mapsto> row')"
    and "foldRuns (F (events s')) = (foldRuns (F (events s)))(r \<mapsto> f')"
    and "foldAttempts (F (events s')) = foldAttempts (F (events s))" "attemptRows s' = attemptRows s"
    and "mirrors b r row' f'"
    and "\<forall>p. parentRunId row' = Some p \<longrightarrow> p = r \<or> runRows s p \<noteq> None"
  shows "mirrored F b s'"
  using assms by (simp add: mirrored_def) blast

lemma mirrored_same:
  assumes "mirrored F b s" "evs_ok (events s')" "runRows s' = runRows s" "F (events s') = F (events s)"
    "attemptRows s' = attemptRows s"
  shows "mirrored F b s'"
  using assms by (simp add: mirrored_def)

lemma mirrored_runE:
  assumes "mirrored F b s" "runRows s r = Some row"
  obtains f where "foldRuns (F (events s)) r = Some f" "mirrors b r row f"
    "\<And>p. parentRunId row = Some p \<Longrightarrow> runRows s p \<noteq> None"
proof -
  from assms(1) have "rel_option (mirrors b r) (runRows s r) (foldRuns (F (events s)) r)" by (simp add: mirrored_def)
  with assms that show thesis by (cases "foldRuns (F (events s)) r") (auto simp: mirrored_def)
qed

lemma mirrored_noneD: "mirrored F b s \<Longrightarrow> runRows s r = None \<Longrightarrow> foldRuns (F (events s)) r = None"
  by (metis (no_types, lifting) mirrored_def option.rel_distinct(1) option.exhaust)

lemma frame_store:
  fixes s s' :: "'l store"
  assumes "frame s s'"
  shows "runRows s' = runRows s" "attemptRows s' = attemptRows s"
  using assms by (cases s; cases s'; simp add: frame_def)+

lemma rollback_store [simp]:
  fixes s s1 :: "'l store"
  shows "runRows (rollback cfg s s1) = runRows s" "attemptRows (rollback cfg s s1) = attemptRows s"
    "events (rollback cfg s s1) = events s" "clock (rollback cfg s s1) = clock s1"
    "leases (rollback cfg s s1) = c_rollback (consensus cfg) (leases s) (leases s1)"
  by (cases s; cases s1; simp add: rollback_def)+

section \<open>Statements of a transaction\<close>

text \<open>New entries follow the old ones, and none of them is a run snapshot.\<close>

definition quiet :: "Entry list \<Rightarrow> Entry list \<Rightarrow> bool" where
  "quiet evs evs' \<longleftrightarrow> (\<exists>new. evs' = evs @ new \<and> (\<forall>e \<in> set new. eventType e \<noteq> ''flows.run.snapshot''))"

lemma quiet_refl [simp]: "quiet evs evs"
  by (simp add: quiet_def)

lemma quiet_trans: "quiet a b \<Longrightarrow> quiet b c \<Longrightarrow> quiet a c"
  by (fastforce simp: quiet_def)

lemma quiet_prefix: "quiet a b \<Longrightarrow> prefix c a \<Longrightarrow> prefix c b"
  by (auto simp: quiet_def intro: prefix_prefix)

definition clock_ok :: "('l, 'z) journal_db_scheme \<Rightarrow> bool" where
  "clock_ok s \<longleftrightarrow> (\<forall>n. safeMs (clock s n))"

lemma updateRun_Inr:
  assumes "updateRun r p f s = (Inr ch, s')"
  shows "(ch \<longrightarrow> (\<exists>row. runRows s r = Some row \<and> p row \<and> run_check r (f row)
        \<and> (\<forall>q. parentRunId (f row) = Some q \<longrightarrow> q = r \<or> runRows s q \<noteq> None)
        \<and> s' = s\<lparr>runRows := (runRows s)(r \<mapsto> f row)\<rparr>))
    \<and> (\<not> ch \<longrightarrow> s' = s \<and> (\<forall>row. runRows s r = Some row \<longrightarrow> \<not> p row))"
  using assms by (auto simp: updateRun_def bindT_Inr putRun_def split: option.splits if_splits)

lemma updateRun_Inl: "updateRun r p f s = (Inl c, s') \<Longrightarrow> s' = s"
  by (auto simp: updateRun_def bindT_def putRun_def retT_def split: option.splits if_splits prod.splits sum.splits)

lemma updateRun_miss: "\<forall>row. runRows s r = Some row \<longrightarrow> \<not> p row \<Longrightarrow> updateRun r p f s = (Inr False, s)"
  by (auto simp: updateRun_def split: option.splits)

lemma updateRun_always:
  assumes "updateRun r (\<lambda>_. True) f s = (Inr ch, s')" "runRows s r = Some row"
  shows "run_check r (f row)" "s' = s\<lparr>runRows := (runRows s)(r \<mapsto> f row)\<rparr>"
  using updateRun_Inr [OF assms(1)] assms(2) by auto

lemma consensusT_Inr:
  "consensusT m s = (Inr a, s') \<longleftrightarrow> (\<exists>l. m (leases s) = (Inr a, l) \<and> s' = s\<lparr>leases := l\<rparr>)"
  by (auto simp: consensusT_def split: prod.splits sum.splits)

lemma consensusT_Inl:
  "consensusT m s = (Inl c, s') \<longleftrightarrow> (\<exists>e l. m (leases s) = (Inl e, l) \<and> c = CConsensus e \<and> s' = s\<lparr>leases := l\<rparr>)"
  by (auto simp: consensusT_def split: prod.splits sum.splits)

lemma bindT_Inl:
  "bindT m f s = (Inl c, s') \<longleftrightarrow> m s = (Inl c, s') \<or> (\<exists>a s1. m s = (Inr a, s1) \<and> f a s1 = (Inl c, s'))"
  by (auto simp: bindT_def split: prod.splits sum.splits)

text \<open>
  Any way \<open>F\<close> of folding the event table that folds a new entry with the reducer, from the table
  \<open>base\<close> on: the fold of the whole table is one, the fold from a snapshot is another.
\<close>

locale store_fold = journal_service S view inv cfg
  for S :: "'l Service" and view :: "'l \<Rightarrow> string \<Rightarrow> LocalLease" and inv :: "'l \<Rightarrow> bool" and cfg :: "'l Config" +
  fixes F :: "Entry list \<Rightarrow> State" and base :: "Entry list"
  assumes F_snoc: "prefix base evs \<Longrightarrow> F (evs @ [e]) = reduceSync (F evs) e"

context journal_service
begin

text \<open>Statements keep the strategy's invariant and the clock, and append no snapshot, even where they fail.\<close>

definition keeps :: "('l, 'a) stxn \<Rightarrow> bool" where
  "keeps m \<longleftrightarrow> (\<forall>s x s'. m s = (x, s') \<longrightarrow> inv (leases s) \<longrightarrow>
     inv (leases s') \<and> clock s' = clock s \<and> checkpoints s' = checkpoints s \<and> quiet (events s) (events s'))"

lemma keeps_retT [intro!]: "keeps (retT a)"
  by (simp add: keeps_def)

lemma keeps_failT [intro!]: "keeps (failT e)"
  by (simp add: keeps_def)

lemma keeps_bindT [intro!]:
  assumes "keeps m" "\<And>a. keeps (f a)"
  shows "keeps (bindT m f)"
  unfolding keeps_def
proof (intro allI impI)
  fix s x s'
  assume run: "bindT m f s = (x, s')" and i: "inv (leases s)"
  show "inv (leases s') \<and> clock s' = clock s \<and> checkpoints s' = checkpoints s \<and> quiet (events s) (events s')"
  proof (cases "m s")
    case (Pair y s1)
    with assms(1) i have 1: "inv (leases s1)" "clock s1 = clock s" "checkpoints s1 = checkpoints s" "quiet (events s) (events s1)" by (auto simp: keeps_def)
    show ?thesis
    proof (cases y)
      case (Inl c)
      with Pair run 1 show ?thesis by (auto simp: bindT_def)
    next
      case (Inr a)
      with Pair run have "f a s1 = (x, s')" by (simp add: bindT_def)
      with assms(2) 1 show ?thesis unfolding keeps_def by (metis quiet_trans)
    qed
  qed
qed

lemma keeps_mapT [intro!]: "keeps m \<Longrightarrow> keeps (mapT f m)"
  by (auto simp: mapT_def)

lemma keeps_getT [intro!]: "keeps (getT g)"
  by (simp add: keeps_def)

lemma keeps_selectRun [intro!]: "keeps (selectRun r)"
  by (auto simp: selectRun_def)

lemma keeps_updateRun [intro!]: "keeps (updateRun r p f)"
  unfolding keeps_def
proof (intro allI impI)
  fix s :: "'l store" and x s'
  assume "updateRun r p f s = (x, s')" "inv (leases s)"
  then show "inv (leases s') \<and> clock s' = clock s \<and> checkpoints s' = checkpoints s \<and> quiet (events s) (events s')"
    by (cases x) (auto dest: updateRun_Inl updateRun_Inr)
qed

lemma keeps_insertRun [intro!]: "keeps (insertRun r row)"
  by (auto simp: keeps_def insertRun_def putRun_def split: if_splits)

lemma emit_events:
  fixes s :: "'l store"
  assumes "inv (leases s)" "emitDurable cfg input owner s = (x, s')"
  shows "frame s s' \<and> (\<exists>new. events s' = events s @ new \<and> (\<forall>e \<in> set new. eventType e = in_eventType input))"
proof (cases x)
  case (Inl c)
  with assms emit_Inl [OF assms(1), of input owner c s'] show ?thesis by simp
next
  case (Inr rc)
  with assms have "emitDurable cfg input owner s = (Inr rc, s')" by simp
  from emit_Inr [OF assms(1) this] show ?thesis by cases (auto simp: entryOf_def)
qed

lemma keeps_emit:
  assumes "in_eventType input \<noteq> ''flows.run.snapshot''"
  shows "keeps (emitDurable cfg input owner)"
  unfolding keeps_def
proof (intro allI impI)
  fix s :: "'l store" and x s'
  assume "emitDurable cfg input owner s = (x, s')" "inv (leases s)"
  with emit_events [of s input owner x s'] assms
  show "inv (leases s') \<and> clock s' = clock s \<and> checkpoints s' = checkpoints s \<and> quiet (events s) (events s')" by (auto simp: quiet_def frame_def)
qed

lemma keeps_records [intro!]:
  "keeps (recordTransition cfg r k w g)" "kind \<noteq> ''snapshot'' \<Longrightarrow> keeps (recordRunEvent cfg r kind fs owner)"
  "keeps (recordAttemptEvent cfg r w kind fs)"
  unfolding recordTransition_def recordRunEvent_def recordAttemptEvent_def
  by (intro keeps_mapT keeps_emit; simp add: transitionInput_def runEventInput_def attemptInput_def)+

text \<open>Every operation of the strategy, by the command that stands for it.\<close>

lemma keeps_call:
  assumes "\<And>l x l'. m l = (x, l') \<Longrightarrow> \<exists>y. call S tbl c l = (y, l')"
  shows "inv l \<Longrightarrow> m l = (x, l') \<Longrightarrow> inv l'"
proof -
  assume i: "inv l" and "m l = (x, l')"
  with assms obtain y where "call S tbl c l = (y, l')" by blast
  with i show "inv l'" by (cases y) (auto dest: call_failed call_inv)
qed

lemma mapT_state: "m l = (x, l') \<Longrightarrow> \<exists>y. mapT f m l = (y, l')"
  by (cases x) (auto intro: exI [where x = "Inl _"] simp del: mapT_Inl mapT_Inr simp: mapT_def bindT_def retT_def)

lemma strategy_inv:
  assumes "inv l"
  shows "c_claim S r w t l = (xc, l') \<Longrightarrow> inv l'"
    "c_activate S r w g t l = (xa, l') \<Longrightarrow> inv l'"
    "c_heartbeat S r w t l = (xh, l') \<Longrightarrow> inv l'"
    "c_release S r w l = (xu, l') \<Longrightarrow> inv l'"
    "c_steal S tbl r w t ev l = (xc, l') \<Longrightarrow> inv l'"
    "c_recover S tbl r w g obs t ev l = (xr, l') \<Longrightarrow> inv l'"
    "c_guard S r w l = (xu, l') \<Longrightarrow> inv l'"
  using keeps_call [OF _ assms, of "c_claim S r w t" None "CmdClaim r w t" xc l']
    keeps_call [OF _ assms, of "c_activate S r w g t" None "CmdActivate r w g t" xa l']
    keeps_call [OF _ assms, of "c_heartbeat S r w t" None "CmdHeartbeat r w t" xh l']
    keeps_call [OF _ assms, of "c_release S r w" None "CmdRelease r w" xu l']
    keeps_call [OF _ assms, of "c_steal S tbl r w t ev" tbl "CmdSteal r w t ev" xc l']
    keeps_call [OF _ assms, of "c_recover S tbl r w g obs t ev" tbl "CmdRecover r w g obs t ev" xr l']
    keeps_call [OF _ assms, of "c_guard S r w" None "CmdGuard r w" xu l']
  by (simp_all add: mapT_state)

lemma keeps_strategy [intro!]:
  "keeps (claimT cfg r w t)" "keeps (activateT cfg r w g t)" "keeps (releaseT cfg r w)"
  "keeps (heartbeatT cfg r w t)" "keeps (stealT cfg r w t ev)" "keeps (recoverT cfg r w g obs t ev)"
  "keeps (heldT cfg r w)"
  unfolding keeps_def stealT_def recoverT_def heldT_def consensusT_def
  by (auto dest: strategy_inv split: prod.splits sum.splits if_splits)

lemmas keeps_strategy_sel [intro!] = keeps_strategy(1-4) [unfolded cfg_consensus]

text \<open>What a rollback needs of a failed body.\<close>

definition steady :: "('l, 'a) stxn \<Rightarrow> bool" where
  "steady m \<longleftrightarrow> (\<forall>s x s'. m s = (x, s') \<longrightarrow> inv (leases s) \<longrightarrow> inv (leases s') \<and> clock s' = clock s)"

lemma keeps_steady: "keeps m \<Longrightarrow> steady m"
  by (simp add: keeps_def steady_def)

lemma keepsD:
  "keeps m \<Longrightarrow> m s = (x, s') \<Longrightarrow> inv (leases s) \<Longrightarrow> checkpoints s' = checkpoints s \<and> quiet (events s) (events s')"
  by (simp add: keeps_def)

text \<open>A transaction that moved nothing but rows and leases, and appended entries other than run snapshots.\<close>

definition extends :: "'l store \<Rightarrow> 'l store \<Rightarrow> bool" where
  "extends s s' \<longleftrightarrow> quiet (events s) (events s') \<and> checkpoints s' = checkpoints s"

lemma extends_refl [simp]: "extends s s"
  by (simp add: extends_def)

lemma transact_extends:
  assumes "inv (leases s)" "keeps body" "transact cfg body s = (x, s')"
  shows "extends s s'"
proof (cases x)
  case (Inl c)
  with assms(3) have "transact cfg body s = (Inl c, s')" by simp
  then show ?thesis by (rule transact_Inl) (simp add: extends_def)
next
  case (Inr a)
  with assms(3) have "transact cfg body s = (Inr a, s')" by simp
  then obtain s1 where "body (s\<lparr>settlements := []\<rparr>) = (Inr a, s1)" "frame s1 s'" "events s' = events s1" by (rule transact_Inr)
  with keepsD [OF assms(2), of "s\<lparr>settlements := []\<rparr>"] assms(1) show ?thesis by (auto simp: extends_def frame_def)
qed

lemma writeThrough_extends:
  assumes "inv (leases s)" "keeps body" "writeThrough cfg m body s = (x, s')"
  shows "extends s s'"
proof -
  obtain y s1 where t: "transact cfg body s = (y, s1)" by fastforce
  with assms(3) have "s' = s1" by (auto simp: writeThrough_def split: sum.splits)
  with transact_extends [OF assms(1,2) t] show ?thesis by simp
qed

lemma writeRun_extends:
  assumes "inv (leases s)" "keeps body" "writeRun cfg m body s = (x, s')"
  shows "extends s s'"
proof -
  obtain y s1 where b: "body s = (y, s1)" by fastforce
  have "checkpoints (rollback cfg s s1) = checkpoints s" by (cases s; cases s1; simp add: rollback_def)
  with assms(1,3) b keepsD [OF assms(2) b] show ?thesis by (cases y) (auto simp: writeRun_def extends_def)
qed

lemma withClock_extends:
  assumes "withClock f s = (x, s')"
    and "\<And>now. f now (s\<lparr>tick := Suc (tick s)\<rparr>) = (x, s') \<Longrightarrow> extends (s\<lparr>tick := Suc (tick s)\<rparr>) s'"
  shows "extends s s'"
  using assms(2) [of "clock s (tick s)"] assms(1) by (simp add: withClock_def extends_def)

end

context store_fold
begin

text \<open>What holds of a store between transactions, whatever its strategy.\<close>

definition store_ok :: "bool \<Rightarrow> 'l store \<Rightarrow> bool" where
  "store_ok b s \<longleftrightarrow> inv (leases s) \<and> clock_ok s \<and> prefix base (events s) \<and> mirrored F b s"

text \<open>A transaction whose body preserves the store where it succeeds preserves it where it fails, too.\<close>

lemma transact_Inr_ok:
  assumes "store_ok b s" "transact cfg body s = (Inr a, s')"
    and "\<And>s0 s1. store_ok b s0 \<Longrightarrow> body s0 = (Inr a, s1) \<Longrightarrow> store_ok b s1"
  shows "store_ok b s'"
proof -
  let ?s0 = "s\<lparr>settlements := []\<rparr>"
  have s0: "store_ok b ?s0" using assms(1) by (simp add: store_ok_def mirrored_def clock_ok_def)
  from assms(2) obtain s1 where s1: "body ?s0 = (Inr a, s1)" "frame s1 s'" "events s' = events s1" by (rule transact_Inr)
  from assms(3) [OF s0 s1(1)] s1(2,3) frame_store [OF s1(2)] show ?thesis
    by (simp add: store_ok_def mirrored_def clock_ok_def frame_def)
qed

lemma transact_Inl_ok:
  assumes "store_ok b s" "steady body" "transact cfg body s = (Inl c, s')"
  shows "store_ok b s'"
proof -
  let ?s0 = "s\<lparr>settlements := []\<rparr>"
  from assms(3) obtain c' s1 where s1: "body ?s0 = (Inl c', s1)" "events s' = events s" "journal_db.more s' = journal_db.more s"
    "leases s' = c_rollback (consensus cfg) (leases s) (leases s1)" "clock s' = clock s1"
    by (rule transact_Inl)
  have k: "inv (leases s1)" "clock s1 = clock s" using assms(1,2) s1(1) by (auto simp: steady_def store_ok_def)
  have "runRows s' = runRows s" "attemptRows s' = attemptRows s" using s1(3) by (cases s; cases s'; simp)+
  with assms(1) s1 k show ?thesis by (simp add: store_ok_def mirrored_def clock_ok_def rollback_inv)
qed

lemma transact_ok:
  assumes "store_ok b s" "steady body" "transact cfg body s = (x, s')"
    and "\<And>s0 a s1. store_ok b s0 \<Longrightarrow> body s0 = (Inr a, s1) \<Longrightarrow> store_ok b s1"
  shows "store_ok b s'"
  using assms(3) by (cases x) (auto intro: transact_Inl_ok [OF assms(1,2)] transact_Inr_ok [OF assms(1) _ assms(4)])

lemma writeThrough_ok:
  assumes "store_ok b s" "keeps body" "writeThrough cfg m body s = (x, s')"
    and "\<And>s0 a s1. store_ok b s0 \<Longrightarrow> body s0 = (Inr a, s1) \<Longrightarrow> store_ok b s1"
  shows "store_ok b s'"
proof -
  obtain y s1 where "transact cfg body s = (y, s1)" by fastforce
  with assms(3) have "s' = s1" by (auto simp: writeThrough_def split: sum.splits)
  with transact_ok [OF assms(1) keeps_steady [OF assms(2)] \<open>transact cfg body s = (y, s1)\<close> assms(4)] show ?thesis by simp
qed

lemma withClock_ok:
  assumes "store_ok b s" "withClock f s = (x, s')"
    and "\<And>s0 now. store_ok b s0 \<Longrightarrow> isSafeInteger now \<Longrightarrow> f now s0 = (x, s') \<Longrightarrow> store_ok b s'"
  shows "store_ok b s'"
  using assms(1,2)
  by (intro assms(3) [of "s\<lparr>tick := Suc (tick s)\<rparr>" "clock s (tick s)"])
    (auto simp: store_ok_def mirrored_def clock_ok_def withClock_def safeMs_isSafe)

text \<open>Inside a transaction that moves one run: the row and the folded row so far, against the start.\<close>

definition moved :: "string \<Rightarrow> RunRow \<Rightarrow> RunFoldRow \<Rightarrow> 'l store \<Rightarrow> 'l store \<Rightarrow> bool" where
  "moved r row f s s1 \<longleftrightarrow> inv (leases s1) \<and> clock s1 = clock s \<and> evs_ok (events s1) \<and> prefix base (events s1)
     \<and> runRows s1 = (runRows s)(r \<mapsto> row) \<and> attemptRows s1 = attemptRows s
     \<and> foldRuns (F (events s1)) = (foldRuns (F (events s)))(r \<mapsto> f) \<and> foldAttempts (F (events s1)) = foldAttempts (F (events s))"

lemma moved_start:
  assumes "store_ok b s" "runRows s r = Some row" "inv l"
    and "updateRun r p m (s\<lparr>leases := l\<rparr>) = (Inr True, s1)"
  obtains f where "mirrors b r row f" "run_check r (m row)" "p row" "moved r (m row) f s s1"
proof -
  from assms(1) have ok: "mirrored F b s" by (simp add: store_ok_def)
  obtain f where f: "foldRuns (F (events s)) r = Some f" "mirrors b r row f"
    by (rule mirrored_runE [OF ok assms(2)])
  have "s1 = (s\<lparr>leases := l\<rparr>)\<lparr>runRows := (runRows s)(r \<mapsto> m row)\<rparr>" "run_check r (m row)" "p row"
    using updateRun_Inr [OF assms(4)] assms(2) by auto
  with f assms ok show thesis by (intro that [of f]) (auto simp: moved_def mirrored_def store_ok_def)
qed

lemma moved_end:
  assumes "store_ok b s" "runRows s r = Some row" "moved r row' f' s s1" "mirrors b r row' f'"
    and "parentRunId row' = parentRunId row"
  shows "store_ok b s1"
proof -
  from assms(1) have ok: "mirrored F b s" by (simp add: store_ok_def)
  from ok assms(2) have "\<forall>p. parentRunId row' = Some p \<longrightarrow> p = r \<or> runRows s p \<noteq> None"
    unfolding assms(5) by (auto simp: mirrored_def)
  with assms ok have "mirrored F b s1" by (intro mirrored_move [OF ok, of s1 r row' f']) (auto simp: moved_def)
  with assms show ?thesis by (simp add: store_ok_def moved_def clock_ok_def)
qed

lemma moved_leases: "moved r row f s s1 \<Longrightarrow> inv l \<Longrightarrow> moved r row f s (s1\<lparr>leases := l\<rparr>)"
  by (simp add: moved_def)

lemma moved_append:
  assumes "moved r row f s s1" "mapT g (emitDurable cfg input owner) s1 = (Inr u, s2)" "in_sourceSeq input = None"
    and "\<And>e. entryOf cfg input e \<Longrightarrow> reduceSync (F (events s1)) e = (F (events s1))\<lparr>foldRuns := (foldRuns (F (events s1)))(r \<mapsto> f')\<rparr>"
  shows "moved r row f' s s2"
proof -
  have i: "inv (leases s1)" "evs_ok (events s1)" using assms(1) by (auto simp: moved_def)
  from assms(2) obtain rc where rc: "emitDurable cfg input owner s1 = (Inr rc, s2)" by auto
  from emit_fresh [OF i assms(3) rc] obtain e where e: "frame s1 s2" "entryOf cfg input e" "events s2 = events s1 @ [e]" .
  moreover have "evs_ok (events s2)" by (rule emit_evs_ok [OF i rc])
  moreover have "F (events s1 @ [e]) = reduceSync (F (events s1)) e" using assms(1) by (simp add: moved_def F_snoc)
  ultimately show ?thesis using assms(1) assms(4) [OF e(2)] frame_store [OF e(1)]
    by (simp add: moved_def frame_def)
qed

lemma moved_fold: "moved r row f s s1 \<Longrightarrow> foldRuns (F (events s1)) r = Some f"
  by (simp add: moved_def)

lemma moved_transition:
  assumes "moved r row f s s1" "recordTransition cfg r k w g s1 = (Inr u, s2)"
    and "plainOwner (rules cfg) w" "pred_option isSafeInteger g"
  shows "moved r row (consensusRow (''flows.consensus.'' @ transitionText k) w g f) s s2"
  using assms(2) unfolding recordTransition_def
proof (rule moved_append [OF assms(1)])
  show "in_sourceSeq (transitionInput r k w g) = None" by (simp add: transitionInput_def)
qed (rule reduce_transition [OF _ assms(3,4) moved_fold [OF assms(1)]])

lemma moved_transitioned:
  assumes "moved r row f s s1" "recordRunEvent cfg r ''transitioned'' fs owner s1 = (Inr u, s2)"
  shows "moved r row (transitionedRow fs f) s s2"
  using assms(2) unfolding recordRunEvent_def
proof (rule moved_append [OF assms(1)])
  show "in_sourceSeq (runEventInput r ''transitioned'' fs) = None" by (simp add: runEventInput_def)
qed (rule reduce_transitioned [OF _ moved_fold [OF assms(1)]])

end

end
