(* ===== verification/Run_Mirror.thy ===== *)
theory Run_Mirror
  imports Store_Mirror
begin

text \<open>
  Every operation of the run store keeps the tables mirrored in the journal, on every branch and
  under every strategy that meets the contract.
\<close>

section \<open>The bodies of the transactions\<close>

context journal_service
begin

lemma keeps_createBody: "keeps (bindT (insertRun r row) (\<lambda>_. recordRunEvent cfg r ''created'' fs None))"
  by auto

lemma keeps_requestCancelBody: "keeps (requestCancelBody cfg r t)"
  by (auto simp: requestCancelBody_def Let_def split: option.splits)

lemma keeps_claimBody: "keeps (claimBody cfg r expected w t)"
  by (auto simp: claimBody_def split: ClaimOutcome.splits)

lemma keeps_stealBody: "keeps (stealBody cfg r expected w t ev)"
  by (auto simp: stealBody_def split: ClaimOutcome.splits)

lemma keeps_abandonClaimBody: "keeps (abandonClaimBody cfg r w t)"
  by (auto simp: abandonClaimBody_def)

lemma keeps_recoverClaimBody: "keeps (recoverClaimBody cfg r w t obs now ev)"
  by (auto simp: recoverClaimBody_def split: option.splits RecoverOutcome.splits)

lemma keeps_heartbeatBody: "keeps (heartbeatBody cfg r w t)"
  by (auto simp: heartbeatBody_def Let_def split: HeartbeatOutcome.splits)

lemma keeps_transitionOwnedBody: "keeps (transitionOwnedBody cfg r w st stj g now)"
  by (auto simp: transitionOwnedBody_def split: option.splits)

lemma keeps_grantFor [intro!]: "keeps (grantFor cfg r x w t ev)"
  by (auto simp: grantFor_def split: option.splits)

lemma keeps_claimAndOwnBody: "keeps (claimAndOwnBody cfg r expected w t ev)"
  by (auto simp: claimAndOwnBody_def split: ClaimOutcome.splits ActivateOutcome.splits)

lemma keeps_activateBody: "keeps (activateBody cfg r w t expected now)"
  by (auto simp: activateBody_def Let_def split: option.splits ActivateOutcome.splits)

text \<open>No operation of the run store appends a run snapshot or touches a checkpoint.\<close>

lemma run_ops_extend:
  fixes s :: "'l store"
  assumes "inv (leases s)"
  shows "requestCancel cfg r t s = (x, s') \<Longrightarrow> extends s s'"
    "claim cfg r expected w t s = (x, s') \<Longrightarrow> extends s s'"
    "claimAndOwn cfg r expected w t evo s = (x, s') \<Longrightarrow> extends s s'"
    "abandonClaim cfg r w t s = (x, s') \<Longrightarrow> extends s s'"
    "recoverClaim cfg r w t obs now ev s = (x, s') \<Longrightarrow> extends s s'"
    "heartbeat cfg r w t s = (x, s') \<Longrightarrow> extends s s'"
    "steal cfg r expected w t ev s = (x, s') \<Longrightarrow> extends s s'"
  using assms
  by (auto simp: requestCancel_def claim_def claimAndOwn_def abandonClaim_def recoverClaim_def heartbeat_def steal_def Let_def
      split: if_splits
      intro: writeThrough_extends [OF assms keeps_requestCancelBody] writeThrough_extends [OF assms keeps_claimBody]
        writeThrough_extends [OF assms keeps_claimAndOwnBody] writeThrough_extends [OF assms keeps_abandonClaimBody]
        writeThrough_extends [OF assms keeps_recoverClaimBody] writeRun_extends [OF assms keeps_heartbeatBody]
        writeThrough_extends [OF assms keeps_stealBody])

lemma clocked_extends:
  fixes s :: "'l store"
  assumes "inv (leases s)" "withClock (\<lambda>now. writeThrough cfg m (body now)) s = (x, s')" "\<And>now. keeps (body now)"
  shows "extends s s'"
  using assms(2)
proof (rule withClock_extends)
  fix now
  assume "writeThrough cfg m (body now) (s\<lparr>tick := Suc (tick s)\<rparr>) = (x, s')"
  with assms(1,3) show "extends (s\<lparr>tick := Suc (tick s)\<rparr>) s'" by (intro writeThrough_extends) auto
qed

lemma clocked_ops_extend:
  fixes s :: "'l store"
  assumes "inv (leases s)"
  shows "create cfg r st opts s = (xu, s') \<Longrightarrow> extends s s'"
    "activate cfg r w t expected s = (x, s') \<Longrightarrow> extends s s'"
    "transitionOwned cfg r w rst stj g s = (x, s') \<Longrightarrow> extends s s'"
  using clocked_extends [OF assms, of "''create''" "\<lambda>now. bindT (insertRun r (pendingRow st opts now))
        (\<lambda>_. recordRunEvent cfg r ''created'' (createdFields st opts now) None)" xu s'] keeps_createBody
    clocked_extends [OF assms, of "''activate''" "activateBody cfg r w t expected" x s'] keeps_activateBody
    clocked_extends [OF assms, of "''transitionOwned''" "transitionOwnedBody cfg r w rst stj g" x s'] keeps_transitionOwnedBody
  by (auto simp: create_def activate_def transitionOwned_def split: if_splits)

end

section \<open>Operations of the run store\<close>

context store_fold
begin

lemma create_ok:
  assumes "store_ok b s" "create cfg r st opts s = (x, s')"
  shows "store_ok b s'"
proof (cases "r = [] \<or> \<not> isJsonString st \<or> co_parentRunId opts = Some [] \<or> invalidLineage opts")
  case True
  with assms show ?thesis by (auto simp: create_def)
next
  case False
  let ?body = "\<lambda>now. bindT (insertRun r (pendingRow st opts now)) (\<lambda>_.
      recordRunEvent cfg r ''created'' (createdFields st opts now) None)"
  note keep = keeps_createBody
  have body: "store_ok b s2" if ok: "store_ok b s0" and run: "?body now s0 = (Inr u, s2)" for now s0 u s2
  proof -
    from run obtain s1 rc where i: "insertRun r (pendingRow st opts now) s0 = (Inr (), s1)"
      and e: "emitDurable cfg (runEventInput r ''created'' (createdFields st opts now)) None s1 = (Inr rc, s2)"
      by (auto simp: bindT_Inr recordRunEvent_def)
    from i have s1: "s1 = s0\<lparr>runRows := (runRows s0)(r \<mapsto> pendingRow st opts now)\<rparr>"
      and chk: "run_check r (pendingRow st opts now)"
      and par: "\<forall>p. parentRunId (pendingRow st opts now) = Some p \<longrightarrow> p = r \<or> runRows s0 p \<noteq> None"
      by (auto simp: insertRun_def putRun_def split: if_splits)
    from mirrors_created [OF chk] obtain f
      where f: "createdRow (createdFields st opts now) = Some f" "mirrors b r (pendingRow st opts now) f" by blast
    have i1: "inv (leases s1)" "evs_ok (events s1)" using ok s1 by (simp_all add: store_ok_def mirrored_def)
    have "in_sourceSeq (runEventInput r ''created'' (createdFields st opts now)) = None" by (simp add: runEventInput_def)
    from emit_fresh [OF i1 this e] obtain en where en: "frame s1 s2"
      "entryOf cfg (runEventInput r ''created'' (createdFields st opts now)) en" "events s2 = events s1 @ [en]" .
    have m: "mirrored F b s0" using ok by (simp add: store_ok_def)
    have "F (events s0 @ [en]) = reduceSync (F (events s0)) en" using ok by (simp add: store_ok_def F_snoc)
    then have "mirrored F b s2"
      using s1 en(3) reduce_created [OF en(2) f(1), of "F (events s0)"] frame_store [OF en(1)] emit_evs_ok [OF i1 e] f(2) par
      by (intro mirrored_move [OF m, of s2 r "pendingRow st opts now" f]) simp_all
    with ok en(1,3) s1 show ?thesis by (simp add: store_ok_def clock_ok_def frame_def)
  qed
  from assms(2) False have "withClock (\<lambda>now. writeThrough cfg ''create'' (?body now)) s = (x, s')"
    by (simp only: create_def if_False)
  then show ?thesis
  proof (rule withClock_ok [OF assms(1)])
    fix s0 now
    assume "store_ok b s0" "writeThrough cfg ''create'' (?body now) s0 = (x, s')"
    then show "store_ok b s'" by (rule writeThrough_ok [OF _ keep]) (rule body)
  qed
qed

lemma requestCancel_ok:
  assumes "store_ok b s" "requestCancel cfg r t s = (x, s')"
  shows "store_ok b s'"
proof (cases "isSafeInteger t \<and> 0 \<le> t")
  case False
  with assms show ?thesis by (auto simp: requestCancel_def)
next
  case True
  note keep = keeps_requestCancelBody
  have body: "store_ok b s2" if ok: "store_ok b s0" and run: "requestCancelBody cfg r t s0 = (Inr a, s2)" for s0 a s2
  proof (cases "\<exists>row. runRows s0 r = Some row \<and> cancelRequestedAtMs row = None")
    case True
    then obtain row where row: "runRows s0 r = Some row" "cancelRequestedAtMs row = None" by blast
    let ?u = "updateRun r (\<lambda>row. cancelRequestedAtMs row = None) (\<lambda>row. row\<lparr>cancelRequestedAtMs := Some t\<rparr>)"
    from run row obtain s1 where u: "?u s0 = (Inr True, s1)"
      and e: "recordRunEvent cfg r ''cancel-requested'' [(''requestedAtMs'', JInt t)] None s1 = (Inr (), s2)"
      by (auto simp: requestCancelBody_def Let_def bindT_Inr dest: updateRun_Inr split: if_splits)
    from u have u': "?u (s0\<lparr>leases := leases s0\<rparr>) = (Inr True, s1)" by simp
    have "inv (leases s0)" using ok by (simp add: store_ok_def)
    from moved_start [OF ok row(1) this u'] obtain f where f: "mirrors b r row f"
      "run_check r (row\<lparr>cancelRequestedAtMs := Some t\<rparr>)" "moved r (row\<lparr>cancelRequestedAtMs := Some t\<rparr>) f s0 s1" .
    have "moved r (row\<lparr>cancelRequestedAtMs := Some t\<rparr>) (f\<lparr>fr_cancelRequestedAtMs := Some t\<rparr>) s0 s2"
      using e unfolding recordRunEvent_def
    proof (rule moved_append [OF f(3)])
      show "in_sourceSeq (runEventInput r ''cancel-requested'' [(''requestedAtMs'', JInt t)]) = None"
        by (simp add: runEventInput_def)
    qed (rule reduce_cancel [OF _ _ moved_fold [OF f(3)]], use \<open>isSafeInteger t \<and> 0 \<le> t\<close> in auto)
    from moved_end [OF ok row(1) this mirrors_cancel [OF f(1,2)]] show ?thesis by simp
  next
    case False
    then have "updateRun r (\<lambda>row. cancelRequestedAtMs row = None) (\<lambda>row. row\<lparr>cancelRequestedAtMs := Some t\<rparr>) s0 = (Inr False, s0)"
      by (intro updateRun_miss) auto
    with run False have "s2 = s0"
      by (cases "runRows s0 r") (auto simp: requestCancelBody_def Let_def bindT_def selectRun_def getT_def split: option.splits)
    with ok show ?thesis by simp
  qed
  from assms(2) True have "writeThrough cfg ''requestCancel'' (requestCancelBody cfg r t) s = (x, s')"
    by (simp add: requestCancel_def)
  then show ?thesis by (rule writeThrough_ok [OF assms(1) keep]) (rule body)
qed

end

context store_fold
begin

text \<open>A state that differs from a sound one in the strategy's own state only.\<close>

lemma store_ok_leases: "store_ok b s \<Longrightarrow> inv l \<Longrightarrow> store_ok b (s\<lparr>leases := l\<rparr>)"
  by (simp add: store_ok_def mirrored_def clock_ok_def)

lemma store_ok_inv: "store_ok b s \<Longrightarrow> inv (leases s)"
  by (simp add: store_ok_def)

text \<open>The end of \<open>claim\<close> and of \<open>steal\<close>: the claim columns and their event.\<close>

lemma claim_tail:
  assumes "store_ok b s" "runRows s r = Some row" "\<not> rowOwnedBy row w" "inv l" "k = TClaimed \<or> k = TStolen"
    and "plainOwner (rules cfg) w" "updateRun r (\<lambda>_. True) (setRowClaim w g) (s\<lparr>leases := l\<rparr>) = (Inr ch, s1)"
    and "recordTransition cfg r k w (Some g) s1 = (Inr u, s2)"
  shows "store_ok b s2"
proof -
  have "ch" using updateRun_Inr [OF assms(7)] assms(2) by auto
  with assms(7) have up: "updateRun r (\<lambda>_. True) (setRowClaim w g) (s\<lparr>leases := l\<rparr>) = (Inr True, s1)" by simp
  from moved_start [OF assms(1,2,4) up] obtain f where f: "mirrors b r row f" "run_check r (setRowClaim w g row)"
    "moved r (setRowClaim w g row) f s s1" .
  have "isSafeInteger g" using f(2) by (simp add: run_check_groups validIdentity_def safeMs_isSafe)
  then have "moved r (setRowClaim w g row) (consensusRow (''flows.consensus.'' @ transitionText k) w (Some g) f) s s2"
    by (intro moved_transition [OF f(3) assms(8,6)]) simp
  from moved_end [OF assms(1,2) this mirrors_claim [OF f(1,2) assms(3,5)]] show ?thesis by simp
qed

lemma claim_ok:
  assumes "store_ok b s" "plainOwner (rules cfg) w" "claim cfg r expected w t s = (x, s')"
  shows "store_ok b s'"
proof -
  note keep = keeps_claimBody
  have body: "store_ok b s2" if ok: "store_ok b s0" and run: "claimBody cfg r expected w t s0 = (Inr a, s2)" for s0 a s2
  proof -
    have i: "inv (leases s0)" using ok by (simp add: store_ok_def)
    show ?thesis
    proof (cases "\<exists>row. runRows s0 r = Some row \<and> r_status row \<noteq> RSrunning \<and> s2 \<noteq> s0")
      case False
      with run have "s2 = s0"
        by (auto simp: claimBody_def selectRun_def split: if_splits option.splits)
      with ok show ?thesis by simp
    next
      case True
      then obtain row where row: "runRows s0 r = Some row" "r_status row \<noteq> RSrunning" by blast
      from run True row obtain grant l where g: "c_claim S r w t (leases s0) = (Inr grant, l)"
        and rest: "(case grant of Rejected _ \<Rightarrow> retT (classifyClaimLoss (Some row) t)
         | Claimed g \<Rightarrow> bindT (updateRun r (\<lambda>_. True) (setRowClaim w g)) (\<lambda>_.
             bindT (recordTransition cfg r TClaimed w (Some g)) (\<lambda>_. retT (OClaimed g)))) (s0\<lparr>leases := l\<rparr>) = (Inr a, s2)"
        by (auto simp: claimBody_def selectRun_def bindT_Inr consensusT_Inr split: if_splits)
      note l = strategy_inv(1) [OF i g]
      show ?thesis
      proof (cases grant)
        case (Rejected x)
        with rest store_ok_leases [OF ok l] show ?thesis by simp
      next
        case (Claimed g)
        with rest obtain ch s1 where "updateRun r (\<lambda>_. True) (setRowClaim w g) (s0\<lparr>leases := l\<rparr>) = (Inr ch, s1)"
          "recordTransition cfg r TClaimed w (Some g) s1 = (Inr (), s2)" by (auto simp: bindT_Inr)
        moreover have "\<not> rowOwnedBy row w" using row(2) by (simp add: rowOwnedBy_def)
        ultimately show ?thesis using claim_tail [OF ok row(1) _ l _ assms(2)] by blast
      qed
    qed
  qed
  from assms(3) have "writeThrough cfg ''claim'' (claimBody cfg r expected w t) s = (x, s')" by (simp add: claim_def)
  then show ?thesis by (rule writeThrough_ok [OF assms(1) keep]) (rule body)
qed

end

context store_fold
begin

lemma matches_not_owned:
  assumes "snapshotMatchesRow row expected" "snap_owner expected = Some x" "w \<noteq> x"
  shows "\<not> rowOwnedBy row w"
  using assms by (auto simp: snapshotMatchesRow_def rowOwnedBy_def OwnerId_eq_iff)

lemma steal_ok:
  assumes "store_ok b s" "plainOwner (rules cfg) w" "snap_owner expected \<noteq> Some w"
    and "steal cfg r expected w t ev s = (x, s')"
  shows "store_ok b s'"
proof (cases "evidenceMatches expected w t ev")
  case False
  with assms show ?thesis by (simp add: steal_def)
next
  case True
  then obtain o1 where o1: "snap_owner expected = Some o1" by (auto simp: evidenceMatches_def split: option.splits)
  note keep = keeps_stealBody
  have body: "store_ok b s2" if ok: "store_ok b s0" and run: "stealBody cfg r expected w t ev s0 = (Inr a, s2)" for s0 a s2
  proof -
    note i = store_ok_inv [OF ok]
    show ?thesis
    proof (cases "stealAdmissible (runRows s0 r) expected t")
      case False
      with run have "s2 = s0" by (simp add: stealBody_def selectRun_def)
      with ok show ?thesis by simp
    next
      case True
      then obtain row where row: "runRows s0 r = Some row" "snapshotMatchesRow row expected"
        by (auto simp: stealAdmissible_def split: option.splits)
      from run True row obtain grant l where g: "c_steal S (legacyTable s0) r w t ev (leases s0) = (Inr grant, l)"
        and rest: "(case grant of Rejected _ \<Rightarrow> retT (classifyClaimLoss (Some row) t)
         | Claimed g \<Rightarrow> bindT (updateRun r (\<lambda>_. True) (setRowClaim w g)) (\<lambda>_.
             bindT (recordTransition cfg r TStolen w (Some g)) (\<lambda>_. retT (OClaimed g)))) (s0\<lparr>leases := l\<rparr>) = (Inr a, s2)"
        by (auto simp: stealBody_def stealT_def selectRun_def bindT_Inr consensusT_Inr)
      note l = strategy_inv(5) [OF i g]
      show ?thesis
      proof (cases grant)
        case (Rejected x)
        with rest store_ok_leases [OF ok l] show ?thesis by simp
      next
        case (Claimed g)
        with rest obtain ch s1 where "updateRun r (\<lambda>_. True) (setRowClaim w g) (s0\<lparr>leases := l\<rparr>) = (Inr ch, s1)"
          "recordTransition cfg r TStolen w (Some g) s1 = (Inr (), s2)" by (auto simp: bindT_Inr)
        moreover have "\<not> rowOwnedBy row w" using matches_not_owned [OF row(2) o1] assms(3) o1 by auto
        ultimately show ?thesis using claim_tail [OF ok row(1) _ l _ assms(2)] by blast
      qed
    qed
  qed
  from assms(4) True have "writeThrough cfg ''steal'' (stealBody cfg r expected w t ev) s = (x, s')" by (simp add: steal_def)
  then show ?thesis by (rule writeThrough_ok [OF assms(1) keep]) (rule body)
qed

lemma abandonClaim_ok:
  assumes "store_ok b s" "plainOwner (rules cfg) w" "abandonClaim cfg r w t s = (x, s')"
  shows "store_ok b s'"
proof -
  note keep = keeps_abandonClaimBody
  let ?u = "updateRun r (\<lambda>row. rowMatchesClaim row w t) clearRowClaim"
  have body: "store_ok b s3" if ok: "store_ok b s0" and run: "abandonClaimBody cfg r w t s0 = (Inr a, s3)" for s0 a s3
  proof -
    note i = store_ok_inv [OF ok]
    from run consider "?u s0 = (Inr False, s3)"
      | s1 l where "?u s0 = (Inr True, s1)" "c_release S r w (leases s1) = (Inr (), l)"
        "recordTransition cfg r TReleased w (Some t) (s1\<lparr>leases := l\<rparr>) = (Inr (), s3)"
      by (auto simp: abandonClaimBody_def bindT_Inr consensusT_Inr split: if_splits)
    then show ?thesis
    proof cases
      case 1
      with ok updateRun_Inr [OF 1] show ?thesis by simp
    next
      case (2 s1 l)
      from updateRun_Inr [OF 2(1)] obtain row where row: "runRows s0 r = Some row" "rowMatchesClaim row w t" by auto
      have "?u (s0\<lparr>leases := leases s0\<rparr>) = (Inr True, s1)" using 2(1) by simp
      from moved_start [OF ok row(1) i this] obtain f where f: "mirrors b r row f"
        "run_check r (clearRowClaim row)" "moved r (clearRowClaim row) f s0 s1" .
      have t: "isSafeInteger t" using f(1) row(2)
        by (auto simp: mirrors_def run_check_groups claimCheck_def rowMatchesClaim_def optSafe_def safeMs_isSafe)
      have "inv l" using strategy_inv(4) [OF _ 2(2)] f(3) by (simp add: moved_def)
      from moved_transition [OF moved_leases [OF f(3) this] 2(3) assms(2)] t
      have "moved r (clearRowClaim row) (consensusRow (''flows.consensus.'' @ transitionText TReleased) w (Some t) f) s0 s3"
        by simp
      from moved_end [OF ok row(1) this mirrors_unclaim [OF f(1) row(2)]] show ?thesis by simp
    qed
  qed
  from assms(3) have "writeThrough cfg ''abandonClaim'' (abandonClaimBody cfg r w t) s = (x, s')" by (simp add: abandonClaim_def)
  then show ?thesis by (rule writeThrough_ok [OF assms(1) keep]) (rule body)
qed

end

context store_fold
begin

lemma recoverClaim_ok:
  assumes "store_ok b s" "plainOwner (rules cfg) w" "recoverClaim cfg r w t obs now ev s = (x, s')"
  shows "store_ok b s'"
proof (cases "matchesEvidence w obs now ev")
  case False
  with assms show ?thesis by (simp add: recoverClaim_def)
next
  case True
  note keep = keeps_recoverClaimBody
  have body: "store_ok b s2" if ok: "store_ok b s0" and run: "recoverClaimBody cfg r w t obs now ev s0 = (Inr a, s2)" for s0 a s2
  proof (cases "\<exists>row. runRows s0 r = Some row \<and> rowMatchesClaim row w t \<and> t < now - heartbeatStaleAfterMs")
    case False
    with run have "s2 = s0"
      by (auto simp: recoverClaimBody_def selectRun_def not_less split: if_splits option.splits)
    with ok show ?thesis by simp
  next
    case True
    note i = store_ok_inv [OF ok]
    from True obtain row where row: "runRows s0 r = Some row" "rowMatchesClaim row w t" "t < now - heartbeatStaleAfterMs" by blast
    from run row obtain out l where g: "c_recover S (legacyTable s0) r w t obs now ev (leases s0) = (Inr out, l)"
      and rest: "(case out of RecoverRejected _ \<Rightarrow> retT OClaimChanged
         | Recovered \<Rightarrow> bindT (updateRun r (\<lambda>_. True) clearRowClaim) (\<lambda>_.
             bindT (recordTransition cfg r TExpired w (Some t)) (\<lambda>_. retT ORecovered))) (s0\<lparr>leases := l\<rparr>) = (Inr a, s2)"
      by (auto simp: recoverClaimBody_def recoverT_def selectRun_def bindT_Inr consensusT_Inr)
    note l = strategy_inv(6) [OF i g]
    show ?thesis
    proof (cases out)
      case (RecoverRejected y)
      with rest store_ok_leases [OF ok l] show ?thesis by simp
    next
      case Recovered
      with rest obtain ch s1 where u: "updateRun r (\<lambda>_. True) clearRowClaim (s0\<lparr>leases := l\<rparr>) = (Inr ch, s1)"
        and e: "recordTransition cfg r TExpired w (Some t) s1 = (Inr (), s2)" by (auto simp: bindT_Inr)
      have "ch" using updateRun_Inr [OF u] row(1) by auto
      with moved_start [OF ok row(1) l, of "\<lambda>_. True" clearRowClaim s1] u obtain f where f: "mirrors b r row f"
        "moved r (clearRowClaim row) f s0 s1" by auto
      have "isSafeInteger t" using f(1) row(2)
        by (auto simp: mirrors_def run_check_groups claimCheck_def rowMatchesClaim_def optSafe_def safeMs_isSafe)
      then have "moved r (clearRowClaim row) (consensusRow (''flows.consensus.'' @ transitionText TExpired) w (Some t) f) s0 s2"
        by (intro moved_transition [OF f(2) e assms(2)]) simp
      from moved_end [OF ok row(1) this mirrors_unclaim [OF f(1) row(2)]] show ?thesis by simp
    qed
  qed
  from assms(3) True have "writeThrough cfg ''recoverClaim'' (recoverClaimBody cfg r w t obs now ev) s = (x, s')"
    by (simp add: recoverClaim_def)
  then show ?thesis by (rule writeThrough_ok [OF assms(1) keep]) (rule body)
qed

lemma writeRun_ok:
  assumes "store_ok b s" "keeps body" "writeRun cfg m body s = (x, s')"
    and "\<And>a s1. body s = (Inr a, s1) \<Longrightarrow> store_ok b s1"
  shows "store_ok b s'"
proof (cases "body s")
  case (Pair y s1)
  show ?thesis
  proof (cases y)
    case (Inr a)
    with Pair assms(3,4) show ?thesis by (simp add: writeRun_def)
  next
    case (Inl c)
    have "inv (leases s1)" "clock s1 = clock s" using assms(1,2) Pair by (auto simp: keeps_def store_ok_def)
    moreover from Inl Pair assms(3) have s': "s' = (rollback cfg s s1)\<lparr>settlements := settlements s\<rparr>"
      by (simp add: writeRun_def)
    moreover have "mirrored F b s'"
      using assms(1) s' by (intro mirrored_same [of F b s s']) (auto simp: store_ok_def mirrored_def)
    ultimately show ?thesis using assms(1) by (simp add: store_ok_def clock_ok_def rollback_inv)
  qed
qed

lemma heartbeat_ok:
  assumes "store_ok b s" "heartbeat cfg r w t s = (x, s')"
  shows "store_ok b s'"
proof (cases "isSafeInteger t \<and> 0 \<le> t")
  case False
  with assms show ?thesis by (auto simp: heartbeat_def)
next
  case True
  note keep = keeps_heartbeatBody
  have body: "store_ok b s2" if run: "heartbeatBody cfg r w t s = (Inr a, s2)" for a s2
  proof -
    note i = store_ok_inv [OF assms(1)]
    let ?u = "\<lambda>h. updateRun r (\<lambda>row. rowOwnedBy row w) (\<lambda>row. row\<lparr>heartbeatAtMs := map_option (\<lambda>b. max b h) (heartbeatAtMs row)\<rparr>)"
    let ?lost = "bindT (selectRun r) (\<lambda>current. retT (if current = None then ONotFound else OFenceLost))"
    from run obtain out l where g: "c_heartbeat S r w t (leases s) = (Inr out, l)"
      and rest: "(case out of HeartbeatLost \<Rightarrow> ?lost
        | Renewed h \<Rightarrow> bindT (?u h) (\<lambda>changed. if changed then retT OUpdated else ?lost)) (s\<lparr>leases := l\<rparr>) = (Inr a, s2)"
      unfolding heartbeatBody_def Let_def bindT_Inr [of "heartbeatT cfg r w t"] consensusT_Inr by auto
    note l = strategy_inv(3) [OF i g]
    show ?thesis
    proof (cases out)
      case HeartbeatLost
      with rest store_ok_leases [OF assms(1) l] show ?thesis by (simp add: selectRun_def)
    next
      case (Renewed h)
      with rest obtain ch where u: "?u h (s\<lparr>leases := l\<rparr>) = (Inr ch, s2)"
        by (auto simp: bindT_Inr selectRun_def split: if_splits)
      show ?thesis
      proof (cases ch)
        case False
        with updateRun_Inr [OF u] store_ok_leases [OF assms(1) l] show ?thesis by simp
      next
        case True
        with updateRun_Inr [OF u] obtain row where row: "runRows s r = Some row" by auto
        from True u have u': "?u h (s\<lparr>leases := l\<rparr>) = (Inr True, s2)" by simp
        from moved_start [OF assms(1) row l u'] obtain f where
          f: "mirrors b r row f" "run_check r (row\<lparr>heartbeatAtMs := map_option (\<lambda>b. max b h) (heartbeatAtMs row)\<rparr>)"
            "moved r (row\<lparr>heartbeatAtMs := map_option (\<lambda>b. max b h) (heartbeatAtMs row)\<rparr>) f s s2" .
        from moved_end [OF assms(1) row f(3) mirrors_heartbeat [OF f(1,2)]] show ?thesis by simp
      qed
    qed
  qed
  from assms(2) True have "writeRun cfg ''heartbeat'' (heartbeatBody cfg r w t) s = (x, s')" by (simp add: heartbeat_def)
  then show ?thesis by (rule writeRun_ok [OF assms(1) keep]) (rule body)
qed

end

context store_fold
begin

lemma heldT_Inr:
  assumes "heldT cfg r w s = (Inr held, s')" "inv (leases s)"
  shows "s' = s \<and> (held \<longleftrightarrow> holds (view (leases s) r) w)"
  using assms guard_held [OF assms(2), of r w] guard_refused [OF assms(2), of r w]
  by (auto simp: heldT_def consensusT_def split: prod.splits sum.splits if_splits Cause.splits)

lemma transitionOwned_ok:
  assumes "store_ok b s" "plainOwner (rules cfg) w" "transitionOwned cfg r w st stj g s = (x, s')"
  shows "store_ok b s'"
proof (cases "case stj of None \<Rightarrow> False | Some x \<Rightarrow> \<not> isJsonString x")
  case True
  with assms show ?thesis by (simp add: transitionOwned_def)
next
  case False
  note keep = keeps_transitionOwnedBody
  have body: "store_ok b s2" if ok: "store_ok b s0" and now: "isSafeInteger now"
    and run: "transitionOwnedBody cfg r w st stj g now s0 = (Inr a, s2)" for s0 a s2 now
  proof -
    note i = store_ok_inv [OF ok]
    from run obtain held where h: "heldT cfg r w s0 = (Inr held, s0)"
      and rest: "bindT (selectRun r) (\<lambda>rowO. case rowO of
         None \<Rightarrow> retT ONotFound
       | Some row \<Rightarrow>
           if \<not> (held \<and> rowOwnedBy row w) then retT OFenceLost
           else if guardBlocked g row then retT OGuardFailed
           else if st = RSrunning
           then bindT (updateRun r (\<lambda>_. True) (\<lambda>row. withState stj (row\<lparr>r_status := RSrunning, finishedAtMs := None\<rparr>))) (\<lambda>_.
                bindT (recordRunEvent cfg r ''transitioned'' (transitionFields st now stj) (Some w)) (\<lambda>_.
                retT OTransitioned))
           else bindT (updateRun r (\<lambda>_. True) (settleRow st now stj)) (\<lambda>_.
                bindT (recordRunEvent cfg r ''transitioned'' (transitionFields st now stj) (Some w)) (\<lambda>_.
                bindT (releaseT cfg r w) (\<lambda>_.
                bindT (recordTransition cfg r TReleased w None) (\<lambda>_.
                retT OTransitioned))))) s0 = (Inr a, s2)"
      unfolding transitionOwnedBody_def bindT_Inr [of "heldT cfg r w"] using heldT_Inr [OF _ i] by blast
    show ?thesis
    proof (cases "\<exists>row. runRows s0 r = Some row \<and> held \<and> rowOwnedBy row w \<and> \<not> guardBlocked g row")
      case False
      with rest have "s2 = s0" by (auto simp: selectRun_def split: option.splits if_splits)
      with ok show ?thesis by simp
    next
      case True
      then obtain row where row: "runRows s0 r = Some row" "held" "rowOwnedBy row w" "\<not> guardBlocked g row" by blast
      show ?thesis
      proof (cases "st = RSrunning")
        case True
        let ?m = "\<lambda>row. withState stj (row\<lparr>r_status := RSrunning, finishedAtMs := None\<rparr>)"
        from rest row True obtain ch s1 where u: "updateRun r (\<lambda>_. True) ?m s0 = (Inr ch, s1)"
          and e: "recordRunEvent cfg r ''transitioned'' (transitionFields st now stj) (Some w) s1 = (Inr (), s2)"
          by (auto simp: selectRun_def bindT_Inr)
        have "ch" using updateRun_Inr [OF u] row(1) by auto
        with moved_start [OF ok row(1) i, of "\<lambda>_. True" ?m s1] u obtain f where f: "mirrors b r row f"
          "run_check r (?m row)" "moved r (?m row) f s0 s1" by auto
        have run: "r_status row = RSrunning" using row(3) by (simp add: rowOwnedBy_def)
        have "mirrors b r (?m row) (transitionedRow (transitionFields st now stj) f)"
          unfolding True by (rule mirrors_running [OF f(1) run now f(2)])
        from moved_end [OF ok row(1) moved_transitioned [OF f(3) e] this]
        show ?thesis by (simp add: withState_def)
      next
        case False
        from rest row False obtain ch s1 s3 l where u: "updateRun r (\<lambda>_. True) (settleRow st now stj) s0 = (Inr ch, s1)"
          and e: "recordRunEvent cfg r ''transitioned'' (transitionFields st now stj) (Some w) s1 = (Inr (), s3)"
          and l: "c_release S r w (leases s3) = (Inr (), l)"
          and t: "recordTransition cfg r TReleased w None (s3\<lparr>leases := l\<rparr>) = (Inr (), s2)"
          by (auto simp: selectRun_def bindT_Inr consensusT_Inr)
        have "ch" using updateRun_Inr [OF u] row(1) by auto
        with moved_start [OF ok row(1) i, of "\<lambda>_. True" "settleRow st now stj" s1] u obtain f where f: "mirrors b r row f"
          "run_check r (settleRow st now stj row)" "moved r (settleRow st now stj row) f s0 s1" by auto
        let ?f = "transitionedRow (transitionFields st now stj) f"
        have m: "moved r (settleRow st now stj row) ?f s0 s3" by (rule moved_transitioned [OF f(3) e])
        then have "inv l" using strategy_inv(4) [OF _ l] by (simp add: moved_def)
        from moved_transition [OF moved_leases [OF m this] t assms(2)]
        have "moved r (settleRow st now stj row) ?f s0 s2"
          using transitioned_settled [OF False now, of stj f] by (simp add: consensusRow_released_none)
        from moved_end [OF ok row(1) this mirrors_settle [OF f(1,2) False now]] show ?thesis by simp
      qed
    qed
  qed
  from assms(3) False have "withClock (\<lambda>now. writeThrough cfg ''transitionOwned'' (transitionOwnedBody cfg r w st stj g now)) s = (x, s')"
    by (simp add: transitionOwned_def)
  then show ?thesis
  proof (rule withClock_ok [OF assms(1)])
    fix s0 now
    assume a: "store_ok b s0" "isSafeInteger now"
      "writeThrough cfg ''transitionOwned'' (transitionOwnedBody cfg r w st stj g now) s0 = (x, s')"
    show "store_ok b s'" by (rule writeThrough_ok [OF a(1) keep a(3)]) (rule body [OF _ a(2)])
  qed
qed

end

context store_fold
begin

text \<open>
  \<open>claimAndOwn\<close>: the claim columns are free, so moving the owner alone is the same as moving the owner
  and clearing the claim.
\<close>

lemma setRowOwner_free: "claimColumnsFree row \<Longrightarrow> clearRowClaim (setRowOwner w t row) = setRowOwner w t row"
  by (simp add: claimColumnsFree_def row_moves RunRow_eq_iff)

lemma consensusRow_activated_claimed:
  assumes "k = TClaimed \<or> k = TStolen"
  shows "consensusRow ''flows.consensus.activated'' w g (consensusRow (''flows.consensus.'' @ transitionText k) w g f)
    = consensusRow ''flows.consensus.activated'' w g f"
  using assms by (auto simp: consensusRow_def)

lemma grantFor_Inr:
  assumes "grantFor cfg r x w t ev s = (Inr grant, s')"
  shows "\<exists>l. s' = s\<lparr>leases := l\<rparr>"
  using assms
  by (auto simp: grantFor_def bindT_Inr consensusT_Inr stealT_def split: option.splits if_splits) (metis journal_db.surjective journal_db.update_convs(1))+

lemma grantFor_granted:
  assumes "inv (leases s)" "grantFor cfg r x w t ev s = (Inr (Claimed g), s')"
  shows "g = t"
  using assms strategy_inv(4) [OF assms(1)]
  by (auto simp: grantFor_def bindT_Inr consensusT_Inr stealT_def dest: claim_granted steal_granted
      split: option.splits if_splits) (meson claim_granted)+

lemma own_tail:
  assumes "store_ok b s" "runRows s r = Some row" "claimColumnsFree row" "inv l" "k = TClaimed \<or> k = TStolen"
    and "plainOwner (rules cfg) w" "updateRun r (\<lambda>_. True) (setRowOwner w t) (s\<lparr>leases := l\<rparr>) = (Inr ch, s1)"
    and "recordTransition cfg r k w (Some t) s1 = (Inr u1, s2)"
    and "recordTransition cfg r TActivated w (Some t) s2 = (Inr u2, s3)"
    and "recordRunEvent cfg r ''transitioned'' (runningFields t) (Some w) s3 = (Inr u3, s4)"
  shows "store_ok b s4"
proof -
  have "ch" using updateRun_Inr [OF assms(7)] assms(2) by auto
  with assms(7) have up: "updateRun r (\<lambda>_. True) (setRowOwner w t) (s\<lparr>leases := l\<rparr>) = (Inr True, s1)" by simp
  from moved_start [OF assms(1,2,4) up] obtain f where f: "mirrors b r row f" "run_check r (setRowOwner w t row)"
    "moved r (setRowOwner w t row) f s s1" .
  have t: "safeMs t" using f(2) by (simp add: run_check_groups validIdentity_def)
  then have t': "pred_option isSafeInteger (Some t)" by (simp add: safeMs_isSafe)
  from moved_transitioned [OF moved_transition [OF moved_transition [OF f(3) assms(8,6) t'] assms(9,6) t'] assms(10)]
  have "moved r (setRowOwner w t row)
      (transitionedRow (runningFields t) (consensusRow ''flows.consensus.activated'' w (Some t) f)) s s4"
    using consensusRow_activated_claimed [OF assms(5)] by simp
  moreover have "mirrors b r (setRowOwner w t row)
      (transitionedRow (runningFields t) (consensusRow ''flows.consensus.activated'' w (Some t) f))"
    using mirrors_own [OF f(1) _ t, of w t] f(2) setRowOwner_free [OF assms(3), of w t] by simp
  ultimately show ?thesis using moved_end [OF assms(1,2)] by simp
qed

end

context store_fold
begin

lemma claimAndOwn_ok:
  assumes "store_ok b s" "plainOwner (rules cfg) w" "claimAndOwn cfg r expected w t ev s = (x, s')"
  shows "store_ok b s'"
proof (cases "canReplaceExpectedOwner expected w t ev")
  case False
  with assms show ?thesis by (auto simp: claimAndOwn_def Let_def)
next
  case True
  let ?k = "case snap_owner expected of None \<Rightarrow> TClaimed | Some x \<Rightarrow> if sameOwner x w then TClaimed else TStolen"
  note keep = keeps_claimAndOwnBody
  have body: "store_ok b s2" if ok: "store_ok b s0" and run: "claimAndOwnBody cfg r expected w t ev s0 = (Inr a, s2)" for s0 a s2
  proof (cases "ownAdmissible (runRows s0 r) expected t")
    case False
    with run have "s2 = s0" by (simp add: claimAndOwnBody_def selectRun_def)
    with ok show ?thesis by simp
  next
    case True
    note i = store_ok_inv [OF ok]
    from True obtain row where row: "runRows s0 r = Some row" "claimColumnsFree row"
      by (auto simp: ownAdmissible_def split: option.splits)
    let ?loss = "classifyClaimLoss (Some row) t"
    let ?act = "\<lambda>g. bindT (activateT cfg r w g t) (\<lambda>activation. case activation of
               ActivateLost \<Rightarrow> bindT (releaseT cfg r w) (\<lambda>_. retT ?loss)
             | Activated \<Rightarrow>
                 bindT (updateRun r (\<lambda>_. True) (setRowOwner w t)) (\<lambda>_.
                 bindT (recordTransition cfg r ?k w (Some g)) (\<lambda>_.
                 bindT (recordTransition cfg r TActivated w (Some g)) (\<lambda>_.
                 bindT (recordRunEvent cfg r ''transitioned'' (runningFields t) (Some w)) (\<lambda>_.
                 retT OActivated)))))"
    from run True row obtain grant s1 where g: "grantFor cfg r (snap_owner expected) w t ev s0 = (Inr grant, s1)"
      and rest: "(case grant of Rejected _ \<Rightarrow> retT ?loss | Claimed g \<Rightarrow> ?act g) s1 = (Inr a, s2)"
      unfolding claimAndOwnBody_def selectRun_def bindT_getT by (auto simp: bindT_Inr [of "grantFor _ _ _ _ _ _"] simp del: cfg_consensus sameOwner_iff)
    from grantFor_Inr [OF g] obtain l where s1: "s1 = s0\<lparr>leases := l\<rparr>" by blast
    have l: "inv l" using keeps_grantFor g i s1 unfolding keeps_def by fastforce
    show ?thesis
    proof (cases grant)
      case (Rejected x)
      with rest s1 store_ok_leases [OF ok l] show ?thesis by simp
    next
      case (Claimed g')
      with grantFor_granted [OF i] g have g': "g' = t" by blast
      from rest Claimed s1 obtain act l' where act: "c_activate (consensus cfg) r w t t l = (Inr act, l')"
        and rest': "(case act of
               ActivateLost \<Rightarrow> bindT (releaseT cfg r w) (\<lambda>_. retT ?loss)
             | Activated \<Rightarrow>
                 bindT (updateRun r (\<lambda>_. True) (setRowOwner w t)) (\<lambda>_.
                 bindT (recordTransition cfg r ?k w (Some t)) (\<lambda>_.
                 bindT (recordTransition cfg r TActivated w (Some t)) (\<lambda>_.
                 bindT (recordRunEvent cfg r ''transitioned'' (runningFields t) (Some w)) (\<lambda>_.
                 retT OActivated))))) (s0\<lparr>leases := l'\<rparr>) = (Inr a, s2)"
        unfolding g' by (auto simp: bindT_Inr [of "consensusT _"] consensusT_Inr simp del: cfg_consensus sameOwner_iff)
      have l': "inv l'" by (rule strategy_inv(2) [OF l act [unfolded cfg_consensus]])
      show ?thesis
      proof (cases act)
        case ActivateLost
        with rest' obtain l2 where "c_release S r w l' = (Inr (), l2)" "s2 = s0\<lparr>leases := l2\<rparr>"
          by (auto simp: bindT_Inr consensusT_Inr)
        with store_ok_leases [OF ok strategy_inv(4) [OF l']] show ?thesis by blast
      next
        case Activated
        with rest' obtain ch s3 s4 s5 where "updateRun r (\<lambda>_. True) (setRowOwner w t) (s0\<lparr>leases := l'\<rparr>) = (Inr ch, s3)"
          "recordTransition cfg r ?k w (Some t) s3 = (Inr (), s4)"
          "recordTransition cfg r TActivated w (Some t) s4 = (Inr (), s5)"
          "recordRunEvent cfg r ''transitioned'' (runningFields t) (Some w) s5 = (Inr (), s2)"
          by (auto simp: bindT_Inr)
        moreover have "?k = TClaimed \<or> ?k = TStolen" by (simp split: option.splits)
        ultimately show ?thesis using own_tail [OF ok row l' _ assms(2)] by blast
      qed
    qed
  qed
  from assms(3) True have "writeThrough cfg ''claimAndOwn'' (claimAndOwnBody cfg r expected w t ev) s = (x, s')"
    by (simp add: claimAndOwn_def)
  then show ?thesis by (rule writeThrough_ok [OF assms(1) keep]) (rule body)
qed

end

context store_fold
begin

text \<open>
  \<open>activate\<close> mirrors its success exactly. When it finds that the snapshot moved or that the strategy no
  longer holds the claim, it drops the claim columns with no event, so only the weaker relation holds.
\<close>

lemma drop_ok:
  assumes "store_ok False s" "inv l"
    and "updateRun r (\<lambda>row. rowMatchesClaim row w t) clearRowClaim (s\<lparr>leases := l\<rparr>) = (Inr ch, s')"
  shows "store_ok False s'"
proof (cases ch)
  case False
  with updateRun_Inr [OF assms(3)] store_ok_leases [OF assms(1,2)] show ?thesis by simp
next
  case True
  with updateRun_Inr [OF assms(3)] obtain row where row: "runRows s r = Some row" by auto
  have up: "updateRun r (\<lambda>row. rowMatchesClaim row w t) clearRowClaim (s\<lparr>leases := l\<rparr>) = (Inr True, s')"
    using True assms(3) by simp
  from moved_start [OF assms(1) row assms(2) up]
  obtain f where "mirrors False r row f" "moved r (clearRowClaim row) f s s'" .
  then show ?thesis using moved_end [OF assms(1) row] mirrors_drop by simp
qed

lemma activate_tail:
  assumes "store_ok b s" "runRows s r = Some row" "inv l" "plainOwner (rules cfg) w" "safeMs t"
    and "updateRun r (\<lambda>_. True) (\<lambda>row. clearRowClaim (setRowOwner w now row)) (s\<lparr>leases := l\<rparr>) = (Inr ch, s1)"
    and "recordTransition cfg r TActivated w (Some t) s1 = (Inr u1, s2)"
    and "recordRunEvent cfg r ''transitioned'' (runningFields now) (Some w) s2 = (Inr u2, s3)"
  shows "store_ok b s3"
proof -
  let ?m = "\<lambda>row. clearRowClaim (setRowOwner w now row)"
  have "ch" using updateRun_Inr [OF assms(6)] assms(2) by auto
  with assms(6) have up: "updateRun r (\<lambda>_. True) ?m (s\<lparr>leases := l\<rparr>) = (Inr True, s1)" by simp
  from moved_start [OF assms(1,2,3) up] obtain f where f: "mirrors b r row f" "run_check r (?m row)"
    "moved r (?m row) f s s1" .
  have "pred_option isSafeInteger (Some t)" using assms(5) by (simp add: safeMs_isSafe)
  from moved_transitioned [OF moved_transition [OF f(3) assms(7,4) this] assms(8)]
  have "moved r (?m row) (transitionedRow (runningFields now) (consensusRow ''flows.consensus.activated'' w (Some t) f)) s s3"
    by simp
  with moved_end [OF assms(1,2) _ mirrors_own [OF f(1,2) assms(5)]] show ?thesis by simp
qed

lemma activate_ok:
  assumes "store_ok b s" "plainOwner (rules cfg) w" "activate cfg r w t expected s = (x, s')"
    and "b \<longrightarrow> x = Inr OActivated \<or> isl x"
  shows "store_ok b s'"
proof -
  let ?drop = "updateRun r (\<lambda>row. rowMatchesClaim row w t) clearRowClaim"
  note keep = keeps_activateBody
  have body: "store_ok b s2" if ok: "store_ok b s0" and run: "activateBody cfg r w t expected now s0 = (Inr a, s2)"
    and a: "b \<longrightarrow> a = OActivated" for s0 a s2 now
  proof (cases "\<exists>row. runRows s0 r = Some row \<and> rowMatchesClaim row w t")
    case False
    with run have "s2 = s0" by (auto simp: activateBody_def Let_def selectRun_def split: option.splits)
    with ok show ?thesis by simp
  next
    case True
    then obtain row where row: "runRows s0 r = Some row" "rowMatchesClaim row w t" by blast
    note i = store_ok_inv [OF ok]
    show ?thesis
    proof (cases "snapshotMatchesRow row expected")
      case False
      with run row obtain l ch where "c_release S r w (leases s0) = (Inr (), l)" "?drop (s0\<lparr>leases := l\<rparr>) = (Inr ch, s2)"
        "a = OSnapshotChanged"
        by (auto simp: activateBody_def Let_def selectRun_def bindT_Inr consensusT_Inr)
      with drop_ok [OF _ strategy_inv(4) [OF i]] ok a show ?thesis by (cases b) auto
    next
      case True
      with run row obtain act l where act: "c_activate (consensus cfg) r w t now (leases s0) = (Inr act, l)"
        and rest: "(case act of
            ActivateLost \<Rightarrow> bindT ?drop (\<lambda>_. retT OClaimLost)
          | Activated \<Rightarrow>
              bindT (updateRun r (\<lambda>_. True) (\<lambda>row. clearRowClaim (setRowOwner w now row))) (\<lambda>_.
              bindT (recordTransition cfg r TActivated w (Some t)) (\<lambda>_.
              bindT (recordRunEvent cfg r ''transitioned'' (runningFields now) (Some w)) (\<lambda>_.
              retT OActivated)))) (s0\<lparr>leases := l\<rparr>) = (Inr a, s2)"
        by (auto simp: activateBody_def Let_def selectRun_def bindT_Inr [of "consensusT _"] consensusT_Inr simp del: cfg_consensus)
      have l: "inv l" by (rule strategy_inv(2) [OF i act [unfolded cfg_consensus]])
      show ?thesis
      proof (cases act)
        case ActivateLost
        with rest obtain ch where "?drop (s0\<lparr>leases := l\<rparr>) = (Inr ch, s2)" "a = OClaimLost" by (auto simp: bindT_Inr)
        with drop_ok [OF _ l] ok a show ?thesis by (cases b) auto
      next
        case Activated
        from ok row have "safeMs t"
          by (auto simp: store_ok_def rowMatchesClaim_def mirrors_def run_check_groups claimCheck_def optSafe_def
              elim!: mirrored_runE)
        with Activated rest show ?thesis
          using activate_tail [OF ok row(1) l assms(2)] by (auto simp: bindT_Inr)
      qed
    qed
  qed
  from assms(3) have "withClock (\<lambda>now. writeThrough cfg ''activate'' (activateBody cfg r w t expected now)) s = (x, s')"
    by (simp add: activate_def)
  then show ?thesis
  proof (rule withClock_ok [OF assms(1)])
    fix s0 now
    assume a: "store_ok b s0" "writeThrough cfg ''activate'' (activateBody cfg r w t expected now) s0 = (x, s')"
    show "store_ok b s'"
    proof (cases x)
      case (Inl e)
      show ?thesis
        using a Inl keep transact_Inl_ok [OF a(1) keeps_steady [OF keep]]
        by (auto simp: writeThrough_def split: prod.splits sum.splits)
    next
      case (Inr y)
      with a(2) have "transact cfg (activateBody cfg r w t expected now) s0 = (Inr y, s')"
        by (auto simp: writeThrough_def split: prod.splits sum.splits)
      moreover have y: "b \<longrightarrow> y = OActivated" using Inr assms(4) by auto
      ultimately show ?thesis by (elim transact_Inr_ok [OF a(1)]) (rule body [OF _ _ y])
    qed
  qed
qed

end

end
