(* ===== verification/Attempt_Mirror.thy ===== *)
theory Attempt_Mirror
  imports Store_Mirror
begin

text \<open>
  Every operation of the attempt store keeps the attempt table mirrored in the journal; a heartbeat
  without a checkpoint writes no event and moves only the heartbeat column.
\<close>

section \<open>Attempt events and the fold\<close>

lemma map_of_present [simp]: "map_of (present k v) = (\<lambda>x. if x = k then v else None)"
  by (cases v) auto

lemma attempt_payload:
  assumes "entryOf cfg (attemptInput r kind fs) e"
  shows "runId e = r" "eventType e = ''flows.attempt.'' @ kind" "payload e = JObj fs"
  using assms by (simp_all add: entryOf_def attemptInput_def scrubbed_def)

lemma reduce_put:
  assumes "entryOf cfg (attemptInput r ''put'' fs) e" "putRow r d n fs = Some f"
    and "stringOrNull (map_of fs ''stepKeyDigest'') = Some d" "numberOrNull (map_of fs ''attempt'') = Some n"
  shows "reduceSync st e = st\<lparr>foldAttempts := (foldAttempts st)(attemptKey r d n \<mapsto> f)\<rparr>"
  using attempt_payload [OF assms(1)] assms(2-4) by (simp add: reduceSync_def applyAttemptEvent_def)

lemma reduce_mutate:
  assumes "entryOf cfg (attemptInput r kind fs) e" "kind = ''checkpointed'' \<or> kind = ''finished'' \<or> kind = ''patched''"
    and "stringOrNull (map_of fs ''stepKeyDigest'') = Some d" "numberOrNull (map_of fs ''attempt'') = Some n"
    and "foldAttempts st (attemptKey r d n) = Some f"
  shows "reduceSync st e
    = st\<lparr>foldAttempts := (foldAttempts st)(attemptKey r d n \<mapsto> mutateAttempt (''flows.attempt.'' @ kind) fs f)\<rparr>"
  using attempt_payload [OF assms(1)] assms(2-5) by (auto simp: reduceSync_def applyAttemptEvent_def)

lemma mirrored_attempt:
  assumes "mirrored F b s" "evs_ok (events s')" "runRows s' = runRows s" "attemptRows s' = (attemptRows s)((r, d, n) \<mapsto> row')"
    and "foldRuns (F (events s')) = foldRuns (F (events s))"
    and "foldAttempts (F (events s')) = (foldAttempts (F (events s)))(attemptKey r d n \<mapsto> f')"
    and "attMirrors (r, d, n) row' f'" "runRows s r \<noteq> None"
  shows "mirrored F b s'"
  using assms by (auto simp: mirrored_def attemptKey_inject) blast

lemma mirrored_attE:
  assumes "mirrored F b s" "attemptRows s (r, d, n) = Some row"
  obtains f where "foldAttempts (F (events s)) (attemptKey r d n) = Some f" "attMirrors (r, d, n) row f"
proof -
  from assms(1) have "rel_option (attMirrors (r, d, n)) (attemptRows s (r, d, n)) (foldAttempts (F (events s)) (attemptKey r d n))"
    by (simp add: mirrored_def)
  with assms that show thesis by (cases "foldAttempts (F (events s)) (attemptKey r d n)") auto
qed

lemma AttemptRow_eq_iff:
  "(a :: AttemptRow) = b \<longleftrightarrow> a_state a = a_state b \<and> a_startedAtMs a = a_startedAtMs b \<and> a_finishedAtMs a = a_finishedAtMs b
     \<and> a_heartbeatAtMs a = a_heartbeatAtMs b \<and> a_checkpointJson a = a_checkpointJson b \<and> a_errorJson a = a_errorJson b
     \<and> a_outcomeJson a = a_outcomeJson b \<and> a_metaJson a = a_metaJson b"
  by (cases a; cases b) auto

lemmas att_defs = attMirrors_def attemptOfFold_def AttemptRow_eq_iff

lemma put_mirrors:
  assumes "attempt_check (key (at_id a)) (attemptRowOf a)"
  shows "\<exists>f. putRow (id_runId (at_id a)) (id_stepKeyDigest (at_id a)) (id_attempt (at_id a)) (putPayload a) = Some f
    \<and> attMirrors (key (at_id a)) (attemptRowOf a) f"
proof -
  have safe: "isSafeInteger (at_startedAtMs a)" "pred_option isSafeInteger (at_finishedAtMs a)"
    using assms by (auto simp: attempt_check_def key_def attemptRowOf_def optSafe_def safeMs_isSafe split: option.splits)
  from safe(2) have fin: "numberOrNull (map_option JInt (at_finishedAtMs a)) = at_finishedAtMs a"
    by (cases "at_finishedAtMs a") auto
  show ?thesis using assms safe(1) fin
    by (auto simp: putRow_def putPayload_def idFields_def jsonColumn_def map_add_def att_defs attemptRowOf_def
        split: option.splits)
qed

lemma finish_mirrors:
  assumes "attMirrors k row f" "attempt_check k (finishedRow fi row)"
  shows "attMirrors k (finishedRow fi row) (mutateAttempt ''flows.attempt.finished''
     (idFields (fi_id fi) @ [(''state'', JStr (fi_state fi)), (''finishedAtMs'', JInt (fi_finishedAtMs fi))]
      @ present ''error'' (fi_error fi) @ present ''outcome'' (fi_outcome fi) @ present ''meta'' (fi_meta fi)) f)"
proof -
  have "isSafeInteger (fi_finishedAtMs fi)"
    using assms(2) by (auto simp: attempt_check_def finishedRow_def optSafe_def safeMs_isSafe split: prod.splits)
  with assms show ?thesis
    by (simp add: mutateAttempt_def idFields_def patchJson_def patchMeta_def map_add_def att_defs finishedRow_def
        split: option.splits)
qed

lemma patch_mirrors:
  assumes "attMirrors k row f" "attempt_check k (patchedRow p row)"
  shows "attMirrors k (patchedRow p row) (mutateAttempt ''flows.attempt.patched''
     (idFields i @ present ''checkpoint'' (pa_checkpoint p) @ present ''error'' (pa_error p)
      @ present ''outcome'' (pa_outcome p) @ present ''meta'' (pa_meta p)) f)"
  using assms
  by (simp add: mutateAttempt_def idFields_def patchJson_def patchMeta_def map_add_def att_defs patchedRow_def
        split: option.splits)

lemma checkpoint_mirrors:
  assumes "attMirrors k row f"
    and "attempt_check k (row\<lparr>a_heartbeatAtMs := Some t, a_checkpointJson := Some (stringify v)\<rparr>)"
  shows "attMirrors k (row\<lparr>a_heartbeatAtMs := Some t, a_checkpointJson := Some (stringify v)\<rparr>)
     (mutateAttempt ''flows.attempt.checkpointed'' (idFields i @ [(''checkpoint'', v)]) f)"
  using assms by (simp add: mutateAttempt_def idFields_def jsonColumn_def att_defs)

section \<open>Statements\<close>

lemma putAttemptRow_Inr:
  "putAttemptRow k row s = (Inr u, s') \<longleftrightarrow> attempt_check k row \<and> runRows s (fst k) \<noteq> None
     \<and> s' = s\<lparr>attemptRows := (attemptRows s)(k \<mapsto> row)\<rparr>"
  by (auto simp: putAttemptRow_def)

lemma updateAttempt_Inr:
  assumes "updateAttempt i w p f s = (Inr ch, s')"
  shows "(ch \<longrightarrow> (\<exists>row. attemptRows s (key i) = Some row \<and> p row \<and> fenced (id_runId i) w s
        \<and> attempt_check (key i) (f row) \<and> runRows s (id_runId i) \<noteq> None
        \<and> s' = s\<lparr>attemptRows := (attemptRows s)(key i \<mapsto> f row)\<rparr>)) \<and> (\<not> ch \<longrightarrow> s' = s)"
  using assms by (auto simp: updateAttempt_def bindT_Inr putAttemptRow_Inr key_def split: option.splits if_splits)

lemma insertAttempt_Inr:
  assumes "insertAttempt a w s = (Inr ch, s')"
  shows "(ch \<longrightarrow> attemptRows s (key (at_id a)) = None \<and> fenced (id_runId (at_id a)) w s
        \<and> attempt_check (key (at_id a)) (attemptRowOf a) \<and> runRows s (id_runId (at_id a)) \<noteq> None
        \<and> s' = s\<lparr>attemptRows := (attemptRows s)(key (at_id a) \<mapsto> attemptRowOf a)\<rparr>) \<and> (\<not> ch \<longrightarrow> s' = s)"
  using assms by (auto simp: insertAttempt_def bindT_Inr putAttemptRow_Inr key_def split: if_splits)

lemma classifyAttempt_state: "classifyAttempt i w s = (x, s') \<Longrightarrow> s' = s"
  by (auto simp: classifyAttempt_def selectRun_def split: option.splits if_splits)

context journal_service
begin

lemma keeps_attempt [intro!]:
  "keeps (putAttemptRow k row)" "keeps (updateAttempt i w p f)" "keeps (insertAttempt a w)" "keeps (classifyAttempt i w)"
  by (auto simp: keeps_def putAttemptRow_def updateAttempt_def insertAttempt_def bindT_def retT_def
      dest: classifyAttempt_state split: option.splits if_splits prod.splits sum.splits)

end

context store_fold
begin

lemma writeAttempt_ok:
  assumes "store_ok b s" "keeps body" "writeAttempt cfg body s = (x, s')"
    and "\<And>s0 a s1. store_ok b s0 \<Longrightarrow> body s0 = (Inr a, s1) \<Longrightarrow> store_ok b s1"
  shows "store_ok b s'"
proof -
  obtain y s1 where t: "transact cfg body s = (y, s1)" by fastforce
  with assms(3) have "s' = s1" by (auto simp: writeAttempt_def split: sum.splits if_splits)
  with transact_ok [OF assms(1) keeps_steady [OF assms(2)] t assms(4)] show ?thesis by simp
qed

text \<open>The attempt row moved, then the event that moves its folded row.\<close>

lemma attempt_append:
  assumes "store_ok b s" "s1 = s\<lparr>attemptRows := (attemptRows s)((r, d, n) \<mapsto> row')\<rparr>" "runRows s r \<noteq> None"
    and "recordAttemptEvent cfg r w kind fs s1 = (Inr u, s2)" "attMirrors (r, d, n) row' f'"
    and "\<And>e. entryOf cfg (attemptInput r kind fs) e \<Longrightarrow>
      reduceSync (F (events s)) e = (F (events s))\<lparr>foldAttempts := (foldAttempts (F (events s)))(attemptKey r d n \<mapsto> f')\<rparr>"
  shows "store_ok b s2"
proof -
  have i: "inv (leases s1)" "evs_ok (events s1)" using assms(1,2) by (simp_all add: store_ok_def mirrored_def)
  from assms(4) obtain rc where rc: "emitDurable cfg (attemptInput r kind fs) (Some w) s1 = (Inr rc, s2)"
    by (auto simp: recordAttemptEvent_def)
  have "in_sourceSeq (attemptInput r kind fs) = None" by (simp add: attemptInput_def)
  from emit_fresh [OF i this rc] obtain e where e: "frame s1 s2" "entryOf cfg (attemptInput r kind fs) e"
    "events s2 = events s1 @ [e]" .
  have m: "mirrored F b s" using assms(1) by (simp add: store_ok_def)
  have "F (events s @ [e]) = reduceSync (F (events s)) e" using assms(1) by (simp add: store_ok_def F_snoc)
  then have "mirrored F b s2"
    using assms(2,3,5) e(3) assms(6) [OF e(2)] frame_store [OF e(1)] emit_evs_ok [OF i rc]
    by (intro mirrored_attempt [OF m, of s2 r d n row' f']) simp_all
  with assms(1,2) e(1,3) show ?thesis by (simp add: store_ok_def clock_ok_def frame_def)
qed

text \<open>A row moved in columns that are not journaled.\<close>

lemma attempt_silent:
  assumes "store_ok b s" "attemptRows s (r, d, n) = Some row" "runRows s r \<noteq> None"
    and "attempt_check (r, d, n) row'" "row'\<lparr>a_heartbeatAtMs := None\<rparr> = row\<lparr>a_heartbeatAtMs := None\<rparr>"
  shows "store_ok b (s\<lparr>attemptRows := (attemptRows s)((r, d, n) \<mapsto> row')\<rparr>)"
proof -
  have m: "mirrored F b s" using assms(1) by (simp add: store_ok_def)
  obtain f where f: "foldAttempts (F (events s)) (attemptKey r d n) = Some f" "attMirrors (r, d, n) row f"
    by (rule mirrored_attE [OF m assms(2)])
  have "mirrored F b (s\<lparr>attemptRows := (attemptRows s)((r, d, n) \<mapsto> row')\<rparr>)"
    using assms(3-5) f m by (intro mirrored_attempt [OF m, of _ r d n row' f]) (auto simp: attMirrors_def mirrored_def)
  with assms(1) show ?thesis by (simp add: store_ok_def clock_ok_def)
qed

end

context journal_service
begin

lemma keeps_putBody: "keeps (putBody cfg opts a w)"
  by (auto simp: putBody_def Let_def split: option.splits)

lemma keeps_attemptHeartbeatBody: "keeps (attemptHeartbeatBody cfg opts i w t c)"
  by (auto simp: attemptHeartbeatBody_def split: option.splits)

lemma keeps_finishBody: "keeps (finishBody cfg opts f w)"
  by (auto simp: finishBody_def)

lemma keeps_patchBody: "keeps (patchBody cfg i p w)"
  by (auto simp: patchBody_def)

lemma writeAttempt_extends:
  assumes "inv (leases s)" "keeps body" "writeAttempt cfg body s = (x, s')"
  shows "extends s s'"
proof -
  obtain y s1 where t: "transact cfg body s = (y, s1)" by fastforce
  with assms(3) have "s' = s1" by (auto simp: writeAttempt_def split: sum.splits if_splits)
  with transact_extends [OF assms(1,2) t] show ?thesis by simp
qed

lemma attempt_ops_extend:
  fixes s :: "'l store"
  assumes "inv (leases s)"
  shows "put cfg opts a w s = (x, s') \<Longrightarrow> extends s s'"
    "attemptHeartbeat cfg opts i w t c s = (x, s') \<Longrightarrow> extends s s'"
    "finish cfg opts f w s = (x, s') \<Longrightarrow> extends s s'"
    "patch cfg opts i p w s = (x, s') \<Longrightarrow> extends s s'"
  using assms
  by (auto simp: put_def attemptHeartbeat_def finish_def patch_def split: if_splits
      intro: writeAttempt_extends [OF assms keeps_putBody] writeAttempt_extends [OF assms keeps_attemptHeartbeatBody]
        writeAttempt_extends [OF assms keeps_finishBody] writeAttempt_extends [OF assms keeps_patchBody])

end

section \<open>Operations of the attempt store\<close>

lemma attempt_check_safe: "attempt_check (key i) row \<Longrightarrow> isSafeInteger (id_attempt i)"
  by (auto simp: attempt_check_def key_def safeMs_isSafe)

lemma idFields_lookup:
  "isSafeInteger (id_attempt i) \<Longrightarrow> stringOrNull (map_of (idFields i @ fs) ''stepKeyDigest'') = Some (id_stepKeyDigest i)"
  "isSafeInteger (id_attempt i) \<Longrightarrow> numberOrNull (map_of (idFields i @ fs) ''attempt'') = Some (id_attempt i)"
  by (simp_all add: idFields_def)

context store_fold
begin

lemma mutate_ok:
  assumes "store_ok b s" "attemptRows s (key i) = Some row" "attempt_check (key i) row'" "runRows s (id_runId i) \<noteq> None"
    and "recordAttemptEvent cfg (id_runId i) w kind (idFields i @ fs) (s\<lparr>attemptRows := (attemptRows s)(key i \<mapsto> row')\<rparr>) = (Inr u, s2)"
    and "kind = ''checkpointed'' \<or> kind = ''finished'' \<or> kind = ''patched''"
    and "\<And>f. attMirrors (key i) row f \<Longrightarrow> attMirrors (key i) row' (mutateAttempt (''flows.attempt.'' @ kind) (idFields i @ fs) f)"
  shows "store_ok b s2"
proof -
  have m: "mirrored F b s" using assms(1) by (simp add: store_ok_def)
  obtain f where f: "foldAttempts (F (events s)) (attemptKey (id_runId i) (id_stepKeyDigest i) (id_attempt i)) = Some f"
    "attMirrors (key i) row f"
    using mirrored_attE [OF m assms(2) [unfolded key_def]] unfolding key_def .
  note safe = attempt_check_safe [OF assms(3)]
  show ?thesis
    by (rule attempt_append [where d = "id_stepKeyDigest i" and n = "id_attempt i"
          and f' = "mutateAttempt (''flows.attempt.'' @ kind) (idFields i @ fs) f",
          OF assms(1) refl assms(4) assms(5) [unfolded key_def] assms(7) [OF f(2), unfolded key_def]])
      (rule reduce_mutate [OF _ assms(6) idFields_lookup [OF safe] f(1)])
qed

lemma put_tail:
  assumes "store_ok b s" "attempt_check (key (at_id a)) (attemptRowOf a)" "runRows s (id_runId (at_id a)) \<noteq> None"
    and "recordAttemptEvent cfg (id_runId (at_id a)) w ''put'' (putPayload a)
      (s\<lparr>attemptRows := (attemptRows s)(key (at_id a) \<mapsto> attemptRowOf a)\<rparr>) = (Inr u, s2)"
  shows "store_ok b s2"
proof -
  let ?i = "at_id a"
  from put_mirrors [OF assms(2)] obtain f where
    f: "putRow (id_runId ?i) (id_stepKeyDigest ?i) (id_attempt ?i) (putPayload a) = Some f"
      "attMirrors (key ?i) (attemptRowOf a) f" by blast
  note safe = attempt_check_safe [OF assms(2)]
  have "stringOrNull (map_of (putPayload a) ''stepKeyDigest'') = Some (id_stepKeyDigest ?i)"
    "numberOrNull (map_of (putPayload a) ''attempt'') = Some (id_attempt ?i)"
    using idFields_lookup [OF safe] by (simp_all only: putPayload_def)
  note lookup = this
  show ?thesis
    by (rule attempt_append [where f' = f, OF assms(1) refl assms(3) assms(4) [unfolded key_def] f(2) [unfolded key_def]])
      (rule reduce_put [OF _ f(1) lookup])
qed

lemma put_ok:
  assumes "store_ok b s" "put cfg opts a w s = (x, s')"
  shows "store_ok b s'"
proof (cases "validateId (at_id a) \<and> validAttempt a \<and> checkpointFits opts (at_checkpoint a)")
  case False
  with assms show ?thesis by (auto simp: put_def split: if_splits)
next
  case True
  let ?r = "id_runId (at_id a)"
  note keep = keeps_putBody
  have body: "store_ok b s2" if ok: "store_ok b s0" and run: "putBody cfg opts a w s0 = (Inr res, s2)" for s0 res s2
  proof -
    let ?rec = "recordAttemptEvent cfg ?r w ''put'' (putPayload a)"
    let ?tail = "bindT (selectRun ?r) (\<lambda>rowO. case rowO of
          None \<Rightarrow> retT ARunNotFound
        | Some run \<Rightarrow>
            if \<not> ownsRunningRun run w then retT AFenceLost
            else bindT (getT (\<lambda>s. attemptRows s (key (at_id a)))) (\<lambda>existing. case existing of
                None \<Rightarrow> failT (COther ''attempt disappeared during put'')
              | Some row \<Rightarrow> retT (if sameAttempt row a then AExistingSame else AConflict)))"
    let ?up = "if upsert opts then updateAttempt (at_id a) w (\<lambda>_. True) (\<lambda>_. attemptRowOf a) else retT False"
    from run obtain ins s1 where i: "insertAttempt a w s0 = (Inr ins, s1)"
      and rest: "(if ins then bindT ?rec (\<lambda>_. retT AInserted)
        else bindT ?up (\<lambda>replaced. if replaced then bindT ?rec (\<lambda>_. retT AUpserted) else ?tail)) s1 = (Inr res, s2)"
      unfolding putBody_def Let_def bindT_Inr [of "insertAttempt a w"] by blast
    show ?thesis
    proof (cases ins)
      case True
      with insertAttempt_Inr [OF i] rest put_tail [OF ok] show ?thesis by (auto simp: bindT_Inr)
    next
      case False
      with insertAttempt_Inr [OF i] rest obtain rep s3 where u: "?up s0 = (Inr rep, s3)"
        and rest': "(if rep then bindT ?rec (\<lambda>_. retT AUpserted) else ?tail) s3 = (Inr res, s2)"
        by (auto simp: bindT_Inr [of ?up])
      show ?thesis
      proof (cases rep)
        case True
        with u have "updateAttempt (at_id a) w (\<lambda>_. True) (\<lambda>_. attemptRowOf a) s0 = (Inr True, s3)" by (auto split: if_splits)
        with updateAttempt_Inr [OF this] True rest' put_tail [OF ok] show ?thesis by (auto simp: bindT_Inr)
      next
        case False
        then have "s3 = s0" using u
          by (cases "upsert opts") (auto dest: updateAttempt_Inr [where f = "\<lambda>_. attemptRowOf a"])
        moreover have "s2 = s3" using rest' False by (auto simp: selectRun_def split: option.splits if_splits)
        ultimately show ?thesis using ok by simp
      qed
    qed
  qed
  from assms(2) True have "writeAttempt cfg (putBody cfg opts a w) s = (x, s')" by (simp add: put_def)
  then show ?thesis by (rule writeAttempt_ok [OF assms(1) keep]) (rule body)
qed

end

context store_fold
begin

lemma attemptHeartbeat_ok:
  assumes "store_ok b s" "attemptHeartbeat cfg opts i w t c s = (x, s')"
  shows "store_ok b s'"
proof (cases "validateId i \<and> isSafeInteger t \<and> 0 \<le> t \<and> checkpointFits opts c")
  case False
  with assms show ?thesis by (auto simp: attemptHeartbeat_def not_less split: if_splits)
next
  case True
  let ?m = "\<lambda>row. row\<lparr>a_heartbeatAtMs := Some t, a_checkpointJson := coalesce (map_option stringify c) (a_checkpointJson row)\<rparr>"
  let ?p = "\<lambda>row. a_state row \<in> set (inProgressStates opts)"
  note keep = keeps_attemptHeartbeatBody
  have body: "store_ok b s2" if ok: "store_ok b s0" and run: "attemptHeartbeatBody cfg opts i w t c s0 = (Inr res, s2)" for s0 res s2
  proof -
    from run obtain ch s1 where u: "updateAttempt i w ?p ?m s0 = (Inr ch, s1)"
      and rest: "(if ch then (case c of None \<Rightarrow> retT AUpdated
          | Some v \<Rightarrow> bindT (recordAttemptEvent cfg (id_runId i) w ''checkpointed'' (idFields i @ [(''checkpoint'', v)]))
               (\<lambda>_. retT AUpdated))
        else classifyAttempt i w) s1 = (Inr res, s2)"
      unfolding attemptHeartbeatBody_def bindT_Inr [of "updateAttempt _ _ _ _"] by blast
    show ?thesis
    proof (cases ch)
      case False
      with updateAttempt_Inr [OF u] rest classifyAttempt_state ok show ?thesis by fastforce
    next
      case True
      with updateAttempt_Inr [OF u] obtain row where row: "attemptRows s0 (key i) = Some row"
        "attempt_check (key i) (?m row)" "runRows s0 (id_runId i) \<noteq> None"
        "s1 = s0\<lparr>attemptRows := (attemptRows s0)(key i \<mapsto> ?m row)\<rparr>" by auto
      show ?thesis
      proof (cases c)
        case None
        with rest True have "s2 = s1" by simp
        with None row attempt_silent [OF ok, of "id_runId i" "id_stepKeyDigest i" "id_attempt i" row "?m row"]
        show ?thesis by (simp add: key_def)
      next
        case (Some v)
        with rest True have e: "recordAttemptEvent cfg (id_runId i) w ''checkpointed'' (idFields i @ [(''checkpoint'', v)]) s1 = (Inr (), s2)"
          by (auto simp: bindT_Inr)
        show ?thesis
          by (rule mutate_ok [OF ok row(1) row(2) row(3) e [unfolded row(4)]])
            (use Some row(2) in \<open>auto intro: checkpoint_mirrors\<close>)
      qed
    qed
  qed
  from assms(2) True have "writeAttempt cfg (attemptHeartbeatBody cfg opts i w t c) s = (x, s')"
    by (simp add: attemptHeartbeat_def)
  then show ?thesis by (rule writeAttempt_ok [OF assms(1) keep]) (rule body)
qed

lemma finish_ok:
  assumes "store_ok b s" "finish cfg opts f w s = (x, s')"
  shows "store_ok b s'"
proof (cases "validateId (fi_id f) \<and> \<not> (fi_state f = [] \<or> fi_state f \<in> set (inProgressStates opts)
           \<or> \<not> isSafeInteger (fi_finishedAtMs f) \<or> fi_finishedAtMs f < 0)")
  case False
  with assms show ?thesis by (auto simp: finish_def split: if_splits)
next
  case True
  let ?fs = "[(''state'', JStr (fi_state f)), (''finishedAtMs'', JInt (fi_finishedAtMs f))]
      @ present ''error'' (fi_error f) @ present ''outcome'' (fi_outcome f) @ present ''meta'' (fi_meta f)"
  note keep = keeps_finishBody
  have body: "store_ok b s2" if ok: "store_ok b s0" and run: "finishBody cfg opts f w s0 = (Inr res, s2)" for s0 res s2
  proof -
    from run obtain ch s1 where u: "updateAttempt (fi_id f) w (\<lambda>row. a_state row \<in> set (inProgressStates opts)) (finishedRow f) s0 = (Inr ch, s1)"
      and rest: "(if ch then bindT (recordAttemptEvent cfg (id_runId (fi_id f)) w ''finished'' (idFields (fi_id f) @ ?fs)) (\<lambda>_. retT AFinished)
        else classifyAttempt (fi_id f) w) s1 = (Inr res, s2)"
      unfolding finishBody_def bindT_Inr [of "updateAttempt _ _ _ _"] by blast
    show ?thesis
    proof (cases ch)
      case False
      with updateAttempt_Inr [OF u] rest classifyAttempt_state ok show ?thesis by fastforce
    next
      case True
      with updateAttempt_Inr [OF u] obtain row where row: "attemptRows s0 (key (fi_id f)) = Some row"
        "attempt_check (key (fi_id f)) (finishedRow f row)" "runRows s0 (id_runId (fi_id f)) \<noteq> None"
        "s1 = s0\<lparr>attemptRows := (attemptRows s0)(key (fi_id f) \<mapsto> finishedRow f row)\<rparr>" by auto
      from rest True have e: "recordAttemptEvent cfg (id_runId (fi_id f)) w ''finished'' (idFields (fi_id f) @ ?fs) s1 = (Inr (), s2)"
        by (auto simp: bindT_Inr)
      show ?thesis
        by (rule mutate_ok [OF ok row(1) row(2) row(3) e [unfolded row(4)]])
          (use finish_mirrors [OF _ row(2)] in \<open>simp_all\<close>)
    qed
  qed
  from assms(2) True have "writeAttempt cfg (finishBody cfg opts f w) s = (x, s')" by (simp add: finish_def)
  then show ?thesis by (rule writeAttempt_ok [OF assms(1) keep]) (rule body)
qed

lemma patchedRow_none:
  "pa_checkpoint p = None \<Longrightarrow> pa_error p = None \<Longrightarrow> pa_outcome p = None \<Longrightarrow> pa_meta p = None \<Longrightarrow> patchedRow p row = row"
  by (simp add: patchedRow_def)

lemma patch_ok:
  assumes "store_ok b s" "patch cfg opts i p w s = (x, s')"
  shows "store_ok b s'"
proof (cases "validateId i \<and> checkpointFits opts (pa_checkpoint p)")
  case False
  with assms show ?thesis by (auto simp: patch_def split: if_splits)
next
  case True
  let ?none = "pa_checkpoint p = None \<and> pa_error p = None \<and> pa_outcome p = None \<and> pa_meta p = None"
  let ?fs = "present ''checkpoint'' (pa_checkpoint p) @ present ''error'' (pa_error p)
      @ present ''outcome'' (pa_outcome p) @ present ''meta'' (pa_meta p)"
  note keep = keeps_patchBody
  have body: "store_ok b s2" if ok: "store_ok b s0" and run: "patchBody cfg i p w s0 = (Inr res, s2)" for s0 res s2
  proof -
    from run obtain ch s1 where u: "updateAttempt i w (\<lambda>_. True) (patchedRow p) s0 = (Inr ch, s1)"
      and rest: "(if ch then (if ?none then retT APatched
          else bindT (recordAttemptEvent cfg (id_runId i) w ''patched'' (idFields i @ ?fs)) (\<lambda>_. retT APatched))
        else bindT (getT (\<lambda>s. attemptRows s (key i))) (\<lambda>found. retT (if found = None then ANotFound else AFenceLost))) s1 = (Inr res, s2)"
      unfolding patchBody_def bindT_Inr [of "updateAttempt _ _ _ _"] by blast
    show ?thesis
    proof (cases ch)
      case False
      with updateAttempt_Inr [OF u] rest ok show ?thesis by simp
    next
      case True
      with updateAttempt_Inr [OF u] obtain row where row: "attemptRows s0 (key i) = Some row"
        "attempt_check (key i) (patchedRow p row)" "runRows s0 (id_runId i) \<noteq> None"
        "s1 = s0\<lparr>attemptRows := (attemptRows s0)(key i \<mapsto> patchedRow p row)\<rparr>" by auto
      show ?thesis
      proof (cases ?none)
        assume n: ?none
        then have "patchedRow p row = row" by (intro patchedRow_none) auto
        moreover have "s2 = s1" using rest True n by simp
        ultimately show ?thesis
          using row attempt_silent [OF ok, of "id_runId i" "id_stepKeyDigest i" "id_attempt i" row row] by (simp add: key_def)
      next
        assume n: "\<not> ?none"
        with rest True have e: "recordAttemptEvent cfg (id_runId i) w ''patched'' (idFields i @ ?fs) s1 = (Inr (), s2)"
          by (simp only: if_True if_False) (auto simp: bindT_Inr)
        show ?thesis
          by (rule mutate_ok [OF ok row(1) row(2) row(3) e [unfolded row(4)]])
            (use patch_mirrors [OF _ row(2), of _ i] in \<open>simp_all\<close>)
      qed
    qed
  qed
  from assms(2) True have "writeAttempt cfg (patchBody cfg i p w) s = (x, s')" by (simp add: patch_def)
  then show ?thesis by (rule writeAttempt_ok [OF assms(1) keep]) (rule body)
qed

end

end
