(* ===== verification/Fold_Local.thy ===== *)
theory Fold_Local
  imports Store_Mirror
begin

text \<open>
  The fold is local: what it makes of one run depends on that run's entries alone, so the entries of
  a run can be replayed by themselves, and the fold of a run may be resumed at a snapshot.
\<close>

section \<open>The part of a state that belongs to a run\<close>

abbreviation entriesOf :: "string \<Rightarrow> Entry list \<Rightarrow> Entry list" where
  "entriesOf r evs \<equiv> filter (\<lambda>e. runId e = r) evs"

definition sameRun :: "string \<Rightarrow> State \<Rightarrow> State \<Rightarrow> bool" where
  "sameRun r a b \<longleftrightarrow> foldRuns a r = foldRuns b r
     \<and> (\<forall>d n. foldAttempts a (attemptKey r d n) = foldAttempts b (attemptKey r d n))"

lemma sameRun_refl [simp]: "sameRun r a a"
  by (simp add: sameRun_def)

lemma sameRun_sym: "sameRun r a b \<Longrightarrow> sameRun r b a"
  by (simp add: sameRun_def)

lemma sameRun_trans: "sameRun r a b \<Longrightarrow> sameRun r b c \<Longrightarrow> sameRun r a c"
  by (simp add: sameRun_def)

lemma reduce_other: "runId e \<noteq> r \<Longrightarrow> sameRun r (reduceSync st e) st"
  by (auto simp: sameRun_def reduceSync_def applyRunEvent_other applyConsensusEvent_other applyAttemptEvent_other
      split: option.splits)

lemma applyRunEvent_local: "sameRun (runId e) a b \<Longrightarrow> sameRun (runId e) (applyRunEvent a e fs) (applyRunEvent b e fs)"
  by (auto simp: sameRun_def applyRunEvent_def Let_def split: option.splits)

lemma applyConsensusEvent_local:
  "sameRun (runId e) a b \<Longrightarrow> sameRun (runId e) (applyConsensusEvent a e fs) (applyConsensusEvent b e fs)"
  by (auto simp: sameRun_def applyConsensusEvent_def split: option.splits)

lemma applyAttemptEvent_local:
  "sameRun (runId e) a b \<Longrightarrow> sameRun (runId e) (applyAttemptEvent a e fs) (applyAttemptEvent b e fs)"
  by (auto simp: sameRun_def applyAttemptEvent_def Let_def split: option.splits)

lemma reduce_local: "sameRun r a b \<Longrightarrow> sameRun r (reduceSync a e) (reduceSync b e)"
proof (cases "runId e = r")
  case True
  assume "sameRun r a b"
  with True applyRunEvent_local [of e a b] applyConsensusEvent_local [of e a b] applyAttemptEvent_local [of e a b]
  show ?thesis by (auto simp: reduceSync_def split: option.splits)
next
  case False
  assume "sameRun r a b"
  with False show ?thesis by (meson reduce_other sameRun_sym sameRun_trans)
qed

lemma foldl_local:
  "sameRun r a b \<Longrightarrow> sameRun r (foldl reduceSync a es) (foldl reduceSync b (entriesOf r es))"
proof (induction es arbitrary: a b)
  case (Cons e es)
  have "sameRun r (reduceSync a e) (if runId e = r then reduceSync b e else b)"
    using Cons.prems by (auto intro: reduce_local sameRun_trans [OF reduce_other])
  from Cons.IH [OF this] show ?case by (auto split: if_splits)
qed simp

lemma fold_entriesOf: "sameRun r (foldEntries evs) (foldEntries (entriesOf r evs))"
  unfolding foldEntries_def by (rule foldl_local) simp

section \<open>Attempt keys only ever appear\<close>

text \<open>The key an entry inserts, whatever was there.\<close>

definition puts :: "Entry \<Rightarrow> string \<Rightarrow> bool" where
  "puts e k \<longleftrightarrow> foldAttempts (reduceSync emptyState e) k \<noteq> None"

lemma reduce_attempts:
  "foldAttempts (reduceSync st e) k \<noteq> None \<longleftrightarrow> foldAttempts st k \<noteq> None \<or> puts e k"
  by (auto simp: puts_def reduceSync_def applyAttemptEvent_def emptyState_def Let_def
      applyRunEvent_other applyConsensusEvent_other split: option.splits if_splits)

lemma fold_attempts:
  "foldAttempts (foldl reduceSync st es) k \<noteq> None \<longleftrightarrow> foldAttempts st k \<noteq> None \<or> (\<exists>e \<in> set es. puts e k)"
proof (induction es arbitrary: st)
  case (Cons e es)
  then show ?case using reduce_attempts [of st e k] by auto
qed simp

lemma foldEntries_attempts: "foldAttempts (foldEntries es) k \<noteq> None \<longleftrightarrow> (\<exists>e \<in> set es. puts e k)"
  using fold_attempts [of emptyState es k] by (simp add: foldEntries_def emptyState_def)

section \<open>Process identities of the fold\<close>

definition pidsSafe :: "State \<Rightarrow> bool" where
  "pidsSafe st \<longleftrightarrow> (\<forall>r f. foldRuns st r = Some f \<longrightarrow>
     pred_option (\<lambda>w. isSafeInteger (pid w)) (fr_owner f) \<and> pred_option (\<lambda>w. isSafeInteger (pid w)) (fr_claim f))"

lemma ownerFrom_safe: "ownerFrom v = Some w \<Longrightarrow> isSafeInteger (pid w)"
  by (auto simp: ownerFrom_def split: option.splits json.splits if_splits)

lemma ownerFrom_pred: "pred_option (\<lambda>w. isSafeInteger (pid w)) (ownerFrom v)"
  by (cases "ownerFrom v") (auto dest: ownerFrom_safe)

lemma setWaiting_ids [simp]: "fr_owner (setWaiting row v) = fr_owner row" "fr_claim (setWaiting row v) = fr_claim row"
  by (auto simp: setWaiting_def split: json.splits option.splits)

lemma transitionedRow_ids:
  "fr_owner (transitionedRow fs f) = fr_owner f \<or> fr_owner (transitionedRow fs f) = None"
  "fr_claim (transitionedRow fs f) = fr_claim f \<or> fr_claim (transitionedRow fs f) = None"
  by (auto simp: transitionedRow_def Let_def split: option.splits)

lemma consensusRow_ids:
  "fr_owner (consensusRow k w g f) \<in> {fr_owner f, None, Some w}" "fr_claim (consensusRow k w g f) \<in> {fr_claim f, None, Some w}"
  by (simp_all add: consensusRow_def)

lemma reduce_pidsSafe:
  assumes "pidsSafe st"
  shows "pidsSafe (reduceSync st e)"
proof -
  have put: "pidsSafe (st\<lparr>foldRuns := (foldRuns st)(r \<mapsto> f)\<rparr>)"
    if "pred_option (\<lambda>w. isSafeInteger (pid w)) (fr_owner f)" "pred_option (\<lambda>w. isSafeInteger (pid w)) (fr_claim f)" for r f
    using that assms by (auto simp: pidsSafe_def)
  have run: "pidsSafe (applyRunEvent st e fs)" for fs
  proof -
    have "createdRow fs = Some f \<Longrightarrow> fr_owner f = None \<and> fr_claim f = None" for f
      by (auto simp: createdRow_def split: option.splits)
    moreover have "snapshotRow fs = Some f \<Longrightarrow> fr_owner f = ownerFrom (map_of fs ''owner'') \<and> fr_claim f = ownerFrom (map_of fs ''claim'')" for f
      by (auto simp: snapshotRow_def Let_def split: option.splits)
    moreover have "foldRuns st r = Some f \<Longrightarrow> pred_option (\<lambda>w. isSafeInteger (pid w)) (fr_owner (transitionedRow fs f))
        \<and> pred_option (\<lambda>w. isSafeInteger (pid w)) (fr_claim (transitionedRow fs f))" for r f
      using assms transitionedRow_ids [of fs f] unfolding pidsSafe_def by (metis option.pred_inject(1))
    ultimately show ?thesis
      using assms by (auto simp: applyRunEvent_def Let_def ownerFrom_pred intro!: put split: option.splits)
        (auto simp: pidsSafe_def)
  qed
  have con: "pidsSafe (applyConsensusEvent st e fs)" for fs
  proof (cases "foldRuns st (runId e) = None \<or> ownerFrom (map_of fs ''owner'') = None")
    case True
    then show ?thesis using assms by (auto simp: applyConsensusEvent_def split: option.splits)
  next
    case False
    then obtain f w where f: "foldRuns st (runId e) = Some f" "ownerFrom (map_of fs ''owner'') = Some w" by auto
    let ?f = "consensusRow (eventType e) w (numberOrNull (map_of fs ''grantedAtMs'')) f"
    have "pred_option (\<lambda>w. isSafeInteger (pid w)) (fr_owner ?f)" "pred_option (\<lambda>w. isSafeInteger (pid w)) (fr_claim ?f)"
      using assms f(1) ownerFrom_safe [OF f(2)] consensusRow_ids [of "eventType e" w "numberOrNull (map_of fs ''grantedAtMs'')" f]
      by (auto simp: pidsSafe_def)
    with put f show ?thesis by (simp add: applyConsensusEvent_def)
  qed
  have att: "pidsSafe (applyAttemptEvent st e fs)" for fs
    using assms by (simp add: pidsSafe_def applyAttemptEvent_other)
  show ?thesis using assms run con att by (auto simp: reduceSync_def split: option.splits)
qed

lemma fold_pidsSafe: "pidsSafe (foldEntries es)"
proof -
  have "pidsSafe st \<Longrightarrow> pidsSafe (foldl reduceSync st es)" for st
    by (induction es arbitrary: st) (auto intro: reduce_pidsSafe)
  moreover have "pidsSafe emptyState" by (simp add: pidsSafe_def emptyState_def)
  ultimately show ?thesis by (simp add: foldEntries_def)
qed

section \<open>Resuming a run's fold\<close>

definition combine :: "string \<Rightarrow> State \<Rightarrow> State \<Rightarrow> State" where
  "combine r a b =
     \<lparr>foldRuns = (foldRuns b)(r := foldRuns a r),
      foldAttempts = (\<lambda>k. if \<exists>d n. k = attemptKey r d n then foldAttempts a k else foldAttempts b k)\<rparr>"

lemma combine_run: "sameRun r (combine r a b) a"
  by (auto simp: sameRun_def combine_def)

lemma combine_other: "r' \<noteq> r \<Longrightarrow> sameRun r' (combine r a b) b"
  by (auto simp: sameRun_def combine_def attemptKey_inject)

lemma State_eqI:
  assumes "\<And>r. sameRun r a b" "\<And>k. \<nexists>r d n. k = attemptKey r d n \<Longrightarrow> foldAttempts a k = foldAttempts b k"
  shows "a = (b :: State)"
proof -
  have "foldRuns a = foldRuns b" using assms(1) by (auto simp: sameRun_def)
  moreover have "foldAttempts a = foldAttempts b"
  proof
    fix k
    show "foldAttempts a k = foldAttempts b k"
    proof (cases "\<exists>r d n. k = attemptKey r d n")
      case True
      then show ?thesis using assms(1) by (auto simp: sameRun_def)
    qed (use assms(2) in blast)
  qed
  ultimately show ?thesis by (cases a; cases b) simp
qed

lemma reduce_outside: "\<nexists>r d n. k = attemptKey r d n \<Longrightarrow> foldAttempts (reduceSync st e) k = foldAttempts st k"
  by (auto simp: reduceSync_def applyAttemptEvent_def Let_def applyRunEvent_other applyConsensusEvent_other
      split: option.splits)

lemma combine_reduce:
  "reduceSync (combine r a b) e = combine r (if runId e = r then reduceSync a e else a) (reduceSync b e)"
proof (rule State_eqI)
  fix r'
  show "sameRun r' (reduceSync (combine r a b) e) (combine r (if runId e = r then reduceSync a e else a) (reduceSync b e))"
  proof (cases "r' = r")
    case True
    have "sameRun r (reduceSync (combine r a b) e) (reduceSync a e)" by (rule reduce_local [OF combine_run])
    moreover have "sameRun r (reduceSync a e) (if runId e = r then reduceSync a e else a)" using reduce_other [of e r a] by auto
    ultimately show ?thesis using True combine_run sameRun_sym sameRun_trans by blast
  next
    case False
    have "sameRun r' (reduceSync (combine r a b) e) (reduceSync b e)" by (rule reduce_local [OF combine_other [OF False]])
    then show ?thesis using combine_other [OF False] sameRun_sym sameRun_trans by blast
  qed
next
  fix k
  assume k: "\<nexists>r d n. k = attemptKey r d n"
  then show "foldAttempts (reduceSync (combine r a b) e) k
      = foldAttempts (combine r (if runId e = r then reduceSync a e else a) (reduceSync b e)) k"
    by (auto simp: reduce_outside [OF k] combine_def)
qed

text \<open>The fold of the whole table, but for one run: that run starts at its \<open>i\<close>-th entry from \<open>st\<close>.\<close>

definition resume :: "string \<Rightarrow> State \<Rightarrow> nat \<Rightarrow> Entry list \<Rightarrow> State" where
  "resume r st i evs = combine r (foldl reduceSync st (drop i (entriesOf r evs))) (foldEntries evs)"

lemma resume_snoc:
  "i \<le> length (entriesOf r evs) \<Longrightarrow> resume r st i (evs @ [e]) = reduceSync (resume r st i evs) e"
  by (simp add: resume_def combine_reduce)

lemma resume_run: "sameRun r (resume r st i evs) (foldl reduceSync st (drop i (entriesOf r evs)))"
  by (simp add: resume_def combine_run)

lemma resume_other: "r' \<noteq> r \<Longrightarrow> sameRun r' (resume r st i evs) (foldEntries evs)"
  by (simp add: resume_def combine_other)

text \<open>
  A replay may start at a run snapshot from any state whose attempts of that run were known when the
  snapshot was taken.
\<close>

definition resumable :: "Entry list \<Rightarrow> string \<Rightarrow> nat \<Rightarrow> State \<Rightarrow> bool" where
  "resumable evs r i st \<longleftrightarrow> i < length (entriesOf r evs) \<and> eventType (entriesOf r evs ! i) = ''flows.run.snapshot''
     \<and> (\<forall>d n. foldAttempts st (attemptKey r d n) \<noteq> None \<longrightarrow> (\<exists>e \<in> set (take i (entriesOf r evs)). puts e (attemptKey r d n)))"

lemma resumable_quiet:
  assumes "quiet evs evs'"
  shows "resumable evs' r i st \<longleftrightarrow> resumable evs r i st"
proof -
  from assms obtain new where new: "evs' = evs @ new" "\<forall>e \<in> set new. eventType e \<noteq> ''flows.run.snapshot''" by (auto simp: quiet_def)
  have "i < length (entriesOf r evs)" if "i < length (entriesOf r evs')" "eventType (entriesOf r evs' ! i) = ''flows.run.snapshot''"
  proof (rule ccontr)
    assume "\<not> i < length (entriesOf r evs)"
    with that(1) new(1) have "entriesOf r evs' ! i = entriesOf r new ! (i - length (entriesOf r evs))"
      "i - length (entriesOf r evs) < length (entriesOf r new)" by (auto simp: nth_append)
    then have "entriesOf r evs' ! i \<in> set (entriesOf r new)" by (metis nth_mem)
    with new(2) that(2) show False by auto
  qed
  with new(1) show ?thesis by (auto simp: resumable_def nth_append)
qed

end
