(* ===== verification/Snapshot_Mirror.thy ===== *)
theory Snapshot_Mirror
  imports Run_Mirror Attempt_Mirror Fold_Local
begin

text \<open>
  Snapshots and compaction. A snapshot appends the rows of a run to the journal, after which the run
  can be replayed from the snapshot alone; compaction removes entries below a checkpoint only when a
  snapshot stands at or above it. The invariant \<open>sound\<close> says that the tables mirror the fold of the
  whole journal and the fold from every snapshot, and snapshots and compaction keep it.
\<close>

section \<open>The mirror of one run\<close>

definition mirrorAt :: "bool \<Rightarrow> 'l store \<Rightarrow> State \<Rightarrow> string \<Rightarrow> bool" where
  "mirrorAt b s st r \<longleftrightarrow> rel_option (mirrors b r) (runRows s r) (foldRuns st r)
     \<and> (\<forall>d n. rel_option (attMirrors (r, d, n)) (attemptRows s (r, d, n)) (foldAttempts st (attemptKey r d n)))"

definition tables_ok :: "'l store \<Rightarrow> bool" where
  "tables_ok s \<longleftrightarrow> evs_ok (events s)
     \<and> (\<forall>r row p. runRows s r = Some row \<longrightarrow> parentRunId row = Some p \<longrightarrow> runRows s p \<noteq> None)
     \<and> (\<forall>r d n. attemptRows s (r, d, n) \<noteq> None \<longrightarrow> runRows s r \<noteq> None)"

lemma mirrored_iff: "mirrored F b s \<longleftrightarrow> tables_ok s \<and> (\<forall>r. mirrorAt b s (F (events s)) r)"
  unfolding mirrored_def tables_ok_def mirrorAt_def by metis

lemma mirrorAt_cong: "sameRun r st st' \<Longrightarrow> mirrorAt b s st r = mirrorAt b s st' r"
  by (simp add: mirrorAt_def sameRun_def)

section \<open>Snapshot entries\<close>

lemma snapshot_payload:
  assumes "entryOf cfg (snapshotInput r kind fs) e" "isVerbatimEventType kind"
  shows "runId e = r" "eventType e = kind" "payload e = JObj fs"
  using assms by (simp_all add: entryOf_def snapshotInput_def scrubbed_def)

lemma snapshotOwner_read:
  assumes "identityGroup h p n t \<or> h = None \<and> p = None \<and> n = None" "pred_option isSafeInteger p"
  shows "map_option hostId (ownerFrom (Some (snapshotOwner h p n))) = h
    \<and> map_option pid (ownerFrom (Some (snapshotOwner h p n))) = p
    \<and> map_option nonce (ownerFrom (Some (snapshotOwner h p n))) = n"
  using assms by (cases h; cases p; cases n; cases t) (auto simp: snapshotOwner_def ownerFrom_def)

lemma optSafe_pred: "optSafe x \<Longrightarrow> pred_option isSafeInteger x"
  by (cases x) (auto simp: optSafe_def safeMs_isSafe)

text \<open>A row that passes its CHECKs reads back from its snapshot unchanged.\<close>

lemma snapshotRow_row:
  assumes "run_check r row" "pred_option isSafeInteger (ownerPid row)" "pred_option isSafeInteger (claimPid row)"
  obtains f where "snapshotRow (runSnapshotFields row) = Some f" "rowOfFold f = Some row"
proof -
  have own: "identityGroup (ownerHostId row) (ownerPid row) (ownerNonce row) (heartbeatAtMs row)
      \<or> ownerHostId row = None \<and> ownerPid row = None \<and> ownerNonce row = None"
    and cl: "identityGroup (claimHostId row) (claimPid row) (claimNonce row) (claimedAtMs row)
      \<or> claimHostId row = None \<and> claimPid row = None \<and> claimNonce row = None"
    using assms(1) by (auto simp: run_check_groups ownerCheck_def claimCheck_def claimColumnsFree_def split: if_splits)
  have core: "coreCheck r row" "optSafe (heartbeatAtMs row)" "optSafe (claimedAtMs row)"
    using assms(1) by (auto simp: run_check_groups ownerCheck_def claimCheck_def)
  have safe: "isSafeInteger (createdAtMs row)" "pred_option isSafeInteger (startedAtMs row)"
    "pred_option isSafeInteger (finishedAtMs row)" "pred_option isSafeInteger (cancelRequestedAtMs row)"
    "pred_option isSafeInteger (roundOrdinal row)" "pred_option isSafeInteger (waitingWakeAtMs row)"
    "pred_option isSafeInteger (heartbeatAtMs row)" "pred_option isSafeInteger (claimedAtMs row)"
    using core by (auto simp: coreCheck_def optSafe_pred safeMs_isSafe)
  have wait: "waitingReason row = None \<longrightarrow> waitingWakeAtMs row = None \<and> waitingToken row = None"
    using core(1) by (simp add: coreCheck_def)
  have "\<exists>f. snapshotRow (runSnapshotFields row) = Some f \<and> rowOfFold f = Some row"
    using safe wait snapshotOwner_read [OF own assms(2)] snapshotOwner_read [OF cl assms(3)]
    by (cases "waitingReason row") (simp_all add: snapshotRow_def runSnapshotFields_def waitingOf_def Let_def rowOfFold_iff)
  with that show thesis by blast
qed

lemma jsonColumn_exact:
  "map_of fs jsonKey = Some (nullOr JStr c) \<Longrightarrow> map_of fs valueKey = None \<Longrightarrow> jsonColumn fs valueKey jsonKey = c"
  "map_of fs jsonKey = Some (JStr x) \<Longrightarrow> jsonColumn fs valueKey jsonKey = Some x"
  by (cases c) (simp_all add: jsonColumn_def)

lemma attemptSnapshot_row:
  assumes "attempt_check (r, d, n) row"
  obtains f where "putRow r d n (attemptSnapshotFields d n row) = Some f" "attMirrors (r, d, n) row f"
    "stringOrNull (map_of (attemptSnapshotFields d n row) ''stepKeyDigest'') = Some d"
    "numberOrNull (map_of (attemptSnapshotFields d n row) ''attempt'') = Some n"
proof -
  have safe: "isSafeInteger (a_startedAtMs row)" "pred_option isSafeInteger (a_finishedAtMs row)" "isSafeInteger n"
    using assms by (auto simp: attempt_check_def safeMs_isSafe optSafe_pred)
  let ?f = "\<lparr>fa_runId = r, fa_stepKeyDigest = d, fa_attempt = n, fa_state = a_state row, fa_startedAtMs = a_startedAtMs row,
      fa_finishedAtMs = a_finishedAtMs row, fa_checkpointJson = a_checkpointJson row, fa_errorJson = a_errorJson row,
      fa_outcomeJson = a_outcomeJson row, fa_metaJson = a_metaJson row\<rparr>"
  have "putRow r d n (attemptSnapshotFields d n row) = Some ?f"
    using safe by (simp add: putRow_def attemptSnapshotFields_def jsonColumn_exact)
  moreover have "attMirrors (r, d, n) row ?f" using assms by (simp add: att_defs)
  ultimately show thesis using safe by (intro that) (simp_all add: attemptSnapshotFields_def)
qed

lemma reduce_runSnapshot:
  assumes "entryOf cfg (snapshotInput r ''flows.run.snapshot'' fs) e" "snapshotRow fs = Some f"
  shows "reduceSync st e = st\<lparr>foldRuns := (foldRuns st)(r \<mapsto> f)\<rparr>"
  using snapshot_payload [OF assms(1)] run_verbatim [of "''snapshot''"] assms(2)
  by (simp add: reduceSync_def applyRunEvent_def)

lemma reduce_attemptSnapshot:
  assumes "entryOf cfg (snapshotInput r ''flows.attempt.snapshot'' fs) e" "putRow r d n fs = Some f"
    and "stringOrNull (map_of fs ''stepKeyDigest'') = Some d" "numberOrNull (map_of fs ''attempt'') = Some n"
  shows "reduceSync st e = st\<lparr>foldAttempts := (foldAttempts st)(attemptKey r d n \<mapsto> f)\<rparr>"
  using snapshot_payload [OF assms(1)] attempt_verbatim [of "''snapshot''"] assms(2-4)
  by (simp add: reduceSync_def applyAttemptEvent_def)

section \<open>The snapshot of a run\<close>

lemma mirrorAt_frame:
  "runRows s' = runRows s \<Longrightarrow> attemptRows s' = attemptRows s \<Longrightarrow> mirrorAt b s' st r = mirrorAt b s st r"
  by (simp add: mirrorAt_def)

context store_fold
begin

text \<open>
  Appending the attempt snapshots: afterwards the fold has every listed row, whatever it had before,
  and nothing else of the run or of another run has moved.
\<close>

lemma emitSnapshot_Inr:
  fixes s :: "'l store"
  assumes "inv (leases s)" "evs_ok (events s)" "prefix base (events s)" "emitSnapshot cfg r kind fs s = (Inr u, s')"
  obtains e where "frame s s'" "entryOf cfg (snapshotInput r kind fs) e" "events s' = events s @ [e]"
    "F (events s') = reduceSync (F (events s)) e" "evs_ok (events s')" "prefix base (events s')"
proof -
  from assms(4) obtain rc where rc: "emitDurable cfg (snapshotInput r kind fs) None s = (Inr rc, s')"
    by (auto simp: emitSnapshot_def)
  have "in_sourceSeq (snapshotInput r kind fs) = None" by (simp add: snapshotInput_def)
  from emit_fresh [OF assms(1,2) this rc] obtain e where e: "frame s s'" "entryOf cfg (snapshotInput r kind fs) e"
    "events s' = events s @ [e]" .
  with that [of e] F_snoc [OF assms(3)] emit_evs_ok [OF assms(1,2) rc] assms(3) show thesis by simp
qed

lemma emitAttempts_Inr:
  fixes s :: "'l store"
  assumes "inv (leases s)" "evs_ok (events s)" "prefix base (events s)" "emitAttempts cfg r rows s = (Inr u, s')"
    and "\<forall>((d, n), row) \<in> set rows. attempt_check (r, d, n) row"
  shows "frame s s' \<and> evs_ok (events s') \<and> prefix base (events s')
    \<and> (\<exists>new. events s' = events s @ new \<and> (\<forall>e \<in> set new. eventType e = ''flows.attempt.snapshot'' \<and> runId e = r))
    \<and> foldRuns (F (events s')) = foldRuns (F (events s))
    \<and> (\<forall>k. (\<forall>d n row. ((d, n), row) \<in> set rows \<longrightarrow> k \<noteq> attemptKey r d n) \<longrightarrow> foldAttempts (F (events s')) k = foldAttempts (F (events s)) k)
    \<and> (distinct (map fst rows) \<longrightarrow> (\<forall>((d, n), row) \<in> set rows.
         \<exists>f. foldAttempts (F (events s')) (attemptKey r d n) = Some f \<and> attMirrors (r, d, n) row f))"
  using assms
proof (induction rows arbitrary: s)
  case Nil
  then show ?case by simp
next
  case (Cons x rows)
  obtain d n row where x: "x = ((d, n), row)" by (metis surj_pair)
  from Cons.prems(4) x obtain s1 where e1: "emitSnapshot cfg r ''flows.attempt.snapshot'' (attemptSnapshotFields d n row) s = (Inr (), s1)"
    and rest: "emitAttempts cfg r rows s1 = (Inr u, s')" by (auto simp: bindT_Inr)
  from emitSnapshot_Inr [OF Cons.prems(1-3) e1] obtain e where e: "frame s s1"
    "entryOf cfg (snapshotInput r ''flows.attempt.snapshot'' (attemptSnapshotFields d n row)) e"
    "events s1 = events s @ [e]" "F (events s1) = reduceSync (F (events s)) e" "evs_ok (events s1)" "prefix base (events s1)" .
  have "attempt_check (r, d, n) row" using Cons.prems(5) x by auto
  from attemptSnapshot_row [OF this] obtain f where f: "putRow r d n (attemptSnapshotFields d n row) = Some f" "attMirrors (r, d, n) row f"
    "stringOrNull (map_of (attemptSnapshotFields d n row) ''stepKeyDigest'') = Some d"
    "numberOrNull (map_of (attemptSnapshotFields d n row) ''attempt'') = Some n" .
  have F1: "F (events s1) = (F (events s))\<lparr>foldAttempts := (foldAttempts (F (events s)))(attemptKey r d n \<mapsto> f)\<rparr>"
    using e(4) reduce_attemptSnapshot [OF e(2) f(1,3,4)] by simp
  have ty: "eventType e = ''flows.attempt.snapshot'' \<and> runId e = r"
    using snapshot_payload [OF e(2)] attempt_verbatim [of "''snapshot''"] by simp
  have "inv (leases s1)" using e(1) Cons.prems(1) by (simp add: frame_def)
  note IH = Cons.IH [OF this e(5,6) rest]
  have chk: "\<forall>((d, n), row) \<in> set rows. attempt_check (r, d, n) row" using Cons.prems(5) by auto
  from IH [OF chk] obtain new where ih: "frame s1 s'" "evs_ok (events s')" "prefix base (events s')"
    "events s' = events s1 @ new" "\<forall>e \<in> set new. eventType e = ''flows.attempt.snapshot'' \<and> runId e = r"
    "foldRuns (F (events s')) = foldRuns (F (events s1))"
    "\<forall>k. (\<forall>d n row. ((d, n), row) \<in> set rows \<longrightarrow> k \<noteq> attemptKey r d n) \<longrightarrow> foldAttempts (F (events s')) k = foldAttempts (F (events s1)) k"
    "distinct (map fst rows) \<longrightarrow> (\<forall>((d, n), row) \<in> set rows.
         \<exists>f. foldAttempts (F (events s')) (attemptKey r d n) = Some f \<and> attMirrors (r, d, n) row f)" by blast
  have own: "\<exists>f. foldAttempts (F (events s')) (attemptKey r d n) = Some f \<and> attMirrors (r, d, n) row f"
    if "distinct (map fst (x # rows))"
  proof -
    have "\<forall>d' n' row'. ((d', n'), row') \<in> set rows \<longrightarrow> attemptKey r d n \<noteq> attemptKey r d' n'"
      using that x by (force simp: attemptKey_inject)
    with ih(7) have "foldAttempts (F (events s')) (attemptKey r d n) = foldAttempts (F (events s1)) (attemptKey r d n)" by blast
    with F1 f(2) show ?thesis by simp
  qed
  have "frame s s'" using e(1) ih(1) frame_trans by blast
  moreover have "events s' = events s @ (e # new)" using ih(4) e(3) by simp
  moreover have "\<forall>e' \<in> set (e # new). eventType e' = ''flows.attempt.snapshot'' \<and> runId e' = r" using ty ih(5) by simp
  moreover have "foldRuns (F (events s')) = foldRuns (F (events s))" using ih(6) F1 by simp
  moreover have "\<forall>k. (\<forall>d n row. ((d, n), row) \<in> set (x # rows) \<longrightarrow> k \<noteq> attemptKey r d n) \<longrightarrow>
      foldAttempts (F (events s')) k = foldAttempts (F (events s)) k"
  proof (intro allI impI)
    fix k
    assume k: "\<forall>d n row. ((d, n), row) \<in> set (x # rows) \<longrightarrow> k \<noteq> attemptKey r d n"
    then have "\<forall>d n row. ((d, n), row) \<in> set rows \<longrightarrow> k \<noteq> attemptKey r d n" by auto
    with ih(7) have "foldAttempts (F (events s')) k = foldAttempts (F (events s1)) k" by blast
    with k x F1 show "foldAttempts (F (events s')) k = foldAttempts (F (events s)) k" by simp
  qed
  ultimately show ?case using ih(2,3,8) own x by (intro conjI) (blast, assumption, assumption, blast, assumption, assumption, auto)
qed

end

text \<open>The rows of a sound store read back from their snapshots.\<close>

lemma mirrored_pids:
  assumes "mirrored foldEntries b s" "runRows s r = Some row"
  shows "pred_option isSafeInteger (ownerPid row)" "pred_option isSafeInteger (claimPid row)"
proof -
  obtain f where f: "foldRuns (foldEntries (events s)) r = Some f" "mirrors b r row f" using mirrored_runE [OF assms] .
  from fold_pidsSafe [of "events s"] f(1)
  have safe: "pred_option (\<lambda>w. isSafeInteger (pid w)) (fr_owner f)" "pred_option (\<lambda>w. isSafeInteger (pid w)) (fr_claim f)"
    by (auto simp: pidsSafe_def)
  from mirrorsE [OF f(2)] obtain t where t: "rowOfFold f = Some t" "agree b row t" .
  have "ownerPid row = map_option pid (fr_owner f)"
    using t by (simp add: rowOfFold_iff agree_def clearRowClaim_def RunRow_eq_iff)
  with safe(1) show "pred_option isSafeInteger (ownerPid row)" by (cases "fr_owner f") auto
  have "claimPid row = map_option pid (fr_claim f) \<or> claimPid row = None"
    using t by (auto simp: rowOfFold_iff agree_def claimCols_def claimColumnsFree_def)
  with safe(2) show "pred_option isSafeInteger (claimPid row)" by (cases "fr_claim f") auto
qed

lemma attemptsOf_distinct: "attemptsOf r s rows \<Longrightarrow> distinct (map fst rows)"
proof -
  assume "attemptsOf r s rows"
  then have "sorted_wrt (\<lambda>a b. fst a \<noteq> fst b) rows"
    by (auto simp: attemptsOf_def elim!: sorted_wrt_mono_rel [rotated])
  then show ?thesis by (simp add: distinct_conv_nth sorted_wrt_iff_nth_less) (metis linorder_neqE_nat)
qed

definition snapshotBody :: "'l Config \<Rightarrow> string \<Rightarrow> ((string \<times> int) \<times> AttemptRow) list \<Rightarrow> ('l, unit) stxn" where
  "snapshotBody cfg r rows =
     bindT (selectRun r) (\<lambda>rowO. case rowO of
        None \<Rightarrow> retT ()
      | Some row \<Rightarrow>
          bindT (emitSnapshot cfg r ''flows.run.snapshot'' (runSnapshotFields row)) (\<lambda>_.
          emitAttempts cfg r rows))"

lemma snapshot_body: "snapshot cfg r rows = transact cfg (snapshotBody cfg r rows)"
  by (simp add: snapshot_def snapshotBody_def)

text \<open>A run snapshot ends up mirrored from any state of the run that knows no other attempts.\<close>

definition covered :: "'l store \<Rightarrow> State \<Rightarrow> string \<Rightarrow> bool" where
  "covered s st r \<longleftrightarrow> (\<forall>d n. foldAttempts st (attemptKey r d n) \<noteq> None \<longrightarrow> attemptRows s (r, d, n) \<noteq> None)"

lemma mirrorAt_covered: "mirrorAt b s st r \<Longrightarrow> covered s st r"
  by (auto simp: mirrorAt_def covered_def) (metis option.rel_distinct(1) option.exhaust)

context store_fold
begin

lemma snapshot_covers:
  fixes s :: "'l store"
  assumes "inv (leases s)" "mirrored foldEntries b s" "prefix base (events s)" "attemptsOf r s rows"
    and "runRows s r = Some row" "snapshotBody cfg r rows s = (Inr u, s')"
    and "covered s (F (events s)) r" "\<forall>r'. r' \<noteq> r \<longrightarrow> mirrorAt b s (F (events s)) r'"
  shows "frame s s' \<and> mirrored F b s' \<and> prefix base (events s')
    \<and> (\<exists>e new. events s' = events s @ e # new \<and> eventType e = ''flows.run.snapshot'' \<and> runId e = r
        \<and> (\<forall>x \<in> set new. eventType x = ''flows.attempt.snapshot''))"
proof -
  have tab: "tables_ok s" "mirrorAt b s (foldEntries (events s)) r" using assms(2) by (auto simp: mirrored_iff)
  have ev: "evs_ok (events s)" using tab(1) by (simp add: tables_ok_def)
  obtain g where g: "mirrors b r row g" using mirrored_runE [OF assms(2,5)] .
  have rc: "run_check r row" using g by (simp add: mirrors_def)
  from snapshotRow_row [OF rc mirrored_pids [OF assms(2,5)]] obtain f where
    f: "snapshotRow (runSnapshotFields row) = Some f" "rowOfFold f = Some row" .
  have mf: "mirrors b r row f" using g f(2) by (auto simp: mirrors_def agree_def)
  from assms(5,6) obtain s1 where e1: "emitSnapshot cfg r ''flows.run.snapshot'' (runSnapshotFields row) s = (Inr (), s1)"
    and rest: "emitAttempts cfg r rows s1 = (Inr u, s')" by (auto simp: snapshotBody_def selectRun_def bindT_Inr)
  from emitSnapshot_Inr [OF assms(1) ev assms(3) e1] obtain e where e: "frame s s1"
    "entryOf cfg (snapshotInput r ''flows.run.snapshot'' (runSnapshotFields row)) e"
    "events s1 = events s @ [e]" "F (events s1) = reduceSync (F (events s)) e" "evs_ok (events s1)" "prefix base (events s1)" .
  have ty: "eventType e = ''flows.run.snapshot'' \<and> runId e = r"
    using snapshot_payload [OF e(2)] run_verbatim [of "''snapshot''"] by simp
  have F1: "F (events s1) = (F (events s))\<lparr>foldRuns := (foldRuns (F (events s)))(r \<mapsto> f)\<rparr>"
    using e(4) reduce_runSnapshot [OF e(2) f(1)] by simp
  have rows: "((d, n), arow) \<in> set rows \<longleftrightarrow> attemptRows s (r, d, n) = Some arow" for d n arow
    using assms(4) by (simp add: attemptsOf_def)
  have chk: "\<forall>((d, n), arow) \<in> set rows. attempt_check (r, d, n) arow"
  proof clarify
    fix d n arow
    assume "((d, n), arow) \<in> set rows"
    moreover have "rel_option (attMirrors (r, d, n)) (attemptRows s (r, d, n)) (foldAttempts (foldEntries (events s)) (attemptKey r d n))"
      using tab(2) by (simp add: mirrorAt_def)
    ultimately show "attempt_check (r, d, n) arow" by (auto simp: rows option_rel_Some1 attMirrors_def)
  qed
  have "inv (leases s1)" using e(1) assms(1) by (simp add: frame_def)
  note at = emitAttempts_Inr [OF this e(5,6) rest chk]
  have st: "runRows s' = runRows s" "attemptRows s' = attemptRows s"
    using frame_store [OF e(1)] at frame_store [of s1 s'] by auto
  have other: "mirrorAt b s' (F (events s')) r'" if "r' \<noteq> r" for r'
  proof -
    have "foldAttempts (F (events s')) (attemptKey r' d n) = foldAttempts (F (events s1)) (attemptKey r' d n)" for d n
      using at that by (auto simp: attemptKey_inject)
    moreover have "foldRuns (F (events s')) r' = foldRuns (F (events s)) r'" using at F1 that by auto
    ultimately have "sameRun r' (F (events s')) (F (events s))" using F1 by (simp add: sameRun_def)
    then show ?thesis using assms(8) that mirrorAt_frame [OF st] mirrorAt_cong by blast
  qed
  have att: "rel_option (attMirrors (r, d, n)) (attemptRows s (r, d, n)) (foldAttempts (F (events s')) (attemptKey r d n))" for d n
  proof (cases "attemptRows s (r, d, n)")
    case (Some arow)
    then have "((d, n), arow) \<in> set rows" using rows by simp
    with at attemptsOf_distinct [OF assms(4)] obtain fa where "foldAttempts (F (events s')) (attemptKey r d n) = Some fa"
      "attMirrors (r, d, n) arow fa" by fastforce
    with Some show ?thesis by simp
  next
    case None
    then have "\<forall>d' n' arow. ((d', n'), arow) \<in> set rows \<longrightarrow> attemptKey r d n \<noteq> attemptKey r d' n'"
      using rows by (auto simp: attemptKey_inject)
    with at have "foldAttempts (F (events s')) (attemptKey r d n) = foldAttempts (F (events s1)) (attemptKey r d n)" by blast
    also have "\<dots> = foldAttempts (F (events s)) (attemptKey r d n)" using F1 by simp
    also have "\<dots> = None" using None assms(7) unfolding covered_def by metis
    finally show ?thesis using None by simp
  qed
  have "foldRuns (F (events s')) r = Some f" using at F1 by simp
  then have "mirrorAt b s' (F (events s')) r" using att mf assms(5) st by (simp add: mirrorAt_def)
  with other have "\<forall>r. mirrorAt b s' (F (events s')) r" by metis
  moreover have "tables_ok s'" using tab(1) st at by (simp add: tables_ok_def)
  ultimately have "mirrored F b s'" by (simp add: mirrored_iff)
  moreover have "frame s s'" using e(1) at frame_trans by blast
  moreover from at obtain new where "events s' = events s1 @ new" "\<forall>x \<in> set new. eventType x = ''flows.attempt.snapshot''" by blast
  with e(3) have "events s' = events s @ e # new" by simp
  ultimately show ?thesis using ty at \<open>\<forall>x \<in> set new. _ x\<close> by blast
qed

end

section \<open>Soundness of a store\<close>

text \<open>
  The tables mirror the fold of the whole journal, and, for every run snapshot still in the journal,
  the fold that starts at it.
\<close>

lemma cps_ok_extend:
  assumes "evs_ok evs'" "evs' = evs @ new" "cps_ok evs cps"
  shows "cps_ok evs' cps"
proof -
  have later: "\<forall>x \<in> set evs. \<forall>y \<in> set new. runId x = runId y \<longrightarrow> seq x < seq y"
    using assms(1,2) by (auto simp: evs_ok_def ordered_def sorted_wrt_append)
  have "cp_good evs' c" if "cp_good evs c" for c
    using that later assms(2) by (fastforce simp: cp_good_def)
  with assms(3) show ?thesis by (simp add: cps_ok_def)
qed

lemma cps_ok_quiet: "evs_ok evs' \<Longrightarrow> quiet evs evs' \<Longrightarrow> cps_ok evs cps \<Longrightarrow> cps_ok evs' cps"
  unfolding quiet_def using cps_ok_extend by blast

definition sound :: "('l \<Rightarrow> bool) \<Rightarrow> bool \<Rightarrow> 'l store \<Rightarrow> bool" where
  "sound I b s \<longleftrightarrow> I (leases s) \<and> clock_ok s \<and> cps_ok (events s) (checkpoints s) \<and> mirrored foldEntries b s
     \<and> (\<forall>r i st. resumable (events s) r i st \<longrightarrow> mirrored (resume r st i) b s)"

context journal_service
begin

lemma store_fold_all: "store_fold S view inv cfg foldEntries []"
  by unfold_locales (simp add: foldEntries_def)

lemma store_fold_resume:
  assumes "i \<le> length (entriesOf r evs)"
  shows "store_fold S view inv cfg (resume r st i) evs"
proof unfold_locales
  fix evs' e
  assume "prefix evs evs'"
  then have "i \<le> length (entriesOf r evs')" using assms by (auto simp: prefix_def)
  then show "resume r st i (evs' @ [e]) = reduceSync (resume r st i evs') e" by (rule resume_snoc)
qed

lemma sound_store_ok:
  assumes "sound inv b s"
  shows "store_fold.store_ok inv foldEntries [] b s"
    "resumable (events s) r i st \<Longrightarrow> store_fold.store_ok inv (resume r st i) (events s) b s"
  using assms
  by (auto simp: store_fold.store_ok_def [OF store_fold_all] resumable_def sound_def
      store_fold.store_ok_def [OF store_fold_resume [OF less_imp_le]])

text \<open>What preserves every mirror and appends no snapshot preserves soundness.\<close>

lemma sound_step:
  assumes "sound inv b s" "quiet (events s) (events s')" "checkpoints s' = checkpoints s"
    and "\<And>F base. store_fold S view inv cfg F base \<Longrightarrow> store_fold.store_ok inv F base b s \<Longrightarrow> store_fold.store_ok inv F base b s'"
  shows "sound inv b s'"
proof -
  note all = store_fold.store_ok_def [OF store_fold_all]
  have base: "store_fold.store_ok inv foldEntries [] b s'"
    by (rule assms(4) [OF store_fold_all sound_store_ok(1) [OF assms(1)]])
  have snap: "mirrored (resume r st i) b s'" if "resumable (events s') r i st" for r i st
  proof -
    have r: "resumable (events s) r i st" using that resumable_quiet [OF assms(2)] by blast
    then have "i \<le> length (entriesOf r (events s))" by (simp add: resumable_def)
    note sf = store_fold_resume [OF this, of st]
    from assms(4) [OF sf sound_store_ok(2) [OF assms(1) r]] show ?thesis by (simp add: store_fold.store_ok_def [OF sf])
  qed
  have "evs_ok (events s')" using base by (simp add: all mirrored_def)
  moreover have "cps_ok (events s) (checkpoints s)" using assms(1) by (simp add: sound_def)
  ultimately have "cps_ok (events s') (checkpoints s')" using assms(2,3) cps_ok_quiet by metis
  with base snap show ?thesis by (simp add: sound_def all)
qed

end

section \<open>Snapshots keep a store sound\<close>

lemma resumable_snapshot:
  assumes "evs' = evs @ e # new" "runId e = r" "\<forall>x \<in> set new. eventType x \<noteq> ''flows.run.snapshot''" "resumable evs' r' i st"
  shows "resumable evs r' i st \<or> r' = r \<and> i = length (entriesOf r evs)
     \<and> (\<forall>d n. foldAttempts st (attemptKey r d n) \<noteq> None \<longrightarrow> (\<exists>x \<in> set (entriesOf r evs). puts x (attemptKey r d n)))"
proof (cases "r' = r \<and> i = length (entriesOf r evs)")
  case True
  with assms show ?thesis by (auto simp: resumable_def)
next
  case False
  have "quiet (evs @ [e]) evs'" using assms(1,3) by (auto simp: quiet_def)
  then have one: "resumable (evs @ [e]) r' i st" using resumable_quiet assms(4) by blast
  have "i < length (entriesOf r' evs)" using one False assms(2) by (auto simp: resumable_def less_Suc_eq split: if_splits)
  with one show ?thesis by (auto simp: resumable_def nth_append split: if_splits)
qed

context journal_service
begin

lemma sound_same:
  assumes "sound inv b s" "inv (leases s')" "clock_ok s'" "events s' = events s" "checkpoints s' = checkpoints s"
    and "runRows s' = runRows s" "attemptRows s' = attemptRows s"
  shows "sound inv b s'"
proof -
  have m: "mirrored F b s \<Longrightarrow> mirrored F b s'" for F using assms(4-7) by (simp add: mirrored_def)
  from assms show ?thesis by (simp add: sound_def m)
qed

lemma steady_emit: "steady (emitDurable cfg input owner)"
  unfolding steady_def
proof (intro allI impI)
  fix s :: "'l store" and x s'
  assume "emitDurable cfg input owner s = (x, s')" "inv (leases s)"
  with emit_events [of s input owner x s'] show "inv (leases s') \<and> clock s' = clock s" by (simp add: frame_def)
qed

lemma steady_bindT:
  assumes "steady m" "\<And>a. steady (f a)"
  shows "steady (bindT m f)"
  unfolding steady_def
proof (intro allI impI)
  fix s x s'
  assume run: "bindT m f s = (x, s')" and i: "inv (leases s)"
  obtain y s1 where y: "m s = (y, s1)" by fastforce
  with assms(1) i have 1: "inv (leases s1)" "clock s1 = clock s" by (auto simp: steady_def)
  show "inv (leases s') \<and> clock s' = clock s"
    using run y 1 assms(2) by (cases y) (auto simp: bindT_def steady_def)
qed

lemma steady_retT: "steady (retT a)"
  by (simp add: steady_def)

lemma steady_selectRun: "steady (selectRun r)"
  by (simp add: steady_def selectRun_def)

lemma steady_emitSnapshot: "steady (emitSnapshot cfg r kind fs)"
  unfolding emitSnapshot_def mapT_def by (intro steady_bindT steady_emit steady_retT)

lemma steady_emitAttempts: "steady (emitAttempts cfg r rows)"
proof (induction rows)
  case (Cons x rows)
  obtain d n row where "x = ((d, n), row)" by (metis surj_pair)
  with Cons show ?case by (simp add: steady_bindT steady_emitSnapshot)
qed (simp add: steady_def)

lemma steady_snapshotBody: "steady (snapshotBody cfg r rows)"
proof -
  have "steady (case rowO of None \<Rightarrow> retT () | Some row \<Rightarrow>
      bindT (emitSnapshot cfg r ''flows.run.snapshot'' (runSnapshotFields row)) (\<lambda>_. emitAttempts cfg r rows))" for rowO
    by (cases rowO) (simp_all add: steady_retT steady_bindT steady_emitSnapshot steady_emitAttempts)
  then show ?thesis unfolding snapshotBody_def by (intro steady_bindT steady_selectRun)
qed

lemma snapshotBody_sound:
  assumes "sound inv b s" "attemptsOf r s rows" "snapshotBody cfg r rows s = (Inr u, s')"
  shows "sound inv b s'"
proof (cases "runRows s r")
  case None
  with assms(1,3) show ?thesis by (simp add: snapshotBody_def selectRun_def)
next
  case (Some row)
  have i: "inv (leases s)" and m: "mirrored foldEntries b s" using assms(1) by (auto simp: sound_def)
  have at: "mirrorAt b s (foldEntries (events s)) r'" for r' using m by (simp add: mirrored_iff)
  have covers: "frame s s' \<and> mirrored F b s'
      \<and> (\<exists>e new. events s' = events s @ e # new \<and> runId e = r \<and> (\<forall>x \<in> set new. eventType x = ''flows.attempt.snapshot''))"
    if "store_fold S view inv cfg F base" "prefix base (events s)" "covered s (F (events s)) r"
      "\<And>x. x \<noteq> r \<Longrightarrow> mirrorAt b s (F (events s)) x" for F base
    using store_fold.snapshot_covers [OF that(1), of s b r rows row u s'] i m that(2-4) assms(2,3) Some by blast
  from covers [OF store_fold_all _ mirrorAt_covered [OF at] at] obtain e new where all: "frame s s'" "mirrored foldEntries b s'"
    "events s' = events s @ e # new" "runId e = r" "\<forall>x \<in> set new. eventType x = ''flows.attempt.snapshot''" by auto
  have snap: "mirrored (resume r' st j) b s'" if "resumable (events s') r' j st" for r' j st
  proof -
    from resumable_snapshot [OF all(3,4) _ that] all(5) consider "resumable (events s) r' j st"
      | "r' = r" "j = length (entriesOf r (events s))"
        "\<forall>d n. foldAttempts st (attemptKey r d n) \<noteq> None \<longrightarrow> (\<exists>x \<in> set (entriesOf r (events s)). puts x (attemptKey r d n))"
      by fastforce
    then show ?thesis
    proof cases
      case 1
      then have "j \<le> length (entriesOf r' (events s))" by (simp add: resumable_def)
      note sf = store_fold_resume [OF this, of st]
      have "mirrored (resume r' st j) b s" using assms(1) 1 by (simp add: sound_def)
      then have "mirrorAt b s (resume r' st j (events s)) x" for x by (simp add: mirrored_iff)
      then show ?thesis using covers [OF sf _ mirrorAt_covered [of b]] by blast
    next
      case 2
      note sf = store_fold_resume [OF order.refl [of "length (entriesOf r (events s))"], of st]
      have "covered s (resume r st j (events s)) r"
      proof -
        have "attemptRows s (r, d, n) \<noteq> None" if k: "foldAttempts st (attemptKey r d n) \<noteq> None" for d n
        proof -
          from k 2(3) have "\<exists>x \<in> set (events s). puts x (attemptKey r d n)" by auto
          then have "foldAttempts (foldEntries (events s)) (attemptKey r d n) \<noteq> None" unfolding foldEntries_attempts .
          with mirrorAt_covered [OF at] show ?thesis unfolding covered_def by metis
        qed
        with 2(2) resume_run [of r st j "events s"] show ?thesis by (simp add: covered_def sameRun_def)
      qed
      moreover have "mirrorAt b s (resume r st j (events s)) x" if "x \<noteq> r" for x
        using mirrorAt_cong [OF resume_other [OF that]] at by blast
      ultimately show ?thesis using covers [OF sf] 2(1,2) by simp
    qed
  qed
  have ev: "evs_ok (events s')" using all(2) by (simp add: mirrored_def)
  have cps: "cps_ok (events s') (checkpoints s')"
    using assms(1) cps_ok_extend [OF ev all(3)] all(1) by (simp add: sound_def frame_def)
  show ?thesis using all(1,2) snap cps assms(1) by (simp add: sound_def frame_def clock_ok_def)
qed

lemma snapshot_sound:
  assumes "sound inv b s" "attemptsOf r s rows" "snapshot cfg r rows s = (x, s')"
  shows "sound inv b s'"
proof (cases x)
  case (Inr u)
  with assms(3) have "transact cfg (snapshotBody cfg r rows) s = (Inr u, s')" by (simp add: snapshot_body)
  then obtain s1 where s1: "snapshotBody cfg r rows (s\<lparr>settlements := []\<rparr>) = (Inr u, s1)" "frame s1 s'" "events s' = events s1"
    by (rule transact_Inr)
  have "inv (leases s)" "clock_ok s" using assms(1) by (auto simp: sound_def)
  then have "sound inv b (s\<lparr>settlements := []\<rparr>)" by (intro sound_same [OF assms(1)]) (simp_all add: clock_ok_def)
  moreover have "attemptsOf r (s\<lparr>settlements := []\<rparr>) rows" using assms(2) by (simp add: attemptsOf_def)
  ultimately
  have "sound inv b s1" using snapshotBody_sound s1(1) by blast
  then show ?thesis using s1(2,3) frame_store [OF s1(2)]
    by (intro sound_same [of b s1 s']) (auto simp: sound_def frame_def clock_ok_def)
next
  case (Inl c)
  with assms(3) have "transact cfg (snapshotBody cfg r rows) s = (Inl c, s')" by (simp add: snapshot_body)
  then obtain c' s1 where s1: "snapshotBody cfg r rows (s\<lparr>settlements := []\<rparr>) = (Inl c', s1)" "events s' = events s"
    "checkpoints s' = checkpoints s" "journal_db.more s' = journal_db.more s"
    "leases s' = c_rollback (consensus cfg) (leases s) (leases s1)" "clock s' = clock s1" by (rule transact_Inl)
  have k: "inv (leases s1)" "clock s1 = clock s" using steady_snapshotBody s1(1) assms(1) by (auto simp: steady_def sound_def)
  have "runRows s' = runRows s" "attemptRows s' = attemptRows s" using s1(4) by (cases s; cases s'; simp)+
  with s1 k assms(1) show ?thesis
    by (intro sound_same [OF assms(1)]) (auto simp: sound_def clock_ok_def rollback_inv)
qed

end

section \<open>Compaction keeps a store sound\<close>

lemma filter_split_sorted:
  assumes "sorted_wrt (\<lambda>a b. seq a < seq b) es"
  shows "es = filter (\<lambda>e. seq e < n) es @ filter (\<lambda>e. \<not> seq e < n) es"
  using assms
proof (induction es)
  case (Cons e es)
  show ?case
  proof (cases "seq e < n")
    case False
    then have "filter (\<lambda>e. seq e < n) es = []" using Cons.prems by (fastforce simp: filter_empty_conv)
    with False Cons show ?thesis by simp
  qed (use Cons in simp)
qed simp

text \<open>Truncation cuts a prefix off the entries of one run and touches no other.\<close>

abbreviation truncated :: "string \<Rightarrow> int \<Rightarrow> Entry list \<Rightarrow> Entry list" where
  "truncated r n evs \<equiv> filter (\<lambda>e. \<not> (runId e = r \<and> seq e < n)) evs"

lemma truncated_other: "r' \<noteq> r \<Longrightarrow> entriesOf r' (truncated r n evs) = entriesOf r' evs"
  by (induction evs) auto

lemma truncated_run:
  assumes "ordered evs"
  obtains cut rest where "entriesOf r evs = cut @ rest" "entriesOf r (truncated r n evs) = rest"
    "\<forall>e \<in> set cut. seq e < n" "\<forall>e \<in> set rest. n \<le> seq e"
proof -
  have "sorted_wrt (\<lambda>a b. seq a < seq b) (entriesOf r evs)"
    using ordered_run_sorted [OF assms, of r] by (simp add: sorted_wrt_map)
  from filter_split_sorted [OF this, of n]
  have "entriesOf r evs = filter (\<lambda>e. seq e < n) (entriesOf r evs) @ entriesOf r (truncated r n evs)"
    by (simp add: conj_commute cong: conj_cong)
  then show thesis by (rule that [OF _ refl]) auto
qed

text \<open>Entries that are not fold history leave a run the fold does not know unknown.\<close>

lemma prefix_like: "prefix p t \<Longrightarrow> toLowerCase p = p \<Longrightarrow> likePrefix p t"
  by (auto simp: likePrefix_def prefix_def toLowerCase_def)

lemma not_history_reduce:
  assumes "\<not> isFoldHistory (eventType e)" "sameRun r st emptyState" "runId e = r"
  shows "sameRun r (reduceSync st e) emptyState"
proof -
  have "toLowerCase ''flows.run.'' = ''flows.run.''" "toLowerCase ''flows.attempt.'' = ''flows.attempt.''" by code_simp+
  then have "\<not> prefix ''flows.run.'' (eventType e)" "\<not> prefix ''flows.attempt.'' (eventType e)"
    using assms(1) prefix_like by (auto simp: isFoldHistory_def)
  with assms(2,3) show ?thesis
    by (auto simp: reduceSync_def applyConsensusEvent_def sameRun_def emptyState_def split: option.splits)
qed

lemma not_history_fold:
  assumes "\<forall>e \<in> set es. \<not> isFoldHistory (eventType e) \<and> runId e = r" "sameRun r st emptyState"
  shows "sameRun r (foldl reduceSync st es) emptyState"
  using assms by (induction es arbitrary: st) (auto intro: not_history_reduce)

lemma truncated_resumable:
  assumes "ordered evs" "resumable (truncated r n evs) r' i st"
  obtains j where "resumable evs r' j st" "drop i (entriesOf r' (truncated r n evs)) = drop j (entriesOf r' evs)"
proof (cases "r' = r")
  case False
  show thesis using assms(2) that [of i] unfolding resumable_def truncated_other [OF False] by blast
next
  case True
  obtain cut rest where cut: "entriesOf r evs = cut @ rest" "entriesOf r (truncated r n evs) = rest"
    using truncated_run [OF assms(1)] .
  have "resumable evs r (length cut + i) st"
    using assms(2) unfolding True resumable_def cut by auto
  with that [of "length cut + i"] show thesis unfolding True cut by simp
qed

lemma truncated_fold:
  assumes "ordered evs" "\<not> foldBehind r n evs"
  shows "sameRun r (foldEntries (truncated r n evs)) (foldEntries evs)
    \<or> (\<exists>j st. resumable evs r j st \<and> sameRun r (foldEntries (truncated r n evs)) (resume r st j evs))"
proof -
  obtain cut rest where cut: "entriesOf r evs = cut @ rest" "entriesOf r (truncated r n evs) = rest"
    "\<forall>e \<in> set cut. seq e < n" "\<forall>e \<in> set rest. n \<le> seq e" using truncated_run [OF assms(1)] .
  have whole: "sameRun r (foldEntries evs) (foldEntries (cut @ rest))" using fold_entriesOf [of r evs] unfolding cut(1) .
  have left: "sameRun r (foldEntries (truncated r n evs)) (foldEntries rest)"
    using fold_entriesOf [of r "truncated r n evs"] unfolding cut(2) .
  have mem: "set cut \<subseteq> set (entriesOf r evs)" unfolding cut(1) set_append by blast
  show ?thesis
  proof (cases "\<exists>e \<in> set evs. runId e = r \<and> n \<le> seq e \<and> eventType e = ''flows.run.snapshot''")
    case True
    then obtain e where e: "e \<in> set evs" "runId e = r" "n \<le> seq e" "eventType e = ''flows.run.snapshot''" by blast
    then have "e \<in> set (cut @ rest)" unfolding cut(1) [symmetric] by simp
    with e(3) cut(3) have "e \<in> set rest" by auto
    then obtain k where k: "k < length rest" "rest ! k = e" by (metis in_set_conv_nth)
    let ?st = "foldEntries (take k rest)"
    have "\<exists>x \<in> set (take (length cut + k) (cut @ rest)). puts x key" if "foldAttempts ?st key \<noteq> None" for key
      using that unfolding foldEntries_attempts by auto
    then have "resumable evs r (length cut + k) ?st"
      using k e(4) unfolding resumable_def cut(1) by (intro conjI allI impI) simp_all
    moreover have "sameRun r (foldEntries (truncated r n evs)) (resume r ?st (length cut + k) evs)"
    proof -
      have "foldEntries rest = foldl reduceSync ?st (drop k rest)"
        unfolding foldEntries_def by (metis append_take_drop_id foldl_append)
      also have "drop k rest = drop (length cut + k) (entriesOf r evs)" unfolding cut(1) by simp
      finally have "sameRun r (foldEntries rest) (resume r ?st (length cut + k) evs)"
        using sameRun_sym [OF resume_run [of r ?st "length cut + k" evs]] by simp
      then show ?thesis by (rule sameRun_trans [OF left])
    qed
    ultimately show ?thesis by blast
  next
    case False
    then have "\<forall>e \<in> set cut. \<not> isFoldHistory (eventType e) \<and> runId e = r"
      using assms(2) cut(3) mem by (auto simp: foldBehind_def list_ex_iff not_le)
    then have c: "sameRun r (foldl reduceSync emptyState cut) emptyState" by (rule not_history_fold) simp
    have "\<forall>e \<in> set (cut @ rest). runId e = r" unfolding cut(1) [symmetric] by simp
    then have "entriesOf r rest = rest" by simp
    with foldl_local [OF c, of rest] have "sameRun r (foldEntries (cut @ rest)) (foldEntries rest)"
      by (simp add: foldEntries_def)
    from sameRun_trans [OF left sameRun_sym [OF sameRun_trans [OF whole this]]] show ?thesis by blast
  qed
qed

lemma truncated_sound:
  assumes "sound I b s" "events s' = truncated r n (events s)" "\<not> foldBehind r n (events s)"
    and "runRows s' = runRows s" "attemptRows s' = attemptRows s"
  shows "mirrored foldEntries b s' \<and> (\<forall>r' i st. resumable (events s') r' i st \<longrightarrow> mirrored (resume r' st i) b s')"
proof -
  have m: "mirrored foldEntries b s" and snaps: "\<And>r' i st. resumable (events s) r' i st \<Longrightarrow> mirrored (resume r' st i) b s"
    using assms(1) by (auto simp: sound_def)
  have tab: "tables_ok s" using m by (simp add: mirrored_iff)
  then have tab': "tables_ok s'" using assms(2,4,5) evs_ok_filter by (simp add: tables_ok_def)
  have ord: "ordered (events s)" using tab by (simp add: tables_ok_def evs_ok_def)
  have at: "mirrorAt b s (foldEntries (events s)) x" for x using m by (simp add: mirrored_iff)
  have all: "mirrorAt b s (foldEntries (events s')) x" for x
  proof (cases "x = r")
    case False
    have eq: "entriesOf x (events s') = entriesOf x (events s)" unfolding assms(2) by (rule truncated_other [OF False])
    have "sameRun x (foldEntries (events s')) (foldEntries (entriesOf x (events s)))"
      using fold_entriesOf [of x "events s'"] by (simp only: eq)
    then have "sameRun x (foldEntries (events s')) (foldEntries (events s))"
      using fold_entriesOf [of x "events s"] by (meson sameRun_sym sameRun_trans)
    then show ?thesis using at mirrorAt_cong by blast
  next
    case True
    from truncated_fold [OF ord assms(3)] consider "sameRun r (foldEntries (events s')) (foldEntries (events s))"
      | j st where "resumable (events s) r j st" "sameRun r (foldEntries (events s')) (resume r st j (events s))"
      unfolding assms(2) by blast
    then show ?thesis
    proof cases
      case 1
      with True at mirrorAt_cong show ?thesis by blast
    next
      case (2 j st)
      from snaps [OF 2(1)] have "mirrorAt b s (resume r st j (events s)) r" by (simp add: mirrored_iff)
      with True 2(2) mirrorAt_cong show ?thesis by blast
    qed
  qed
  have "mirrorAt b s (resume r' st i (events s')) x" if res: "resumable (events s') r' i st" for r' i st x
  proof (cases "x = r'")
    case False
    with all mirrorAt_cong [OF resume_other [OF False]] show ?thesis by blast
  next
    case True
    obtain j where j: "resumable (events s) r' j st" "drop i (entriesOf r' (events s')) = drop j (entriesOf r' (events s))"
      using truncated_resumable [OF ord] res unfolding assms(2) by blast
    have "sameRun r' (resume r' st i (events s')) (resume r' st j (events s))"
      using resume_run [of r' st i "events s'"] resume_run [of r' st j "events s"] unfolding j(2)
      by (meson sameRun_sym sameRun_trans)
    moreover have "mirrorAt b s (resume r' st j (events s)) r'" using snaps [OF j(1)] by (simp add: mirrored_iff)
    ultimately show ?thesis using True mirrorAt_cong by blast
  qed
  with all tab' show ?thesis by (simp add: mirrored_iff mirrorAt_frame [OF assms(4,5)])
qed

context journal_service
begin

lemma writeJ_same:
  fixes s :: "'l store"
  assumes "sound inv b s" "writeJ cfg m body s = (Inl c, s')" "steady body"
  shows "sound inv b s'"
proof -
  from assms(2) obtain c' s1 where s1: "body s = (Inl c', s1)" "s' = (rollback cfg s s1)\<lparr>settlements := settlements s\<rparr>"
    by (auto simp: writeJ_def split: prod.splits sum.splits)
  have k: "inv (leases s1)" "clock s1 = clock s" using assms(1,3) s1(1) by (auto simp: steady_def sound_def)
  have "checkpoints s' = checkpoints s" using s1(2) by (cases s; cases s1; simp add: rollback_def)
  with s1 k assms(1) show ?thesis
    by (intro sound_same [OF assms(1)]) (auto simp: sound_def clock_ok_def rollback_inv)
qed

lemma steady_guardOpt: "steady (guardOpt cfg r owner)"
  by (auto simp: steady_def dest: guardOpt_state)

lemma compact_sound:
  assumes "sound inv b s" "compact cfg r upTo owner s = (x, s')"
  shows "sound inv b s'"
proof -
  let ?s1 = "s\<lparr>tick := Suc (tick s)\<rparr>" and ?now = "clock s (tick s)"
  let ?body = "bindT (guardOpt cfg r owner) (\<lambda>_ s. case checkpointRow r upTo (checkpoints s) of
            None \<Rightarrow> failT (noCheckpoint r upTo) s | Some row \<Rightarrow> compactTo r row ?now s)"
  have "steady (\<lambda>s. case checkpointRow r upTo (checkpoints s) of
            None \<Rightarrow> failT (noCheckpoint r upTo) s
          | Some row \<Rightarrow> compactTo r row now s)" for now
    by (auto simp: steady_def compactTo_def truncateBelow_def Let_def split: option.splits if_splits)
  then have st: "steady ?body" by (intro steady_bindT steady_guardOpt)
  have s1: "sound inv b ?s1" using assms(1) by (intro sound_same [OF assms(1)]) (auto simp: sound_def clock_ok_def)
  show ?thesis
  proof (cases "r = []")
  case True
  with assms show ?thesis by (simp add: compact_def)
  next
  case False
  with assms(2) have w: "writeJ cfg ''journal compaction failed'' ?body ?s1 = (x, s')" by (simp add: compact_def)
  show ?thesis
  proof (cases x)
  case (Inr res)
  have i: "inv (leases s)" and j: "journal_ok s" using assms(1) by (auto simp: sound_def journal_ok_def mirrored_def)
  from Inr assms(2) have run: "compact cfg r upTo owner s = (Inr res, s')" by simp
  note j' = compact_journal_ok [OF j run]
  have clk: "clock s' = clock s" using st w Inr i by (auto simp: steady_def writeJ_Inr)
  from i run show ?thesis
  proof (cases rule: compact_Inr)
    case already
    then have "runRows s' = runRows s" "attemptRows s' = attemptRows s" by (cases s; cases s'; simp)+
    with already clk assms(1) show ?thesis by (intro sound_same [OF assms(1)]) (auto simp: sound_def clock_ok_def)
  next
    case (truncated c now)
    note t = truncateBelow_Inr [OF truncated(6)]
    have "runRows s' = runRows s" "attemptRows s' = attemptRows s" using t by (cases s; cases s'; simp)+
    from truncated_sound [OF assms(1) _ truncated(5) this] t j' clk assms(1) show ?thesis
      by (simp add: sound_def journal_ok_def clock_ok_def)
  qed
  next
  case (Inl e)
  with w have "writeJ cfg ''journal compaction failed'' ?body ?s1 = (Inl e, s')" by simp
  then show ?thesis by (rule writeJ_same [OF s1 _ st])
  qed
  qed
qed

end

end
