(* ===== verification/Rebuild.thy ===== *)
theory Rebuild
  imports Snapshot_Mirror
begin

text \<open>
  Histories of the two stores and the rebuild of their tables from the journal. A history is a
  sequence of calls by any number of processes, one transaction at a time, with snapshots,
  checkpoints, compactions, events of other components and restarts in between.
\<close>

section \<open>Steps\<close>

text \<open>Another process, or a restarted one: the tables are the same, process memory is anything.\<close>

definition sameTables :: "'l store \<Rightarrow> 'l store \<Rightarrow> bool" where
  "sameTables s s' \<longleftrightarrow> leases s' = leases s \<and> events s' = events s \<and> checkpoints s' = checkpoints s
     \<and> runRows s' = runRows s \<and> attemptRows s' = attemptRows s"

text \<open>
  \<open>exact\<close> histories are those in which no \<open>activate\<close> drops a claim without an event. A process identity
  is plain when redaction leaves it alone and its pid is a safe integer; a thief names another
  process than itself as the owner it replaces.
\<close>

inductive store_step :: "'l Config \<Rightarrow> bool \<Rightarrow> 'l store \<Rightarrow> 'l store \<Rightarrow> bool" for cfg exact where
  s_create: "create cfg r st opts s = (xu, s') \<Longrightarrow> store_step cfg exact s s'"
| s_requestCancel: "requestCancel cfg r t s = (x, s') \<Longrightarrow> store_step cfg exact s s'"
| s_claim: "plainOwner (rules cfg) w \<Longrightarrow> claim cfg r expected w t s = (x, s') \<Longrightarrow> store_step cfg exact s s'"
| s_claimAndOwn: "plainOwner (rules cfg) w \<Longrightarrow> claimAndOwn cfg r expected w t evo s = (x, s') \<Longrightarrow> store_step cfg exact s s'"
| s_activate: "plainOwner (rules cfg) w \<Longrightarrow> activate cfg r w t expected s = (x, s') \<Longrightarrow>
    exact \<longrightarrow> x = Inr OActivated \<or> isl x \<Longrightarrow> store_step cfg exact s s'"
| s_abandonClaim: "plainOwner (rules cfg) w \<Longrightarrow> abandonClaim cfg r w t s = (x, s') \<Longrightarrow> store_step cfg exact s s'"
| s_recoverClaim: "plainOwner (rules cfg) w \<Longrightarrow> recoverClaim cfg r w t obs now ev s = (x, s') \<Longrightarrow> store_step cfg exact s s'"
| s_heartbeat: "heartbeat cfg r w t s = (x, s') \<Longrightarrow> store_step cfg exact s s'"
| s_transitionOwned: "plainOwner (rules cfg) w \<Longrightarrow> transitionOwned cfg r w rst stj g s = (x, s') \<Longrightarrow> store_step cfg exact s s'"
| s_steal: "plainOwner (rules cfg) w \<Longrightarrow> snap_owner expected \<noteq> Some w \<Longrightarrow> steal cfg r expected w t ev s = (x, s') \<Longrightarrow>
    store_step cfg exact s s'"
| s_put: "put cfg opts a w s = (xa, s') \<Longrightarrow> store_step cfg exact s s'"
| s_attemptHeartbeat: "attemptHeartbeat cfg opts i w t c s = (xa, s') \<Longrightarrow> store_step cfg exact s s'"
| s_finish: "finish cfg opts f w s = (xa, s') \<Longrightarrow> store_step cfg exact s s'"
| s_patch: "patch cfg opts i p w s = (xa, s') \<Longrightarrow> store_step cfg exact s s'"
| s_emit: "foreign (in_eventType input) \<Longrightarrow> emitDurableAlone cfg input owner s = (xe, s') \<Longrightarrow> store_step cfg exact s s'"
| s_snapshot: "attemptsOf r s rows \<Longrightarrow> snapshot cfg r rows s = (xs, s') \<Longrightarrow> store_step cfg exact s s'"
| s_checkpoint: "checkpoint cfg r n js owner s = (xp, s') \<Longrightarrow> store_step cfg exact s s'"
| s_compact: "compact cfg r upTo owner s = (xc, s') \<Longrightarrow> store_step cfg exact s s'"
| s_switch: "sameTables s s' \<Longrightarrow> clock_ok s' \<Longrightarrow> store_step cfg exact s s'"

abbreviation history :: "'l Config \<Rightarrow> bool \<Rightarrow> 'l store \<Rightarrow> 'l store \<Rightarrow> bool" where
  "history cfg exact \<equiv> (store_step cfg exact)\<^sup>*\<^sup>*"

section \<open>Every step keeps the store sound\<close>

context store_fold
begin

lemma emitDurable_foreign:
  fixes s :: "'l store"
  assumes "store_ok b s" "foreign (in_eventType input)" "emitDurable cfg input owner s = (x, s')"
  shows "store_ok b s'"
proof -
  have i: "inv (leases s)" "evs_ok (events s)" using assms(1) by (auto simp: store_ok_def mirrored_def)
  have fr: "frame s s'" using emit_events [OF i(1) assms(3)] by blast
  have ev: "evs_ok (events s')" by (rule emit_evs_ok [OF i assms(3)])
  have "F (events s') = F (events s) \<and> prefix base (events s')"
  proof (cases x)
    case (Inl c)
    with assms emit_Inl [OF i(1), of input owner c s'] show ?thesis by (simp add: store_ok_def)
  next
    case (Inr rc)
    with assms(3) have "emitDurable cfg input owner s = (Inr rc, s')" by simp
    from emit_Inr [OF i(1) this] obtain e where e: "entryOf cfg input e"
      "events s' = events s @ [e] \<or> events s' = events s" by metis
    then have "reduceSync (F (events s)) e = F (events s)" using assms(2) by (intro reduce_foreign) (simp add: entryOf_def)
    with e(2) assms(1) show ?thesis by (auto simp: store_ok_def F_snoc)
  qed
  with assms(1) fr ev frame_store [OF fr] show ?thesis by (simp add: store_ok_def mirrored_def clock_ok_def frame_def)
qed

lemma emitAlone_ok:
  assumes "store_ok b s" "foreign (in_eventType input)" "emitDurableAlone cfg input owner s = (x, s')"
  shows "store_ok b s'"
proof -
  let ?s0 = "s\<lparr>settlements := []\<rparr>"
  have s0: "store_ok b ?s0" using assms(1) by (simp add: store_ok_def mirrored_def clock_ok_def)
  obtain y s1 where e: "emitDurable cfg input owner ?s0 = (y, s1)" by fastforce
  have s1: "store_ok b s1" by (rule emitDurable_foreign [OF s0 assms(2) e])
  show ?thesis
  proof (cases y)
    case (Inr rc)
    with assms(3) e have "s' = settleAll cfg s1" by (simp add: emitDurableAlone_def)
    with s1 settleAll_tables [of s1 cfg] frame_store [of s1 s'] show ?thesis
      by (auto simp: store_ok_def mirrored_def clock_ok_def frame_def)
  next
    case (Inl c)
    with assms(3) e have s': "s' = rollback cfg s s1" by (simp add: emitDurableAlone_def)
    have "clock s1 = clock s" using e emit_events [OF _ e] assms(1) by (simp add: store_ok_def frame_def)
    moreover have "mirrored F b s'" using assms(1) s' by (intro mirrored_same [of F b s s']) (auto simp: store_ok_def mirrored_def)
    ultimately show ?thesis using assms(1) s1 s' by (simp add: store_ok_def clock_ok_def rollback_inv)
  qed
qed

end

context journal_service
begin

lemma emitAlone_extends:
  fixes s :: "'l store"
  assumes "inv (leases s)" "foreign (in_eventType input)" "emitDurableAlone cfg input owner s = (x, s')"
  shows "extends s s'"
proof -
  let ?s0 = "s\<lparr>settlements := []\<rparr>"
  obtain y s1 where e: "emitDurable cfg input owner ?s0 = (y, s1)" by fastforce
  from emit_events [OF _ e] assms(1) obtain new where new: "frame ?s0 s1" "events s1 = events s @ new"
    "\<forall>e \<in> set new. eventType e = in_eventType input" by auto
  have q: "quiet (events s) (events s1)" using new(2,3) assms(2) by (auto simp: quiet_def foreign_def)
  have "checkpoints (rollback cfg s s1) = checkpoints s" by (cases s; cases s1; simp add: rollback_def)
  with assms(3) e q new(1) settleAll_tables [of s1 cfg] show ?thesis
    by (cases y) (auto simp: emitDurableAlone_def extends_def frame_def)
qed

lemma checkpoint_Inr:
  fixes s :: "'l store"
  assumes "journal_ok s" "checkpoint cfg r n js owner s = (Inr c, s')"
  shows "cps_ok (events s') (checkpoints s') \<and> events s' = events s \<and> leases s' = leases s
    \<and> journal_db.more s' = journal_db.more s \<and> clock s' = clock s"
proof -
  let ?s1 = "s\<lparr>tick := Suc (tick s)\<rparr>" and ?now = "clock s (tick s)"
  have i: "inv (leases ?s1)" and cps: "cps_ok (events ?s1) (checkpoints ?s1)" using assms(1) by (auto simp: journal_ok_def)
  from assms(2) obtain u s2 where g: "guardOpt cfg r owner ?s1 = (Inr u, s2)"
    and rest: "list_ex (\<lambda>e. runId e = r \<and> seq e = n) (events s2)" "putCheckpoint r n js ?now s2 = (Inr c, s')"
    unfolding checkpoint_def by (auto simp: writeJ_Inr bindT_Inr split: if_splits option.splits)
  have [simp]: "s2 = ?s1" using guardOpt_Inr [OF i g] by simp
  from putCheckpoint_Inr [OF rest(2) [simplified] cps] rest show ?thesis
    by (auto simp: list_ex_iff putCheckpoint_def Let_def split: if_splits)
qed

lemma checkpoint_sound:
  assumes "sound inv b s" "checkpoint cfg r n js owner s = (x, s')"
  shows "sound inv b s'"
proof (cases x)
  case (Inr c)
  have j: "journal_ok s" using assms(1) by (auto simp: sound_def journal_ok_def mirrored_def)
  from Inr assms(2) have "checkpoint cfg r n js owner s = (Inr c, s')" by simp
  note c = checkpoint_Inr [OF j this]
  have "runRows s' = runRows s" "attemptRows s' = attemptRows s" using c by (cases s; cases s'; simp)+
  then have m: "mirrored F b s \<Longrightarrow> mirrored F b s'" for F using c by (simp add: mirrored_def)
  from assms(1) c show ?thesis by (auto simp: sound_def m clock_ok_def)
next
  case (Inl e)
  let ?s1 = "s\<lparr>tick := Suc (tick s)\<rparr>" and ?now = "clock s (tick s)"
  have s1: "sound inv b ?s1" using assms(1) by (intro sound_same [OF assms(1)]) (auto simp: sound_def clock_ok_def)
  let ?put = "\<lambda>s. if \<not> list_ex (\<lambda>e. runId e = r \<and> seq e = n) (events s)
          then failJ Checkpoint_invalid
            (''checkpoint sequence '' @ show_int n @ '' names no committed entry of run '' @ r) s
          else case compactionFloor r (checkpoints s) of
            Some floor \<Rightarrow>
              if n \<le> floor
              then failT (CJournal \<lparr>je_code = Checkpoint_invalid,
                     je_message = ''run '' @ r @ '' is already compacted through sequence '' @ show_int floor,
                     je_checkpointSeq = Some floor\<rparr>) s
              else putCheckpoint r n js ?now s
          | None \<Rightarrow> putCheckpoint r n js ?now s"
  have "steady ?put" by (auto simp: steady_def putCheckpoint_def Let_def split: option.splits if_splits)
  then have st: "steady (bindT (guardOpt cfg r owner) (\<lambda>_. ?put))" by (intro steady_bindT steady_guardOpt)
  show ?thesis
  proof (cases "r = [] \<or> \<not> isSafeInteger n \<or> n < 0")
    case True
    with assms show ?thesis by (auto simp: checkpoint_def split: if_splits)
  next
    case False
    with assms(2) Inl have "writeJ cfg ''durable checkpoint write failed'' (bindT (guardOpt cfg r owner) (\<lambda>_. ?put)) ?s1 = (Inl e, s')"
      by (simp add: checkpoint_def)
    then show ?thesis by (rule writeJ_same [OF s1 _ st])
  qed
qed

text \<open>An operation that preserves every mirror and extends the journal quietly, as a soundness rule.\<close>

lemma sound_op:
  assumes "sound inv b s" "inv (leases s) \<Longrightarrow> extends s s'"
    and "\<And>F base. store_fold S view inv cfg F base \<Longrightarrow> store_fold.store_ok inv F base b s \<Longrightarrow> store_fold.store_ok inv F base b s'"
  shows "sound inv b s'"
  using assms by (intro sound_step [OF assms(1)]) (auto simp: extends_def sound_def)

lemma step_sound:
  assumes "store_step cfg exact s s'" "sound inv exact s"
  shows "sound inv exact s'"
  using assms(1)
proof cases
  case s_create
  then show ?thesis by (intro sound_op [OF assms(2)]) (auto intro: clocked_ops_extend store_fold.create_ok)
next
  case s_requestCancel
  then show ?thesis by (intro sound_op [OF assms(2)]) (auto intro: run_ops_extend store_fold.requestCancel_ok)
next
  case s_claim
  then show ?thesis by (intro sound_op [OF assms(2)]) (auto intro: run_ops_extend store_fold.claim_ok)
next
  case s_claimAndOwn
  then show ?thesis by (intro sound_op [OF assms(2)]) (auto intro: run_ops_extend store_fold.claimAndOwn_ok)
next
  case s_activate
  then show ?thesis by (intro sound_op [OF assms(2)]) (auto intro: clocked_ops_extend store_fold.activate_ok)
next
  case s_abandonClaim
  then show ?thesis by (intro sound_op [OF assms(2)]) (auto intro: run_ops_extend store_fold.abandonClaim_ok)
next
  case s_recoverClaim
  then show ?thesis by (intro sound_op [OF assms(2)]) (auto intro: run_ops_extend store_fold.recoverClaim_ok)
next
  case s_heartbeat
  then show ?thesis by (intro sound_op [OF assms(2)]) (auto intro: run_ops_extend store_fold.heartbeat_ok)
next
  case s_transitionOwned
  then show ?thesis by (intro sound_op [OF assms(2)]) (auto intro: clocked_ops_extend store_fold.transitionOwned_ok)
next
  case s_steal
  then show ?thesis by (intro sound_op [OF assms(2)]) (auto intro: run_ops_extend store_fold.steal_ok)
next
  case s_put
  then show ?thesis by (intro sound_op [OF assms(2)]) (auto intro: attempt_ops_extend store_fold.put_ok)
next
  case s_attemptHeartbeat
  then show ?thesis by (intro sound_op [OF assms(2)]) (auto intro: attempt_ops_extend store_fold.attemptHeartbeat_ok)
next
  case s_finish
  then show ?thesis by (intro sound_op [OF assms(2)]) (auto intro: attempt_ops_extend store_fold.finish_ok)
next
  case s_patch
  then show ?thesis by (intro sound_op [OF assms(2)]) (auto intro: attempt_ops_extend store_fold.patch_ok)
next
  case s_emit
  then show ?thesis by (intro sound_op [OF assms(2)]) (auto intro: emitAlone_extends store_fold.emitAlone_ok)
next
  case s_snapshot
  then show ?thesis using assms(2) snapshot_sound by blast
next
  case s_checkpoint
  then show ?thesis using assms(2) checkpoint_sound by blast
next
  case s_compact
  then show ?thesis using assms(2) compact_sound by blast
next
  case s_switch
  with assms(2) show ?thesis by (intro sound_same [OF assms(2)]) (auto simp: sameTables_def sound_def)
qed

lemma history_sound: "history cfg exact s s' \<Longrightarrow> sound inv exact s \<Longrightarrow> sound inv exact s'"
  by (induction rule: rtranclp_induct) (auto intro: step_sound)

end

section \<open>Replaying a run\<close>

lemma maxOpt_Some: "maxOpt ns = Some n \<Longrightarrow> n \<in> set ns"
  using Max_in [of "set ns"] by (cases ns) (auto simp: maxOpt_def foldl_max)

lemma floor_entries:
  assumes "cps_ok evs cps" "compactionFloor r cps = Some f"
  shows "(\<exists>e \<in> set evs. runId e = r \<and> seq e = f) \<and> (\<forall>e \<in> set evs. runId e = r \<longrightarrow> f \<le> seq e)"
proof -
  from maxOpt_Some assms(2) obtain c where "c \<in> set cps" "cp_runId c = r" "cp_compactedAtMs c \<noteq> None" "cp_seq c = f"
    by (force simp: compactionFloor_def)
  with assms(1) show ?thesis by (auto simp: cps_ok_def cp_good_def)
qed

lemma rowsAfter_entries:
  assumes "evs_ok evs" "\<forall>e \<in> set evs. runId e = r \<longrightarrow> a < seq e"
  shows "rowsAfter r a evs = entriesOf r evs"
proof -
  have "rowsAfter r a evs = filter (\<lambda>e. runId e = r \<and> seq e > a) evs"
    using assms(1) by (simp add: rowsAfter_ordered evs_ok_def)
  also have "\<dots> = entriesOf r evs" using assms(2) by (intro filter_cong) auto
  finally show ?thesis .
qed

lemma readAvailable_compacted:
  assumes "r \<noteq> []" "compactionFloor r (checkpoints s) = Some f" "0 < f"
  shows "readAvailable r rebuildPageSize (-1) s = Inl (CJournal (compactedError r f))"
  using assms
  by (subst readAvailable.simps) (simp add: readPage_def rebuildPageSize_def isSafeInteger_small failT_def)

text \<open>Where a run's replay starts, nothing of the run is missing.\<close>

lemma replayWindow_all:
  fixes s :: "'l store"
  assumes "evs_ok (events s)" "cps_ok (events s) (checkpoints s)" "e \<in> set (events s)" "runId e = r"
  obtains after where "replayWindow r s = Inr (after, length (entriesOf r (events s)))"
    "\<And>k. 0 < k \<Longrightarrow> isSafeInteger k \<Longrightarrow> \<exists>c. readAvailable r k after s = Inr (entriesOf r (events s), c)"
proof -
  have r: "r \<noteq> []" using assms(1,3,4) by (auto simp: evs_ok_def event_check_def)
  have nonneg: "\<forall>e \<in> set (events s). 0 \<le> seq e \<and> isSafeInteger (seq e - 1)"
    using assms(1) by (auto simp: evs_ok_def event_check_def isSafeInteger_def MAX_SAFE_INTEGER_def)
  have page: "0 < rebuildPageSize" "isSafeInteger rebuildPageSize" by (simp_all add: rebuildPageSize_def isSafeInteger_small)
  have read: "\<exists>c. readAvailable r k a s = Inr (entriesOf r (events s), c)"
    if "0 < k" "isSafeInteger k" "-1 \<le> a" "isSafeInteger a" "\<forall>e \<in> set (events s). runId e = r \<longrightarrow> a < seq e"
      "\<forall>f. compactionFloor r (checkpoints s) = Some f \<longrightarrow> f - 1 \<le> a" for k a
    using readAvailable_all [OF assms(1) r that(1-4,6)] rowsAfter_entries [OF assms(1) that(5)] by auto
  show thesis
  proof (cases "\<exists>f. compactionFloor r (checkpoints s) = Some f \<and> 0 < f")
    case False
    then have fl: "\<forall>f. compactionFloor r (checkpoints s) = Some f \<longrightarrow> f - 1 \<le> -1" by force
    have all: "\<forall>e \<in> set (events s). runId e = r \<longrightarrow> -1 < seq e" using nonneg by force
    have safe: "isSafeInteger (-1)" by (simp add: isSafeInteger_small)
    note rd = read [OF _ _ _ safe all fl]
    from rd [OF page] have "replayWindow r s = Inr (-1, length (entriesOf r (events s)))" by (auto simp: replayWindow_def)
    with rd show thesis by (intro that [of "-1"]) auto
  next
    case True
    then obtain f where f: "compactionFloor r (checkpoints s) = Some f" "0 < f" by blast
    note fe = floor_entries [OF assms(2) f(1)]
    from fe nonneg have safe: "isSafeInteger (f - 1)" by auto
    have "-1 \<le> f - 1" "\<forall>e \<in> set (events s). runId e = r \<longrightarrow> f - 1 < seq e" using f(2) fe by force+
    note rd = read [OF _ _ this(1) safe this(2)]
    from rd [OF page] f readAvailable_compacted [OF r f]
    have "replayWindow r s = Inr (f - 1, length (entriesOf r (events s)))"
      by (auto simp: replayWindow_def compactedError_def)
    with rd f(1) show thesis by (intro that [of "f - 1"]) auto
  qed
qed

lemma foldRun_all:
  fixes s :: "'l store"
  assumes "evs_ok (events s)" "cps_ok (events s) (checkpoints s)" "e \<in> set (events s)" "runId e = r" "0 < k" "isSafeInteger k"
  shows "foldRun k r s state = Inr \<lparr>foldRuns = foldRuns state ++ foldRuns (foldEntries (entriesOf r (events s))),
      foldAttempts = foldAttempts state ++ foldAttempts (foldEntries (entriesOf r (events s)))\<rparr>"
proof -
  obtain after where w: "replayWindow r s = Inr (after, length (entriesOf r (events s)))"
    "\<And>k. 0 < k \<Longrightarrow> isSafeInteger k \<Longrightarrow> \<exists>c. readAvailable r k after s = Inr (entriesOf r (events s), c)"
    using replayWindow_all [OF assms(1-4)] by blast
  from w(2) [OF assms(5,6)] obtain c where c: "readAvailable r k after s = Inr (entriesOf r (events s), c)" by blast
  have "foldl runReduce Map.empty es = foldRuns (foldEntries es)" "foldl attemptReduce Map.empty es = foldAttempts (foldEntries es)" for es
    using foldl_runReduce [of emptyState es] foldl_attemptReduce [of emptyState es]
    by (simp_all add: foldEntries_def emptyState_def)
  with w(1) c show ?thesis by (simp add: foldRun_def)
qed

lemma foldEntries_none: "entriesOf r es = [] \<Longrightarrow> sameRun r (foldEntries es) emptyState"
  using fold_entriesOf [of r es] by (simp add: foldEntries_def)

lemma entriesOf_entriesOf: "r' \<noteq> r \<Longrightarrow> entriesOf r' (entriesOf r es) = []"
  by (simp add: filter_empty_conv)

lemma foldRunsFrom_all:
  fixes s :: "'l store"
  assumes "evs_ok (events s)" "cps_ok (events s) (checkpoints s)" "0 < k" "isSafeInteger k"
    and "distinct rs" "set rs \<subseteq> runId ` set (events s)" "\<forall>r \<in> set rs. sameRun r state emptyState"
  shows "\<exists>state'. foldRunsFrom k rs s state = Inr state'
    \<and> (\<forall>r. sameRun r state' (if r \<in> set rs then foldEntries (events s) else state))"
  using assms(5-7)
proof (induction rs arbitrary: state)
  case (Cons r rs)
  let ?part = "foldEntries (entriesOf r (events s))"
  let ?st = "\<lparr>foldRuns = foldRuns state ++ foldRuns ?part, foldAttempts = foldAttempts state ++ foldAttempts ?part\<rparr>"
  from Cons.prems(2) obtain e where e: "e \<in> set (events s)" "runId e = r" by auto
  note run = foldRun_all [OF assms(1,2) e assms(3,4), of state]
  have here: "sameRun r ?st (foldEntries (events s))"
  proof -
    have "sameRun r state emptyState" using Cons.prems(3) by simp
    then have "sameRun r ?st ?part" by (auto simp: sameRun_def emptyState_def map_add_def split: option.splits)
    then show ?thesis using fold_entriesOf sameRun_sym sameRun_trans by blast
  qed
  have there: "sameRun x ?st state" if "x \<noteq> r" for x
    using foldEntries_none [OF entriesOf_entriesOf [OF that]] by (auto simp: sameRun_def emptyState_def map_add_def)
  have "\<forall>x \<in> set rs. sameRun x ?st emptyState"
  proof
    fix x assume x: "x \<in> set rs"
    then have "x \<noteq> r" "sameRun x state emptyState" using Cons.prems(1,3) by auto
    with there sameRun_trans show "sameRun x ?st emptyState" by blast
  qed
  with Cons.IH [of ?st] Cons.prems(1,2) obtain st' where st': "foldRunsFrom k rs s ?st = Inr st'"
    "\<forall>x. sameRun x st' (if x \<in> set rs then foldEntries (events s) else ?st)" by auto
  have "sameRun x st' (if x \<in> set (r # rs) then foldEntries (events s) else state)" for x
    using st'(2) here there Cons.prems(1) sameRun_trans
    by (cases "x = r"; cases "x \<in> set rs") (auto dest: spec [of _ x])
  with st'(1) run show ?case by simp
qed simp

section \<open>The rebuild\<close>

lemma mirrorAt_row:
  assumes "mirrorAt b s st r"
  shows "rel_option (agree b) (runRows s r) (rebuiltRuns st r)" and "rebuiltRuns st r \<noteq> None \<longleftrightarrow> runRows s r \<noteq> None"
    and "runRows s r = None \<Longrightarrow> foldRuns st r = None"
  using assms by (cases "runRows s r"; cases "foldRuns st r"; auto simp: mirrorAt_def mirrors_def rebuiltRuns_def)+

lemma mirrorAt_attempt:
  assumes "mirrorAt b s st r"
  shows "rebuiltAttempts st (r, d, n) = map_option (\<lambda>row. row\<lparr>a_heartbeatAtMs := None\<rparr>) (attemptRows s (r, d, n))"
proof -
  from assms have "rel_option (attMirrors (r, d, n)) (attemptRows s (r, d, n)) (foldAttempts st (attemptKey r d n))"
    by (simp add: mirrorAt_def)
  then show ?thesis
    by (cases "attemptRows s (r, d, n)"; cases "foldAttempts st (attemptKey r d n)")
      (auto simp: rebuiltAttempts_def attMirrors_def)
qed

lemma agree_parent: "agree b row u \<Longrightarrow> parentRunId u = parentRunId row"
  by (simp add: agree_def clearRowClaim_def RunRow_eq_iff)

lemma rebuiltRun_ok:
  assumes "tables_ok s" "\<forall>r. mirrorAt b s st r"
  shows "rebuiltRunOk st r"
proof (cases "runRows s r")
  case None
  then have "foldRuns st r = None" using assms(2) mirrorAt_row(3) by blast
  then show ?thesis by (simp add: rebuiltRunOk_def)
next
  case (Some row)
  moreover have "rel_option (mirrors b r) (runRows s r) (foldRuns st r)" using assms(2) by (simp add: mirrorAt_def)
  ultimately obtain f u where f: "foldRuns st r = Some f" "rowOfFold f = Some u" "run_check r u" "agree b row u"
    by (cases "foldRuns st r") (auto simp: mirrors_def)
  have "rebuiltRuns st p \<noteq> None" if "parentRunId u = Some p" for p
    using that assms Some mirrorAt_row(2) agree_parent [OF f(4)] unfolding tables_ok_def by metis
  with f show ?thesis by (simp add: rebuiltRunOk_def split: option.split)
qed

lemma rebuiltAttempt_ok:
  assumes "tables_ok s" "\<forall>r. mirrorAt b s st r"
  shows "rebuiltAttemptOk st k"
proof (cases k)
  case (fields r d n)
  have m: "mirrorAt b s st r" using assms(2) by blast
  show ?thesis
  proof (cases "attemptRows s (r, d, n)")
    case None
    then show ?thesis using mirrorAt_attempt [OF m] fields by (simp add: rebuiltAttemptOk_def)
  next
    case (Some row)
    moreover have "rel_option (attMirrors (r, d, n)) (attemptRows s (r, d, n)) (foldAttempts st (attemptKey r d n))"
      using m by (simp add: mirrorAt_def)
    ultimately have "attempt_check (r, d, n) (row\<lparr>a_heartbeatAtMs := None\<rparr>)"
      by (cases "foldAttempts st (attemptKey r d n)") (auto simp: attMirrors_def attempt_check_def optSafe_def)
    moreover have "runRows s r \<noteq> None" using assms(1) Some unfolding tables_ok_def by blast
    ultimately show ?thesis using Some fields mirrorAt_attempt [OF m] mirrorAt_row(2) [OF m]
      by (simp add: rebuiltAttemptOk_def)
  qed
qed

theorem rebuild_sound:
  fixes s :: "'l store"
  assumes "sound I b s" "0 < k" "isSafeInteger k"
  shows "\<exists>st. rebuild k s = (Inr (), s\<lparr>runRows := rebuiltRuns st, attemptRows := rebuiltAttempts st\<rparr>)
    \<and> (\<forall>r. rel_option (agree b) (runRows s r) (rebuiltRuns st r))
    \<and> rebuiltAttempts st = (\<lambda>key. map_option (\<lambda>row. row\<lparr>a_heartbeatAtMs := None\<rparr>) (attemptRows s key))"
proof -
  have m: "mirrored foldEntries b s" "cps_ok (events s) (checkpoints s)" using assms(1) by (auto simp: sound_def)
  then have tab: "tables_ok s" and at: "\<forall>r. mirrorAt b s (foldEntries (events s)) r" by (auto simp: mirrored_iff)
  have ev: "evs_ok (events s)" using tab by (simp add: tables_ok_def)
  let ?rs = "sort (remdups (map runId (events s)))"
  obtain st where st: "foldRunsFrom k ?rs s emptyState = Inr st"
    "\<forall>r. sameRun r st (if r \<in> set ?rs then foldEntries (events s) else emptyState)"
    using foldRunsFrom_all [OF ev m(2) assms(2,3), of ?rs emptyState] by auto
  have "sameRun r st (foldEntries (events s))" for r
  proof (cases "r \<in> set ?rs")
    case True
    then show ?thesis using st(2) by metis
  next
    case False
    then have "entriesOf r (events s) = []" by (auto simp: filter_empty_conv)
    from foldEntries_none [OF this] have "sameRun r emptyState (foldEntries (events s))" by (rule sameRun_sym)
    moreover have "sameRun r st emptyState" using st(2) False by metis
    ultimately show ?thesis by (rule sameRun_trans [rotated])
  qed
  then have all: "\<forall>r. mirrorAt b s st r" using at mirrorAt_cong by blast
  have "rebuild k s = (Inr (), s\<lparr>runRows := rebuiltRuns st, attemptRows := rebuiltAttempts st\<rparr>)"
    using st(1) rebuiltRun_ok [OF tab all] rebuiltAttempt_ok [OF tab all]
    by (simp add: rebuild_def bindT_def runs_def retT_def list_all_iff)
  moreover have "rebuiltAttempts st = (\<lambda>key. map_option (\<lambda>row. row\<lparr>a_heartbeatAtMs := None\<rparr>) (attemptRows s key))"
    by (intro ext) (auto simp: mirrorAt_attempt [OF all [rule_format]])
  ultimately show ?thesis using all mirrorAt_row(1) by blast
qed

lemma agree_exact: "agree True row u \<Longrightarrow> u\<lparr>heartbeatAtMs := None\<rparr> = row\<lparr>heartbeatAtMs := None\<rparr>"
  by (simp add: agree_defs)

lemma rel_agree_exact:
  assumes "\<forall>r. rel_option (agree True) (rows r) (rows' r)"
  shows "map_option (\<lambda>u. u\<lparr>heartbeatAtMs := None\<rparr>) \<circ> rows' = map_option (\<lambda>u. u\<lparr>heartbeatAtMs := None\<rparr>) \<circ> rows"
proof
  fix r
  from assms have "rel_option (agree True) (rows r) (rows' r)" ..
  then show "(map_option (\<lambda>u. u\<lparr>heartbeatAtMs := None\<rparr>) \<circ> rows') r = (map_option (\<lambda>u. u\<lparr>heartbeatAtMs := None\<rparr>) \<circ> rows) r"
    by (cases "rows r"; cases "rows' r") (auto dest: agree_exact)
qed

text \<open>A process that has just opened a database to which the migrations have been applied.\<close>

definition opened :: "'l \<Rightarrow> (nat \<Rightarrow> ms) \<Rightarrow> 'l store" where
  "opened l c = \<lparr>leases = l, events = [], checkpoints = [], status = Open, sequences = Map.empty,
     sourceSequences = Map.empty, sourceEvents = [], readers = (\<lambda>_. []), settlements = [], clock = c, tick = 0,
     runRows = Map.empty, attemptRows = Map.empty\<rparr>"

lemma opened_sound:
  assumes "I l" "\<forall>n. safeMs (c n)"
  shows "sound I b (opened l c)"
  using assms by (auto simp: sound_def opened_def clock_ok_def cps_ok_def mirrored_def evs_ok_def foldEntries_def emptyState_def resumable_def ordered_def)

section \<open>Rows that decode\<close>

lemma identityGroup_iff:
  "identityGroup h p n t \<longleftrightarrow> (\<exists>h' p' n' t'. h = Some h' \<and> p = Some p' \<and> n = Some n' \<and> t = Some t' \<and> h' \<noteq> [] \<and> p' \<ge> 0 \<and> n' \<noteq> [])"
  by (cases "(h, p, n, t)" rule: identityGroup.cases) auto

text \<open>A row that passes the CHECKs of its table is one \<open>decodeRunRow\<close> accepts.\<close>

lemma run_check_decodes:
  assumes "run_check r row"
  shows "\<exists>w cl. decodeRunRow m row = Inr \<lparr>v_owner = w, v_claim = cl, v_row = row\<rparr> \<and> (r_status row = RSrunning \<longleftrightarrow> w \<noteq> None)"
proof -
  have own: "\<exists>w. ownerFromColumns (ownerHostId row) (ownerPid row) (ownerNonce row) = Some w
      \<and> (w = None \<longleftrightarrow> heartbeatAtMs row = None) \<and> (r_status row = RSrunning \<longleftrightarrow> w \<noteq> None)"
    using assms by (auto simp: run_check_def identityGroup_iff ownerFromColumns_def split: if_splits)
  have cl: "\<exists>w. ownerFromColumns (claimHostId row) (claimPid row) (claimNonce row) = Some w
      \<and> (w = None \<longleftrightarrow> claimedAtMs row = None)"
    using assms by (auto simp: run_check_def identityGroup_iff ownerFromColumns_def)
  have "isJsonString (stateJson row)" using assms by (simp add: run_check_def)
  with own cl show ?thesis by (auto simp: decodeRunRow_def Let_def)
qed

end
