(* ===== verification/Journal_Room.thy ===== *)
theory Journal_Room
  imports Journal_Log
begin

text \<open>
  When a durable append succeeds: a journal with room, and how much room an append and the settlement
  of its transaction leave.
\<close>

section \<open>Appends that succeed\<close>

text \<open>
  A journal with room for \<open>k\<close> more appends anywhere: it is open, its clock is sane, and no sequence is
  within \<open>k\<close> of the largest safe integer.
\<close>

definition nextSeq :: "string \<Rightarrow> ('l, 'z) journal_db_scheme \<Rightarrow> int" where
  "nextSeq r s = max (nextDurableSeq r (events s)) (orZero (sequences s r))"

definition nextSourceSeq :: "string \<Rightarrow> string \<Rightarrow> ('l, 'z) journal_db_scheme \<Rightarrow> int" where
  "nextSourceSeq r src s = max (nextDurableSourceSeq r src (events s)) (orZero (sourceSequences s (sourceKey r src)))"

definition room :: "nat \<Rightarrow> ('l, 'z) journal_db_scheme \<Rightarrow> bool" where
  "room k s \<longleftrightarrow> status s = Open \<and> (\<forall>n. 0 \<le> clock s n \<and> isSafeInteger (clock s n))
     \<and> (\<forall>r. nextSeq r s + int k \<le> MAX_SAFE_INTEGER) \<and> (\<forall>r src. nextSourceSeq r src s + int k \<le> MAX_SAFE_INTEGER)"

lemma nextSeq_nonneg: "evs_ok (events s) \<Longrightarrow> 0 \<le> nextSeq r s"
  by (auto simp: nextSeq_def nextDurableSeq_def evs_ok_def event_check_def le_max_iff_disj intro!: maxPlus1_nonneg)

lemma nextSourceSeq_nonneg: "evs_ok (events s) \<Longrightarrow> 0 \<le> nextSourceSeq r src s"
  by (auto simp: nextSourceSeq_def nextDurableSourceSeq_def evs_ok_def event_check_def le_max_iff_disj intro!: maxPlus1_nonneg)

lemma maxPlus1_snoc: "maxPlus1 (ns @ [n]) = (if ns = [] then n + 1 else max (maxPlus1 ns) (n + 1))"
  by (cases ns) (auto simp: maxPlus1_def)

lemma nextDurable_snoc:
  "nextDurableSeq r (evs @ [e]) \<le> (if runId e = r then max (nextDurableSeq r evs) (seq e + 1) else nextDurableSeq r evs)"
  "nextDurableSourceSeq r src (evs @ [e]) \<le>
     (if runId e = r \<and> sourceId e = src then max (nextDurableSourceSeq r src evs) (sourceSeq e + 1)
      else nextDurableSourceSeq r src evs)"
  by (auto simp: nextDurableSeq_def nextDurableSourceSeq_def maxPlus1_snoc)

lemma room_lt: "room (Suc k) s \<Longrightarrow> nextSeq r s < MAX_SAFE_INTEGER \<and> nextSourceSeq r src s < MAX_SAFE_INTEGER"
  unfolding room_def by (smt (verit) of_nat_Suc of_nat_0_le_iff)

lemma room_step:
  assumes "room (Suc k) s" "\<And>r. nextSeq r s' \<le> nextSeq r s + 1" "\<And>r src. nextSourceSeq r src s' \<le> nextSourceSeq r src s + 1"
    and "status s' = status s" "clock s' = clock s"
  shows "room k s'"
proof -
  have a: "nextSeq r s + int (Suc k) \<le> MAX_SAFE_INTEGER" "nextSourceSeq r src s + int (Suc k) \<le> MAX_SAFE_INTEGER" for r src
    using assms(1) by (simp_all only: room_def)
  have "nextSeq r s' + int k \<le> MAX_SAFE_INTEGER" "nextSourceSeq r src s' + int k \<le> MAX_SAFE_INTEGER" for r src
    using a(1) [of r] a(2) [of r src] assms(2) [of r] assms(3) [of r src] by simp_all
  with assms(1,4,5) show ?thesis by (simp add: room_def)
qed

lemma insertRow_new:
  assumes "event_check q" "\<forall>x \<in> set (events s). \<not> conflicts x q"
  shows "selectExisting q s = (Inr None, s)" "insertRow q s = (Inr (q, True), s\<lparr>events := events s @ [q]\<rparr>)"
proof -
  have "filter (\<lambda>row. sameIdentity row q) (events s) = []" using assms(2) by (auto simp: conflicts_def filter_empty_conv)
  then show "selectExisting q s = (Inr None, s)" by (simp add: selectExisting_def)
  show "insertRow q s = (Inr (q, True), s\<lparr>events := events s @ [q]\<rparr>)"
    using assms by (auto simp: insertRow_def list_ex_iff)
qed

context journal_service
begin

lemma insertOne_new:
  fixes s :: "('l, 'z) journal_db_scheme"
  assumes "event_check q" "\<forall>x \<in> set (events s). \<not> conflicts x q"
    and "\<forall>w. owner = Some w \<longrightarrow> c_guard S (runId q) w (leases s) = (Inr (), leases s)"
  shows "insertOne cfg q owner s = (Inr (q, True), s\<lparr>events := events s @ [q]\<rparr>)"
  using insertRow_new [OF assms(1,2)] assms(3)
  by (cases owner) (simp_all add: insertOne_def bindT_def fenceGuard_def consensusT_def)

lemma emit_succeeds:
  fixes s :: "('l, 'z) journal_db_scheme"
  assumes "inv (leases s)" "evs_ok (events s)" "room (Suc k) s" "in_sourceSeq input = None"
    and "in_runId input \<noteq> []" "in_sourceId input \<noteq> []" "in_eventType input \<noteq> []"
    and "\<forall>w. owner = Some w \<longrightarrow> c_guard S (in_runId input) w (leases s) = (Inr (), leases s)"
  shows "\<exists>rc s' e. emitDurable cfg input owner s = (Inr rc, s') \<and> room k s'
    \<and> events s' = events s @ [e] \<and> settlements s' = settlements s @ [(e, seq e)]"
proof -
  let ?r = "in_runId input" and ?src = "in_sourceId input" and ?now = "clock s (tick s)"
  let ?ssq = "nextSourceSeq ?r ?src s" and ?sq = "nextSeq ?r s"
  let ?pm = "(scrubbed cfg input (in_payload input), scrubbed cfg input (metaOf input))"
  let ?e = "\<lparr>runId = ?r, seq = ?sq, eventId = makeEventId ?r ?src ?ssq, sourceId = ?src, sourceSeq = ?ssq,
     emittedAtMs = ?now, eventType = in_eventType input, payload = fst ?pm, meta = snd ?pm\<rparr>"
  let ?s1 = "s\<lparr>tick := Suc (tick s)\<rparr>"
  let ?s2 = "raiseSourceSequenceFloor ?r ?src ?ssq (raiseSequenceFloor ?r ?sq ?s1)"
  have rng: "0 \<le> ?sq" "0 \<le> ?ssq" "?sq < MAX_SAFE_INTEGER" "?ssq < MAX_SAFE_INTEGER"
    using nextSeq_nonneg [OF assms(2)] nextSourceSeq_nonneg [OF assms(2)] room_lt [OF assms(3)] by auto
  have now: "0 \<le> ?now" "isSafeInteger ?now" and open_s: "status s = Open" using assms(3) by (auto simp: room_def)
  have prep: "prepare cfg input ?now ?s1 = (Inr ?pm, ?s1)"
    using assms(4-7) now open_s by (simp add: prepare_def scrubbed_def metaOf_def Let_def)
  have ok: "allocatable ?ssq" "isSafeInteger ?sq" "?sq \<noteq> MAX_SAFE_INTEGER"
    using rng by (auto simp: allocatable_def isSafeInteger_def)
  have fold: "max (nextDurableSourceSeq ?r ?src (events s)) (orZero (sourceSequences s (sourceKey ?r ?src))) = ?ssq"
    "max (nextDurableSeq ?r (events s)) (orZero (sequences s ?r)) = ?sq" by (simp_all add: nextSeq_def nextSourceSeq_def)
  have alloc: "allocateEntry input ?pm ?now ?s1 = (Inr ?e, ?s2)"
    using ok assms(4) fold by (simp add: allocateEntry_def Let_def)
  have chk: "event_check ?e" using rng now assms(5-7)
    by (simp add: event_check_def MAX_SAFE_INTEGER_def isSafeInteger_def makeEventId_def)
  have new: "\<forall>x \<in> set (events ?s2). \<not> conflicts x ?e"
  proof
    fix x assume x: "x \<in> set (events ?s2)"
    have "seq x < ?sq" if "runId x = ?r"
      using x that maxPlus1_greater [of "seq x" "map seq (filter (\<lambda>e. runId e = ?r) (events s))"]
      by (auto simp: nextSeq_def nextDurableSeq_def)
    moreover have "sourceSeq x < ?ssq" if "runId x = ?r" "sourceId x = ?src"
      using x that maxPlus1_greater [of "sourceSeq x" "map sourceSeq (filter (\<lambda>e. runId e = ?r \<and> sourceId e = ?src) (events s))"]
      by (auto simp: nextSourceSeq_def nextDurableSourceSeq_def)
    moreover have "sameIdentity x ?e \<longleftrightarrow> runId x = ?r \<and> sourceId x = ?src \<and> sourceSeq x = ?ssq"
      using x assms(2) by (subst sameIdentity_triple) auto
    ultimately show "\<not> conflicts x ?e" by (auto simp: conflicts_def)
  qed
  let ?s' = "?s2\<lparr>events := events s @ [?e], settlements := settlements s @ [(?e, ?sq)]\<rparr>"
  have "insertOne cfg ?e owner ?s2 = (Inr (?e, True), ?s2\<lparr>events := events s @ [?e]\<rparr>)"
    using insertOne_new [OF chk new, of owner] assms(8) by simp
  then have "emitDurable cfg input owner s = (Inr (Accepted ?sq ?ssq), ?s')"
    using prep alloc by (simp add: emitDurable_def bindT_def mapError_def currentTimeMillis_def
        raiseSourceSequenceFloor_def raiseSequenceFloor_def Let_def)
  moreover have "room k ?s'"
  proof -
    have "nextSeq r ?s' \<le> nextSeq r s + 1" for r
      using nextDurable_snoc(1) [of r "events s" ?e]
      by (auto simp: nextSeq_def raiseSourceSequenceFloor_def raiseSequenceFloor_def orZero_def Let_def split: if_splits)
    moreover have "nextSourceSeq r src ?s' \<le> nextSourceSeq r src s + 1" for r src
      using nextDurable_snoc(2) [of r src "events s" ?e]
      by (auto simp: nextSourceSeq_def raiseSourceSequenceFloor_def raiseSequenceFloor_def orZero_def sourceKey_inject Let_def split: if_splits)
    ultimately show ?thesis
      by (rule room_step [OF assms(3)]) (simp_all add: raiseSourceSequenceFloor_def raiseSequenceFloor_def Let_def)
  qed
  moreover have "events ?s' = events s @ [?e]" "settlements ?s' = settlements s @ [(?e, seq ?e)]" by simp_all
  ultimately show ?thesis by (intro exI [of _ "Accepted ?sq ?ssq"] exI [of _ ?s'] exI [of _ ?e]) simp
qed

end

text \<open>Settling a commit whose entry is in the table moves no floor.\<close>

lemma remember_room:
  assumes "room k s" "x \<in> set (events s)" "runId x = runId q" "sourceId x = sourceId q" "sourceSeq x = sourceSeq q" "seq x = n"
  shows "room k (rememberCommitted cfg q n s)"
proof -
  let ?s' = "rememberCommitted cfg q n s"
  have "n \<in> set (map seq (filter (\<lambda>e. runId e = runId q) (events s)))" using assms(2,3,6) by force
  then have "n < nextDurableSeq (runId q) (events s)" unfolding nextDurableSeq_def by (rule maxPlus1_greater)
  moreover have "sourceSeq q \<in> set (map sourceSeq (filter (\<lambda>e. runId e = runId q \<and> sourceId e = sourceId q) (events s)))"
    using assms(2-5) by (auto simp: image_iff intro!: bexI [of _ x])
  then have "sourceSeq q < nextDurableSourceSeq (runId q) (sourceId q) (events s)"
    unfolding nextDurableSourceSeq_def by (rule maxPlus1_greater)
  ultimately have "nextSeq r ?s' = nextSeq r s" "nextSourceSeq r src ?s' = nextSourceSeq r src s" for r src
    by (auto simp: nextSeq_def nextSourceSeq_def rememberCommitted_def retain_def raiseSourceSequenceFloor_def
        raiseSequenceFloor_def orZero_def sourceKey_inject Let_def split: option.splits)
  moreover have "status ?s' = status s" "clock ?s' = clock s"
    by (simp_all add: rememberCommitted_def retain_def raiseSourceSequenceFloor_def raiseSequenceFloor_def Let_def)
  ultimately show ?thesis using assms(1) by (simp add: room_def)
qed

lemma room_memory [simp]: "room k (s\<lparr>settlements := z\<rparr>) = room k s" "room k (s\<lparr>tick := t\<rparr>) = room k s"
  by (simp_all add: room_def nextSeq_def nextSourceSeq_def)

lemma settle_one_room: "room k s \<Longrightarrow> settlements s = [(e, seq e)] \<Longrightarrow> e \<in> set (events s) \<Longrightarrow> room k (settleAll cfg s)"
  using remember_room [of k s e e "seq e" cfg] by (simp add: settleAll_def)

lemma settle_none_room: "room k s \<Longrightarrow> settlements s = [] \<Longrightarrow> room k (settleAll cfg s)"
  by (simp add: settleAll_def)

end
