(* ===== verification/Store_Live.thy ===== *)
theory Store_Live
  imports Rebuild Journal_Room
begin

text \<open>
  What the stores do when nothing stands in the way, and what they refuse. An append succeeds on a
  journal with room; the owner of a run can settle it; a process that does not own the run cannot.
\<close>

section \<open>Settling a run\<close>

lemma sql_guard_holds: "sql_inv l \<Longrightarrow> holds (sql_view l r) w \<Longrightarrow> sql_guard r w l = (Inr (), l)"
  by (erule sql_inv_obtain) (auto simp: sql_guard_follows local_guard_def local_view_def holds_def split: option.splits)

lemma sql_release_done:
  assumes "sql_inv l"
  obtains l' where "sql_release r w l = (Inr (), l')" "sql_inv l'" "sql_view l' = (sql_view l)(r := released w (sql_view l r))"
proof -
  from assms obtain m where m: "l = encodeTable m" "local_inv m" by (rule sql_inv_obtain)
  let ?l = "encodeTable (snd (local_release r w m))"
  have rel: "sql_release r w l = (Inr (), ?l)" using sql_release_follows m(1) by simp
  moreover have "sql_inv ?l" using local_inv_release [OF m(2), of r w] by (auto simp: makeLocal_sel prod_eq_iff)
  ultimately show thesis using sql.release_done [OF assms, of r w ?l] that by simp
qed

lemma updateRun_succeeds:
  assumes "runRows s r = Some row" "run_check r (f row)" "parentRunId (f row) = parentRunId row" "tables_ok s"
  shows "updateRun r (\<lambda>_. True) f s = (Inr True, s\<lparr>runRows := (runRows s)(r \<mapsto> f row)\<rparr>)"
proof -
  have "case parentRunId row of None \<Rightarrow> True | Some p \<Rightarrow> p = r \<or> runRows s p \<noteq> None"
    using assms(1,4) by (auto simp: tables_ok_def split: option.split)
  with assms(1-3) show ?thesis by (simp add: updateRun_def putRun_def bindT_def)
qed

lemma settleRow_check:
  assumes "run_check r row" "st \<noteq> RSrunning" "safeMs t" "\<forall>x. stj = Some x \<longrightarrow> isJsonString x"
  shows "run_check r (settleRow st t stj row)"
  using assms by (auto simp: run_check_def settleRow_def withState_def clearRowClaim_def clearRowOwner_def optSafe_def split: option.splits)

lemma room_upd [simp]:
  "room k (s\<lparr>runRows := x\<rparr>) = room k s" "room k (s\<lparr>leases := l\<rparr>) = room k s"
  "room k (s\<lparr>tick := t, settlements := z\<rparr>) = room k s"
  by (simp_all add: room_def nextSeq_def nextSourceSeq_def)

lemma emit_fine:
  fixes s :: "lease_table store"
  assumes "sql_inv (leases s)" "evs_ok (events s)" "room (Suc k) s" "in_sourceSeq input = None"
    and "in_runId input \<noteq> []" "in_sourceId input \<noteq> []" "in_eventType input \<noteq> []"
    and "\<forall>w. owner = Some w \<longrightarrow> holds (sql_view (leases s) (in_runId input)) w"
  obtains rc s' where "emitDurable (sqlConfig rs n) input owner s = (Inr rc, s')" "frame s s'" "evs_ok (events s')" "room k s'"
proof -
  have "\<forall>w. owner = Some w \<longrightarrow> c_guard makeSql (in_runId input) w (leases s) = (Inr (), leases s)"
    using assms(1,8) sql_guard_holds by simp
  from sqlj.emit_succeeds [OF assms(1-7) this] obtain rc s' where e: "emitDurable (sqlConfig rs n) input owner s = (Inr rc, s')"
    "room k s'" by blast
  moreover have "frame s s'" using sqlj.emit_Inr [OF assms(1) e(1)] by blast
  moreover have "evs_ok (events s')" by (rule sqlj.emit_evs_ok [OF assms(1,2) e(1)])
  ultimately show thesis using that by blast
qed

lemma record_fine:
  fixes s :: "lease_table store"
  assumes "sql_inv (leases s)" "evs_ok (events s)" "room (Suc k) s" "r \<noteq> []"
    and "\<forall>w. owner = Some w \<longrightarrow> holds (sql_view (leases s) r) w"
  obtains s' where "recordRunEvent (sqlConfig rs n) r kind fs owner s = (Inr (), s')" "frame s s'" "evs_ok (events s')" "room k s'"
proof -
  have "in_sourceSeq (runEventInput r kind fs) = None" "in_runId (runEventInput r kind fs) = r"
    "in_sourceId (runEventInput r kind fs) \<noteq> []" "in_eventType (runEventInput r kind fs) \<noteq> []"
    by (simp_all add: runEventInput_def)
  then obtain rc s' where "emitDurable (sqlConfig rs n) (runEventInput r kind fs) owner s = (Inr rc, s')" "frame s s'"
    "evs_ok (events s')" "room k s'"
    using emit_fine [OF assms(1-3), of "runEventInput r kind fs" owner rs n] assms(4,5) by metis
  then show thesis by (intro that [of s']) (auto simp: recordRunEvent_def)
qed

lemma transition_fine:
  fixes s :: "lease_table store"
  assumes "sql_inv (leases s)" "evs_ok (events s)" "room (Suc k) s" "r \<noteq> []"
  obtains s' where "recordTransition (sqlConfig rs n) r tr w g s = (Inr (), s')" "frame s s'" "evs_ok (events s')" "room k s'"
proof -
  have "in_sourceSeq (transitionInput r tr w g) = None" "in_runId (transitionInput r tr w g) = r"
    "in_sourceId (transitionInput r tr w g) \<noteq> []" "in_eventType (transitionInput r tr w g) \<noteq> []"
    by (simp_all add: transitionInput_def)
  then obtain rc s' where "emitDurable (sqlConfig rs n) (transitionInput r tr w g) None s = (Inr rc, s')" "frame s s'"
    "evs_ok (events s')" "room k s'"
    using emit_fine [OF assms(1-3), of "transitionInput r tr w g" None rs n] assms(4) by (metis option.distinct(1))
  then show thesis by (intro that [of s']) (auto simp: recordTransition_def)
qed

lemma settleBody_succeeds:
  fixes s :: "lease_table store"
  assumes "sql_inv (leases s)" "tables_ok s" "room 2 s" "runRows s r = Some row" "run_check r row" "rowOwnedBy row w"
    and "holds (sql_view (leases s) r) w" "\<not> guardBlocked g row" "st \<noteq> RSrunning" "safeMs now"
    and "\<forall>x. stj = Some x \<longrightarrow> isJsonString x"
  obtains s' where "transitionOwnedBody (sqlConfig rs n) r w st stj g now s = (Inr OTransitioned, s')"
    "runRows s' = (runRows s)(r \<mapsto> settleRow st now stj row)"
    "sql_inv (leases s')" "sql_view (leases s') = (sql_view (leases s))(r := released w (sql_view (leases s) r))"
proof -
  let ?cfg = "sqlConfig rs n" and ?s1 = "s\<lparr>runRows := (runRows s)(r \<mapsto> settleRow st now stj row)\<rparr>"
  have r: "r \<noteq> []" using assms(5) by (simp add: run_check_def)
  have held: "heldT ?cfg r w s = (Inr True, s)"
    using sql_guard_holds [OF assms(1,7)] by (simp add: heldT_def consensusT_def sqlConfig_def)
  have upd: "updateRun r (\<lambda>_. True) (settleRow st now stj) s = (Inr True, ?s1)"
    using settleRow_check [OF assms(5,9,10,11)] by (intro updateRun_succeeds [OF assms(4) _ _ assms(2)]) simp_all
  have s1: "sql_inv (leases ?s1)" "evs_ok (events ?s1)" "room (Suc 1) ?s1"
    using assms(1-3) by (simp_all add: tables_ok_def numeral_2_eq_2)
  obtain s2 where s2: "recordRunEvent ?cfg r ''transitioned'' (transitionFields st now stj) (Some w) ?s1 = (Inr (), s2)"
    "frame ?s1 s2" "evs_ok (events s2)" "room 1 s2"
    by (rule record_fine [OF s1 r, of "Some w" rs n "''transitioned''" "transitionFields st now stj"]) (use assms(7) in simp_all)
  have l2: "leases s2 = leases s" using s2(2) by (simp add: frame_def)
  obtain l where l: "sql_release r w (leases s) = (Inr (), l)" "sql_inv l"
    "sql_view l = (sql_view (leases s))(r := released w (sql_view (leases s) r))" by (rule sql_release_done [OF assms(1)])
  let ?s3 = "s2\<lparr>leases := l\<rparr>"
  have rel: "releaseT ?cfg r w s2 = (Inr (), ?s3)" using l(1) l2 by (simp add: consensusT_def sqlConfig_def)
  have "sql_inv (leases ?s3)" "evs_ok (events ?s3)" "room (Suc 0) ?s3"
    using l(2) s2(3,4) by simp_all
  from transition_fine [OF this r] obtain s4 where s4: "recordTransition ?cfg r TReleased w None ?s3 = (Inr (), s4)" "frame ?s3 s4" by blast
  have "transitionOwnedBody ?cfg r w st stj g now s = (Inr OTransitioned, s4)"
    using held upd s2(1) rel s4(1) assms(4,6,8,9)
    by (simp add: transitionOwnedBody_def bindT_def selectRun_def getT_def)
  moreover have "runRows s4 = (runRows s)(r \<mapsto> settleRow st now stj row)"
    using frame_store(1) [OF s4(2)] frame_store(1) [OF s2(2)] by simp
  moreover have "leases s4 = l" using s4(2) by (simp add: frame_def)
  ultimately show thesis using l(2,3) that by blast
qed

lemma transact_succeeds:
  assumes "body (s\<lparr>settlements := []\<rparr>) = (Inr a, s1)"
  obtains s' where "transact cfg body s = (Inr a, s')" "frame s1 s'" "events s' = events s1"
  using assms settleAll_tables [of s1 cfg] by (intro that [of "settleAll cfg s1"]) (auto simp: transact_def)

lemma settle_succeeds:
  fixes s :: "lease_table store"
  assumes "sql_inv (leases s)" "tables_ok s" "clock_ok s" "run_check r row" "room 2 s" "runRows s r = Some row" "rowOwnedBy row w"
    and "holds (sql_view (leases s) r) w" "\<not> guardBlocked g row" "st \<noteq> RSrunning" "\<forall>x. stj = Some x \<longrightarrow> isJsonString x"
  obtains s' where "transitionOwned (sqlConfig rs n) r w st stj g s = (Inr OTransitioned, s')"
    "runRows s' = (runRows s)(r \<mapsto> settleRow st (clock s (tick s)) stj row)"
    "sql_inv (leases s')" "sql_view (leases s') = (sql_view (leases s))(r := released w (sql_view (leases s) r))"
proof -
  let ?now = "clock s (tick s)" and ?s0 = "s\<lparr>tick := Suc (tick s), settlements := []\<rparr>"
  have m: "sql_inv (leases ?s0)" "tables_ok ?s0" "run_check r row" "safeMs ?now"
    using assms(1-4) by (simp_all add: tables_ok_def clock_ok_def)
  have "room 2 ?s0" "runRows ?s0 r = Some row" "holds (sql_view (leases ?s0) r) w"
    using assms(5,6,8) by simp_all
  with settleBody_succeeds [OF m(1,2) _ _ m(3) assms(7) _ assms(9,10) m(4) assms(11)] obtain s1 where
    s1: "transitionOwnedBody (sqlConfig rs n) r w st stj g ?now ?s0 = (Inr OTransitioned, s1)"
    "runRows s1 = (runRows s)(r \<mapsto> settleRow st ?now stj row)" "sql_inv (leases s1)"
    "sql_view (leases s1) = (sql_view (leases s))(r := released w (sql_view (leases s) r))" by auto
  have "transitionOwnedBody (sqlConfig rs n) r w st stj g ?now ((s\<lparr>tick := Suc (tick s)\<rparr>)\<lparr>settlements := []\<rparr>) = (Inr OTransitioned, s1)"
    using s1(1) by simp
  then obtain s' where s': "transact (sqlConfig rs n) (transitionOwnedBody (sqlConfig rs n) r w st stj g ?now) (s\<lparr>tick := Suc (tick s)\<rparr>)
      = (Inr OTransitioned, s')" "frame s1 s'" by (rule transact_succeeds)
  have "transitionOwned (sqlConfig rs n) r w st stj g s = (Inr OTransitioned, s')"
    using s'(1) assms(11) by (auto simp: transitionOwned_def withClock_def writeThrough_def split: option.split)
  moreover have "runRows s' = runRows s1" "leases s' = leases s1" using frame_store(1) [OF s'(2)] s'(2) by (auto simp: frame_def)
  ultimately show thesis using s1(2-4) that by metis
qed

section \<open>A claim the row has lost\<close>

lemma writeThrough_InrE:
  assumes "writeThrough cfg m body s = (Inr x, s')"
  obtains s1 where "body (s\<lparr>settlements := []\<rparr>) = (Inr x, s1)"
proof -
  obtain y s2 where t: "transact cfg body s = (y, s2)" by fastforce
  with assms have "transact cfg body s = (Inr x, s2)" by (auto simp: writeThrough_def split: sum.splits)
  then show thesis using that by (rule transact_Inr)
qed

lemma classifyClaimLoss_not_granted [simp]:
  "classifyClaimLoss rowO t \<noteq> OClaimed g" "classifyClaimLoss rowO t \<noteq> OActivated"
  by (auto simp: classifyClaimLoss_def split: option.splits)

text \<open>
  A run whose row shows no claim while its lease holds one: no operation of the run store grants or
  frees it, because the row guards every path to the strategy's release.
\<close>

definition orphanedClaim :: "string \<Rightarrow> RunRow \<Rightarrow> lease_table store \<Rightarrow> bool" where
  "orphanedClaim r row s \<longleftrightarrow> runRows s r = Some row \<and> run_check r row \<and> r_status row \<noteq> RSrunning \<and> claimColumnsFree row
     \<and> sql_inv (leases s) \<and> lease_claim (sql_view (leases s) r) \<noteq> None"

lemma orphaned_sel:
  assumes "orphanedClaim r row s"
  shows "sql_claim r w t (leases s) \<noteq> (Inr (Claimed g), l)" "\<not> rowMatchesClaim row w t" "ownerHostId row = None"
  using assms sql.claim_granted [of "leases s" r w t g l]
  by (auto simp: orphanedClaim_def rowMatchesClaim_def claimColumnsFree_def run_check_def)

lemma orphaned_claim_refused:
  assumes "orphanedClaim r row s"
  shows "fst (claim (sqlConfig rs n) r expected w t s) \<noteq> Inr (OClaimed g)"
proof
  assume "fst (claim (sqlConfig rs n) r expected w t s) = Inr (OClaimed g)"
  then obtain s' where "claim (sqlConfig rs n) r expected w t s = (Inr (OClaimed g), s')"
    by (metis prod.collapse)
  then obtain s1 where b: "claimBody (sqlConfig rs n) r expected w t (s\<lparr>settlements := []\<rparr>) = (Inr (OClaimed g), s1)"
    unfolding claim_def by (rule writeThrough_InrE)
  have row: "runRows (s\<lparr>settlements := []\<rparr>) r = Some row" using assms by (simp add: orphanedClaim_def)
  obtain y l where c: "sql_claim r w t (leases s) = (y, l)" by fastforce
  from b row c orphaned_sel(1) [OF assms] show False
    by (auto simp: claimBody_def selectRun_def bindT_def getT_def consensusT_def sqlConfig_def
        split: if_splits sum.splits ClaimOutcome.splits)
qed

lemma orphaned_own_refused:
  assumes "orphanedClaim r row s"
  shows "fst (claimAndOwn (sqlConfig rs n) r expected w t ev s) \<noteq> Inr OActivated"
proof
  assume "fst (claimAndOwn (sqlConfig rs n) r expected w t ev s) = Inr OActivated"
  then obtain s' where "claimAndOwn (sqlConfig rs n) r expected w t ev s = (Inr OActivated, s')"
    by (metis prod.collapse)
  then have "writeThrough (sqlConfig rs n) ''claimAndOwn'' (claimAndOwnBody (sqlConfig rs n) r expected w t ev) s = (Inr OActivated, s')"
    by (auto simp: claimAndOwn_def Let_def split: if_splits)
  then obtain s1 where b: "claimAndOwnBody (sqlConfig rs n) r expected w t ev (s\<lparr>settlements := []\<rparr>) = (Inr OActivated, s1)"
    by (rule writeThrough_InrE)
  have row: "runRows (s\<lparr>settlements := []\<rparr>) r = Some row" using assms by (simp add: orphanedClaim_def)
  show False
  proof (cases "ownAdmissible (Some row) expected t")
    case False
    with b row show False by (simp add: claimAndOwnBody_def selectRun_def bindT_def getT_def)
  next
    case True
    then have own: "snap_owner expected = None"
      using orphaned_sel(3) [OF assms] by (simp add: ownAdmissible_def snapshotMatchesRow_def)
    obtain y l where c: "sql_claim r w t (leases s) = (y, l)" by fastforce
    from b row c True own orphaned_sel(1) [OF assms] show False
      by (auto simp: claimAndOwnBody_def grantFor_def selectRun_def bindT_def getT_def consensusT_def sqlConfig_def
          split: if_splits sum.splits ClaimOutcome.splits)
  qed
qed

lemma orphaned_release_refused:
  assumes "orphanedClaim r row s"
  shows "fst (abandonClaim (sqlConfig rs n) r w t s) \<noteq> Inr OAbandoned"
    "fst (recoverClaim (sqlConfig rs n) r w t obs now ev s) \<noteq> Inr ORecovered"
    "fst (activate (sqlConfig rs n) r w t expected s) \<noteq> Inr OActivated"
proof -
  have row: "runRows s r = Some row" using assms by (simp add: orphanedClaim_def)
  note no = orphaned_sel(2) [OF assms]
  show "fst (abandonClaim (sqlConfig rs n) r w t s) \<noteq> Inr OAbandoned"
    using row no by (simp add: abandonClaim_def writeThrough_def transact_def abandonClaimBody_def updateRun_def bindT_def)
  show "fst (recoverClaim (sqlConfig rs n) r w t obs now ev s) \<noteq> Inr ORecovered"
    using row no by (simp add: recoverClaim_def writeThrough_def transact_def recoverClaimBody_def selectRun_def bindT_def getT_def)
  show "fst (activate (sqlConfig rs n) r w t expected s) \<noteq> Inr OActivated"
    using row no by (simp add: activate_def withClock_def writeThrough_def transact_def activateBody_def selectRun_def bindT_def getT_def Let_def)
qed

lemma settle_orphans:
  fixes s :: "lease_table store"
  assumes "sql_inv (leases s)" "tables_ok s" "clock_ok s" "run_check r row" "room 2 s" "runRows s r = Some row" "rowOwnedBy row w"
    and "holds (sql_view (leases s) r) w" "\<not> guardBlocked g row" "st \<noteq> RSrunning" "\<forall>x. stj = Some x \<longrightarrow> isJsonString x"
    and "lease_claim (sql_view (leases s) r) = Some c" "lc_id c \<noteq> w"
  obtains s' row' where "transitionOwned (sqlConfig rs n) r w st stj g s = (Inr OTransitioned, s')" "orphanedClaim r row' s'"
    "r_status row' = st" "lease_claim (sql_view (leases s') r) = Some c"
proof -
  obtain s' where s': "transitionOwned (sqlConfig rs n) r w st stj g s = (Inr OTransitioned, s')"
    "runRows s' = (runRows s)(r \<mapsto> settleRow st (clock s (tick s)) stj row)"
    "sql_inv (leases s')" "sql_view (leases s') = (sql_view (leases s))(r := released w (sql_view (leases s) r))"
    by (rule settle_succeeds [OF assms(1-11)])
  have chk: "run_check r row" "safeMs (clock s (tick s))"
    using assms(3,4) by (simp_all add: clock_ok_def)
  have cl: "lease_claim (sql_view (leases s') r) = Some c" using s'(4) assms(12,13) by (simp add: released_def)
  have "orphanedClaim r (settleRow st (clock s (tick s)) stj row) s'"
    using s'(2,3) cl assms(10) settleRow_check [OF chk(1) assms(10) chk(2) assms(11)]
    by (auto simp: orphanedClaim_def settleRow_def withState_def clearRowClaim_def claimColumnsFree_def)
  with s'(1) cl that show thesis by simp
qed

section \<open>What a process that does not own the run can do\<close>

lemma sql_guard_refuses: "sql_inv l \<Longrightarrow> \<not> holds (sql_view l r) w \<Longrightarrow> sql_guard r w l = (Inl (fenceLost r w), l)"
  by (erule sql_inv_obtain) (auto simp: sql_guard_follows local_guard_def local_view_def holds_def split: option.splits)

definition sameRows :: "'l store \<Rightarrow> 'l store \<Rightarrow> bool" where
  "sameRows s s' \<longleftrightarrow> runRows s' = runRows s \<and> attemptRows s' = attemptRows s \<and> events s' = events s"

lemma transact_sameRows:
  fixes s :: "'l store"
  assumes "transact cfg body s = (x, s')" "\<And>y s1. body (s\<lparr>settlements := []\<rparr>) = (Inr y, s1) \<Longrightarrow> sameRows (s\<lparr>settlements := []\<rparr>) s1"
  shows "sameRows s s'"
proof (cases x)
  case (Inl c)
  with assms(1) have "transact cfg body s = (Inl c, s')" by simp
  then show ?thesis by (rule transact_Inl) (cases s; cases s'; simp add: sameRows_def)
next
  case (Inr y)
  with assms(1) have "transact cfg body s = (Inr y, s')" by simp
  then obtain s1 where s1: "body (s\<lparr>settlements := []\<rparr>) = (Inr y, s1)" "frame s1 s'" "events s' = events s1" by (rule transact_Inr)
  from assms(2) [OF s1(1)] s1(3) frame_store [OF s1(2)] show ?thesis by (simp add: sameRows_def)
qed

lemma foreign_transition_refused:
  fixes s :: "lease_table store"
  assumes "sql_inv (leases s)" "runRows s r = Some row" "\<not> (holds (sql_view (leases s) r) w \<and> rowOwnedBy row w)"
    and "\<forall>x. stj = Some x \<longrightarrow> isJsonString x"
  shows "\<exists>s'. transitionOwned (sqlConfig rs n) r w st stj g s = (Inr OFenceLost, s') \<and> sameRows s s' \<and> leases s' = leases s"
proof -
  let ?s0 = "s\<lparr>tick := Suc (tick s), settlements := []\<rparr>"
  have held: "heldT (sqlConfig rs n) r w ?s0 = (Inr (holds (sql_view (leases s) r) w), ?s0)"
    using sql_guard_holds [OF assms(1), of r w] sql_guard_refuses [OF assms(1), of r w]
    by (cases "holds (sql_view (leases s) r) w") (auto simp: heldT_def consensusT_def sqlConfig_def fenceLost_def)
  have body: "transitionOwnedBody (sqlConfig rs n) r w st stj g (clock s (tick s)) ?s0 = (Inr OFenceLost, ?s0)"
    using assms(2,3) held by (simp add: transitionOwnedBody_def bindT_def selectRun_def getT_def del: de_Morgan_conj)
  have "transitionOwned (sqlConfig rs n) r w st stj g s = (Inr OFenceLost, settleAll (sqlConfig rs n) ?s0)"
    using body assms(4)
    by (auto simp: transitionOwned_def withClock_def writeThrough_def transact_def split: option.split)
  moreover have "settleAll (sqlConfig rs n) ?s0 = ?s0" by (simp add: settleAll_def)
  ultimately show ?thesis by (simp add: sameRows_def)
qed

lemma writeAttempt_sameRows:
  assumes "writeAttempt cfg body s = (x, s')" "\<And>y s1. body (s\<lparr>settlements := []\<rparr>) = (Inr y, s1) \<Longrightarrow> sameRows (s\<lparr>settlements := []\<rparr>) s1"
  shows "sameRows s s'"
proof -
  obtain y s1 where t: "transact cfg body s = (y, s1)" by fastforce
  with assms(1) have "s' = s1" by (auto simp: writeAttempt_def split: sum.splits if_splits)
  with transact_sameRows [OF t assms(2)] show ?thesis by simp
qed

lemma updateAttempt_refused:
  "\<not> fenced (id_runId i) w s \<Longrightarrow> updateAttempt i w p f s = (Inr False, s)"
  "attemptRows s (key i) = Some row \<Longrightarrow> \<not> p row \<Longrightarrow> updateAttempt i w p f s = (Inr False, s)"
  by (auto simp: updateAttempt_def split: option.splits)

lemma sameRows_refl [simp]: "sameRows s s"
  by (simp add: sameRows_def)

lemma fenced_settlements [simp]: "fenced r w (s\<lparr>settlements := z\<rparr>) = fenced r w s"
  by (simp add: fenced_def)

lemma unfenced_put:
  assumes "\<not> fenced (id_runId (at_id a)) w s" "putBody cfg opts a w s = (Inr y, s')"
  shows "s' = s \<and> (y = AFenceLost \<or> y = ARunNotFound)"
proof -
  have "insertAttempt a w s = (Inr False, s)" using assms(1) by (simp add: insertAttempt_def)
  moreover have "\<not> ownsRunningRun row w" if "runRows s (id_runId (at_id a)) = Some row" for row
    using assms(1) that by (simp add: fenced_def)
  ultimately show ?thesis using assms(2) updateAttempt_refused(1) [OF assms(1), of "\<lambda>_. True" "\<lambda>_. attemptRowOf a"]
    by (auto simp: putBody_def Let_def bindT_def selectRun_def getT_def split: option.splits if_splits)
qed

text \<open>Every write of an attempt by a process that does not own the running run leaves the rows and the journal alone.\<close>

lemma unfenced_writes:
  assumes "\<not> fenced (id_runId i) w s"
  shows "put cfg opts a w s = (x, s') \<Longrightarrow> at_id a = i \<Longrightarrow> sameRows s s'"
    "attemptHeartbeat cfg opts i w t c s = (x, s') \<Longrightarrow> sameRows s s'"
    "finish cfg opts f w s = (x, s') \<Longrightarrow> fi_id f = i \<Longrightarrow> sameRows s s'"
    "patch cfg opts i p w s = (x, s') \<Longrightarrow> sameRows s s'"
proof -
  let ?s0 = "s\<lparr>settlements := []\<rparr>"
  have no: "\<not> fenced (id_runId i) w ?s0" using assms by simp
  note refused = updateAttempt_refused(1) [OF no]
  show "put cfg opts a w s = (x, s') \<Longrightarrow> at_id a = i \<Longrightarrow> sameRows s s'"
    using unfenced_put [of a w ?s0 cfg opts] no
    by (auto simp: put_def split: if_splits elim!: writeAttempt_sameRows)
  show "attemptHeartbeat cfg opts i w t c s = (x, s') \<Longrightarrow> sameRows s s'"
    using refused classifyAttempt_state [of i w ?s0]
    by (auto simp: attemptHeartbeat_def attemptHeartbeatBody_def bindT_def split: if_splits elim!: writeAttempt_sameRows)
  show "finish cfg opts f w s = (x, s') \<Longrightarrow> fi_id f = i \<Longrightarrow> sameRows s s'"
    using refused classifyAttempt_state [of i w ?s0]
    by (auto simp: finish_def finishBody_def bindT_def split: if_splits elim!: writeAttempt_sameRows)
  show "patch cfg opts i p w s = (x, s') \<Longrightarrow> sameRows s s'"
    using refused
    by (auto simp: patch_def patchBody_def bindT_def getT_def split: if_splits elim!: writeAttempt_sameRows)
qed

section \<open>Attempts are written once\<close>

lemma put_existing:
  assumes "attemptRows s (key (at_id a)) = Some row" "\<not> upsert opts" "put cfg opts a w s = (x, s')"
  shows "sameRows s s' \<and> (x = Inr AExistingSame \<longrightarrow> sameAttempt row a) \<and> (x = Inr AConflict \<longrightarrow> \<not> sameAttempt row a)
    \<and> x \<noteq> Inr AInserted \<and> x \<noteq> Inr AUpserted"
proof (cases "validateId (at_id a) \<and> validAttempt a \<and> checkpointFits opts (at_checkpoint a)")
  case False
  with assms(3) show ?thesis by (auto simp: put_def split: if_splits)
next
  case True
  with assms(3) have w: "writeAttempt cfg (putBody cfg opts a w) s = (x, s')" by (simp add: put_def)
  let ?s0 = "s\<lparr>settlements := []\<rparr>"
  have body: "s1 = ?s0 \<and> (y = AExistingSame \<longrightarrow> sameAttempt row a) \<and> (y = AConflict \<longrightarrow> \<not> sameAttempt row a)
      \<and> y \<noteq> AInserted \<and> y \<noteq> AUpserted" if "putBody cfg opts a w ?s0 = (Inr y, s1)" for y s1
  proof -
    have row: "attemptRows ?s0 (key (at_id a)) = Some row" using assms(1) by simp
    have "insertAttempt a w ?s0 \<noteq> (Inr True, s2)" for s2
      using insertAttempt_Inr [of a w ?s0 True s2] row by auto
    then show ?thesis using that row assms(2) insertAttempt_Inr [of a w ?s0 False]
      by (auto simp: putBody_def Let_def bindT_def selectRun_def getT_def split: option.splits if_splits sum.splits prod.splits bool.splits)
  qed
  have "sameRows s s'" by (rule writeAttempt_sameRows [OF w]) (use body in auto)
  moreover have "x = Inr y \<Longrightarrow> \<exists>s1. putBody cfg opts a w ?s0 = (Inr y, s1) \<or> y = AFenceLost" for y
    using w by (auto simp: writeAttempt_def transact_def split: sum.splits prod.splits if_splits)
  ultimately show ?thesis using body by blast
qed

text \<open>Heartbeat and finish write only an attempt that is still in progress.\<close>

lemma finished_attempt_kept:
  assumes "attemptRows s (key i) = Some row" "a_state row \<notin> set (inProgressStates opts)"
  shows "attemptHeartbeat cfg opts i w t c s = (x, s') \<Longrightarrow> sameRows s s' \<and> x \<noteq> Inr AUpdated"
    "finish cfg opts f w s = (x, s') \<Longrightarrow> fi_id f = i \<Longrightarrow> sameRows s s' \<and> x \<noteq> Inr AFinished"
proof -
  let ?s0 = "s\<lparr>settlements := []\<rparr>"
  let ?p = "\<lambda>row. a_state row \<in> set (inProgressStates opts)"
  have refused: "updateAttempt i w ?p g ?s0 = (Inr False, ?s0)" for g
    using assms by (intro updateAttempt_refused(2) [of _ _ row]) auto
  have cl: "classifyAttempt i w ?s0 = (y, s1) \<Longrightarrow> s1 = ?s0 \<and> y \<noteq> Inr AUpdated \<and> y \<noteq> Inr AFinished" for y s1
    by (auto simp: classifyAttempt_def bindT_def selectRun_def getT_def split: option.splits if_splits)
  have kept: "sameRows s s' \<and> x \<noteq> Inr AUpdated \<and> x \<noteq> Inr AFinished"
    if w: "writeAttempt cfg body s = (x, s')" and b: "body ?s0 = classifyAttempt i w ?s0" for body x s'
  proof -
    obtain y s1 where y: "body ?s0 = (y, s1)" by fastforce
    with cl [of y s1] b have "s1 = ?s0" "y \<noteq> Inr AUpdated" "y \<noteq> Inr AFinished" by auto
    then show ?thesis using y w writeAttempt_sameRows [OF w]
      by (cases y) (auto simp: writeAttempt_def transact_def split: if_splits)
  qed
  show "attemptHeartbeat cfg opts i w t c s = (x, s') \<Longrightarrow> sameRows s s' \<and> x \<noteq> Inr AUpdated"
    using kept [of "attemptHeartbeatBody cfg opts i w t c" x s'] refused
    by (auto simp: attemptHeartbeat_def attemptHeartbeatBody_def bindT_def split: if_splits)
  show "finish cfg opts f w s = (x, s') \<Longrightarrow> fi_id f = i \<Longrightarrow> sameRows s s' \<and> x \<noteq> Inr AFinished"
    using kept [of "finishBody cfg opts f w" x s'] refused
    by (auto simp: finish_def finishBody_def bindT_def split: if_splits)
qed

section \<open>Claims dropped without an event\<close>

lemma writeThrough_frameE:
  assumes "writeThrough cfg m body s = (Inr x, s')"
  obtains s1 where "body (s\<lparr>settlements := []\<rparr>) = (Inr x, s1)" "frame s1 s'" "events s' = events s1"
proof -
  obtain y s2 where t: "transact cfg body s = (y, s2)" by fastforce
  with assms have "transact cfg body s = (Inr x, s')" by (auto simp: writeThrough_def split: sum.splits)
  then show thesis using that by (rule transact_Inr)
qed

lemma activateBody_changed:
  assumes "activateBody cfg r w t expected now s = (Inr OSnapshotChanged, s')"
  shows "\<exists>row l. runRows s r = Some row \<and> rowMatchesClaim row w t
    \<and> s' = s\<lparr>leases := l, runRows := (runRows s)(r \<mapsto> clearRowClaim row)\<rparr>"
proof -
  from assms obtain row where row: "runRows s r = Some row" "rowMatchesClaim row w t"
    by (auto simp: activateBody_def selectRun_def bindT_def getT_def Let_def split: option.splits if_splits)
  have "\<not> snapshotMatchesRow row expected"
    using assms row by (auto simp: activateBody_def selectRun_def bindT_def getT_def Let_def split: sum.splits prod.splits ActivateOutcome.splits)
  with assms row obtain l where "putRun r (clearRowClaim row) (s\<lparr>leases := l\<rparr>) = (Inr (), s')"
    by (auto simp: activateBody_def selectRun_def bindT_def getT_def consensusT_def updateRun_def Let_def split: sum.splits prod.splits)
  with row show ?thesis by (auto simp: putRun_def split: if_splits)
qed

end
