(* ===== verification/Kernel_Properties.thy ===== *)
theory Kernel_Properties
  imports GrantRestart Store_Live
begin

text \<open>
  The properties of the permission kernel: pattern matching, capability sets, the decision, the grant store over
  its histories, and its journal.
\<close>

section \<open>Capabilities\<close>

text \<open>
  C23. The resource matcher, a loop with one backtracking point, decides exactly the language in which \<open>*\<close> stands for
  any text and \<open>?\<close> for one character.
\<close>

theorem glob_matching: "matchGlob pattern resource foldCase = glob foldCase pattern resource"
  by (rule matchGlob_glob)

text \<open>
  C24. \<open>subsumes\<close> is sound: a capability matched by the narrower pattern is matched by the wider one, so a grant checked
  against the workspace pattern never reaches beyond it.
\<close>

theorem subsumption_is_sound:
  assumes "subsumes left right" "matches right c"
  shows "matches left c"
  by (rule subsumes_sound [OF assms])

abbreviation fsPattern :: "PatternAction \<Rightarrow> string \<Rightarrow> CapabilityPattern" where
  "fsPattern a r \<equiv> \<lparr>pat_action = a, pat_resource = r\<rparr>"

abbreviation fsWrite :: "string \<Rightarrow> Capability" where
  "fsWrite r \<equiv> \<lparr>cap_action = FsWrite, cap_resource = r\<rparr>"

theorem subsumption_is_sound_witness:
  "subsumes (fsPattern FsAny ''/w/**'') (fsPattern (Exactly FsWrite) ''/w/a*'') \<and> matches (fsPattern FsAny ''/w/**'') (fsWrite ''/w/ab'')"
proof -
  have "subsumes (fsPattern FsAny ''/w/**'') (fsPattern (Exactly FsWrite) ''/w/a*'')"
    "matches (fsPattern (Exactly FsWrite) ''/w/a*'') (fsWrite ''/w/ab'')" by code_simp+
  with subsumption_is_sound [OF this] show ?thesis by simp
qed

text \<open>C25. The text of a capability parses back to it, and nothing else parses to it.\<close>

theorem capability_text_round_trip: "parse input = Some c \<longleftrightarrow> input = formatCapability c"
  by (rule parse_format)

text \<open>
  The canonical representation of a capability set loses nothing: intersection allows what both sides allow,
  attenuation what the parent and one of the patterns allow, and a set never allows more by being attenuated.
\<close>

theorem capability_sets_meet:
  "allows (intersect left right) c = (allows left c \<and> allows right c)
   \<and> allows (attenuate patterns parent) c = (allows parent c \<and> list_ex (\<lambda>p. matches p c) patterns)"
  by (simp add: allows_intersect allows_attenuate list_ex_iff)

section \<open>The grant store\<close>

text \<open>
  C26. A configured denial is final. In every history of a store, whatever is granted or replied, a capability the
  configured rules deny is refused at once, and no request for it is ever open.
\<close>

theorem configured_denial_is_final:
  assumes "makeGrants opts ceiling p0 = (Inr s0, p)" "(grant_step opts)\<^sup>*\<^sup>* s0 s" "\<not> hasResourceWildcard (mo_workspaceRoot opts)"
    and "lastMatch (fst (normalizeRules (mo_rules opts))) c = Deny"
  shows "(\<exists>err. check opts caller c info s = (Inl err, s)) \<and> c \<notin> pe_capability ` set (pending s)"
  using configured_veto [OF history_storeOk [OF assms(2) makeGrants_storeOk [OF assms(1)] assms(3)] assms(4)] by blast

text \<open>The hook of a store without a journal, and one that keeps the events.\<close>

definition keepEvents :: "GrantEvent list persist" where
  "keepEvents ev log = (Inr (), log @ [ev])"

definition denyEtc :: "GrantEvent list MakeOptions" where
  "denyEtc = \<lparr>mo_attended = True, mo_rules = FlatRules [\<lparr>rule_effect = Deny, rule_capability = fsPattern FsAny ''/e/**''\<rparr>],
     mo_runRules = [], mo_envelope = None, mo_envelopeSignatures = [], mo_runId = Some ''r'', mo_planDigest = Some ''d'',
     mo_persist = keepEvents, mo_workspaceRoot = ''/w''\<rparr>"

abbreviation approveSecret :: "GrantCall list" where
  "approveSecret \<equiv> [CallEnvelope \<lparr>eg_planDigest = ''d'', eg_patterns = [fsPattern (Exactly FsWrite) ''/e/x''], eg_scope = None\<rparr>]"

theorem configured_denial_is_final_witness:
  "\<exists>s0 err. makeGrants denyEtc unrestricted [] = (Inr s0, [])
     \<and> fst (check denyEtc unrestricted (fsWrite ''/e/x'') JNull (performs denyEtc approveSecret s0)) = Inl err"
proof -
  have "\<exists>s0. makeGrants denyEtc unrestricted [] = (Inr s0, [])"
    by (simp add: makeGrants_def denyEtc_def normalizeRules_def Let_def)
  then obtain s0 where s0: "makeGrants denyEtc unrestricted [] = (Inr s0, [])" by blast
  have "\<not> hasResourceWildcard (mo_workspaceRoot denyEtc)" "lastMatch (fst (normalizeRules (mo_rules denyEtc))) (fsWrite ''/e/x'') = Deny"
    by code_simp+
  from configured_denial_is_final [OF s0 performs_steps [of denyEtc s0 approveSecret] this, of unrestricted JNull]
  obtain err where "check denyEtc unrestricted (fsWrite ''/e/x'') JNull (performs denyEtc approveSecret s0) = (Inl err, performs denyEtc approveSecret s0)"
    by blast
  then show ?thesis using s0 by (intro exI [of _ s0] exI [of _ err]) simp
qed

text \<open>
  C27. Authority rests on durable evidence. In any step of any history, a rule the store did not have is an allow rule
  whose pattern an event names that the hook accepted in this step; and a request is granted only while it is open,
  in a step whose event was accepted, by a reply to it or by rules that allow its capability under its own ceiling.
\<close>

theorem authority_is_durable:
  assumes "makeGrants opts ceiling p0 = (Inr s0, p)" "(grant_step opts)\<^sup>*\<^sup>* s0 s" "grant_step opts s s'"
    and "\<not> hasResourceWildcard (mo_workspaceRoot opts)"
  shows "(r \<in> set (grantedRules s') - set (grantedRules s) \<longrightarrow>
      (\<exists>ev. mo_persist opts ev (persisted s) = (Inr (), persisted s') \<and> rule_effect r = Allow \<and> rule_capability r \<in> set (eventPatterns ev)))
    \<and> (answered s' rid = Some (Inr ()) \<and> answered s rid \<noteq> Some (Inr ()) \<longrightarrow>
      (\<exists>e \<in> set (pending s). pe_requestId e = rid \<and> (\<exists>ev. mo_persist opts ev (persisted s) = (Inr (), persisted s')
        \<and> (ev = OnceGrant rid (runIdOf opts) (mo_planDigest opts) (pe_capability e) (exactPattern (pe_capability e)) (pe_tier e)
           \<or> GrantStore.covered s' e))))"
proof -
  have "requestsOk s" using history_storeOk [OF assms(2) makeGrants_storeOk [OF assms(1)] assms(4)] by (simp add: storeOk_def)
  from rules_evidenced [OF assms(3) this] answers_evidenced [OF assms(3) this]
  show ?thesis unfolding evidenced_def by blast
qed

definition askingStore :: "GrantEvent list grants" where
  "askingStore = \<lparr>configuredRules = fst (normalizeRules (mo_rules denyEtc)), envelopeRules = [], runRules = [], rememberedRules = [],
     pending = [], answered = Map.empty, grantedEnvelopes = {}, nextRequestId = 1, closed = False, persisted = []\<rparr>"

abbreviation askThenAllow :: "GrantEvent list grants \<times> GrantEvent list grants" where
  "askThenAllow \<equiv> (let s = perform denyEtc (CallCheck unrestricted (fsWrite ''/w/x'') JNull) askingStore in
     (s, perform denyEtc (CallReply ''permission-1'' ''remembered'' None) s))"

theorem authority_is_durable_witness:
  "\<exists>ev. keepEvents ev [] = (Inr (), persisted (snd askThenAllow)) \<and> fsPattern (Exactly FsWrite) ''/w/x'' \<in> set (eventPatterns ev)"
proof -
  have made: "makeGrants denyEtc unrestricted [] = (Inr askingStore, [])"
    by (simp add: makeGrants_def askingStore_def denyEtc_def normalizeRules_def Let_def)
  have hist: "(grant_step denyEtc)\<^sup>*\<^sup>* askingStore (fst askThenAllow)" "grant_step denyEtc (fst askThenAllow) (snd askThenAllow)"
    using perform_step [of denyEtc askingStore "CallCheck unrestricted (fsWrite ''/w/x'') JNull"]
      perform_step [of denyEtc "fst askThenAllow" "CallReply ''permission-1'' ''remembered'' None"] by (auto simp: Let_def)
  have "allowRule (fsPattern (Exactly FsWrite) ''/w/x'') \<in> set (grantedRules (snd askThenAllow)) - set (grantedRules (fst askThenAllow))"
    "persisted (fst askThenAllow) = []" "\<not> hasResourceWildcard (mo_workspaceRoot denyEtc)" "mo_persist denyEtc = keepEvents"
    by (code_simp, code_simp, code_simp, simp add: denyEtc_def)
  with authority_is_durable [OF made hist, of "allowRule (fsPattern (Exactly FsWrite) ''/w/x'')"] show ?thesis by fastforce
qed




section \<open>The journal of the store\<close>


abbreviation kernelOptions :: JournalGrantStoreOptions where
  "kernelOptions \<equiv> \<lparr>jg_runId = ''r'', jg_policyRunId = ''p'', jg_sourceId = ''k'', jg_planDigest = ''d'', jg_attended = True,
     jg_rules = [], jg_envelope = None\<rparr>"

abbreviation emptyJournal :: "lease_table journal_db" where
  "emptyJournal \<equiv> \<lparr>leases = Map.empty, events = [], checkpoints = [], status = Open, sequences = Map.empty,
     sourceSequences = Map.empty, sourceEvents = [], readers = (\<lambda>_. []), settlements = [], clock = (\<lambda>_. 8), tick = 0\<rparr>"


lemma emptyJournal_ok: "sql_inv (leases emptyJournal)" "kernelJournal kernelOptions emptyJournal"
  by (simp_all add: sql_inv_def kernelJournal_def evs_ok_def ordered_def compactionFloor_def maxOpt_def)

abbreviation firstStore where
  "firstStore \<equiv> makeJournal (sqlConfig defaultRules 4) kernelOptions ''/w'' unrestricted emptyJournal emptyJournal"

abbreviation kernelStoreOptions :: "lease_table journal_db MakeOptions" where
  "kernelStoreOptions \<equiv> storeOptions (sqlConfig defaultRules 4) kernelOptions ''/w'' ([], []) ([], [])"

abbreviation freshStore :: "lease_table journal_db grants" where
  "freshStore \<equiv> \<lparr>configuredRules = [], envelopeRules = [], runRules = [], rememberedRules = [], pending = [], answered = Map.empty,
     grantedEnvelopes = {}, nextRequestId = 1, closed = False, persisted = emptyJournal\<rparr>"

lemma fresh_made: "firstStore = (Inr (kernelStoreOptions, freshStore), emptyJournal)"
proof -
  have rep: "replayRememberedRules ''p'' ''k'' ''/w'' emptyJournal = Inr ([], [])" "replayRunRules ''r'' ''k'' ''d'' ''/w'' emptyJournal = Inr ([], [])"
    by code_simp+
  have env: "jg_envelope kernelOptions = None" by simp
  have "makeGrants kernelStoreOptions unrestricted emptyJournal = (Inr freshStore, emptyJournal)"
    unfolding makeGrants_plain [OF env] by (simp add: configuredOf_def extraRules_def)
  then show ?thesis unfolding makeJournal_plain [OF env] using rep by simp
qed

lemma persist_first:
  assumes "scopeOk ev"
  shows "\<exists>p. persistJ (sqlConfig defaultRules 4) kernelOptions ev emptyJournal = (Inr (), p)"
proof -
  have "room 1 emptyJournal"
    by (simp add: room_def isSafeInteger_def MAX_SAFE_INTEGER_def nextSeq_def nextSourceSeq_def nextDurableSeq_def nextDurableSourceSeq_def maxPlus1_def orZero_def)
  moreover have "in_runId (persistInput kernelOptions ev) \<noteq> []" "eventTypeOf ev \<noteq> []" using in_runId_persist [of kernelOptions ev]
    by (auto, (cases ev; simp)+)
  ultimately obtain rc s1 where "emitDurable (sqlConfig defaultRules 4) (persistInput kernelOptions ev) None emptyJournal = (Inr rc, s1)"
    using sqlj.emit_succeeds [of emptyJournal 0 "persistInput kernelOptions ev" None defaultRules 4]
    by (auto simp: persistInput_def sql_inv_def evs_ok_def ordered_def)
  then show ?thesis by (simp add: persistJ_def emitDurableAlone_def)
qed


section \<open>Where the code does less than it says\<close>

text \<open>
  Remembering a request without a pattern grants its resource as a pattern: the wildcards of the command that was
  shown are not escaped. After \<open>rm *\<close> has been remembered, another command is run without a question.
\<close>

abbreviation spawn :: "string \<Rightarrow> Capability" where
  "spawn r \<equiv> \<lparr>cap_action = ProcSpawn, cap_resource = r\<rparr>"

abbreviation afterRemembering :: "GrantEvent list grants" where
  "afterRemembering \<equiv> perform denyEtc (CallReply ''permission-1'' ''remembered'' None)
     (perform denyEtc (CallCheck unrestricted (spawn ''rm *'') JNull) askingStore)"

theorem exact_grant_is_a_pattern:
  "fst (check denyEtc unrestricted (spawn ''rm x'') JNull askingStore) = Inr (Some ''permission-1'')
   \<and> fst (check denyEtc unrestricted (spawn ''rm x'') JNull afterRemembering) = Inr None"
  by code_simp

text \<open>
  C30. Grant events are redacted on their way into the journal although they are read back as authority. A remembered
  grant whose redacted pattern no longer matches its redacted capability is accepted, and from then on no store
  can be made from the journal.
\<close>

theorem redacted_grant_blocks_restart:
  fixes g :: "(lease_table, 'z) journal_db_scheme grants"
  assumes "requestsOk g" "sql_inv (leases (persisted g))" "kernelJournal jo (persisted g)" "codecPlain rs" "jg_planDigest jo \<noteq> []"
    and "mo_persist opts = persistJ (sqlConfig rs n) jo" "reply opts rid ''remembered'' (Some p) g = (Inr (), g')"
    and "e \<in> set (pending g)" "pe_requestId e = rid"
    and "\<not> isValidGrantPattern (scrubPattern rs p) (scrubCapability rs (pe_capability e)) (pe_tier e) root"
  shows "\<exists>err. makeJournal (sqlConfig rs n) jo root ceiling (persisted g') locked = (Inl err, persisted g')"
proof -
  have "rules (sqlConfig rs n) = rs" by (simp add: sqlConfig_def)
  note persist = sqlj.persist_ok [where rs = rs and n = n, unfolded this]
  from assms(7) obtain e' p1 where e': "e' \<in> set (pending g)" "pe_requestId e' = rid"
    "mo_persist opts (RememberedGrant rid (runIdOf opts) (mo_planDigest opts) (pe_capability e') p (pe_tier e')) (persisted g) = (Inr (), p1)"
    "g' = resolveCovered (g\<lparr>persisted := p1, rememberedRules := rememberedRules g @ [allowRule p]\<rparr>)"
    by (cases rule: reply_cases) (auto simp: replyPattern_def)
  have same: "e' = e" using assms(1,8,9) e'(1,2) by (auto simp: requestsOk_def distinct_map inj_on_def)
  let ?ev = "RememberedGrant rid (runIdOf opts) (mo_planDigest opts) (pe_capability e) p (pe_tier e)"
  have at: "persisted g' = p1" unfolding e'(4)
    using resolveCovered_sel(2) [of "g\<lparr>persisted := p1, rememberedRules := rememberedRules g @ [allowRule p]\<rparr>"] assms(1) by simp
  have hook: "persistJ (sqlConfig rs n) jo ?ev (persisted g) = (Inr (), p1)" using e'(3) same assms(6) by simp
  from persist [OF assms(2,3) hook] obtain en where en: "kernelJournal jo p1" "events p1 = events (persisted g) @ [en]"
    "runId en = in_runId (persistInput jo ?ev)" "sourceId en = jg_sourceId jo" "eventType en = eventTypeOf ?ev"
    "payload en = redact rs (encodeGrantEvent ?ev)" by blast
  have dec: "decodeTrustedEntry en (jg_sourceId jo) = Inr (Some (scrubEvent rs ?ev))"
    using en(4-6) by (simp add: decodeTrustedEntry_def redact_encode [OF assms(4)] decode_encode knownEventTypes_def)
  have "en \<in> GrantReplay.entriesOf (jg_policyRunId jo) (events p1)" using en(2,3) by (simp add: GrantReplay.entriesOf_def persistInput_def)
  moreover have "\<not> entryPass (jg_sourceId jo) (rememberedPass root) en" using dec assms(10) by (simp add: entryPass_def)
  ultimately have "\<nexists>acc. replayRememberedRules (jg_policyRunId jo) (jg_sourceId jo) root p1 = Inr acc"
    using kernel_replays(1) [OF en(1)] by blast
  then obtain err where "replayRememberedRules (jg_policyRunId jo) (jg_sourceId jo) root p1 = Inl err"
    by (cases "replayRememberedRules (jg_policyRunId jo) (jg_sourceId jo) root p1") auto
  then show ?thesis unfolding at using assms(5) by (simp add: makeJournal_def Let_def)
qed

abbreviation deployEntry :: PendingEntry where
  "deployEntry \<equiv> \<lparr>pe_requestId = ''permission-1'', pe_capability = spawn ''token=ab x'', pe_tier = Irreversible, pe_meta = JNull, pe_ceiling = unrestricted\<rparr>"

abbreviation askingDeploy :: "lease_table journal_db grants" where
  "askingDeploy \<equiv> \<lparr>configuredRules = [], envelopeRules = [], runRules = [], rememberedRules = [], pending = [deployEntry], answered = Map.empty,
     grantedEnvelopes = {}, nextRequestId = 2, closed = False, persisted = emptyJournal\<rparr>"

abbreviation tokenPattern :: CapabilityPattern where
  "tokenPattern \<equiv> fsPattern (Exactly ProcSpawn) ''token=a*''"

theorem redacted_grant_blocks_restart_witness:
  "\<exists>g' err. reply kernelStoreOptions ''permission-1'' ''remembered'' (Some tokenPattern) askingDeploy = (Inr (), g')
     \<and> makeJournal (sqlConfig defaultRules 4) kernelOptions ''/w'' unrestricted (persisted g') (persisted g') = (Inl err, persisted g')"
proof -
  let ?ev = "RememberedGrant ''permission-1'' ''r'' (Some ''d'') (spawn ''token=ab x'') tokenPattern Irreversible"
  obtain p1 where hook: "persistJ (sqlConfig defaultRules 4) kernelOptions ?ev emptyJournal = (Inr (), p1)"
    using persist_first [of ?ev] by auto
  have valid: "isValidGrantPattern tokenPattern (spawn ''token=ab x'') Irreversible ''/w''" by code_simp
  have ok: "\<exists>g'. reply kernelStoreOptions ''permission-1'' ''remembered'' (Some tokenPattern) askingDeploy = (Inr (), g')"
    using hook valid by (simp add: reply_def isResolution_def persistT_def Let_def storeOptions_def runIdOf_def)
  then obtain g' where g': "reply kernelStoreOptions ''permission-1'' ''remembered'' (Some tokenPattern) askingDeploy = (Inr (), g')" by blast
  have "requestName 1 = ''permission-1''" "allows unrestricted (spawn ''token=ab x'')" by code_simp+
  then have "requestsOk askingDeploy" by (auto simp: requestsOk_def intro!: exI [of _ 1])
  with emptyJournal_ok have pre: "requestsOk askingDeploy" "sql_inv (leases (persisted askingDeploy))" "kernelJournal kernelOptions (persisted askingDeploy)"
    "jg_planDigest kernelOptions \<noteq> []" "mo_persist kernelStoreOptions = persistJ (sqlConfig defaultRules 4) kernelOptions"
    "deployEntry \<in> set (pending askingDeploy)" "pe_requestId deployEntry = ''permission-1''"
    by simp_all
  have "\<not> isValidGrantPattern (scrubPattern defaultRules tokenPattern) (scrubCapability defaultRules (pe_capability deployEntry)) (pe_tier deployEntry) ''/w''"
    by code_simp
  from redacted_grant_blocks_restart [OF pre(1-3) codecPlain_default pre(4,5) g' pre(6,7) this] g' show ?thesis by metis
qed

text \<open>
  A run grant is limited to the ceiling its request captured, but its event does not record that ceiling: a restart
  gives it the ceiling of the new store's maker. A capability the live store asks about, because the captured ceiling
  does not allow it, is let through without a question afterwards.
\<close>

lemma lastMatch_allow:
  assumes "\<forall>r \<in> set rs. rule_effect r = Allow" "r \<in> set rs" "matches (rule_capability r) c"
  shows "lastMatch rs c = Allow"
proof -
  have "filter (\<lambda>r. matches (rule_capability r) c) rs \<noteq> []" using assms(2,3) by (auto simp: filter_empty_conv)
  then obtain xs x where x: "filter (\<lambda>r. matches (rule_capability r) c) rs = xs @ [x]" by (metis rev_exhaust)
  then have "x \<in> set rs" by (metis filter_is_subset in_set_conv_decomp subsetD)
  with x assms(1) show ?thesis by (simp add: lastMatch_def)
qed

theorem restart_forgets_ceiling:
  fixes s :: "(lease_table, 'z) journal_db_scheme"
  assumes "sql_inv (leases s)" "kernelJournal jo s" "jg_envelope jo = None" "codecPlain rs" "\<not> hasResourceWildcard root" "jg_rules jo = []"
    and "makeJournal (sqlConfig rs n) jo root ceiling s s = (Inr (opts, g), s1)"
    and "\<forall>ev \<in> set (offered opts calls g). scrubEvent rs ev = ev"
    and "(allowRule p, narrow) \<in> set (runRules (performs opts calls g))" "matches p c" "\<not> allows narrow c"
    and "fst (check opts caller c info (performs opts calls g)) = Inr (Some rid)" "allows ceiling' c"
  shows "\<exists>opts' g'. makeJournal (sqlConfig rs n) jo root ceiling' (persisted (performs opts calls g)) (persisted (performs opts calls g))
      = (Inr (opts', g'), persisted (performs opts calls g))
    \<and> check opts' caller c info g' = (Inr None, g')"
proof -
  let ?h = "performs opts calls g" and ?cfg = "sqlConfig rs n"
  let ?t = "persisted ?h"
  obtain opts' g' where r: "makeJournal ?cfg jo root ceiling' ?t ?t = (Inr (opts', g'), ?t)" "runOf g' = runOf ?h"
    using restart_rules(2) [OF assms(1-5,7,8)] by blast
  from r(1) obtain policy run where m: "replayRememberedRules (jg_policyRunId jo) (jg_sourceId jo) root ?t = Inr policy"
      "replayRunRules (jg_runId jo) (jg_sourceId jo) (jg_planDigest jo) root ?t = Inr run"
      "opts' = storeOptions ?cfg jo root policy run" "makeGrants opts' ceiling' ?t = (Inr g', ?t)"
    unfolding makeJournal_plain [OF assms(3)] by blast
  have g': "g' = \<lparr>configuredRules = [], envelopeRules = [], runRules = map (\<lambda>rule. (rule, ceiling')) (fst run),
        rememberedRules = fst policy, pending = [], answered = Map.empty,
        grantedEnvelopes = set (snd policy @ snd run), nextRequestId = 1, closed = False, persisted = ?t\<rparr>"
    using m(4) assms(6) unfolding m(3) makeGrants_plain [OF assms(3)] by (simp add: configuredOf_def extraRules_def)
  have mem: "allowRule p \<in> set (fst run)"
  proof -
    have "allowRule p \<in> runOf ?h" using assms(9) by force
    then show ?thesis using r(2) by (simp add: g' image_image)
  qed
  have allow: "\<forall>x \<in> set (fst run @ fst policy). rule_effect x = Allow"
    using kernel_replays(2) [OF restart_rules(1) [OF assms(1-5,7,8)] m(1)] kernel_replays(4) [OF restart_rules(1) [OF assms(1-5,7,8)] m(2)] by auto
  have "lastMatch (fst run @ fst policy) c = Allow"
    by (rule lastMatch_allow [OF allow, of "allowRule p"]) (use mem assms(10) in auto)
  then have "evaluate (rulesets g' c) c = Allow" using assms(13)
    by (simp add: rulesets_def evaluate_decides g' filter_map comp_def lastMatch_def)
  moreover have "allows caller c" using assms(12) by (auto simp: check_def split: if_splits)
  ultimately have "check opts' caller c info g' = (Inr None, g')" by (simp add: check_def g')
  with r(1) show ?thesis by blast
qed

abbreviation onlyX :: CapabilitySet where
  "onlyX \<equiv> fromPatterns [fsPattern (Exactly FsWrite) ''/w/x'']"

abbreviation runGrantW :: "GrantCall list" where
  "runGrantW \<equiv> [CallCheck onlyX (fsWrite ''/w/x'') JNull, CallReply ''permission-1'' ''run'' (Some (fsPattern (Exactly FsWrite) ''/w/**''))]"

abbreviation entryX :: PendingEntry where
  "entryX \<equiv> \<lparr>pe_requestId = ''permission-1'', pe_capability = fsWrite ''/w/x'', pe_tier = Compensable, pe_meta = JNull, pe_ceiling = onlyX\<rparr>"

theorem restart_forgets_ceiling_witness:
  "\<exists>h opts' g'. h = performs kernelStoreOptions runGrantW freshStore
     \<and> fst (check kernelStoreOptions unrestricted (fsWrite ''/w/y'') JNull h) = Inr (Some ''permission-2'')
     \<and> makeJournal (sqlConfig defaultRules 4) kernelOptions ''/w'' unrestricted (persisted h) (persisted h) = (Inr (opts', g'), persisted h)
     \<and> check opts' unrestricted (fsWrite ''/w/y'') JNull g' = (Inr None, g')"
proof -
  let ?opts = kernelStoreOptions and ?p = "fsPattern (Exactly FsWrite) ''/w/**''"
  let ?ev = "RunGrant ''permission-1'' ''r'' ''d'' (fsWrite ''/w/x'') ?p Compensable"
  let ?g1 = "freshStore\<lparr>nextRequestId := 2, pending := [entryX]\<rparr>"
  have facts: "requestName 1 = ''permission-1''" "allows onlyX (fsWrite ''/w/x'')" "\<not> allows onlyX (fsWrite ''/w/y'')"
    "matches ?p (fsWrite ''/w/y'')" "allows unrestricted (fsWrite ''/w/y'')" "requestName 2 = ''permission-2''"
    "tierOf (fsWrite ''/w/x'') ''/w'' = Compensable" by code_simp+
  have g1: "snd (check ?opts onlyX (fsWrite ''/w/x'') JNull freshStore) = ?g1"
    using facts(1,2,7) by (simp add: check_def rulesets_def evaluate_decides lastMatch_def Let_def storeOptions_def del: tierOf.simps)
  obtain p1 where hook: "persistJ (sqlConfig defaultRules 4) kernelOptions ?ev emptyJournal = (Inr (), p1)"
    using persist_first [of ?ev] by auto
  let ?g2 = "?g1\<lparr>persisted := p1, runRules := [(allowRule ?p, onlyX)]\<rparr>"
  let ?h = "performs ?opts runGrantW freshStore"
  have valid: "isValidGrantPattern ?p (fsWrite ''/w/x'') Compensable ''/w''" by code_simp
  have h: "?h = resolveCovered ?g2"
    unfolding performs_simps perform.simps g1
    using hook valid by (simp add: reply_def isResolution_def persistT_def Let_def storeOptions_def runIdOf_def)
  have "requestsOk ?g2" using facts(1,2) by (auto simp: requestsOk_def intro!: exI [of _ 1])
  from resolveCovered_spec(1) [OF this] have sel: "configuredRules ?h = []" "envelopeRules ?h = []" "runRules ?h = [(allowRule ?p, onlyX)]"
    "rememberedRules ?h = []" "nextRequestId ?h = 2" "closed ?h = False"
    unfolding h by (simp_all add: sameRules_def)
  have "fst (check ?opts unrestricted (fsWrite ''/w/y'') JNull k) = Inr (Some ''permission-2'')"
    if "configuredRules k = []" "envelopeRules k = []" "runRules k = [(allowRule ?p, onlyX)]" "rememberedRules k = []" "nextRequestId k = 2" "closed k = False"
    for k using that facts by (simp add: check_def rulesets_def Let_def evaluate_decides lastMatch_def storeOptions_def del: tierOf.simps)
  from this [OF sel] have ask: "fst (check ?opts unrestricted (fsWrite ''/w/y'') JNull ?h) = Inr (Some ''permission-2'')" .
  have "offered ?opts runGrantW freshStore = [?ev]"
    unfolding offered.simps perform.simps g1 by (simp add: Let_def replyPattern_def)
  then have fixed: "\<forall>ev \<in> set (offered ?opts runGrantW freshStore). scrubEvent defaultRules ev = ev"
    by (simp add: quiet_redact scrubCapability_def scrubPattern_def)
  have env: "jg_envelope kernelOptions = None" "\<not> hasResourceWildcard ''/w''" "jg_rules kernelOptions = []" by (simp_all add: hasResourceWildcard_def)
  have mem: "(allowRule ?p, onlyX) \<in> set (runRules ?h)" by (simp only: sel list.set_intros)
  from restart_forgets_ceiling [OF emptyJournal_ok env(1) codecPlain_default env(2,3) fresh_made fixed mem facts(4,3) ask facts(5)]
  obtain opts' g' where again: "makeJournal (sqlConfig defaultRules 4) kernelOptions ''/w'' unrestricted (persisted ?h) (persisted ?h) = (Inr (opts', g'), persisted ?h)"
    "check opts' unrestricted (fsWrite ''/w/y'') JNull g' = (Inr None, g')" by (elim exE conjE)
  show ?thesis by (rule exI, rule exI, rule exI, rule conjI [OF refl conjI [OF ask conjI [OF again]]])
qed

end
