(* ===== verification/Canonical.thy ===== *)
theory Canonical
  imports Json_Text "HOL-Library.Word" "HOL-Library.List_Lexorder"
begin

text \<open>
  Canonical JSON (\<^verbatim>\<open>packages/canonical/src/internal/canonicalize.ts\<close> and \<^verbatim>\<open>Canonical.ts\<close>): the RFC 8785
  serializer behind every digest and every cached result, on JavaScript values whose strings are
  lists of UTF-16 code units, and \<open>JSON.parse\<close>, which reads a document back.
\<close>

section \<open>Values\<close>

type_synonym units = "16 word list"

text \<open>
  \<open>JsInt n\<close> is a number that prints as an integer, \<open>JsFrac t\<close> any other finite number by the text the runtime
  prints for it. \<open>JsToJson v\<close> is an object whose \<open>toJSON\<close> returns \<open>v\<close>, \<open>JsAncestor\<close> a reference to an
  object whose serialization is still open.
\<close>

datatype JsValue =
    JsUndefined | JsSymbol | JsFunction | JsBigInt | JsNaN | JsInfinity | JsAncestor
  | JsNull
  | JsBool bool
  | JsInt int
  | JsFrac string
  | JsStr units
  | JsArr "JsValue list"
  | JsObj "(units \<times> JsValue) list"
  | JsToJson JsValue

datatype JsError = NaNNotAllowed | InfinityNotAllowed | LoneSurrogate | CircularReference | BigIntNotAllowed | NotValidJson

section \<open>The serializer\<close>

definition unit16 :: "char \<Rightarrow> 16 word" where
  "unit16 c = of_nat (of_char c)"

definition ascii :: "string \<Rightarrow> units" where
  "ascii = map unit16"

text \<open>The ASCII character of a code unit; DEL stands for every unit beyond ASCII.\<close>

definition narrow :: "16 word \<Rightarrow> char" where
  "narrow w = (if unat w < 128 then char_of (unat w) else CHR 0x7F)"

definition highSurrogate :: "16 word \<Rightarrow> bool" where
  "highSurrogate c \<longleftrightarrow> 0xD800 \<le> unat c \<and> unat c \<le> 0xDBFF"

definition lowSurrogate :: "16 word \<Rightarrow> bool" where
  "lowSurrogate c \<longleftrightarrow> 0xDC00 \<le> unat c \<and> unat c \<le> 0xDFFF"

fun wellFormed :: "units \<Rightarrow> bool" where
  "wellFormed [] = True"
| "wellFormed (c # cs) =
     (if highSurrogate c then (case cs of [] \<Rightarrow> False | d # ds \<Rightarrow> lowSurrogate d \<and> wellFormed ds)
      else \<not> lowSurrogate c \<and> wellFormed cs)"

text \<open>\<open>JSON.stringify\<close> on a well-formed string.\<close>

definition escapeUnit :: "16 word \<Rightarrow> units" where
  "escapeUnit c = (if unat c < 128 then ascii (escapeChar (char_of (unat c))) else [c])"

definition quoteUnits :: "units \<Rightarrow> units" where
  "quoteUnits s = [unit16 (CHR 0x22)] @ concat (map escapeUnit s) @ [unit16 (CHR 0x22)]"

fun traverse :: "('e + 'a) list \<Rightarrow> 'e + 'a list" where
  "traverse [] = Inr []"
| "traverse (Inl e # _) = Inl e"
| "traverse (Inr a # rs) = (case traverse rs of Inl e \<Rightarrow> Inl e | Inr as \<Rightarrow> Inr (a # as))"

fun mapR :: "('a \<Rightarrow> 'b) \<Rightarrow> 'e + 'a \<Rightarrow> 'e + 'b" where
  "mapR f (Inl e) = Inl e"
| "mapR f (Inr a) = Inr (f a)"

fun join :: "units list \<Rightarrow> units" where
  "join [] = []"
| "join [t] = t"
| "join (t # u # ts) = t @ unit16 CHR '','' # join (u # ts)"

text \<open>What a member or an array item is skipped for: \<open>undefined\<close> and symbols.\<close>

fun absent :: "JsValue \<Rightarrow> bool" where
  "absent JsUndefined = True"
| "absent JsSymbol = True"
| "absent _ = False"

definition member :: "units \<times> bool \<times> (JsError + units option) \<Rightarrow> (JsError + units) list" where
  "member m = (case m of (k, skip, r) \<Rightarrow>
     if skip then []
     else [if \<not> wellFormed k then Inl LoneSurrogate
           else mapR (\<lambda>t. quoteUnits k @ unit16 CHR '':'' # (case t of None \<Rightarrow> ascii ''undefined'' | Some u \<Rightarrow> u)) r])"

text \<open>\<open>None\<close> is the result \<open>undefined\<close>, which \<open>join\<close> prints as the empty string.\<close>

fun serialize :: "JsValue \<Rightarrow> JsError + units option" where
  "serialize JsNaN = Inl NaNNotAllowed"
| "serialize JsInfinity = Inl InfinityNotAllowed"
| "serialize (JsStr s) = (if wellFormed s then Inr (Some (quoteUnits s)) else Inl LoneSurrogate)"
| "serialize JsUndefined = Inr None"
| "serialize JsSymbol = Inr None"
| "serialize JsFunction = Inr None"
| "serialize JsBigInt = Inl BigIntNotAllowed"
| "serialize JsNull = Inr (Some (ascii ''null''))"
| "serialize (JsBool b) = Inr (Some (ascii (if b then ''true'' else ''false'')))"
| "serialize (JsInt n) = Inr (Some (ascii (show_int n)))"
| "serialize (JsFrac t) = Inr (Some (ascii t))"
| "serialize JsAncestor = Inl CircularReference"
| "serialize (JsToJson v) = serialize v"
| "serialize (JsArr vs) =
     mapR (\<lambda>ts. Some (unit16 CHR ''['' # join ts @ [unit16 CHR '']'']))
       (traverse (map (\<lambda>v. if absent v then Inr (ascii ''null'')
                            else mapR (\<lambda>t. case t of None \<Rightarrow> [] | Some u \<Rightarrow> u) (serialize v)) vs))"
| "serialize (JsObj fs) =
     mapR (\<lambda>ts. Some (unit16 CHR ''{'' # join ts @ [unit16 CHR ''}'']))
       (traverse (concat (map member (sort_key fst (map (\<lambda>(k, v). (k, absent v, serialize v)) fs)))))"

section \<open>JSON.parse\<close>

definition spaceUnit :: "16 word \<Rightarrow> bool" where
  "spaceUnit c = jsonSpace (narrow c)"

fun simpleEscape :: "char \<Rightarrow> char option" where
  "simpleEscape e =
     (if e = CHR 0x22 \<or> e = CHR 0x5C \<or> e = CHR ''/'' then Some e
      else if e = CHR ''b'' then Some (CHR 0x08)
      else if e = CHR ''f'' then Some (CHR 0x0C)
      else if e = CHR ''n'' then Some (CHR 0x0A)
      else if e = CHR ''r'' then Some (CHR 0x0D)
      else if e = CHR ''t'' then Some (CHR 0x09)
      else None)"

definition hexValue :: "char \<Rightarrow> nat" where
  "hexValue c = (let n = of_char c in if n < 58 then n - 48 else if n < 71 then n - 55 else n - 87)"

fun parseString :: "units \<Rightarrow> (units \<times> units) option" where
  "parseString [] = None"
| "parseString (c # cs) =
     (if narrow c = CHR 0x22 then Some ([], cs)
      else if narrow c = CHR 0x5C then
        (case cs of
           [] \<Rightarrow> None
         | e # rest \<Rightarrow>
             (case simpleEscape (narrow e) of
                Some d \<Rightarrow> map_option (apfst ((#) (unit16 d))) (parseString rest)
              | None \<Rightarrow>
                  if narrow e \<noteq> CHR ''u'' then None
                  else (case rest of
                     h1 # h2 # h3 # h4 # tail \<Rightarrow>
                       if list_all (\<lambda>h. isHex (narrow h)) [h1, h2, h3, h4]
                       then map_option (apfst ((#) (of_nat (foldl (\<lambda>n h. 16 * n + hexValue (narrow h)) 0 [h1, h2, h3, h4]))))
                              (parseString tail)
                       else None
                   | _ \<Rightarrow> None)))
      else if unat c < 32 then None
      else map_option (apfst ((#) c)) (parseString cs))"

definition readInt :: "string \<Rightarrow> int" where
  "readInt t = (case t of c # cs \<Rightarrow> if c = CHR ''-'' then - int (read_nat cs 0) else int (read_nat t 0) | [] \<Rightarrow> 0)"

definition integerText :: "string \<Rightarrow> bool" where
  "integerText = list_all (\<lambda>c. digit c \<or> c = CHR ''-'')"

definition parseNumber :: "units \<Rightarrow> (JsValue \<times> units) option" where
  "parseNumber s =
     (let t = map narrow s in
      case scanNumber t of None \<Rightarrow> None
      | Some r \<Rightarrow>
          let k = length t - length r; lit = take k t in
          Some (if integerText lit then JsInt (readInt lit) else JsFrac lit, drop k s))"

definition parseWord :: "string \<Rightarrow> JsValue \<Rightarrow> units \<Rightarrow> (JsValue \<times> units) option" where
  "parseWord w v s = (if prefix w (map narrow s) then Some (v, drop (length w) s) else None)"

text \<open>A repeated key keeps its place and takes the later value.\<close>

fun setMember :: "units \<Rightarrow> JsValue \<Rightarrow> (units \<times> JsValue) list \<Rightarrow> (units \<times> JsValue) list" where
  "setMember k v [] = [(k, v)]"
| "setMember k v ((k', w) # fs) = (if k' = k then (k, v) # fs else (k', w) # setMember k v fs)"

fun parseValue :: "nat \<Rightarrow> units \<Rightarrow> (JsValue \<times> units) option"
  and parseElements :: "nat \<Rightarrow> units \<Rightarrow> (JsValue list \<times> units) option"
  and parseMembers :: "nat \<Rightarrow> (units \<times> JsValue) list \<Rightarrow> units \<Rightarrow> ((units \<times> JsValue) list \<times> units) option" where
  "parseValue 0 s = None"
| "parseValue (Suc n) s =
     (case dropWhile spaceUnit s of
        [] \<Rightarrow> None
      | c # cs \<Rightarrow>
          if narrow c = CHR 0x22 then map_option (apfst JsStr) (parseString cs)
          else if narrow c = CHR ''['' then
            (case dropWhile spaceUnit cs of
               [] \<Rightarrow> None
             | d # ds \<Rightarrow> if narrow d = CHR '']'' then Some (JsArr [], ds)
                         else map_option (apfst JsArr) (parseElements n (d # ds)))
          else if narrow c = CHR ''{'' then
            (case dropWhile spaceUnit cs of
               [] \<Rightarrow> None
             | d # ds \<Rightarrow> if narrow d = CHR ''}'' then Some (JsObj [], ds)
                         else map_option (apfst JsObj) (parseMembers n [] (d # ds)))
          else if narrow c = CHR ''t'' then parseWord ''true'' (JsBool True) (c # cs)
          else if narrow c = CHR ''f'' then parseWord ''false'' (JsBool False) (c # cs)
          else if narrow c = CHR ''n'' then parseWord ''null'' JsNull (c # cs)
          else parseNumber (c # cs))"
| "parseElements 0 s = None"
| "parseElements (Suc n) s =
     (case parseValue n s of
        None \<Rightarrow> None
      | Some (v, rest) \<Rightarrow>
          (case dropWhile spaceUnit rest of
             [] \<Rightarrow> None
           | d # ds \<Rightarrow>
               if narrow d = CHR '']'' then Some ([v], ds)
               else if narrow d = CHR '','' then map_option (apfst ((#) v)) (parseElements n ds)
               else None))"
| "parseMembers 0 fs s = None"
| "parseMembers (Suc n) fs s =
     (case dropWhile spaceUnit s of
        [] \<Rightarrow> None
      | q # qs \<Rightarrow>
          if narrow q \<noteq> CHR 0x22 then None
          else case parseString qs of
            None \<Rightarrow> None
          | Some (k, rest) \<Rightarrow>
              (case dropWhile spaceUnit rest of
                 [] \<Rightarrow> None
               | c # cs \<Rightarrow>
                   if narrow c \<noteq> CHR '':'' then None
                   else case parseValue n cs of
                     None \<Rightarrow> None
                   | Some (v, tail) \<Rightarrow>
                       (case dropWhile spaceUnit tail of
                          [] \<Rightarrow> None
                        | d # ds \<Rightarrow>
                            if narrow d = CHR ''}'' then Some (setMember k v fs, ds)
                            else if narrow d = CHR '','' then parseMembers n (setMember k v fs) ds
                            else None)))"

declare parseValue.simps [simp del] parseElements.simps [simp del] parseMembers.simps [simp del]

definition parseJson :: "units \<Rightarrow> JsValue option" where
  "parseJson s = (case parseValue (2 * length s + 2) s of None \<Rightarrow> None
     | Some (v, rest) \<Rightarrow> if list_all spaceUnit rest then Some v else None)"

section \<open>Documents\<close>

text \<open>Decoding a value into a canonical document: serialize, refuse \<open>undefined\<close> and what does not parse.\<close>

definition canonicalDocument :: "JsValue \<Rightarrow> JsError + units" where
  "canonicalDocument v =
     (case serialize v of
        Inl e \<Rightarrow> Inl e
      | Inr None \<Rightarrow> Inl NotValidJson
      | Inr (Some t) \<Rightarrow> if parseJson t = None then Inl NotValidJson else Inr t)"

section \<open>Units and strings\<close>

lemma unat_unit16 [simp]: "unat (unit16 c) = of_char c"
proof -
  have "(of_char c :: nat) < 2 ^ 16" using of_char_of [of "0::nat"] by (cases c) (auto simp: of_char_def split: if_splits)
  then show ?thesis by (simp add: unit16_def unat_of_nat take_bit_nat_eq_self)
qed

lemma narrow_unit16 [simp]: "(of_char c :: nat) < 128 \<Longrightarrow> narrow (unit16 c) = c"
  by (simp add: narrow_def)

text \<open>The characters the serializer itself writes.\<close>

definition asciiText :: "string \<Rightarrow> bool" where
  "asciiText t \<longleftrightarrow> list_all (\<lambda>c. (of_char c :: nat) < 128) t"

lemma asciiText_simps [simp]:
  "asciiText []" "asciiText (c # t) \<longleftrightarrow> (of_char c :: nat) < 128 \<and> asciiText t"
  "asciiText (t @ u) \<longleftrightarrow> asciiText t \<and> asciiText u"
  by (auto simp: asciiText_def)

lemma narrow_ascii [simp]: "asciiText t \<Longrightarrow> map narrow (ascii t) = t"
  by (induction t) (auto simp: ascii_def)

lemma wellFormed_ascii: "wellFormed (ascii t)"
proof (induction t)
  case (Cons c t)
  have "(of_char c :: nat) < 256" by (rule nat_of_char_less_256)
  then have "\<not> 55296 \<le> (of_char c :: nat)" "\<not> 56320 \<le> (of_char c :: nat)" by linarith+
  then have "\<not> highSurrogate (unit16 c)" "\<not> lowSurrogate (unit16 c)" by (simp_all add: highSurrogate_def lowSurrogate_def)
  with Cons show ?case by (simp add: ascii_def)
qed (simp add: ascii_def)

lemma ascii_simps [simp]:
  "ascii [] = []" "ascii (c # t) = unit16 c # ascii t" "ascii (t @ u) = ascii t @ ascii u" "length (ascii t) = length t"
  by (simp_all add: ascii_def)

lemma unit16_char_of [simp]: "unat c < 128 \<Longrightarrow> unit16 (char_of (unat c)) = c"
  by (simp add: unit16_def)

lemma hexDigit_ok:
  assumes "k < 16"
  shows "(of_char (hexDigit k) :: nat) < 128" "isHex (hexDigit k)" "hexValue (hexDigit k) = k"
  using assms by (auto simp: hexDigit_def isHex_def hexValue_def Let_def)

lemma parse_unicode_escape:
  assumes "a < 16" "b < 16"
  shows "parseString (ascii [CHR 0x5C, CHR ''u'', CHR ''0'', CHR ''0'', hexDigit a, hexDigit b] @ s)
    = map_option (apfst ((#) (of_nat (16 * a + b)))) (parseString s)"
  using hexDigit_ok [OF assms(1)] hexDigit_ok [OF assms(2)]
  by (simp add: isHex_def hexValue_def)

lemma parse_simple_escape:
  assumes "simpleEscape e = Some d" "(of_char e :: nat) < 128"
  shows "parseString (ascii [CHR 0x5C, e] @ s) = map_option (apfst ((#) (unit16 d))) (parseString s)"
  using assms by simp

lemma char_of_is: "n < 256 \<Longrightarrow> char_of n = d \<longleftrightarrow> n = (of_char d :: nat)"
  by (metis char_of_char mod_less of_char_of)

lemma parse_escape: "parseString (escapeUnit c @ s) = map_option (apfst ((#) c)) (parseString s)"
proof (cases "unat c < 128")
  case False
  then have "narrow c = CHR 0x7F" by (simp add: narrow_def)
  with False show ?thesis by (simp add: escapeUnit_def)
next
  case True
  let ?d = "char_of (unat c)"
  have d: "(of_char ?d :: nat) = unat c" using True by simp
  have c: "unit16 ?d = c" "narrow c = ?d" using True by (simp_all add: narrow_def)
  consider (short) "?d \<in> {CHR 0x22, CHR 0x5C, CHR 0x08, CHR 0x0C, CHR 0x0A, CHR 0x0D, CHR 0x09}"
    | (control) "unat c < 32" "unat c \<notin> {8, 9, 10, 12, 13}" | (plain) "unat c \<ge> 32" "?d \<noteq> CHR 0x22" "?d \<noteq> CHR 0x5C"
    using True by (simp add: char_of_is) linarith
  then show ?thesis
  proof cases
    case short
    have "\<forall>x \<in> set [CHR 0x22, CHR 0x5C, CHR 0x08, CHR 0x0C, CHR 0x0A, CHR 0x0D, CHR 0x09].
        simpleEscape (hd (tl (escapeChar x))) = Some x \<and> escapeChar x = [CHR 0x5C, hd (tl (escapeChar x))]
        \<and> (of_char (hd (tl (escapeChar x))) :: nat) < 128"
      by (simp add: escapeChar_def)
    then obtain e where e: "simpleEscape e = Some ?d" "escapeChar ?d = [CHR 0x5C, e]" "(of_char e :: nat) < 128"
      using short by (metis list.set(1,2))
    then have "escapeUnit c = ascii [CHR 0x5C, e]" using True by (simp add: escapeUnit_def)
    then show ?thesis by (simp only: parse_simple_escape [OF e(1,3)] c(1))
  next
    case control
    have neq: "?d \<noteq> CHR 0x22" "?d \<noteq> CHR 0x5C" using control(1) by (auto simp: char_of_is)
    have esc: "escapeUnit c = ascii [CHR 0x5C, CHR ''u'', CHR ''0'', CHR ''0'', hexDigit (unat c div 16), hexDigit (unat c mod 16)]"
      using control neq True d by (auto simp: escapeUnit_def escapeChar_def Let_def)
    show ?thesis unfolding esc by (subst parse_unicode_escape) (use control in auto)
  next
    case plain
    then have "escapeUnit c = [c]" using True d c by (auto simp: escapeUnit_def escapeChar_def Let_def)
    with plain c show ?thesis by simp
  qed
qed

lemma parse_quoted: "parseString (concat (map escapeUnit s) @ unit16 (CHR 0x22) # rest) = Some (s, rest)"
  by (induction s) (simp_all add: parse_escape del: parseString.simps(2), simp add: narrow_unit16)

section \<open>Numbers\<close>

text \<open>What may follow a value inside a document.\<close>

definition delim :: "units \<Rightarrow> bool" where
  "delim s \<longleftrightarrow> (case s of [] \<Rightarrow> True | c # _ \<Rightarrow> narrow c = CHR '','' \<or> narrow c = CHR '']'' \<or> narrow c = CHR ''}'')"

definition ends :: "string \<Rightarrow> bool" where
  "ends s \<longleftrightarrow> (case s of [] \<Rightarrow> True | c # _ \<Rightarrow> c = CHR '','' \<or> c = CHR '']'' \<or> c = CHR ''}'')"

lemma delim_ends: "delim s \<longleftrightarrow> ends (map narrow s)"
  by (cases s) (simp_all add: delim_def ends_def)

lemma ends_dropWhile: "ends s \<Longrightarrow> dropWhile isDigit s = s"
  by (cases s) (auto simp: ends_def isDigit_def digit_def)

lemma scanDigits_append: "ends rest \<Longrightarrow> scanDigits s = Some r \<Longrightarrow> scanDigits (s @ rest) = Some (r @ rest)"
  using ends_dropWhile [of rest]
  by (cases s) (auto simp: scanDigits_def dropWhile_append split: if_splits)

lemma scanFraction_append:
  assumes "ends rest" "scanFraction s = Some r"
  shows "scanFraction (s @ rest) = Some (r @ rest)"
proof (cases s)
  case Nil
  with assms show ?thesis by (cases rest) (auto simp: scanFraction_def ends_def)
next
  case (Cons c cs)
  with assms scanDigits_append [OF assms(1)] show ?thesis by (auto simp: scanFraction_def split: if_splits)
qed

lemma scanExponent_append:
  assumes "ends rest" "scanExponent s = Some r"
  shows "scanExponent (s @ rest) = Some (r @ rest)"
proof (cases s)
  case Nil
  with assms show ?thesis by (cases rest) (auto simp: scanExponent_def ends_def)
next
  case (Cons c cs)
  have "scanDigits (a # list @ rest) = Some (r @ rest)" if "scanDigits (a # list) = Some r" for a list
    using scanDigits_append [OF assms(1) that] by simp
  with Cons assms scanDigits_append [OF assms(1)] show ?thesis
    by (cases cs) (auto simp: scanExponent_def split: if_splits)
qed

lemma scanNumber_append:
  assumes "ends rest" "scanNumber s = Some r"
  shows "scanNumber (s @ rest) = Some (r @ rest)"
proof -
  let ?t = "case s of c # cs \<Rightarrow> if c = CHR ''-'' then cs else s | [] \<Rightarrow> []"
  from assms(2) obtain c cs u v where t: "?t = c # cs" and u: "(if c = CHR ''0'' then Some cs else scanDigits ?t) = Some u"
    and v: "scanFraction u = Some v" "scanExponent v = Some r"
    by (auto simp: scanNumber_def split: list.splits option.splits if_splits)
  have t': "(case s @ rest of c # cs \<Rightarrow> if c = CHR ''-'' then cs else s @ rest | [] \<Rightarrow> []) = ?t @ rest"
    using t by (auto split: list.splits)
  have u': "(if c = CHR ''0'' then Some (cs @ rest) else scanDigits ((c # cs) @ rest)) = Some (u @ rest)"
    using u scanDigits_append [OF assms(1), of "c # cs" u] t by (auto split: if_splits)
  show ?thesis
    unfolding scanNumber_def Let_def t' t using u' scanFraction_append [OF assms(1) v(1)] scanExponent_append [OF assms(1) v(2)]
    by simp
qed

text \<open>The text of a number that does not print as an integer.\<close>

definition fracText :: "string \<Rightarrow> bool" where
  "fracText t \<longleftrightarrow> scanNumber t = Some [] \<and> \<not> integerText t \<and> asciiText t"

lemma digit_ascii: "digit c \<Longrightarrow> (of_char c :: nat) < 128"
  by (simp add: digit_def)

lemma show_nat_ascii [simp]: "asciiText (show_nat n)"
  using show_nat_digits [of n] by (auto simp: asciiText_def list_all_iff digit_ascii)

lemma show_int_ascii [simp]: "asciiText (show_int n)"
  by (simp add: show_int_def)

lemma show_nat_leading: "n > 0 \<Longrightarrow> hd (show_nat n) \<noteq> CHR ''0''"
proof (induction n rule: show_nat.induct)
  case (1 n)
  show ?case
  proof (cases "n < 10")
    case True
    with 1(2) show ?thesis by (simp add: show_nat.simps [of n] char_of_is)
  next
    case False
    with 1 show ?thesis by (simp add: show_nat.simps [of n] hd_append)
  qed
qed

lemma scanDigits_show_nat: "scanDigits (show_nat n) = Some []"
  using show_nat_digits [of n] by (cases "show_nat n") (auto simp: scanDigits_def isDigit_def dropWhile_eq_Nil_conv)

lemma scan_show_nat:
  "(case show_nat n of [] \<Rightarrow> None | c # cs \<Rightarrow> if c = CHR ''0'' then Some cs else scanDigits (show_nat n)) = Some []"
proof (cases "n = 0")
  case True
  then show ?thesis by (simp add: show_nat.simps char_of_is)
next
  case False
  with show_nat_leading [of n] scanDigits_show_nat [of n] show ?thesis by (cases "show_nat n") auto
qed

lemma scanNumber_show_int: "scanNumber (show_int n) = Some []"
proof -
  have end0: "scanFraction [] = Some []" "scanExponent [] = Some []" by (simp_all add: scanFraction_def scanExponent_def)
  have "show_nat k = c # cs \<Longrightarrow> c \<noteq> CHR ''-''" for k c cs
    using show_nat_hd [of k] by (auto simp: digit_def)
  then show ?thesis
    using scan_show_nat [of "nat n"] scan_show_nat [of "nat (- n)"] end0
    by (auto simp: scanNumber_def show_int_def split: list.splits if_splits)
qed

lemma integerText_show_int [simp]: "integerText (show_int n)"
  using show_nat_digits by (auto simp: integerText_def show_int_def list_all_iff)

lemma readInt_show_int [simp]: "readInt (show_int n) = n"
proof (cases "n < 0")
  case True
  then show ?thesis by (simp add: readInt_def show_int_def read_show_nat)
next
  case False
  obtain c cs where c: "show_nat (nat n) = c # cs" "digit c" using show_nat_hd by blast
  then have "c \<noteq> CHR ''-''" by (auto simp: digit_def)
  with c False read_show_nat [of "nat n"] show ?thesis by (simp add: readInt_def show_int_def)
qed

lemma parseNumber_text:
  assumes "scanNumber t = Some []" "asciiText t" "delim rest"
  shows "parseNumber (ascii t @ rest) = Some (if integerText t then JsInt (readInt t) else JsFrac t, rest)"
  using scanNumber_append [of "map narrow rest" t "[]"] assms
  by (simp add: parseNumber_def delim_ends Let_def)

section \<open>Reading a document back\<close>

text \<open>
  What a value has lost once it is a document: \<open>toJSON\<close> is applied, skipped members are gone, skipped
  items are null, and members stand in key order.
\<close>

fun normal :: "JsValue \<Rightarrow> JsValue" where
  "normal (JsToJson v) = normal v"
| "normal (JsArr vs) = JsArr (map (\<lambda>v. if absent v then JsNull else normal v) vs)"
| "normal (JsObj fs) = JsObj (sort_key fst (map (\<lambda>(k, v). (k, normal v)) (filter (\<lambda>(k, v). \<not> absent v) fs)))"
| "normal v = v"

text \<open>Values that have a text, and values in which every item and member that is not skipped has one.\<close>

fun hasText :: "JsValue \<Rightarrow> bool" where
  "hasText JsUndefined = False"
| "hasText JsSymbol = False"
| "hasText JsFunction = False"
| "hasText (JsToJson v) = hasText v"
| "hasText _ = True"

text \<open>Besides, keys of an object are distinct and \<open>JsFrac\<close> holds a number's text.\<close>

fun regular :: "JsValue \<Rightarrow> bool" where
  "regular (JsToJson v) = regular v"
| "regular (JsArr vs) = list_all (\<lambda>v. absent v \<or> hasText v \<and> regular v) vs"
| "regular (JsObj fs) = (distinct (map fst fs) \<and> list_all (\<lambda>(k, v). absent v \<or> hasText v \<and> regular v) fs)"
| "regular (JsFrac t) = fracText t"
| "regular _ = True"

definition startOk :: "units \<Rightarrow> bool" where
  "startOk t \<longleftrightarrow> (case t of [] \<Rightarrow> False | c # _ \<Rightarrow> \<not> spaceUnit c \<and> narrow c \<noteq> CHR '']'' \<and> narrow c \<noteq> CHR ''}'')"

definition reads :: "units \<Rightarrow> JsValue \<Rightarrow> bool" where
  "reads t v \<longleftrightarrow> startOk t \<and> (\<forall>n rest. 2 * length t < n \<longrightarrow> delim rest \<longrightarrow> parseValue n (t @ rest) = Some (v, rest))"

lemma traverse_map_Inr [simp]: "traverse (map Inr xs) = Inr xs"
  by (induction xs) auto

lemma traverse_Inr: "traverse rs = Inr xs \<longleftrightarrow> rs = map Inr xs"
  by (induction rs arbitrary: xs rule: traverse.induct) (auto split: sum.splits)

lemma mapR_Inr [simp]: "mapR f r = Inr b \<longleftrightarrow> (\<exists>a. r = Inr a \<and> f a = b)"
  by (cases r) auto

lemma readsD: "reads t v \<Longrightarrow> 2 * length t < n \<Longrightarrow> delim rest \<Longrightarrow> parseValue n (t @ rest) = Some (v, rest)"
  by (simp add: reads_def)

lemma startOk_drop: "startOk t \<Longrightarrow> dropWhile spaceUnit (t @ rest) = t @ rest"
  by (cases t) (auto simp: startOk_def)

lemma delim_Cons [simp]: "delim (c # cs) \<longleftrightarrow> narrow c = CHR '','' \<or> narrow c = CHR '']'' \<or> narrow c = CHR ''}''"
  by (simp add: delim_def)

lemma structural_units [simp]:
  "narrow (unit16 CHR '','') = CHR '',''" "narrow (unit16 CHR '']'') = CHR '']''" "narrow (unit16 CHR ''['') = CHR ''[''"
  "narrow (unit16 CHR ''{'') = CHR ''{''" "narrow (unit16 CHR ''}'') = CHR ''}''" "narrow (unit16 CHR '':'') = CHR '':''"
  "narrow (unit16 CHR 0x22) = CHR 0x22"
  "\<not> spaceUnit (unit16 CHR '','')" "\<not> spaceUnit (unit16 CHR '']'')" "\<not> spaceUnit (unit16 CHR ''['')"
  "\<not> spaceUnit (unit16 CHR ''{'')" "\<not> spaceUnit (unit16 CHR ''}'')" "\<not> spaceUnit (unit16 CHR '':'')"
  "\<not> spaceUnit (unit16 CHR 0x22)"
  by (simp_all add: spaceUnit_def jsonSpace_def)

lemma parse_elements:
  assumes "tws \<noteq> []" "\<forall>(t, v) \<in> set tws. reads t v" "2 * length (join (map fst tws)) + 1 < n"
  shows "parseElements n (join (map fst tws) @ unit16 CHR '']'' # rest) = Some (map snd tws, rest)"
  using assms
proof (induction tws arbitrary: n rule: induct_list012)
  case (2 x)
  then obtain m where n: "n = Suc m" "2 * length (fst x) < m" by (cases n) auto
  with 2 readsD [of "fst x" "snd x" m "unit16 CHR '']'' # rest"] show ?case
    by (cases x) (simp add: parseElements.simps)
next
  case (3 x y tws)
  let ?rest = "join (map fst (y # tws)) @ unit16 CHR '']'' # rest"
  from 3(5) obtain m where n: "n = Suc m" "2 * length (fst x) < m" "2 * length (join (map fst (y # tws))) + 1 < m"
    by (cases n) auto
  have "parseValue m (fst x @ unit16 CHR '','' # ?rest) = Some (snd x, unit16 CHR '','' # ?rest)"
    using 3(4) n(2) by (intro readsD) auto
  moreover have "parseElements m ?rest = Some (map snd (y # tws), rest)"
    using 3(4) n(3) by (intro 3(2)) auto
  ultimately show ?case using n(1) by (simp add: parseElements.simps)
qed simp

lemma setMember_fresh: "k \<notin> fst ` set fs \<Longrightarrow> setMember k v fs = fs @ [(k, v)]"
  by (induction fs) auto

definition memberText :: "units \<times> units \<times> JsValue \<Rightarrow> units" where
  "memberText m = (case m of (k, t, v) \<Rightarrow> quoteUnits k @ unit16 CHR '':'' # t)"

lemma parse_member:
  assumes "reads t v" "2 * length t < n" "narrow d = CHR '','' \<or> narrow d = CHR ''}''"
  shows "parseMembers (Suc n) fs (memberText (k, t, v) @ d # rest)
    = (if narrow d = CHR ''}'' then Some (setMember k v fs, rest) else parseMembers n (setMember k v fs) rest)"
proof -
  have "parseString (concat (map escapeUnit k) @ unit16 (CHR 0x22) # unit16 CHR '':'' # t @ d # rest)
      = Some (k, unit16 CHR '':'' # t @ d # rest)"
    by (rule parse_quoted)
  moreover have "parseValue n (t @ d # rest) = Some (v, d # rest)" using assms by (intro readsD) auto
  moreover have "\<not> spaceUnit d" using assms(3) by (auto simp: spaceUnit_def jsonSpace_def)
  ultimately show ?thesis using assms(3)
    by (auto simp: parseMembers.simps memberText_def quoteUnits_def)
qed

lemma parse_members:
  assumes "kts \<noteq> []" "\<forall>(k, t, v) \<in> set kts. reads t v" "2 * length (join (map memberText kts)) + 1 < n"
    and "distinct (map fst fs @ map fst kts)"
  shows "parseMembers n fs (join (map memberText kts) @ unit16 CHR ''}'' # rest)
    = Some (fs @ map (\<lambda>(k, t, v). (k, v)) kts, rest)"
  using assms
proof (induction kts arbitrary: n fs rule: induct_list012)
  case (2 x)
  obtain k t v where x: "x = (k, t, v)" by (cases x)
  with 2(3) obtain m where n: "n = Suc m" "2 * length t < m" by (cases n) (auto simp: memberText_def)
  with 2 x show ?case by (simp add: parse_member setMember_fresh)
next
  case (3 x y kts)
  obtain k t v where x: "x = (k, t, v)" by (cases x)
  with 3(5) obtain m where n: "n = Suc m" "2 * length t < m" "2 * length (join (map memberText (y # kts))) + 1 < m"
    by (cases n) (auto simp: memberText_def [of "(k, t, v)"])
  have "parseMembers m (fs @ [(k, v)]) (join (map memberText (y # kts)) @ unit16 CHR ''}'' # rest)
      = Some ((fs @ [(k, v)]) @ map (\<lambda>(k, t, v). (k, v)) (y # kts), rest)"
    using 3(4,6) n(3) x by (intro 3(2)) auto
  with 3(4,6) n x show ?case by (simp add: parse_member setMember_fresh)
qed simp

lemma insort_key_map: "insort_key f (h x) (map h xs) = map h (insort_key (\<lambda>x. f (h x)) x xs)"
  by (induction xs) auto

lemma sort_key_map: "sort_key f (map h xs) = map h (sort_key (\<lambda>x. f (h x)) xs)"
  by (induction xs) (simp_all add: insort_key_map)

text \<open>The members that are printed, in the order they are printed.\<close>

definition memberResult :: "units \<times> JsValue \<Rightarrow> JsError + units" where
  "memberResult m = (case m of (k, v) \<Rightarrow>
     if \<not> wellFormed k then Inl LoneSurrogate
     else mapR (\<lambda>t. quoteUnits k @ unit16 CHR '':'' # (case t of None \<Rightarrow> ascii ''undefined'' | Some u \<Rightarrow> u)) (serialize v))"

definition printed :: "(units \<times> JsValue) list \<Rightarrow> (units \<times> JsValue) list" where
  "printed fs = sort_key fst (filter (\<lambda>(k, v). \<not> absent v) fs)"

lemma members_printed:
  "concat (map member (sort_key fst (map (\<lambda>(k, v). (k, absent v, serialize v)) fs))) = map memberResult (printed fs)"
proof -
  have fst: "(\<lambda>x. fst (case x of (k, v) \<Rightarrow> (k, absent v, serialize v))) = fst" by (auto simp: fun_eq_iff)
  have "concat (map member (map (\<lambda>(k, v). (k, absent v, serialize v)) xs)) = map memberResult (filter (\<lambda>(k, v). \<not> absent v) xs)" for xs
    by (induction xs) (auto simp: member_def memberResult_def)
  then show ?thesis by (simp add: sort_key_map fst printed_def filter_sort [symmetric])
qed

lemma normal_printed: "normal (JsObj fs) = JsObj (map (\<lambda>(k, v). (k, normal v)) (printed fs))"
proof -
  have fst: "(\<lambda>x. fst (case x of (k, v) \<Rightarrow> (k, normal v))) = fst" by (auto simp: fun_eq_iff)
  show ?thesis by (simp add: sort_key_map fst printed_def)
qed

lemma set_printed: "set (printed fs) = {(k, v) \<in> set fs. \<not> absent v}"
  by (auto simp: printed_def)

lemma distinct_printed: "distinct (map fst fs) \<Longrightarrow> distinct (map fst (printed fs))"
  by (auto simp: printed_def distinct_map intro: inj_on_subset)

lemma reads_items:
  assumes "map f vs = map Inr ts" "\<And>v t. v \<in> set vs \<Longrightarrow> f v = Inr t \<Longrightarrow> reads t (g v)"
  shows "\<exists>tws. map fst tws = ts \<and> map snd tws = map g vs \<and> (\<forall>(t, w) \<in> set tws. reads t w)"
  using assms
proof (induction vs arbitrary: ts)
  case (Cons v vs)
  then obtain t ts' where t: "ts = t # ts'" "f v = Inr t" "map f vs = map Inr ts'" by auto
  from Cons(1) [OF t(3)] Cons(3) obtain tws where "map fst tws = ts'" "map snd tws = map g vs" "\<forall>(t, w) \<in> set tws. reads t w" by auto
  with t Cons(3) show ?case by (intro exI [of _ "(t, g v) # tws"]) auto
qed auto

lemma reads_members:
  assumes "map memberResult fs = map Inr ts"
    and "\<And>k v r. (k, v) \<in> set fs \<Longrightarrow> serialize v = Inr r \<Longrightarrow> \<exists>t. r = Some t \<and> reads t (normal v)"
  shows "\<exists>kts. map memberText kts = ts \<and> map (\<lambda>(k, t, v). (k, v)) kts = map (\<lambda>(k, v). (k, normal v)) fs
    \<and> (\<forall>(k, t, v) \<in> set kts. reads t v)"
  using assms
proof (induction fs arbitrary: ts)
  case (Cons m fs)
  obtain k v where m: "m = (k, v)" by (cases m)
  with Cons(2) obtain r ts' where r: "serialize v = Inr r" "ts = (quoteUnits k @ unit16 CHR '':'' # (case r of None \<Rightarrow> ascii ''undefined'' | Some u \<Rightarrow> u)) # ts'"
    "map memberResult fs = map Inr ts'" by (auto simp: memberResult_def [of "(k, v)"] split: if_splits)
  with Cons(3) m obtain t where t: "r = Some t" "reads t (normal v)" by (metis list.set_intros(1))
  from Cons(1) [OF r(3)] Cons(3) obtain kts where "map memberText kts = ts'"
    "map (\<lambda>(k, t, v). (k, v)) kts = map (\<lambda>(k, v). (k, normal v)) fs" "\<forall>(k, t, v) \<in> set kts. reads t v" by (metis list.set_intros(2))
  with r t m show ?case by (intro exI [of _ "(k, t, normal v) # kts"]) (auto simp: memberText_def)
qed auto

lemma parse_Suc: "2 * length t < n \<Longrightarrow> \<exists>m. n = Suc m \<and> 2 * length t \<le> m"
  by (cases n) auto

lemma reads_word:
  assumes "(w, v) \<in> {(''null'', JsNull), (''true'', JsBool True), (''false'', JsBool False)}"
  shows "reads (ascii w) v"
  using assms
  by (auto simp: reads_def startOk_def spaceUnit_def jsonSpace_def parseValue.simps parseWord_def dest!: parse_Suc)

lemma number_start:
  assumes "scanNumber t = Some []"
  obtains c cs where "t = c # cs" "digit c \<or> c = CHR ''-''"
  using assms by (cases t) (auto simp: scanNumber_def scanDigits_def isDigit_def digit_def split: if_splits)

lemma reads_number:
  assumes "scanNumber t = Some []" "asciiText t"
  shows "reads (ascii t) (if integerText t then JsInt (readInt t) else JsFrac t)"
proof -
  obtain c cs where t: "t = c # cs" "digit c \<or> c = CHR ''-''" using number_start [OF assms(1)] .
  then have c: "(of_char c :: nat) < 128" using assms(2) by simp
  have neq: "c \<noteq> d" if "\<not> digit d" "d \<noteq> CHR ''-''" for d using that t(2) by blast
  have "\<not> jsonSpace c" using t(2) by (auto simp: jsonSpace_def digit_def Let_def)
  with t c neq have start: "startOk (ascii t)" by (simp add: startOk_def spaceUnit_def digit_def)
  have "parseValue n (ascii t @ rest) = Some (if integerText t then JsInt (readInt t) else JsFrac t, rest)"
    if n: "2 * length (ascii t) < n" and d: "delim rest" for n rest
  proof -
    obtain m where m: "n = Suc m" using n by (cases n) auto
    have "parseValue n (ascii t @ rest) = parseNumber (ascii t @ rest)"
      unfolding m parseValue.simps startOk_drop [OF start] using t(1) c neq by (simp add: digit_def)
    also note parseNumber_text [OF assms d]
    finally show ?thesis .
  qed
  with start show ?thesis by (simp add: reads_def)
qed

text \<open>Every text the serializer gives reads back as the normal form of its value.\<close>

lemma reads_string: "reads (quoteUnits s) (JsStr s)"
proof -
  have "parseValue n (quoteUnits s @ rest) = Some (JsStr s, rest)" if "2 * length (quoteUnits s) < n" for n rest
    using that parse_quoted [of s rest] by (cases n) (auto simp: quoteUnits_def parseValue.simps)
  then show ?thesis by (simp add: reads_def startOk_def quoteUnits_def)
qed

lemma quote_starts: "startOk (quoteUnits k @ t)"
  by (simp add: quoteUnits_def startOk_def)

lemma startOk_join: "startOk t \<Longrightarrow> ts = t # us \<Longrightarrow> startOk (join ts @ rest)"
  by (cases us; cases t) (auto simp: startOk_def)

lemma reads_array:
  assumes "\<forall>(t, v) \<in> set tws. reads t v"
  shows "reads (unit16 CHR ''['' # join (map fst tws) @ [unit16 CHR '']'']) (JsArr (map snd tws))"
proof -
  let ?t = "unit16 CHR ''['' # join (map fst tws) @ [unit16 CHR '']'']"
  have "parseValue n (?t @ rest) = Some (JsArr (map snd tws), rest)" if n: "2 * length ?t < n" for n rest
  proof (cases tws)
    case Nil
    then show ?thesis using n by (cases n) (simp_all add: parseValue.simps)
  next
    case (Cons x xs)
    obtain m where m: "n = Suc m" "2 * length (join (map fst tws)) + 1 < m" using n by (cases n) auto
    have "startOk (fst x)" using assms Cons by (auto simp: reads_def)
    then have s: "startOk (join (map fst tws) @ unit16 CHR '']'' # rest)" using Cons by (intro startOk_join) auto
    then obtain c cs where c: "join (map fst tws) @ unit16 CHR '']'' # rest = c # cs" "narrow c \<noteq> CHR '']''"
      by (auto simp: startOk_def split: list.splits)
    have "parseElements m (join (map fst tws) @ unit16 CHR '']'' # rest) = Some (map snd tws, rest)"
      using Cons assms m(2) by (intro parse_elements) auto
    with startOk_drop [OF s, of "[]"] c m(1) show ?thesis by (simp add: parseValue.simps)
  qed
  then show ?thesis by (simp add: reads_def startOk_def)
qed

lemma reads_object:
  assumes "\<forall>(k, t, v) \<in> set kts. reads t v" "distinct (map fst kts)"
  shows "reads (unit16 CHR ''{'' # join (map memberText kts) @ [unit16 CHR ''}'']) (JsObj (map (\<lambda>(k, t, v). (k, v)) kts))"
proof -
  let ?t = "unit16 CHR ''{'' # join (map memberText kts) @ [unit16 CHR ''}'']"
  have "parseValue n (?t @ rest) = Some (JsObj (map (\<lambda>(k, t, v). (k, v)) kts), rest)" if n: "2 * length ?t < n" for n rest
  proof (cases kts)
    case Nil
    then show ?thesis using n by (cases n) (simp_all add: parseValue.simps)
  next
    case (Cons x xs)
    obtain m where m: "n = Suc m" "2 * length (join (map memberText kts)) + 1 < m" using n by (cases n) auto
    have "startOk (memberText x)" by (auto simp: memberText_def quote_starts split: prod.splits)
    then have s: "startOk (join (map memberText kts) @ unit16 CHR ''}'' # rest)" using Cons by (intro startOk_join) auto
    then obtain c cs where c: "join (map memberText kts) @ unit16 CHR ''}'' # rest = c # cs" "narrow c \<noteq> CHR ''}''"
      by (auto simp: startOk_def split: list.splits)
    have "parseMembers m [] (join (map memberText kts) @ unit16 CHR ''}'' # rest) = Some (map (\<lambda>(k, t, v). (k, v)) kts, rest)"
      using Cons assms m(2) parse_members [of kts m "[]" rest] by auto
    with startOk_drop [OF s, of "[]"] c m(1) show ?thesis by (simp add: parseValue.simps)
  qed
  then show ?thesis by (simp add: reads_def startOk_def)
qed

lemma serialize_reads: "regular v \<Longrightarrow> hasText v \<Longrightarrow> serialize v = Inr r \<Longrightarrow> \<exists>t. r = Some t \<and> reads t (normal v)"
proof (induction v arbitrary: r)
  case (JsArr vs)
  let ?f = "\<lambda>v. if absent v then Inr (ascii ''null'') else mapR (\<lambda>t. case t of None \<Rightarrow> [] | Some u \<Rightarrow> u) (serialize v)"
  from JsArr(4) obtain ts where ts: "map ?f vs = map Inr ts" "r = Some (unit16 CHR ''['' # join ts @ [unit16 CHR '']''])"
    by (auto simp: traverse_Inr)
  have "reads t (if absent v then JsNull else normal v)" if v: "v \<in> set vs" "?f v = Inr t" for v t
  proof (cases "absent v")
    case True
    with v reads_word [of "''null''" JsNull] show ?thesis by simp
  next
    case False
    with v obtain q where q: "serialize v = Inr q" "t = (case q of None \<Rightarrow> [] | Some u \<Rightarrow> u)" by auto
    moreover have "regular v" "hasText v" using JsArr(2) v(1) False by (auto simp: list_all_iff)
    ultimately show ?thesis using JsArr(1) [OF v(1)] False by auto
  qed
  from reads_items [where g = "\<lambda>v. if absent v then JsNull else normal v", OF ts(1) this] obtain tws where tws: "map fst tws = ts"
    "map snd tws = map (\<lambda>v. if absent v then JsNull else normal v) vs" "\<forall>(t, w) \<in> set tws. reads t w" by blast
  from reads_array [OF tws(3)] show ?case unfolding tws(1,2) using ts(2) by simp
next
  case (JsObj fs)
  from JsObj(4) obtain ts where ts: "map memberResult (printed fs) = map Inr ts" "r = Some (unit16 CHR ''{'' # join ts @ [unit16 CHR ''}''])"
    by (auto simp: members_printed traverse_Inr)
  have each: "\<exists>t. q = Some t \<and> reads t (normal v)" if "(k, v) \<in> set (printed fs)" "serialize v = Inr q" for k v q
  proof -
    have "(k, v) \<in> set fs" "regular v" "hasText v" using that(1) JsObj(2) by (auto simp: set_printed list_all_iff)
    moreover have "v \<in> Basic_BNFs.snds (k, v)" by (simp add: prod_set_defs)
    ultimately show ?thesis using JsObj(1) that(2) by blast
  qed
  have "\<exists>kts. map memberText kts = ts \<and> map (\<lambda>(k, t, v). (k, v)) kts = map (\<lambda>(k, v). (k, normal v)) (printed fs)
      \<and> (\<forall>(k, t, v) \<in> set kts. reads t v)"
    by (rule reads_members [OF ts(1)]) (rule each)
  then obtain kts where kts: "map memberText kts = ts"
    "map (\<lambda>(k, t, v). (k, v)) kts = map (\<lambda>(k, v). (k, normal v)) (printed fs)" "\<forall>(k, t, v) \<in> set kts. reads t v" by blast
  have "map fst kts = map fst (map (\<lambda>(k, t, v). (k, v)) kts)" by (auto simp: case_prod_unfold)
  also have "\<dots> = map fst (printed fs)" unfolding kts(2) by (auto simp: case_prod_unfold)
  finally have "distinct (map fst kts)" using distinct_printed JsObj(2) by simp
  from reads_object [OF kts(3) this] show ?case unfolding kts(1,2) normal_printed using ts(2) by simp
next
  case (JsBool b)
  then show ?case using reads_word [of "if b then ''true'' else ''false''" "JsBool b"] by auto
next
  case (JsInt n)
  then show ?case using reads_number [OF scanNumber_show_int, of n] by auto
next
  case (JsFrac t)
  then show ?case using reads_number [of t] by (auto simp: fracText_def)
next
  case JsNull
  then show ?case using reads_word [of "''null''" JsNull] by auto
next
  case (JsStr s)
  then show ?case by (auto simp: reads_string split: if_splits)
qed auto

lemma parseJson_reads: "reads t v \<Longrightarrow> parseJson t = Some v"
  using readsD [of t v "2 * length t + 2" "[]"] by (simp add: parseJson_def delim_def)

lemma document_iff:
  assumes "regular v" "hasText v"
  shows "canonicalDocument v = Inr t \<longleftrightarrow> serialize v = Inr (Some t)"
  using serialize_reads [OF assms] parseJson_reads
  by (fastforce simp: canonicalDocument_def split: sum.splits option.splits)

lemma hasText_normal [simp]: "hasText (normal v) = hasText v" "regular v \<Longrightarrow> hasText v \<Longrightarrow> absent (normal v) = False"
  by (induction v) auto

text \<open>The serializer only sees the normal form.\<close>

lemma sort_key_idem: "sort_key f (sort_key f xs) = sort_key f xs"
  by (simp add: sort_key_id_if_sorted)

lemma serialize_normal: "regular v \<Longrightarrow> hasText v \<Longrightarrow> serialize (normal v) = serialize v"
proof (induction v)
  case (JsArr vs)
  have "(if absent (if absent v then JsNull else normal v) then Inr (ascii ''null'')
      else mapR (\<lambda>t. case t of None \<Rightarrow> [] | Some u \<Rightarrow> u) (serialize (if absent v then JsNull else normal v)))
    = (if absent v then Inr (ascii ''null'') else mapR (\<lambda>t. case t of None \<Rightarrow> [] | Some u \<Rightarrow> u) (serialize v))"
    if "v \<in> set vs" for v
    using that JsArr by (auto simp: list_all_iff)
  then show ?case by (simp cong: map_cong)
next
  case (JsObj fs)
  let ?n = "\<lambda>(k, v). (k, normal v)"
  have each: "memberResult (?n m) = memberResult m \<and> \<not> absent (snd (?n m))" if "m \<in> set (printed fs)" for m
  proof -
    obtain k v where m: "m = (k, v)" by (cases m)
    with that JsObj(2) have kv: "(k, v) \<in> set fs" "regular v" "hasText v" by (auto simp: set_printed list_all_iff)
    moreover have "v \<in> Basic_BNFs.snds (k, v)" by (simp add: prod_set_defs)
    ultimately show ?thesis using JsObj(1) m by (auto simp: memberResult_def)
  qed
  then have "filter (\<lambda>(k, v). \<not> absent v) (map ?n (printed fs)) = map ?n (printed fs)"
    by (auto simp: filter_id_conv)
  moreover have "sort_key fst (map ?n (printed fs)) = map ?n (printed fs)"
    using normal_printed [of fs] sort_key_idem [of fst "map ?n (filter (\<lambda>(k, v). \<not> absent v) fs)"] by simp
  ultimately have "printed (map ?n (printed fs)) = map ?n (printed fs)" by (simp add: printed_def)
  moreover have "map memberResult (map ?n (printed fs)) = map memberResult (printed fs)" using each by simp
  ultimately show ?case unfolding normal_printed serialize.simps members_printed by metis
qed auto

theorem document_reads_back:
  assumes "regular v" "hasText v" "canonicalDocument v = Inr t"
  shows "parseJson t = Some (normal v)"
  using assms serialize_reads parseJson_reads by (fastforce simp: document_iff)

theorem documents_equal_iff:
  assumes "regular v" "hasText v" "regular w" "hasText w" "canonicalDocument v = Inr t" "canonicalDocument w = Inr u"
  shows "t = u \<longleftrightarrow> normal v = normal w"
  using document_reads_back [OF assms(1,2,5)] document_reads_back [OF assms(3,4,6)]
    assms serialize_normal [OF assms(1,2)] serialize_normal [OF assms(3,4)]
  by (auto simp: document_iff)

text \<open>A value in which something nested has no text may collide: a function in an array prints as nothing.\<close>

lemma function_item_collides:
  "canonicalDocument (JsArr [JsFunction]) = canonicalDocument (JsArr [])"
  "canonicalDocument (JsArr []) = Inr (ascii ''[]'')"
  by code_simp+

end
