(* ===== verification/StepCache.thy ===== *)
theory StepCache
  imports Journal_Log Canonical "HOL-Library.Product_Lexorder"
begin

text \<open>
  The step cache (\<^verbatim>\<open>packages/step-cache/src/CacheStore.ts\<close>, \<^verbatim>\<open>internal/CacheEvents.ts\<close>,
  \<^verbatim>\<open>Fold.ts\<close>): the head table \<open>flows_step_cache\<close>, the ledger \<open>flows_step_cache_recorded\<close>, the
  operations that move them together with a journal event, and the fold that recomputes both tables
  from the events. A cached value is a JSON value; its column is the text of its canonical document.
\<close>

section \<open>JSON values and their canonical columns\<close>

fun ofJson :: "json \<Rightarrow> JsValue" where
  "ofJson JNull = JsNull"
| "ofJson (JBool b) = JsBool b"
| "ofJson (JInt n) = JsInt n"
| "ofJson (JFrac t) = JsFrac t"
| "ofJson (JStr s) = JsStr (ascii s)"
| "ofJson (JArr vs) = JsArr (map ofJson vs)"
| "ofJson (JObj fs) = JsObj (map (\<lambda>(k, v). (ascii k, ofJson v)) fs)"

definition charsOf :: "units \<Rightarrow> string option" where
  "charsOf u = (if list_all (\<lambda>w. unat w < 256) u then Some (map (\<lambda>w. char_of (unat w)) u) else None)"

fun allSome :: "'a option list \<Rightarrow> 'a list option" where
  "allSome [] = Some []"
| "allSome (None # _) = None"
| "allSome (Some a # xs) = map_option ((#) a) (allSome xs)"

text \<open>Partial only because strings of the journal's model hold code units below 256.\<close>

fun toJson :: "JsValue \<Rightarrow> json option" where
  "toJson JsNull = Some JNull"
| "toJson (JsBool b) = Some (JBool b)"
| "toJson (JsInt n) = Some (JInt n)"
| "toJson (JsFrac t) = Some (JFrac t)"
| "toJson (JsStr u) = map_option JStr (charsOf u)"
| "toJson (JsArr vs) = map_option JArr (allSome (map toJson vs))"
| "toJson (JsObj fs) = map_option JObj (allSome (map (\<lambda>(k, v).
     case (charsOf k, toJson v) of (Some k', Some v') \<Rightarrow> Some (k', v') | _ \<Rightarrow> None) fs))"
| "toJson _ = None"

section \<open>Entries, rows and errors\<close>

datatype CacheStoreErrorCode = Invalid_cache | Constraint_cache | Decode_failed_cache | Persistence_failed_cache | Unknown_cache

record CacheEntry =
  ce_keyDigest :: string
  ce_result :: json
  ce_meta :: json
  ce_createdAtMs :: int
  ce_recordedRunId :: string
  ce_recordedEventSeq :: int

text \<open>A row of either table; the key columns are the keys of the maps below.\<close>

record CacheRow =
  result_json :: units
  meta_json :: units
  created_at_ms :: int
  recorded_run_id :: string
  recorded_event_seq :: int

type_synonym triple = "string \<times> string \<times> int"

record 'l cache_db = "'l journal_db" +
  headRows :: "string \<rightharpoonup> CacheRow"
  ledgerRows :: "triple \<rightharpoonup> CacheRow"

type_synonym ('l, 'a) ctxn = "('l cache_db, Cause, 'a) txn"
type_synonym ('l, 'a) cop = "('l cache_db, CacheStoreErrorCode, 'a) txn"

definition nonNegativeSafeInt :: "int \<Rightarrow> bool" where
  "nonNegativeSafeInt n \<longleftrightarrow> 0 \<le> n \<and> n \<le> 9007199254740991"

definition cache_check :: "string \<Rightarrow> CacheRow \<Rightarrow> bool" where
  "cache_check k row \<longleftrightarrow> k \<noteq> [] \<and> parseJson (result_json row) \<noteq> None \<and> parseJson (meta_json row) \<noteq> None
     \<and> nonNegativeSafeInt (created_at_ms row) \<and> recorded_run_id row \<noteq> [] \<and> nonNegativeSafeInt (recorded_event_seq row)"

definition encodeCanonical :: "json \<Rightarrow> CacheStoreErrorCode + units" where
  "encodeCanonical v = (case canonicalDocument (ofJson v) of Inl _ \<Rightarrow> Inl Invalid_cache | Inr t \<Rightarrow> Inr t)"

definition decodeColumn :: "units \<Rightarrow> CacheStoreErrorCode + json" where
  "decodeColumn t = (case Option.bind (parseJson t) toJson of None \<Rightarrow> Inl Decode_failed_cache | Some v \<Rightarrow> Inr v)"

definition validEntry :: "CacheEntry \<Rightarrow> bool" where
  "validEntry e \<longleftrightarrow> ce_keyDigest e \<noteq> [] \<and> nonNegativeSafeInt (ce_createdAtMs e)
     \<and> ce_recordedRunId e \<noteq> [] \<and> nonNegativeSafeInt (ce_recordedEventSeq e)"

type_synonym provenance = "string \<times> int"

fun validFence :: "provenance option \<Rightarrow> bool" where
  "validFence None = True"
| "validFence (Some (r, n)) = (r \<noteq> [] \<and> nonNegativeSafeInt n)"

fun mapCacheError :: "Cause \<Rightarrow> CacheStoreErrorCode" where
  "mapCacheError (COther _) = Unknown_cache"
| "mapCacheError (CSink _ c) = mapCacheError c"
| "mapCacheError CConstraint = Constraint_cache"
| "mapCacheError _ = Persistence_failed_cache"

definition decodeRow :: "string \<Rightarrow> CacheRow \<Rightarrow> CacheStoreErrorCode + CacheEntry" where
  "decodeRow k row =
     (if k = [] \<or> \<not> nonNegativeSafeInt (created_at_ms row) \<or> recorded_run_id row = [] \<or> \<not> nonNegativeSafeInt (recorded_event_seq row)
      then Inl Decode_failed_cache
      else case decodeColumn (result_json row) of Inl e \<Rightarrow> Inl e
      | Inr r \<Rightarrow> (case decodeColumn (meta_json row) of Inl e \<Rightarrow> Inl e
        | Inr m \<Rightarrow> Inr \<lparr>ce_keyDigest = k, ce_result = r, ce_meta = m, ce_createdAtMs = created_at_ms row,
            ce_recordedRunId = recorded_run_id row, ce_recordedEventSeq = recorded_event_seq row\<rparr>))"

section \<open>Events\<close>

definition recordedEventType :: string where "recordedEventType = ''flows.cache.recorded''"
definition evictedEventType :: string where "evictedEventType = ''flows.cache.evicted''"
definition snapshotEventType :: string where "snapshotEventType = ''flows.cache.snapshot''"

definition sourceIdOf :: "string \<Rightarrow> string \<Rightarrow> int \<Rightarrow> string" where
  "sourceIdOf k r n = ''flows:cache:'' @ show_nat (length k) @ '':'' @ k @ show_nat (length r) @ '':'' @ r @ show_int n"

definition cacheInput :: "string \<Rightarrow> string \<Rightarrow> string \<Rightarrow> json \<Rightarrow> Input" where
  "cacheInput r src t p =
     \<lparr>in_runId = r, in_sourceId = src, in_sourceSeq = None, in_eventType = t, in_payload = p,
      in_meta = Some (JObj [(''lineageId'', JStr (r @ ''/root''))])\<rparr>"

definition encodeEntry :: "CacheEntry \<Rightarrow> json" where
  "encodeEntry e = JObj [(''keyDigest'', JStr (ce_keyDigest e)), (''result'', ce_result e), (''meta'', ce_meta e),
     (''createdAtMs'', JInt (ce_createdAtMs e)), (''recordedRunId'', JStr (ce_recordedRunId e)),
     (''recordedEventSeq'', JInt (ce_recordedEventSeq e))]"

definition recorded :: "CacheEntry \<Rightarrow> Input" where
  "recorded e = cacheInput (ce_recordedRunId e) (sourceIdOf (ce_keyDigest e) (ce_recordedRunId e) (ce_recordedEventSeq e))
     recordedEventType (encodeEntry e)"

definition evicted :: "triple \<Rightarrow> Input" where
  "evicted t = (case t of (k, r, n) \<Rightarrow>
     cacheInput r (sourceIdOf k r n) evictedEventType
       (JObj [(''keyDigest'', JStr k), (''recordedRunId'', JStr r), (''recordedEventSeq'', JInt n)]))"

section \<open>Operations\<close>

definition cacheRow :: "CacheEntry \<Rightarrow> units \<Rightarrow> units \<Rightarrow> CacheRow" where
  "cacheRow e r m = \<lparr>result_json = r, meta_json = m, created_at_ms = ce_createdAtMs e,
     recorded_run_id = ce_recordedRunId e, recorded_event_seq = ce_recordedEventSeq e\<rparr>"

definition tripleOf :: "CacheEntry \<Rightarrow> triple" where
  "tripleOf e = (ce_keyDigest e, ce_recordedRunId e, ce_recordedEventSeq e)"

text \<open>\<open>INSERT ... ON CONFLICT DO NOTHING\<close> on either table: whether a row was inserted.\<close>

definition insertLedger :: "triple \<Rightarrow> CacheRow \<Rightarrow> ('l, bool) ctxn" where
  "insertLedger t row = (\<lambda>s.
     if \<not> cache_check (fst t) row then (Inl CConstraint, s)
     else if ledgerRows s t \<noteq> None then (Inr False, s)
     else (Inr True, s\<lparr>ledgerRows := (ledgerRows s)(t \<mapsto> row)\<rparr>))"

definition insertHead :: "string \<Rightarrow> CacheRow \<Rightarrow> ('l, bool) ctxn" where
  "insertHead k row = (\<lambda>s.
     if \<not> cache_check k row then (Inl CConstraint, s)
     else if headRows s k \<noteq> None then (Inr False, s)
     else (Inr True, s\<lparr>headRows := (headRows s)(k \<mapsto> row)\<rparr>))"

datatype PutResult = Inserted | ExistingSame | Conflict

definition putEntryBody :: "'l Config \<Rightarrow> CacheEntry \<Rightarrow> units \<Rightarrow> units \<Rightarrow> ('l, PutResult) ctxn" where
  "putEntryBody cfg e r m =
     bindT (insertLedger (tripleOf e) (cacheRow e r m)) (\<lambda>ledgerInserted.
     bindT (insertHead (ce_keyDigest e) (cacheRow e r m)) (\<lambda>headInserted.
     bindT (if headInserted then retT Inserted
            else bindT (getT (\<lambda>s. headRows s (ce_keyDigest e))) (\<lambda>row. case row of
                None \<Rightarrow> failT (COther ''cache entry disappeared during put'')
              | Some row \<Rightarrow> retT (if result_json row = r then ExistingSame else Conflict))) (\<lambda>outcome.
     if headInserted \<or> ledgerInserted
     then bindT (emitDurable cfg (recorded e) None) (\<lambda>_. retT outcome)
     else retT outcome)))"

definition mapErr :: "('e \<Rightarrow> 'f) \<Rightarrow> ('s, 'e, 'a) txn \<Rightarrow> ('s, 'f, 'a) txn" where
  "mapErr f m = (\<lambda>s. case m s of (Inl e, s') \<Rightarrow> (Inl (f e), s') | (Inr a, s') \<Rightarrow> (Inr a, s'))"

definition putEntry :: "'l Config \<Rightarrow> CacheEntry \<Rightarrow> ('l, PutResult) cop" where
  "putEntry cfg e =
     (if \<not> validEntry e then failT Invalid_cache
      else case encodeCanonical (ce_result e) of Inl c \<Rightarrow> failT c
      | Inr r \<Rightarrow> (case encodeCanonical (ce_meta e) of Inl c \<Rightarrow> failT c
        | Inr m \<Rightarrow> mapErr mapCacheError (transact cfg (putEntryBody cfg e r m))))"

definition getEntry :: "string \<Rightarrow> provenance option \<Rightarrow> ('l, CacheEntry option) cop" where
  "getEntry k recordedBy = (\<lambda>s.
     if k = [] then (Inl Invalid_cache, s)
     else case Option.bind recordedBy (\<lambda>(r, n). ledgerRows s (k, r, n)) of
       Some row \<Rightarrow> (mapR Some (decodeRow k row), s)
     | None \<Rightarrow> (case headRows s k of None \<Rightarrow> (Inr None, s) | Some row \<Rightarrow> (mapR Some (decodeRow k row), s)))"

definition evictBody :: "'l Config \<Rightarrow> string \<Rightarrow> provenance option \<Rightarrow> ('l, bool) ctxn" where
  "evictBody cfg k fenced =
     bindT (getT (\<lambda>s. headRows s k)) (\<lambda>found.
     case (case (found, fenced) of
             (Some row, Some (r, n)) \<Rightarrow> if recorded_run_id row = r \<and> recorded_event_seq row = n then Some row else None
           | _ \<Rightarrow> found) of
       None \<Rightarrow> retT False
     | Some row \<Rightarrow>
         bindT (\<lambda>s. case headRows s k of
               Some row' \<Rightarrow> if recorded_run_id row' = recorded_run_id row \<and> recorded_event_seq row' = recorded_event_seq row
                           then (Inr True, s\<lparr>headRows := (headRows s)(k := None)\<rparr>) else (Inr False, s)
             | None \<Rightarrow> (Inr False, s)) (\<lambda>deleted.
         if \<not> deleted then retT False
         else bindT (emitDurable cfg (evicted (k, recorded_run_id row, recorded_event_seq row)) None) (\<lambda>_. retT True)))"

definition evict :: "'l Config \<Rightarrow> string \<Rightarrow> provenance option \<Rightarrow> ('l, bool) cop" where
  "evict cfg k fenced =
     (if k = [] \<or> \<not> validFence fenced then failT Invalid_cache
      else mapErr mapCacheError (transact cfg (evictBody cfg k fenced)))"

section \<open>The fold\<close>

text \<open>A fold state is an insertion-ordered map.\<close>

type_synonym 'k cache_state = "('k \<times> CacheEntry) list"

fun nonEmptyText :: "json option \<Rightarrow> string option" where
  "nonEmptyText (Some (JStr s)) = (if s = [] then None else Some s)"
| "nonEmptyText _ = None"

fun safeNumber :: "json option \<Rightarrow> int option" where
  "safeNumber (Some (JInt n)) = (if nonNegativeSafeInt n then Some n else None)"
| "safeNumber _ = None"

definition decodeEntryPayload :: "json \<Rightarrow> CacheEntry option" where
  "decodeEntryPayload v =
     Option.bind (asRecord v) (\<lambda>fs.
     Option.bind (nonEmptyText (map_of fs ''keyDigest'')) (\<lambda>k.
     Option.bind (map_of fs ''result'') (\<lambda>r.
     Option.bind (map_of fs ''meta'') (\<lambda>m.
     Option.bind (safeNumber (map_of fs ''createdAtMs'')) (\<lambda>t.
     Option.bind (nonEmptyText (map_of fs ''recordedRunId'')) (\<lambda>run.
     Option.bind (safeNumber (map_of fs ''recordedEventSeq'')) (\<lambda>n.
     Some \<lparr>ce_keyDigest = k, ce_result = r, ce_meta = m, ce_createdAtMs = t, ce_recordedRunId = run, ce_recordedEventSeq = n\<rparr>)))))))"

definition decodeEvictedPayload :: "json \<Rightarrow> triple option" where
  "decodeEvictedPayload v =
     Option.bind (asRecord v) (\<lambda>fs.
     Option.bind (nonEmptyText (map_of fs ''keyDigest'')) (\<lambda>k.
     Option.bind (nonEmptyText (map_of fs ''recordedRunId'')) (\<lambda>run.
     Option.bind (safeNumber (map_of fs ''recordedEventSeq'')) (\<lambda>n. Some (k, run, n)))))"

text \<open>Which table a snapshot belongs to (\<open>True\<close> for the head) and its entry.\<close>

definition decodeSnapshotPayload :: "json \<Rightarrow> (bool \<times> CacheEntry) option" where
  "decodeSnapshotPayload v =
     Option.bind (asRecord v) (\<lambda>fs.
     Option.bind (decodeEntryPayload v) (\<lambda>e.
     if map_of fs ''table'' = Some (JStr ''head'') then Some (True, e)
     else if map_of fs ''table'' = Some (JStr ''recorded'') then Some (False, e) else None))"

definition setFirst :: "'k \<Rightarrow> CacheEntry \<Rightarrow> 'k cache_state \<Rightarrow> 'k cache_state" where
  "setFirst k e st = (if map_of st k = None then st @ [(k, e)] else st)"

definition decoded :: "'a option \<Rightarrow> ('a \<Rightarrow> 'b) \<Rightarrow> CacheStoreErrorCode + 'b" where
  "decoded x f = (case x of None \<Rightarrow> Inl Decode_failed_cache | Some a \<Rightarrow> Inr (f a))"

definition applyHead :: "string cache_state \<Rightarrow> string \<Rightarrow> json \<Rightarrow> CacheStoreErrorCode + string cache_state" where
  "applyHead st t p =
     (if t = recordedEventType then decoded (decodeEntryPayload p) (\<lambda>e. setFirst (ce_keyDigest e) e st)
      else if t = evictedEventType then decoded (decodeEvictedPayload p) (\<lambda>(k, r, n).
        case map_of st k of
          Some e \<Rightarrow> if ce_recordedRunId e = r \<and> ce_recordedEventSeq e = n then filter (\<lambda>(k', _). k' \<noteq> k) st else st
        | None \<Rightarrow> st)
      else if t = snapshotEventType then decoded (decodeSnapshotPayload p) (\<lambda>(isHead, e).
        if isHead then setFirst (ce_keyDigest e) e st else st)
      else Inr st)"

text \<open>The ledger's key is the text of its triple.\<close>

definition tripleKey :: "CacheEntry \<Rightarrow> string" where
  "tripleKey e = sourceIdOf (ce_keyDigest e) (ce_recordedRunId e) (ce_recordedEventSeq e)"

definition applyLedger :: "string cache_state \<Rightarrow> string \<Rightarrow> json \<Rightarrow> CacheStoreErrorCode + string cache_state" where
  "applyLedger st t p =
     (if t = recordedEventType then decoded (decodeEntryPayload p) (\<lambda>e. setFirst (tripleKey e) e st)
      else if t = snapshotEventType then decoded (decodeSnapshotPayload p) (\<lambda>(isHead, e).
        if isHead then st else setFirst (tripleKey e) e st)
      else Inr st)"

definition cacheEventTypes :: "string list" where
  "cacheEventTypes = [recordedEventType, evictedEventType, snapshotEventType]"

text \<open>\<open>ORDER BY emitted_at_ms, run_id, seq\<close>\<close>

definition replayOrder :: "Entry \<Rightarrow> int \<times> string \<times> int" where
  "replayOrder e = (emittedAtMs e, runId e, seq e)"

definition cacheEvents :: "Entry list \<Rightarrow> Entry list" where
  "cacheEvents evs = filter (\<lambda>e. eventType e \<in> set cacheEventTypes) evs"

fun foldRows :: "Entry list \<Rightarrow> string cache_state \<times> string cache_state
    \<Rightarrow> CacheStoreErrorCode + (string cache_state \<times> string cache_state)" where
  "foldRows [] st = Inr st"
| "foldRows (row # rows) (h, l) =
     (case applyHead h (eventType row) (payload row) of Inl e \<Rightarrow> Inl e
      | Inr h' \<Rightarrow> (case applyLedger l (eventType row) (payload row) of Inl e \<Rightarrow> Inl e
        | Inr l' \<Rightarrow> foldRows rows (h', l')))"

text \<open>The two projections of one run's entries.\<close>

definition namespace :: string where
  "namespace = ''flows.cache.''"

definition reduceHead :: "string cache_state \<Rightarrow> Entry \<Rightarrow> CacheStoreErrorCode + string cache_state" where
  "reduceHead st e = (if \<not> prefix namespace (eventType e) then Inr st else applyHead st (eventType e) (payload e))"

definition reduceLedger :: "string cache_state \<Rightarrow> Entry \<Rightarrow> CacheStoreErrorCode + string cache_state" where
  "reduceLedger st e = (if \<not> prefix namespace (eventType e) then Inr st else applyLedger st (eventType e) (payload e))"

record Rebuilt =
  rb_entries :: nat
  rb_head :: nat
  rb_ledger :: nat

text \<open>The inserts of one table, in the order of the map; a plain \<open>INSERT\<close> fails on a taken key.\<close>

fun materialize :: "(CacheEntry \<Rightarrow> CacheRow \<Rightarrow> ('l, bool) ctxn) \<Rightarrow> CacheEntry list \<Rightarrow> ('l, unit) cop" where
  "materialize ins [] = retT ()"
| "materialize ins (e # es) =
     (case encodeCanonical (ce_result e) of Inl c \<Rightarrow> failT c
      | Inr r \<Rightarrow> (case encodeCanonical (ce_meta e) of Inl c \<Rightarrow> failT c
        | Inr m \<Rightarrow> bindT (mapErr (\<lambda>_. Persistence_failed_cache) (ins e (cacheRow e r m))) (\<lambda>ok.
            if ok then materialize ins es else failT Persistence_failed_cache)))"

definition rebuildBody :: "('l, Rebuilt) cop" where
  "rebuildBody =
     bindT (getT (\<lambda>s. sort_key replayOrder (cacheEvents (events s)))) (\<lambda>rows.
     case foldRows rows ([], []) of Inl c \<Rightarrow> failT c
     | Inr (h, l) \<Rightarrow>
         bindT (\<lambda>s. (Inr (), s\<lparr>headRows := Map.empty, ledgerRows := Map.empty\<rparr>)) (\<lambda>_.
         bindT (materialize (\<lambda>e. insertHead (ce_keyDigest e)) (map snd h)) (\<lambda>_.
         bindT (materialize (\<lambda>e. insertLedger (tripleOf e)) (map snd l)) (\<lambda>_.
         retT \<lparr>rb_entries = length rows, rb_head = length h, rb_ledger = length l\<rparr>))))"

text \<open>One write transaction of the database; it appends nothing.\<close>

definition rebuildCache :: "('l, Rebuilt) cop" where
  "rebuildCache = (\<lambda>s. case rebuildBody s of (Inl c, _) \<Rightarrow> (Inl c, s) | (Inr a, s') \<Rightarrow> (Inr a, s'))"

end
