(* ===== verification/StepCache_Fold.thy ===== *)
theory StepCache_Fold
  imports StepCache
begin

text \<open>
  What the step cache's fold computes, as a function of the decoded events: one head per key and one
  ledger entry per provenance triple, each decided by the events that name it. A rebuild writes
  exactly these rows.
\<close>

section \<open>Events as moves\<close>

datatype CacheOp = ORecorded CacheEntry | OEvicted triple | OSnapshot bool CacheEntry

definition opOf :: "Entry \<Rightarrow> CacheOp option" where
  "opOf e =
     (if eventType e = recordedEventType then map_option ORecorded (decodeEntryPayload (payload e))
      else if eventType e = evictedEventType then map_option OEvicted (decodeEvictedPayload (payload e))
      else if eventType e = snapshotEventType then map_option (\<lambda>(b, x). OSnapshot b x) (decodeSnapshotPayload (payload e))
      else None)"

fun headKey :: "CacheOp \<Rightarrow> string option" where
  "headKey (ORecorded e) = Some (ce_keyDigest e)"
| "headKey (OEvicted (k, _, _)) = Some k"
| "headKey (OSnapshot b e) = (if b then Some (ce_keyDigest e) else None)"

fun ledgerKey :: "CacheOp \<Rightarrow> triple option" where
  "ledgerKey (ORecorded e) = Some (tripleOf e)"
| "ledgerKey (OEvicted _) = None"
| "ledgerKey (OSnapshot b e) = (if b then None else Some (tripleOf e))"

fun opEntry :: "CacheOp \<Rightarrow> CacheEntry option" where
  "opEntry (ORecorded e) = Some e"
| "opEntry (OEvicted _) = None"
| "opEntry (OSnapshot _ e) = Some e"

fun headMove :: "CacheEntry option \<Rightarrow> CacheOp \<Rightarrow> CacheEntry option" where
  "headMove x (OEvicted (k, r, n)) =
     (case x of Some e \<Rightarrow> if ce_recordedRunId e = r \<and> ce_recordedEventSeq e = n then None else x | None \<Rightarrow> None)"
| "headMove x op = coalesce x (opEntry op)"

definition ledgerMove :: "CacheEntry option \<Rightarrow> CacheOp \<Rightarrow> CacheEntry option" where
  "ledgerMove x op = coalesce x (opEntry op)"

definition headAt :: "CacheOp list \<Rightarrow> string \<Rightarrow> CacheEntry option" where
  "headAt ops k = foldl headMove None (filter (\<lambda>op. headKey op = Some k) ops)"

definition ledgerAt :: "CacheOp list \<Rightarrow> triple \<Rightarrow> CacheEntry option" where
  "ledgerAt ops t = foldl ledgerMove None (filter (\<lambda>op. ledgerKey op = Some t) ops)"

lemma headAt_snoc: "headAt (ops @ [op]) k = (if headKey op = Some k then headMove (headAt ops k) op else headAt ops k)"
  by (simp add: headAt_def)

lemma ledgerAt_snoc: "ledgerAt (ops @ [op]) t = (if ledgerKey op = Some t then ledgerMove (ledgerAt ops t) op else ledgerAt ops t)"
  by (simp add: ledgerAt_def)

lemma headAt_Nil [simp]: "headAt [] k = None" and ledgerAt_Nil [simp]: "ledgerAt [] t = None"
  by (simp_all add: headAt_def ledgerAt_def)

section \<open>Entries that can be stored\<close>

definition columnOf :: "json \<Rightarrow> units" where
  "columnOf v = (case encodeCanonical v of Inl _ \<Rightarrow> [] | Inr t \<Rightarrow> t)"

text \<open>JavaScript objects have distinct keys and a fraction is held by the text that prints it.\<close>

definition jsValues :: "CacheEntry \<Rightarrow> bool" where
  "jsValues e \<longleftrightarrow> regular (ofJson (ce_result e)) \<and> regular (ofJson (ce_meta e))"

definition storable :: "CacheEntry \<Rightarrow> bool" where
  "storable e \<longleftrightarrow> validEntry e \<and> jsValues e \<and> encodeCanonical (ce_result e) = Inr (columnOf (ce_result e))
     \<and> encodeCanonical (ce_meta e) = Inr (columnOf (ce_meta e))"

definition rowOf :: "CacheEntry \<Rightarrow> CacheRow" where
  "rowOf e = cacheRow e (columnOf (ce_result e)) (columnOf (ce_meta e))"

definition storableOp :: "CacheOp \<Rightarrow> bool" where
  "storableOp op \<longleftrightarrow> pred_option storable (opEntry op)"

lemma encodeCanonical_parses: "encodeCanonical v = Inr t \<Longrightarrow> parseJson t \<noteq> None"
  by (auto simp: encodeCanonical_def canonicalDocument_def split: sum.splits option.splits if_splits)

lemma storable_check: "storable e \<Longrightarrow> cache_check (ce_keyDigest e) (rowOf e)"
  using encodeCanonical_parses
  by (auto simp: storable_def cache_check_def rowOf_def cacheRow_def validEntry_def)

lemma tripleKey_inject: "tripleKey a = tripleKey b \<longleftrightarrow> tripleOf a = tripleOf b"
proof -
  have "sourceIdOf k r n = ''flows:cache:'' @ lengthPrefixed k @ lengthPrefixed r @ show_int n" for k r n
    by (simp add: sourceIdOf_def lengthPrefixed_def)
  then show ?thesis by (auto simp: tripleKey_def tripleOf_def dest!: lengthPrefixed_append_inject)
qed

section \<open>The fold computes the moves\<close>

definition headOk :: "string cache_state \<Rightarrow> bool" where
  "headOk h \<longleftrightarrow> distinct (map fst h) \<and> (\<forall>(k, e) \<in> set h. k = ce_keyDigest e \<and> storable e)"

definition ledgerOk :: "string cache_state \<Rightarrow> bool" where
  "ledgerOk l \<longleftrightarrow> distinct (map fst l) \<and> (\<forall>(k, e) \<in> set l. k = tripleKey e \<and> storable e)"

lemma map_of_setFirst: "map_of (setFirst k e st) k' = (if k' = k then coalesce (map_of st k) (Some e) else map_of st k')"
  by (auto simp: setFirst_def map_add_def split: option.splits)

lemma set_setFirst: "set (setFirst k e st) \<subseteq> insert (k, e) (set st)"
  by (auto simp: setFirst_def)

lemma distinct_setFirst: "distinct (map fst st) \<Longrightarrow> distinct (map fst (setFirst k e st))"
  by (auto simp: setFirst_def map_of_eq_None_iff)

lemma setFirst_ok:
  "headOk h \<Longrightarrow> storable e \<Longrightarrow> headOk (setFirst (ce_keyDigest e) e h)"
  "ledgerOk l \<Longrightarrow> storable e \<Longrightarrow> ledgerOk (setFirst (tripleKey e) e l)"
  using set_setFirst by (fastforce simp: headOk_def ledgerOk_def distinct_setFirst)+

lemma map_of_filter_key: "map_of (filter (\<lambda>(k', _). k' \<noteq> k) st) k'' = (if k'' = k then None else map_of st k'')"
  by (induction st) auto

lemma filter_key_ok: "headOk h \<Longrightarrow> headOk (filter (\<lambda>(k', _). k' \<noteq> k) h)"
  by (auto simp: headOk_def distinct_map intro: inj_on_subset)

lemma applyHead_move:
  assumes "opOf row = Some op" "headOk h" "storableOp op"
  shows "\<exists>h'. applyHead h (eventType row) (payload row) = Inr h' \<and> headOk h'
    \<and> (\<forall>k. map_of h' k = (if headKey op = Some k then headMove (map_of h k) op else map_of h k))"
  using assms
  by (auto simp: opOf_def applyHead_def decoded_def storableOp_def setFirst_ok filter_key_ok map_of_setFirst
      map_of_filter_key split: if_splits option.splits)

lemma applyLedger_move:
  assumes "opOf row = Some op" "ledgerOk l" "storableOp op"
  shows "\<exists>l'. applyLedger l (eventType row) (payload row) = Inr l' \<and> ledgerOk l'
    \<and> (\<forall>k. map_of l' k = (case opEntry op of
          Some e \<Rightarrow> if ledgerKey op = Some (tripleOf e) \<and> tripleKey e = k then ledgerMove (map_of l k) op else map_of l k
        | None \<Rightarrow> map_of l k))"
  using assms
  by (auto simp: opOf_def applyLedger_def decoded_def storableOp_def setFirst_ok map_of_setFirst ledgerMove_def
      recordedEventType_def evictedEventType_def snapshotEventType_def split: if_splits option.splits)

text \<open>A ledger state as a map on triples.\<close>

definition atTriple :: "string cache_state \<Rightarrow> triple \<Rightarrow> CacheEntry option" where
  "atTriple l t = map_of l (case t of (k, r, n) \<Rightarrow> sourceIdOf k r n)"

lemma atTriple_tripleOf: "map_of l (tripleKey e) = atTriple l (tripleOf e)"
  by (simp add: atTriple_def tripleOf_def tripleKey_def)

lemma ledgerKey_opEntry: "ledgerKey op = Some t \<Longrightarrow> \<exists>e. opEntry op = Some e \<and> tripleOf e = t"
  by (cases op) (auto split: if_splits)

lemma sourceIdOf_tripleKey: "\<exists>e. sourceIdOf k r n = tripleKey e \<and> (k, r, n) = tripleOf e"
  by (rule exI [of _ "\<lparr>ce_keyDigest = k, ce_result = JNull, ce_meta = JNull, ce_createdAtMs = 0, ce_recordedRunId = r, ce_recordedEventSeq = n\<rparr>"])
    (simp add: tripleKey_def tripleOf_def)

lemma applyLedger_at:
  assumes "opOf row = Some op" "ledgerOk l" "storableOp op"
  shows "\<exists>l'. applyLedger l (eventType row) (payload row) = Inr l' \<and> ledgerOk l'
    \<and> (\<forall>t. atTriple l' t = (if ledgerKey op = Some t then ledgerMove (atTriple l t) op else atTriple l t))"
proof -
  from applyLedger_move [OF assms] obtain l' where l': "applyLedger l (eventType row) (payload row) = Inr l'" "ledgerOk l'"
    and m: "\<And>k. map_of l' k = (case opEntry op of
          Some e \<Rightarrow> if ledgerKey op = Some (tripleOf e) \<and> tripleKey e = k then ledgerMove (map_of l k) op else map_of l k
        | None \<Rightarrow> map_of l k)" by blast
  have "atTriple l' t = (if ledgerKey op = Some t then ledgerMove (atTriple l t) op else atTriple l t)" for t
  proof -
    obtain k r n where t: "t = (k, r, n)" by (cases t)
    obtain x where x: "sourceIdOf k r n = tripleKey x" "t = tripleOf x" using sourceIdOf_tripleKey t by metis
    show ?thesis
    proof (cases "ledgerKey op = Some t")
      case True
      from ledgerKey_opEntry [OF this] obtain e where "opEntry op = Some e" "tripleOf e = t" by blast
      with True t m [of "tripleKey x"] x show ?thesis by (simp add: atTriple_def tripleKey_inject)
    next
      case False
      have "map_of l' (tripleKey x) = map_of l (tripleKey x)"
        using False m [of "tripleKey x"] x(2) by (auto simp: tripleKey_inject split: option.splits)
      with False t x(1) show ?thesis by (simp add: atTriple_def)
    qed
  qed
  with l' show ?thesis by blast
qed

definition opsOf :: "Entry list \<Rightarrow> CacheOp list" where
  "opsOf rows = List.map_filter opOf rows"

definition foldable :: "Entry list \<Rightarrow> bool" where
  "foldable rows \<longleftrightarrow> (\<forall>row \<in> set rows. pred_option storableOp (opOf row) \<and> opOf row \<noteq> None)"

lemma foldRows_moves:
  assumes "foldable rows" "headOk h" "ledgerOk l"
  shows "\<exists>h' l'. foldRows rows (h, l) = Inr (h', l') \<and> headOk h' \<and> ledgerOk l'
    \<and> (\<forall>k. map_of h' k = foldl headMove (map_of h k) (filter (\<lambda>op. headKey op = Some k) (opsOf rows)))
    \<and> (\<forall>t. atTriple l' t = foldl ledgerMove (atTriple l t) (filter (\<lambda>op. ledgerKey op = Some t) (opsOf rows)))"
  using assms
proof (induction rows arbitrary: h l)
  case (Cons row rows)
  then obtain op where op: "opOf row = Some op" "storableOp op" by (cases "opOf row") (auto simp: foldable_def)
  from applyHead_move [OF op(1) Cons(3) op(2)] obtain h1 where h1: "applyHead h (eventType row) (payload row) = Inr h1"
    "headOk h1" "\<And>k. map_of h1 k = (if headKey op = Some k then headMove (map_of h k) op else map_of h k)" by blast
  from applyLedger_at [OF op(1) Cons(4) op(2)] obtain l1 where l1: "applyLedger l (eventType row) (payload row) = Inr l1"
    "ledgerOk l1" "\<And>t. atTriple l1 t = (if ledgerKey op = Some t then ledgerMove (atTriple l t) op else atTriple l t)" by blast
  have "foldable rows" using Cons(2) by (simp add: foldable_def)
  from Cons(1) [OF this h1(2) l1(2)] obtain h' l' where "foldRows rows (h1, l1) = Inr (h', l')" "headOk h'" "ledgerOk l'"
    "\<And>k. map_of h' k = foldl headMove (map_of h1 k) (filter (\<lambda>op. headKey op = Some k) (opsOf rows))"
    "\<And>t. atTriple l' t = foldl ledgerMove (atTriple l1 t) (filter (\<lambda>op. ledgerKey op = Some t) (opsOf rows))" by blast
  with h1 l1 op(1) show ?case by (intro exI [of _ h'] exI [of _ l']) (simp add: opsOf_def map_filter_simps)
qed (auto simp: opsOf_def map_filter_simps)

lemma foldRows_rows:
  assumes "foldable rows"
  shows "\<exists>h l. foldRows rows ([], []) = Inr (h, l) \<and> headOk h \<and> ledgerOk l
    \<and> (\<forall>k. map_of h k = headAt (opsOf rows) k) \<and> (\<forall>t. atTriple l t = ledgerAt (opsOf rows) t)"
  using foldRows_moves [OF assms, of "[]" "[]"]
  by (simp add: headOk_def ledgerOk_def headAt_def ledgerAt_def atTriple_def)

section \<open>Replay order\<close>

definition interfere :: "CacheOp \<Rightarrow> CacheOp \<Rightarrow> bool" where
  "interfere a b \<longleftrightarrow> headKey a \<noteq> None \<and> headKey a = headKey b \<or> ledgerKey a \<noteq> None \<and> ledgerKey a = ledgerKey b"

definition replaysInOrder :: "Entry list \<Rightarrow> bool" where
  "replaysInOrder evs \<longleftrightarrow> sorted_wrt (\<lambda>a b. case (opOf a, opOf b) of
      (Some p, Some q) \<Rightarrow> interfere p q \<longrightarrow> replayOrder a \<le> replayOrder b | _ \<Rightarrow> True) (cacheEvents evs)"

lemma filter_opsOf: "filter P (opsOf rows) = opsOf (filter (\<lambda>row. pred_option P (opOf row) \<and> opOf row \<noteq> None) rows)"
  by (induction rows) (auto simp: opsOf_def map_filter_simps split: option.splits)

lemma filter_sorted_ops:
  assumes "sorted_wrt (\<lambda>a b. case (opOf a, opOf b) of (Some p, Some q) \<Rightarrow> interfere p q \<longrightarrow> replayOrder a \<le> replayOrder b | _ \<Rightarrow> True) rows"
    and "\<And>p q. P p \<Longrightarrow> P q \<Longrightarrow> interfere p q"
  shows "filter P (opsOf (sort_key replayOrder rows)) = filter P (opsOf rows)"
proof -
  let ?Q = "\<lambda>row. pred_option P (opOf row) \<and> opOf row \<noteq> None"
  have "sorted_wrt (\<lambda>a b. case (opOf a, opOf b) of (Some p, Some q) \<Rightarrow> interfere p q \<longrightarrow> replayOrder a \<le> replayOrder b | _ \<Rightarrow> True) (filter ?Q rows)"
    by (rule sorted_wrt_filter [OF assms(1)])
  then have "sorted_wrt (\<lambda>a b. replayOrder a \<le> replayOrder b) (filter ?Q rows)"
    by (rule sorted_wrt_mono_rel [rotated]) (use assms(2) in \<open>fastforce split: option.splits\<close>)
  then have "sorted (map replayOrder (filter ?Q rows))" by (simp add: sorted_map)
  then have "filter ?Q (sort_key replayOrder rows) = filter ?Q rows"
    by (simp add: filter_sort sort_key_id_if_sorted)
  then show ?thesis by (simp add: filter_opsOf)
qed

text \<open>Replaying in the rebuild's order moves every key as the order of the log does.\<close>

lemma replay_cache_rows:
  assumes "replaysInOrder evs"
  shows "headAt (opsOf (sort_key replayOrder (cacheEvents evs))) = headAt (opsOf (cacheEvents evs))"
    "ledgerAt (opsOf (sort_key replayOrder (cacheEvents evs))) = ledgerAt (opsOf (cacheEvents evs))"
  using assms
  by (auto simp: headAt_def ledgerAt_def fun_eq_iff replaysInOrder_def interfere_def intro!: arg_cong [of _ _ "foldl _ _"] filter_sorted_ops)

section \<open>The rebuild\<close>

lemma mapErr_Inr [simp]: "mapErr f m s = (Inr a, s') \<longleftrightarrow> m s = (Inr a, s')"
  by (auto simp: mapErr_def split: prod.splits sum.splits)

lemma bindT_mapErr: "m s = (Inr a, s1) \<Longrightarrow> bindT (mapErr f m) g s = g a s1"
  by (simp add: bindT_def mapErr_def)

lemma materialize_Cons:
  assumes "storable e" "ins e (rowOf e) s = (Inr True, s1)"
  shows "materialize ins (e # es) s = materialize ins es s1"
  using assms by (simp add: storable_def rowOf_def bindT_mapErr)

lemma map_add_first:
  assumes "key e \<notin> key ` set es"
  shows "m(key e \<mapsto> f e) ++ map_of (map (\<lambda>e. (key e, f e)) es) = m ++ map_of (map (\<lambda>e. (key e, f e)) (e # es))"
proof -
  have "map_of (map (\<lambda>e. (key e, f e)) es) (key e) = None"
    using assms by (force simp: map_of_eq_None_iff)
  then show ?thesis by (auto simp: fun_eq_iff map_add_def split: option.splits)
qed

lemma materialize_head:
  fixes s :: "'l cache_db"
  assumes "\<forall>e \<in> set es. storable e \<and> headRows s (ce_keyDigest e) = None" "distinct (map ce_keyDigest es)"
  shows "materialize (\<lambda>e. insertHead (ce_keyDigest e)) es s
    = (Inr (), s\<lparr>headRows := headRows s ++ map_of (map (\<lambda>e. (ce_keyDigest e, rowOf e)) es)\<rparr>)"
  using assms
proof (induction es arbitrary: s)
  case (Cons e es)
  let ?s1 = "s\<lparr>headRows := (headRows s)(ce_keyDigest e \<mapsto> rowOf e)\<rparr>"
  have fresh: "ce_keyDigest e \<notin> ce_keyDigest ` set es" using Cons(3) by simp
  have "insertHead (ce_keyDigest e) (rowOf e) s = (Inr True, ?s1)"
    using Cons(2) storable_check [of e] by (simp add: insertHead_def)
  from materialize_Cons [where ins = "\<lambda>e. insertHead (ce_keyDigest e)", OF _ this] Cons(2)
  have "materialize (\<lambda>e. insertHead (ce_keyDigest e)) (e # es) s = materialize (\<lambda>e. insertHead (ce_keyDigest e)) es ?s1" by simp
  also have "\<dots> = (Inr (), ?s1\<lparr>headRows := headRows ?s1 ++ map_of (map (\<lambda>e. (ce_keyDigest e, rowOf e)) es)\<rparr>)"
    using Cons(2,3) fresh by (intro Cons(1)) (auto simp: image_iff)
  also have "headRows ?s1 = (headRows s)(ce_keyDigest e \<mapsto> rowOf e)" by simp
  also note map_add_first [OF fresh, of "headRows s" rowOf]
  also have "?s1\<lparr>headRows := A\<rparr> = s\<lparr>headRows := A\<rparr>" for A by simp
  finally show ?case .
qed simp

lemma materialize_ledger:
  fixes s :: "'l cache_db"
  assumes "\<forall>e \<in> set es. storable e \<and> ledgerRows s (tripleOf e) = None" "distinct (map tripleOf es)"
  shows "materialize (\<lambda>e. insertLedger (tripleOf e)) es s
    = (Inr (), s\<lparr>ledgerRows := ledgerRows s ++ map_of (map (\<lambda>e. (tripleOf e, rowOf e)) es)\<rparr>)"
  using assms
proof (induction es arbitrary: s)
  case (Cons e es)
  let ?s1 = "s\<lparr>ledgerRows := (ledgerRows s)(tripleOf e \<mapsto> rowOf e)\<rparr>"
  have fresh: "tripleOf e \<notin> tripleOf ` set es" using Cons(3) by simp
  have "insertLedger (tripleOf e) (rowOf e) s = (Inr True, ?s1)"
    using Cons(2) storable_check [of e] by (simp add: insertLedger_def tripleOf_def)
  from materialize_Cons [where ins = "\<lambda>e. insertLedger (tripleOf e)", OF _ this] Cons(2)
  have "materialize (\<lambda>e. insertLedger (tripleOf e)) (e # es) s = materialize (\<lambda>e. insertLedger (tripleOf e)) es ?s1" by simp
  also have "\<dots> = (Inr (), ?s1\<lparr>ledgerRows := ledgerRows ?s1 ++ map_of (map (\<lambda>e. (tripleOf e, rowOf e)) es)\<rparr>)"
    using Cons(2,3) fresh by (intro Cons(1)) (auto simp: image_iff)
  also have "ledgerRows ?s1 = (ledgerRows s)(tripleOf e \<mapsto> rowOf e)" by simp
  also note map_add_first [OF fresh, of "ledgerRows s" rowOf]
  also have "?s1\<lparr>ledgerRows := A\<rparr> = s\<lparr>ledgerRows := A\<rparr>" for A by simp
  finally show ?case .
qed simp

lemma map_of_rows:
  assumes "\<forall>(k, e) \<in> set h. g k = key e" "inj_on g (fst ` set h \<union> {k})"
  shows "map_of (map (\<lambda>e. (key e, rowOf e)) (map snd h)) (g k) = map_option rowOf (map_of h k)"
  using assms
proof (induction h)
  case (Cons x h)
  have "inj_on g (fst ` set h \<union> {k})" using Cons(3) by (rule inj_on_subset) auto
  with Cons(1,2) have IH: "map_of (map (\<lambda>e. (key e, rowOf e)) (map snd h)) (g k) = map_option rowOf (map_of h k)" by simp
  have "g (fst x) = g k \<longleftrightarrow> fst x = k" using Cons(3) by (auto simp: inj_on_def)
  with IH Cons(2) show ?case by (cases x) auto
qed simp

lemma headOk_rows:
  assumes "headOk h"
  shows "map_of (map (\<lambda>e. (ce_keyDigest e, rowOf e)) (map snd h)) = (\<lambda>k. map_option rowOf (map_of h k))"
    "distinct (map ce_keyDigest (map snd h))" "\<forall>e \<in> set (map snd h). storable e"
proof -
  have keys: "map ce_keyDigest (map snd h) = map fst h" using assms by (auto simp: headOk_def)
  show "distinct (map ce_keyDigest (map snd h))" unfolding keys using assms by (simp add: headOk_def)
  show "\<forall>e \<in> set (map snd h). storable e" using assms by (auto simp: headOk_def)
  show "map_of (map (\<lambda>e. (ce_keyDigest e, rowOf e)) (map snd h)) = (\<lambda>k. map_option rowOf (map_of h k))"
    using map_of_rows [of h id ce_keyDigest] assms by (fastforce simp: headOk_def fun_eq_iff)
qed

lemma ledgerOk_rows:
  assumes "ledgerOk l"
  shows "map_of (map (\<lambda>e. (tripleOf e, rowOf e)) (map snd l)) = (\<lambda>t. map_option rowOf (atTriple l t))"
    "distinct (map tripleOf (map snd l))" "\<forall>e \<in> set (map snd l). storable e"
proof -
  have keys: "map fst l = map tripleKey (map snd l)" using assms by (auto simp: ledgerOk_def)
  have "distinct (map tripleKey (map snd l))" using assms keys by (simp add: ledgerOk_def)
  then show "distinct (map tripleOf (map snd l))"
    by (auto simp: distinct_map inj_on_def tripleKey_inject)
  show "\<forall>e \<in> set (map snd l). storable e" using assms by (auto simp: ledgerOk_def)
  have "map_of (map (\<lambda>e. (tripleOf e, rowOf e)) (map snd l)) (tripleOf x) = map_option rowOf (map_of l (tripleKey x))" for x
    using assms unfolding ledgerOk_def
  proof (induction l)
    case (Cons y l)
    then show ?case by (cases y) (auto simp: tripleKey_inject)
  qed simp
  then show "map_of (map (\<lambda>e. (tripleOf e, rowOf e)) (map snd l)) = (\<lambda>t. map_option rowOf (atTriple l t))"
    using sourceIdOf_tripleKey by (metis (no_types, lifting) atTriple_tripleOf ext prod_cases3)
qed

definition logOps :: "('l, 'z) journal_db_scheme \<Rightarrow> CacheOp list" where
  "logOps s = opsOf (cacheEvents (events s))"

text \<open>A rebuild writes the rows of the log in replay order, whatever the tables held, and nothing else.\<close>

definition replayedOps :: "('l, 'z) journal_db_scheme \<Rightarrow> CacheOp list" where
  "replayedOps s = opsOf (sort_key replayOrder (cacheEvents (events s)))"

lemma rebuild_replays:
  fixes s :: "'l cache_db"
  assumes "foldable (cacheEvents (events s))"
  shows "\<exists>rb. rebuildCache s = (Inr rb, s\<lparr>headRows := (\<lambda>k. map_option rowOf (headAt (replayedOps s) k)),
      ledgerRows := (\<lambda>t. map_option rowOf (ledgerAt (replayedOps s) t))\<rparr>)
    \<and> rb_entries rb = length (cacheEvents (events s))"
proof -
  let ?rows = "sort_key replayOrder (cacheEvents (events s))"
  let ?s0 = "s\<lparr>headRows := Map.empty, ledgerRows := Map.empty\<rparr>"
  have "foldable ?rows" using assms(1) by (simp add: foldable_def)
  from foldRows_rows [OF this] obtain h l where hl: "foldRows ?rows ([], []) = Inr (h, l)" "headOk h" "ledgerOk l"
    "\<And>k. map_of h k = headAt (opsOf ?rows) k" "\<And>t. atTriple l t = ledgerAt (opsOf ?rows) t" by blast
  let ?s1 = "?s0\<lparr>headRows := (\<lambda>k. map_option rowOf (map_of h k))\<rparr>"
  let ?s2 = "?s1\<lparr>ledgerRows := (\<lambda>t. map_option rowOf (atTriple l t))\<rparr>"
  have m1: "materialize (\<lambda>e. insertHead (ce_keyDigest e)) (map snd h) ?s0 = (Inr (), ?s1)"
    using materialize_head [of "map snd h" ?s0] headOk_rows [OF hl(2)] by simp
  have m2: "materialize (\<lambda>e. insertLedger (tripleOf e)) (map snd l) ?s1 = (Inr (), ?s2)"
    using materialize_ledger [of "map snd l" ?s1] ledgerOk_rows [OF hl(3)] by simp
  have "rebuildBody s = (Inr \<lparr>rb_entries = length ?rows, rb_head = length h, rb_ledger = length l\<rparr>, ?s2)"
    unfolding rebuildBody_def using hl(1) m1 m2 by (simp add: bindT_def getT_def retT_def)
  moreover have "?s2 = s\<lparr>headRows := (\<lambda>k. map_option rowOf (headAt (replayedOps s) k)), ledgerRows := (\<lambda>t. map_option rowOf (ledgerAt (replayedOps s) t))\<rparr>"
    using hl(4,5) by (simp add: replayedOps_def)
  ultimately show ?thesis by (simp add: rebuildCache_def)
qed

text \<open>When interfering events were committed in replay order, these are the rows of the log itself.\<close>

theorem rebuild_rows:
  fixes s :: "'l cache_db"
  assumes "foldable (cacheEvents (events s))" "replaysInOrder (events s)"
  shows "\<exists>rb. rebuildCache s = (Inr rb, s\<lparr>headRows := (\<lambda>k. map_option rowOf (headAt (logOps s) k)),
      ledgerRows := (\<lambda>t. map_option rowOf (ledgerAt (logOps s) t))\<rparr>)
    \<and> rb_entries rb = length (cacheEvents (events s))"
  using rebuild_replays [OF assms(1)] replay_cache_rows [OF assms(2)] by (simp add: replayedOps_def logOps_def)

end
