(* ===== verification/StepCache_Mirror.thy ===== *)
theory StepCache_Mirror
  imports StepCache_Fold
begin

text \<open>
  The live step cache against its log. Every put and every eviction moves the two tables exactly as the
  fold of the event it appends does, and an operation that moves nothing appends nothing.
\<close>

section \<open>Operations, branch by branch\<close>

definition isCacheEvent :: "string \<Rightarrow> bool" where
  "isCacheEvent t \<longleftrightarrow> t \<in> set cacheEventTypes"

lemma cache_tables:
  fixes s s' :: "'l cache_db"
  assumes "frame s s'"
  shows "headRows s' = headRows s" "ledgerRows s' = ledgerRows s"
  using assms by (cases s; cases s'; simp add: frame_def)+

lemma rollback_cache [simp]:
  fixes s s1 :: "'l cache_db"
  shows "headRows (rollback cfg s s1) = headRows s" "ledgerRows (rollback cfg s s1) = ledgerRows s"
    "events (rollback cfg s s1) = events s"
    "leases (rollback cfg s s1) = c_rollback (consensus cfg) (leases s) (leases s1)"
  by (cases s; cases s1; simp add: rollback_def)+

lemma insertLedger_Inr:
  "insertLedger t row s = (Inr b, s') \<longleftrightarrow> cache_check (fst t) row
     \<and> (b \<longleftrightarrow> ledgerRows s t = None) \<and> s' = (if b then s\<lparr>ledgerRows := (ledgerRows s)(t \<mapsto> row)\<rparr> else s)"
  by (auto simp: insertLedger_def)

lemma insertHead_Inr:
  "insertHead k row s = (Inr b, s') \<longleftrightarrow> cache_check k row
     \<and> (b \<longleftrightarrow> headRows s k = None) \<and> s' = (if b then s\<lparr>headRows := (headRows s)(k \<mapsto> row)\<rparr> else s)"
  by (auto simp: insertHead_def)

lemma verbatim_cache [simp]: "isVerbatimEventType recordedEventType" "isVerbatimEventType evictedEventType"
  by (simp_all add: isVerbatimEventType_def verbatimNamespaces_def recordedEventType_def evictedEventType_def)

lemma decode_encodeEntry: "validEntry e \<Longrightarrow> decodeEntryPayload (encodeEntry e) = Some e"
  by (simp add: decodeEntryPayload_def encodeEntry_def validEntry_def)

lemma opOf_recorded:
  assumes "validEntry e" "entryOf cfg (recorded e) x"
  shows "opOf x = Some (ORecorded e)" "eventType x \<in> set cacheEventTypes"
  using assms decode_encodeEntry [of e]
  by (simp_all add: entryOf_def recorded_def cacheInput_def scrubbed_def opOf_def cacheEventTypes_def)

lemma opOf_evicted:
  assumes "k \<noteq> []" "r \<noteq> []" "nonNegativeSafeInt n" "entryOf cfg (evicted (k, r, n)) x"
  shows "opOf x = Some (OEvicted (k, r, n))" "eventType x \<in> set cacheEventTypes"
proof -
  have t: "eventType x = evictedEventType"
    and p: "payload x = JObj [(''keyDigest'', JStr k), (''recordedRunId'', JStr r), (''recordedEventSeq'', JInt n)]"
    using assms(4) by (simp_all add: entryOf_def evicted_def cacheInput_def scrubbed_def)
  show "eventType x \<in> set cacheEventTypes" using t by (simp add: cacheEventTypes_def)
  have "evictedEventType \<noteq> recordedEventType" by (simp add: recordedEventType_def evictedEventType_def)
  with t p assms(1-3) show "opOf x = Some (OEvicted (k, r, n))" by (simp add: opOf_def decodeEvictedPayload_def)
qed

text \<open>Everything the cache does not own is as before.\<close>

definition outside :: "('l, 'z) journal_db_scheme \<Rightarrow> ('l, 'z) journal_db_scheme \<Rightarrow> bool" where
  "outside s s' \<longleftrightarrow> leases s' = leases s \<and> checkpoints s' = checkpoints s \<and> status s' = status s
     \<and> readers s' = readers s \<and> clock s' = clock s"

lemma frame_outside: "frame s s' \<Longrightarrow> outside s s'"
  by (simp add: frame_def outside_def)

context journal_service
begin

lemma putBody_Inr:
  fixes s :: "'l cache_db"
  assumes "inv (leases s)" "evs_ok (events s)" "putEntryBody cfg e r m s = (Inr out, s')"
  shows "outside s s' \<and> cache_check (ce_keyDigest e) (cacheRow e r m)
    \<and> headRows s' = (if headRows s (ce_keyDigest e) = None then (headRows s)(ce_keyDigest e \<mapsto> cacheRow e r m) else headRows s)
    \<and> ledgerRows s' = (if ledgerRows s (tripleOf e) = None then (ledgerRows s)(tripleOf e \<mapsto> cacheRow e r m) else ledgerRows s)
    \<and> (if headRows s (ce_keyDigest e) = None \<or> ledgerRows s (tripleOf e) = None
       then \<exists>x. events s' = events s @ [x] \<and> entryOf cfg (recorded e) x else s' = s)
    \<and> out = (case headRows s (ce_keyDigest e) of None \<Rightarrow> Inserted
         | Some row \<Rightarrow> if result_json row = r then ExistingSame else Conflict)"
proof -
  let ?row = "cacheRow e r m" and ?k = "ce_keyDigest e" and ?t = "tripleOf e"
  let ?outcome = "\<lambda>hb. if hb then retT Inserted
            else bindT (getT (\<lambda>s. headRows s ?k)) (\<lambda>row. case row of
                None \<Rightarrow> failT (COther ''cache entry disappeared during put'')
              | Some row \<Rightarrow> retT (if result_json row = r then ExistingSame else Conflict))"
  obtain lb s1 hb s2 z s3 where
    l: "insertLedger ?t ?row s = (Inr lb, s1)" and h: "insertHead ?k ?row s1 = (Inr hb, s2)"
    and z: "?outcome hb s2 = (Inr z, s3)"
    and tail: "(if hb \<or> lb then bindT (emitDurable cfg (recorded e) None) (\<lambda>_. retT z) else retT z) s3 = (Inr out, s')"
    using assms(3) unfolding putEntryBody_def bindT_Inr by (elim exE conjE) (rule that)
  have s1: "cache_check ?k ?row" "lb \<longleftrightarrow> ledgerRows s ?t = None" "s1 = (if lb then s\<lparr>ledgerRows := (ledgerRows s)(?t \<mapsto> ?row)\<rparr> else s)"
    using l by (simp_all add: insertLedger_Inr tripleOf_def)
  have s2: "hb \<longleftrightarrow> headRows s ?k = None" "s2 = (if hb then s1\<lparr>headRows := (headRows s1)(?k \<mapsto> ?row)\<rparr> else s1)"
    using h s1 by (auto simp: insertHead_Inr)
  have rows: "headRows s2 = (if hb then (headRows s)(?k \<mapsto> ?row) else headRows s)"
    "ledgerRows s2 = (if lb then (ledgerRows s)(?t \<mapsto> ?row) else ledgerRows s)"
    "outside s s2" "events s2 = events s" "leases s2 = leases s"
    using s1 s2 by (simp_all add: outside_def)
  have z': "s3 = s2" "z = (case headRows s ?k of None \<Rightarrow> Inserted | Some row \<Rightarrow> if result_json row = r then ExistingSame else Conflict)"
    using z s2(1) rows(1) by (auto simp: bindT_Inr split: if_splits option.splits)
  have out: "out = z" using tail by (auto simp: bindT_Inr split: if_splits)
  show ?thesis
  proof (cases "hb \<or> lb")
    case False
    with tail z'(1) have "s' = s2" by simp
    with False s1 s2 out z' rows show ?thesis by (simp add: outside_def)
  next
    case True
    with tail z'(1) obtain rc where em: "emitDurable cfg (recorded e) None s2 = (Inr rc, s')" by (auto simp: bindT_Inr)
    have src: "in_sourceSeq (recorded e) = None" by (simp add: recorded_def cacheInput_def)
    have i: "inv (leases s2)" "evs_ok (events s2)" using assms(1,2) rows(4,5) by simp_all
    obtain x where x: "frame s2 s'" "entryOf cfg (recorded e) x" "events s' = events s2 @ [x]"
      by (rule emit_fresh [OF i src em])
    have "outside s s'" using rows(3) x(1) by (simp add: outside_def frame_def)
    moreover have "\<exists>x. events s' = events s @ [x] \<and> entryOf cfg (recorded e) x" using x(2,3) rows(4) by auto
    moreover have "headRows s ?k = None \<or> ledgerRows s ?t = None" using True s1(2) s2(1) by simp
    ultimately show ?thesis using s1(1,2) s2(1) out z'(2) rows(1,2) cache_tables [OF x(1)] by simp
  qed
qed

end

context journal_service
begin

lemma evictBody_Inr:
  fixes s :: "'l cache_db"
  assumes "inv (leases s)" "evs_ok (events s)" "evictBody cfg k fenced s = (Inr b, s')"
  obtains
    (missed) "\<not> b" "s' = s" "\<And>row. headRows s k = Some row \<Longrightarrow> \<exists>r n. fenced = Some (r, n) \<and> (recorded_run_id row, recorded_event_seq row) \<noteq> (r, n)"
  | (deleted) row x where "b" "headRows s k = Some row" "\<And>r n. fenced = Some (r, n) \<Longrightarrow> (recorded_run_id row, recorded_event_seq row) = (r, n)"
      "outside s s'" "headRows s' = (headRows s)(k := None)" "ledgerRows s' = ledgerRows s"
      "events s' = events s @ [x]" "entryOf cfg (evicted (k, recorded_run_id row, recorded_event_seq row)) x"
proof (cases "headRows s k")
  case None
  with assms(3) missed show thesis by (simp add: evictBody_def)
next
  case (Some row)
  show thesis
  proof (cases "\<exists>r n. fenced = Some (r, n) \<and> (recorded_run_id row, recorded_event_seq row) \<noteq> (r, n)")
    case True
    with assms(3) Some missed show thesis by (auto simp: evictBody_def)
  next
    case False
    let ?s1 = "s\<lparr>headRows := (headRows s)(k := None)\<rparr>"
    let ?in = "evicted (k, recorded_run_id row, recorded_event_seq row)"
    have "bindT (emitDurable cfg ?in None) (\<lambda>_. retT True) ?s1 = (Inr b, s')"
      using assms(3) Some False unfolding evictBody_def by (cases fenced) (auto simp: bindT_def getT_def)
    then obtain rc where em: "emitDurable cfg ?in None ?s1 = (Inr rc, s')" and b: "b" by (auto simp: bindT_Inr)
    have src: "in_sourceSeq ?in = None" by (simp add: evicted_def cacheInput_def)
    have i: "inv (leases ?s1)" "evs_ok (events ?s1)" using assms(1,2) by simp_all
    obtain x where x: "frame ?s1 s'" "entryOf cfg ?in x" "events s' = events ?s1 @ [x]"
      by (rule emit_fresh [OF i src em])
    have "outside s s'" using x(1) by (simp add: outside_def frame_def)
    with deleted [OF b Some] False x cache_tables [OF x(1)] show thesis by auto
  qed
qed

text \<open>No statement of the cache touches a lease, and each keeps the event table well formed.\<close>

definition calm :: "('l, 'a) ctxn \<Rightarrow> bool" where
  "calm m \<longleftrightarrow> (\<forall>s x s'. m s = (x, s') \<longrightarrow> inv (leases s) \<longrightarrow> evs_ok (events s) \<longrightarrow>
     leases s' = leases s \<and> evs_ok (events s'))"

lemma calm_bindT [intro]:
  assumes "calm m" "\<And>a. calm (f a)"
  shows "calm (bindT m f)"
  unfolding calm_def
proof (intro allI impI)
  fix s x s' assume r: "bindT m f s = (x, s')" and i: "inv (leases s)" "evs_ok (events s)"
  obtain y s1 where m: "m s = (y, s1)" by fastforce
  have l: "leases s1 = leases s" "evs_ok (events s1)" using assms(1) m i by (auto simp: calm_def)
  show "leases s' = leases s \<and> evs_ok (events s')"
  proof (cases y)
    case (Inl c)
    with r m l show ?thesis by (simp add: bindT_def)
  next
    case (Inr a)
    with r m have "f a s1 = (x, s')" by (simp add: bindT_def)
    with assms(2) [of a] l i show ?thesis unfolding calm_def by metis
  qed
qed

lemma calm_basic [intro]:
  "calm (retT a)" "calm (failT c)" "calm (getT g)"
  "calm (insertHead k row)" "calm (insertLedger t row)"
  by (auto simp: calm_def insertHead_def insertLedger_def)

lemma calm_emit [intro]: "calm (emitDurable cfg input None)"
  unfolding calm_def
proof (intro allI impI)
  fix s s' :: "'l cache_db" and x
  assume e: "emitDurable cfg input None s = (x, s')" and i: "inv (leases s)" "evs_ok (events s)"
  have "leases s' = leases s"
  proof (cases x)
    case (Inl c)
    with e emit_Inl [OF i(1), of input None c s'] show ?thesis by (simp add: frame_def)
  next
    case (Inr rc)
    with e have "emitDurable cfg input None s = (Inr rc, s')" by simp
    from emit_Inr [OF i(1) this] show ?thesis by cases (simp add: frame_def)
  qed
  with emit_evs_ok [OF i e] show "leases s' = leases s \<and> evs_ok (events s')" by simp
qed

lemma calm_put: "calm (putEntryBody cfg e r m)"
  unfolding putEntryBody_def by (auto intro!: calm_bindT calm_basic calm_emit split: option.splits)

lemma calm_evict: "calm (evictBody cfg k fenced)"
proof -
  have "calm (\<lambda>s. case headRows s k of
               Some row' \<Rightarrow> if recorded_run_id row' = r \<and> recorded_event_seq row' = n
                           then (Inr True, s\<lparr>headRows := (headRows s)(k := None)\<rparr>) else (Inr False, s)
             | None \<Rightarrow> (Inr False, s))" for r n
    by (auto simp: calm_def split: option.splits if_splits)
  then show ?thesis unfolding evictBody_def by (auto intro!: calm_bindT calm_basic calm_emit split: option.splits)
qed

lemma transact_calm:
  fixes s :: "'l cache_db"
  assumes "calm body" "inv (leases s)" "evs_ok (events s)" "transact cfg body s = (x, s')"
  shows "inv (leases s') \<and> evs_ok (events s')"
proof (cases x)
  case (Inl c)
  with assms(4) have "transact cfg body s = (Inl c, s')" by simp
  from transact_Inl [OF this] obtain c' s1 where "body (s\<lparr>settlements := []\<rparr>) = (Inl c', s1)"
    "leases s' = c_rollback (consensus cfg) (leases s) (leases s1)" "events s' = events s" by metis
  with assms(1-3) rollback_inv show ?thesis by (auto simp: calm_def)
next
  case (Inr a)
  with assms(4) have "transact cfg body s = (Inr a, s')" by simp
  from transact_Inr [OF this] obtain s1 where "body (s\<lparr>settlements := []\<rparr>) = (Inr a, s1)" "frame s1 s'" "events s' = events s1" by metis
  with assms(1-3) show ?thesis by (auto simp: calm_def frame_def)
qed

end

section \<open>The tables are the fold of the log\<close>

lemma headAt_in: "headAt ops k = Some e \<Longrightarrow> \<exists>op \<in> set ops. opEntry op = Some e \<and> headKey op = Some k"
proof (induction ops rule: rev_induct)
  case (snoc op ops)
  show ?case
  proof (cases "headKey op = Some k \<and> headAt (ops @ [op]) k \<noteq> headAt ops k")
    case True
    with snoc(2) show ?thesis by (cases op) (auto simp: headAt_snoc split: option.splits if_splits, (cases "headAt ops k"; simp)+)
  next
    case False
    with snoc show ?thesis by (auto simp: headAt_snoc split: if_splits)
  qed
qed simp

lemma ledgerAt_in: "ledgerAt ops t = Some e \<Longrightarrow> \<exists>op \<in> set ops. opEntry op = Some e \<and> ledgerKey op = Some t"
proof (induction ops rule: rev_induct)
  case (snoc op ops)
  then show ?case by (cases "ledgerAt ops t") (auto simp: ledgerAt_snoc ledgerMove_def split: if_splits)
qed simp

lemma headKey_entry: "headKey op = Some k \<Longrightarrow> opEntry op = Some e \<Longrightarrow> ce_keyDigest e = k"
  by (cases op) (auto split: if_splits)

lemma opsOf_snoc: "opsOf (rows @ [x]) = opsOf rows @ (case opOf x of None \<Rightarrow> [] | Some op \<Rightarrow> [op])"
  by (simp add: opsOf_def map_filter_def split: option.splits)

lemma cacheEvents_snoc: "cacheEvents (evs @ [x]) = cacheEvents evs @ (if eventType x \<in> set cacheEventTypes then [x] else [])"
  by (simp add: cacheEvents_def)

lemma opsOf_storable: "foldable rows \<Longrightarrow> op \<in> set (opsOf rows) \<Longrightarrow> storableOp op"
  by (induction rows) (auto simp: foldable_def opsOf_def map_filter_simps split: option.splits)

context journal_service
begin

definition cache_ok :: "'l cache_db \<Rightarrow> bool" where
  "cache_ok s \<longleftrightarrow> inv (leases s) \<and> evs_ok (events s) \<and> foldable (cacheEvents (events s))
     \<and> headRows s = (\<lambda>k. map_option rowOf (headAt (logOps s) k))
     \<and> ledgerRows s = (\<lambda>t. map_option rowOf (ledgerAt (logOps s) t))"

lemma cache_ok_head:
  assumes "cache_ok s" "headRows s k = Some row"
  obtains e where "row = rowOf e" "headAt (logOps s) k = Some e" "ce_keyDigest e = k" "storable e"
proof -
  from assms obtain e where e: "headAt (logOps s) k = Some e" "row = rowOf e" by (auto simp: cache_ok_def)
  from headAt_in [OF e(1)] obtain op where op: "op \<in> set (logOps s)" "opEntry op = Some e" "headKey op = Some k" by blast
  have "storableOp op" using assms(1) op(1) opsOf_storable by (auto simp: cache_ok_def logOps_def)
  with op headKey_entry that e show thesis by (auto simp: storableOp_def)
qed

lemma cache_ok_ledger:
  assumes "cache_ok s" "ledgerRows s t = Some row"
  obtains e where "row = rowOf e" "tripleOf e = t" "storable e"
proof -
  from assms obtain e where e: "ledgerAt (logOps s) t = Some e" "row = rowOf e" by (auto simp: cache_ok_def)
  from ledgerAt_in [OF e(1)] obtain op where op: "op \<in> set (logOps s)" "opEntry op = Some e" "ledgerKey op = Some t" by blast
  have "storableOp op" using assms(1) op(1) opsOf_storable by (auto simp: cache_ok_def logOps_def)
  with op ledgerKey_opEntry [OF op(3)] that e show thesis by (auto simp: storableOp_def)
qed

text \<open>One appended cache event.\<close>

lemma cache_ok_append:
  assumes "cache_ok s" "inv (leases s')" "evs_ok (events s')" "events s' = events s @ [x]"
    and "eventType x \<in> set cacheEventTypes" "opOf x = Some op" "storableOp op"
    and "\<And>k. headRows s' k = (if headKey op = Some k then map_option rowOf (headMove (headAt (logOps s) k) op) else headRows s k)"
    and "\<And>t. ledgerRows s' t = (if ledgerKey op = Some t then map_option rowOf (ledgerMove (ledgerAt (logOps s) t) op) else ledgerRows s t)"
  shows "cache_ok s'"
proof -
  have ops: "logOps s' = logOps s @ [op]" using assms(4-6) by (simp add: logOps_def cacheEvents_snoc opsOf_snoc)
  have "foldable (cacheEvents (events s'))"
    using assms(1,4-7) by (auto simp: cache_ok_def foldable_def cacheEvents_snoc)
  with assms(1-3,8,9) ops show ?thesis by (simp add: cache_ok_def headAt_snoc ledgerAt_snoc fun_eq_iff)
qed

lemma cache_ok_same:
  assumes "cache_ok s" "inv (leases s')" "evs_ok (events s')" "cacheEvents (events s') = cacheEvents (events s)"
    "headRows s' = headRows s" "ledgerRows s' = ledgerRows s"
  shows "cache_ok s'"
  using assms by (simp add: cache_ok_def logOps_def)

lemma put_Inr:
  assumes "cache_ok s" "jsValues e" "putEntry cfg e s = (Inr out, s')"
  shows "storable e \<and> outside s s'
    \<and> headRows s' = (if headRows s (ce_keyDigest e) = None then (headRows s)(ce_keyDigest e \<mapsto> rowOf e) else headRows s)
    \<and> ledgerRows s' = (if ledgerRows s (tripleOf e) = None then (ledgerRows s)(tripleOf e \<mapsto> rowOf e) else ledgerRows s)
    \<and> (if headRows s (ce_keyDigest e) = None \<or> ledgerRows s (tripleOf e) = None
       then \<exists>x. events s' = events s @ [x] \<and> entryOf cfg (recorded e) x else events s' = events s)
    \<and> out = (case headRows s (ce_keyDigest e) of None \<Rightarrow> Inserted
         | Some row \<Rightarrow> if result_json row = columnOf (ce_result e) then ExistingSame else Conflict)
    \<and> evs_ok (events s')"
proof -
  from assms(3) obtain r m where v: "validEntry e" and rm: "encodeCanonical (ce_result e) = Inr r" "encodeCanonical (ce_meta e) = Inr m"
    and t: "transact cfg (putEntryBody cfg e r m) s = (Inr out, s')"
    by (auto simp: putEntry_def split: if_splits sum.splits)
  have st: "storable e" and row: "cacheRow e r m = rowOf e" "r = columnOf (ce_result e)"
    using v rm assms(2) by (simp_all add: storable_def columnOf_def rowOf_def)
  from transact_Inr [OF t] obtain s1 where b: "putEntryBody cfg e r m (s\<lparr>settlements := []\<rparr>) = (Inr out, s1)"
    and fr: "frame s1 s'" "events s' = events s1" by blast
  have i: "inv (leases (s\<lparr>settlements := []\<rparr>))" "evs_ok (events (s\<lparr>settlements := []\<rparr>))" using assms(1) by (simp_all add: cache_ok_def)
  note p = putBody_Inr [OF i b, unfolded row(1)]
  have "outside s s'" using p fr(1) by (simp add: outside_def frame_def)
  moreover have "evs_ok (events s')" using transact_calm [OF calm_put _ _ t] assms(1) by (simp add: cache_ok_def)
  moreover have "headRows s' = (if headRows s (ce_keyDigest e) = None then (headRows s)(ce_keyDigest e \<mapsto> rowOf e) else headRows s)"
    using p cache_tables(1) [OF fr(1)] by simp
  moreover have "ledgerRows s' = (if ledgerRows s (tripleOf e) = None then (ledgerRows s)(tripleOf e \<mapsto> rowOf e) else ledgerRows s)"
    using p cache_tables(2) [OF fr(1)] by simp
  moreover have "if headRows s (ce_keyDigest e) = None \<or> ledgerRows s (tripleOf e) = None
       then \<exists>x. events s' = events s @ [x] \<and> entryOf cfg (recorded e) x else events s' = events s"
    using p fr(2) by (cases "headRows s (ce_keyDigest e) = None \<or> ledgerRows s (tripleOf e) = None") simp_all
  moreover have "out = (case headRows s (ce_keyDigest e) of None \<Rightarrow> Inserted
         | Some row \<Rightarrow> if result_json row = columnOf (ce_result e) then ExistingSame else Conflict)"
    using p row(2) by (simp split: option.split)
  ultimately show ?thesis using st by blast
qed

lemma put_Inl:
  assumes "cache_ok s" "putEntry cfg e s = (Inl c, s')"
  shows "headRows s' = headRows s \<and> ledgerRows s' = ledgerRows s \<and> events s' = events s \<and> inv (leases s')"
proof (cases "s' = s")
  case True
  with assms(1) show ?thesis by (simp add: cache_ok_def)
next
  case False
  with assms(2) obtain r m c' where t: "transact cfg (putEntryBody cfg e r m) s = (Inl c', s')"
    by (auto simp: putEntry_def mapErr_def split: if_splits sum.splits prod.splits)
  from transact_Inl [OF t] have "events s' = events s" "journal_db.more s' = journal_db.more s" by metis+
  moreover from this have "headRows s' = headRows s" "ledgerRows s' = ledgerRows s" by (cases s; cases s'; simp)+
  ultimately show ?thesis using transact_calm [OF calm_put _ _ t] assms(1) by (simp add: cache_ok_def)
qed

lemma putEntry_ok:
  assumes "cache_ok s" "jsValues e" "putEntry cfg e s = (x, s')"
  shows "cache_ok s'"
proof (cases x)
  case (Inl c)
  with put_Inl [OF assms(1)] assms(1,3) show ?thesis by (intro cache_ok_same [OF assms(1)]) (auto simp: cache_ok_def)
next
  case (Inr out)
  with assms(3) have "putEntry cfg e s = (Inr out, s')" by simp
  note p = put_Inr [OF assms(1,2) this]
  have leases: "inv (leases s')" using p assms(1) by (simp add: outside_def cache_ok_def)
  show ?thesis
  proof (cases "headRows s (ce_keyDigest e) = None \<or> ledgerRows s (tripleOf e) = None")
    case False
    have "evs_ok (events s)" using assms(1) by (simp add: cache_ok_def)
    with False p leases show ?thesis by (intro cache_ok_same [OF assms(1)]) simp_all
  next
    case True
    with p obtain y where y: "events s' = events s @ [y]" "entryOf cfg (recorded e) y" by auto
    have st: "storable e" using p by simp
    then have v: "validEntry e" by (simp add: storable_def)
    show ?thesis
    proof (rule cache_ok_append [OF assms(1) leases _ y(1) opOf_recorded(2,1) [OF v y(2)]])
      show "evs_ok (events s')" using p by simp
      show "storableOp (ORecorded e)" using st by (simp add: storableOp_def)
      show "headRows s' k = (if headKey (ORecorded e) = Some k then map_option rowOf (headMove (headAt (logOps s) k) (ORecorded e)) else headRows s k)" for k
        using p assms(1) by (cases "headAt (logOps s) (ce_keyDigest e)") (auto simp: cache_ok_def)
      show "ledgerRows s' t = (if ledgerKey (ORecorded e) = Some t then map_option rowOf (ledgerMove (ledgerAt (logOps s) t) (ORecorded e)) else ledgerRows s t)" for t
        using p assms(1) by (cases "ledgerAt (logOps s) (tripleOf e)") (auto simp: cache_ok_def ledgerMove_def)
    qed
  qed
qed

end

context journal_service
begin

lemma evict_Inr:
  assumes "cache_ok s" "evict cfg k fenced s = (Inr b, s')"
  obtains
    (missed) "\<not> b" "headRows s' = headRows s" "ledgerRows s' = ledgerRows s" "events s' = events s" "outside s s'"
      "\<And>row. headRows s k = Some row \<Longrightarrow> \<exists>r n. fenced = Some (r, n) \<and> (recorded_run_id row, recorded_event_seq row) \<noteq> (r, n)"
  | (deleted) e x where "b" "headAt (logOps s) k = Some e" "ce_keyDigest e = k" "storable e" "headRows s k = Some (rowOf e)"
      "\<And>r n. fenced = Some (r, n) \<Longrightarrow> (ce_recordedRunId e, ce_recordedEventSeq e) = (r, n)"
      "outside s s'" "headRows s' = (headRows s)(k := None)" "ledgerRows s' = ledgerRows s"
      "events s' = events s @ [x]" "entryOf cfg (evicted (tripleOf e)) x" "evs_ok (events s')"
proof -
  let ?s0 = "s\<lparr>settlements := []\<rparr>"
  from assms(2) have t: "transact cfg (evictBody cfg k fenced) s = (Inr b, s')"
    by (auto simp: evict_def split: if_splits)
  from transact_Inr [OF t] obtain s1 where bd: "evictBody cfg k fenced ?s0 = (Inr b, s1)"
    and fr: "frame s1 s'" "events s' = events s1" by blast
  have i: "inv (leases ?s0)" "evs_ok (events ?s0)" using assms(1) by (simp_all add: cache_ok_def)
  have ok: "evs_ok (events s')" using transact_calm [OF calm_evict _ _ t] assms(1) by (simp add: cache_ok_def)
  from i bd show thesis
  proof (cases rule: evictBody_Inr)
    case missed
    show thesis
    proof (rule that(1))
      show "outside s s'" using missed(2) fr(1) by (simp add: outside_def frame_def)
      show "\<exists>r n. fenced = Some (r, n) \<and> (recorded_run_id row, recorded_event_seq row) \<noteq> (r, n)" if "headRows s k = Some row" for row
        using missed(3) that by simp
    qed (use missed fr cache_tables [OF fr(1)] in simp_all)
  next
    case (deleted row x)
    have "headRows s k = Some row" using deleted(2) by simp
    from cache_ok_head [OF assms(1) this] obtain e where e: "row = rowOf e" "headAt (logOps s) k = Some e" "ce_keyDigest e = k" "storable e" .
    have row: "recorded_run_id row = ce_recordedRunId e" "recorded_event_seq row = ce_recordedEventSeq e"
      using e(1) by (simp_all add: rowOf_def cacheRow_def)
    show thesis
    proof (rule that(2) [OF deleted(1) e(2-4)])
      show "(ce_recordedRunId e, ce_recordedEventSeq e) = (r, n)" if "fenced = Some (r, n)" for r n
        using deleted(3) [OF that] row by simp
      show "outside s s'" using deleted(4) fr(1) by (simp add: outside_def frame_def)
      show "entryOf cfg (evicted (tripleOf e)) x" using deleted(8) row e(3) by (simp add: tripleOf_def)
    qed (use deleted fr cache_tables [OF fr(1)] ok e in simp_all)
  qed
qed

lemma evict_Inl:
  assumes "cache_ok s" "evict cfg k fenced s = (Inl c, s')"
  shows "headRows s' = headRows s \<and> ledgerRows s' = ledgerRows s \<and> events s' = events s \<and> inv (leases s')"
proof (cases "s' = s")
  case True
  with assms(1) show ?thesis by (simp add: cache_ok_def)
next
  case False
  with assms(2) obtain c' where t: "transact cfg (evictBody cfg k fenced) s = (Inl c', s')"
    by (auto simp: evict_def mapErr_def split: if_splits sum.splits prod.splits)
  from transact_Inl [OF t] have "events s' = events s" "journal_db.more s' = journal_db.more s" by metis+
  moreover from this have "headRows s' = headRows s" "ledgerRows s' = ledgerRows s" by (cases s; cases s'; simp)+
  ultimately show ?thesis using transact_calm [OF calm_evict _ _ t] assms(1) by (simp add: cache_ok_def)
qed

lemma evict_ok:
  assumes "cache_ok s" "evict cfg k fenced s = (x, s')"
  shows "cache_ok s'"
proof (cases x)
  case (Inl c)
  with evict_Inl [OF assms(1)] assms show ?thesis by (intro cache_ok_same [OF assms(1)]) (auto simp: cache_ok_def)
next
  case (Inr b)
  with assms(2) have "evict cfg k fenced s = (Inr b, s')" by simp
  from assms(1) this show ?thesis
  proof (cases rule: evict_Inr)
    case missed
    with assms(1) show ?thesis by (intro cache_ok_same [OF assms(1)]) (simp_all add: cache_ok_def outside_def)
  next
    case (deleted e y)
    have v: "k \<noteq> []" "ce_recordedRunId e \<noteq> []" "nonNegativeSafeInt (ce_recordedEventSeq e)"
      using deleted(3,4) by (auto simp: storable_def validEntry_def)
    have t: "tripleOf e = (k, ce_recordedRunId e, ce_recordedEventSeq e)" using deleted(3) by (simp add: tripleOf_def)
    have "inv (leases s')" using deleted(7) assms(1) by (simp add: cache_ok_def outside_def)
    then show ?thesis
    proof (rule cache_ok_append [OF assms(1) _ deleted(12,10) opOf_evicted(2,1) [OF v deleted(11) [unfolded t]]])
      let ?op = "OEvicted (k, ce_recordedRunId e, ce_recordedEventSeq e)"
      show "headRows s' k' = (if headKey ?op = Some k' then map_option rowOf (headMove (headAt (logOps s) k') ?op) else headRows s k')" for k'
        using deleted(2,8) by (cases "k' = k") simp_all
    qed (use deleted(9) in \<open>simp_all add: storableOp_def\<close>)
  qed
qed

end

end
