(* ===== verification/StepCache_History.thy ===== *)
theory StepCache_History
  imports StepCache_Mirror
begin

text \<open>
  Histories of the step cache: puts and evictions by any number of processes, one transaction at a
  time, between appends of other components and checkpoints. Through every history the tables stay
  the fold of the log, the ledger only grows, and a rebuild writes the tables back.
\<close>

section \<open>Reading a column back\<close>

fun normalJson :: "json \<Rightarrow> json" where
  "normalJson (JArr vs) = JArr (map normalJson vs)"
| "normalJson (JObj fs) = JObj (sort_key (\<lambda>(k, v). ascii k) (map (\<lambda>(k, v). (k, normalJson v)) fs))"
| "normalJson v = v"

lemma ofJson_present [simp]: "absent (ofJson v) = False" "hasText (ofJson v) = True"
  by (cases v; simp)+

lemma charsOf_ascii [simp]: "charsOf (ascii s) = Some s"
proof -
  have "map (\<lambda>w. char_of (unat w)) (ascii s) = s" by (induction s) simp_all
  moreover have "list_all (\<lambda>w. unat w < 256) (ascii s)" by (induction s) simp_all
  ultimately show ?thesis by (simp add: charsOf_def)
qed

lemma ascii_inject [simp]: "ascii s = ascii t \<longleftrightarrow> s = t"
  by (metis charsOf_ascii option.inject)

lemma allSome_map: "(\<And>x. x \<in> set xs \<Longrightarrow> f x = Some (g x)) \<Longrightarrow> allSome (map f xs) = Some (map g xs)"
  by (induction xs) auto

lemma toJson_ofJson [simp]: "toJson (ofJson v) = Some v"
proof (induction v)
  case (JArr vs)
  then show ?case by (simp add: allSome_map [of _ _ id, simplified] o_def)
next
  case (JObj fs)
  have "allSome (map ((\<lambda>(k, v). case (charsOf k, toJson v) of (Some k', Some v') \<Rightarrow> Some (k', v') | _ \<Rightarrow> None)
      \<circ> (\<lambda>(k, v). (ascii k, ofJson v))) fs) = Some (map id fs)"
  proof (rule allSome_map)
    fix x assume x: "x \<in> set fs"
    obtain k v where kv: "x = (k, v)" by (cases x)
    have "toJson (ofJson v) = Some v" using JObj [of x v] x kv by (simp add: prod_set_defs)
    with kv show "((\<lambda>(k, v). case (charsOf k, toJson v) of (Some k', Some v') \<Rightarrow> Some (k', v') | _ \<Rightarrow> None)
      \<circ> (\<lambda>(k, v). (ascii k, ofJson v))) x = Some (id x)" by simp
  qed
  then show ?case by simp
qed simp_all

lemma normal_ofJson: "normal (ofJson v) = ofJson (normalJson v)"
proof (induction v)
  case (JObj fs)
  have 1: "filter (\<lambda>(k, v). \<not> absent v) (map (\<lambda>(k, v). (ascii k, ofJson v)) fs) = map (\<lambda>(k, v). (ascii k, ofJson v)) fs"
    by (auto simp: filter_id_conv)
  have 2: "map (\<lambda>(k, v). (k, normal v)) (map (\<lambda>(k, v). (ascii k, ofJson v)) fs)
      = map (\<lambda>(k, v). (ascii k, ofJson v)) (map (\<lambda>(k, v). (k, normalJson v)) fs)"
    using JObj by (auto simp: prod_set_defs)
  have 3: "(\<lambda>x. fst (case x of (k, v) \<Rightarrow> (ascii k, ofJson v))) = (\<lambda>(k, v). ascii k)" by (auto simp: fun_eq_iff)
  show ?case unfolding normal.simps ofJson.simps normalJson.simps 1 2 by (simp only: sort_key_map 3)
qed simp_all

lemma decodeColumn_columnOf:
  assumes "regular (ofJson v)" "encodeCanonical v = Inr (columnOf v)"
  shows "decodeColumn (columnOf v) = Inr (normalJson v)"
proof -
  have "canonicalDocument (ofJson v) = Inr (columnOf v)" using assms(2) by (auto simp: encodeCanonical_def split: sum.splits)
  from document_reads_back [OF assms(1) _ this] show ?thesis by (simp add: decodeColumn_def normal_ofJson)
qed

lemma columnOf_eq_iff:
  assumes "storable e" "storable e'"
  shows "columnOf (ce_result e) = columnOf (ce_result e') \<longleftrightarrow> normalJson (ce_result e) = normalJson (ce_result e')"
proof -
  have "canonicalDocument (ofJson (ce_result x)) = Inr (columnOf (ce_result x))" if "storable x" for x
    using that by (auto simp: storable_def encodeCanonical_def split: sum.splits)
  with documents_equal_iff [of "ofJson (ce_result e)" "ofJson (ce_result e')"] assms
  have "columnOf (ce_result e) = columnOf (ce_result e') \<longleftrightarrow> normal (ofJson (ce_result e)) = normal (ofJson (ce_result e'))"
    by (simp add: storable_def jsValues_def)
  then show ?thesis by (metis normal_ofJson toJson_ofJson option.inject)
qed

text \<open>What a lookup returns for a stored entry: the same values with their members in key order.\<close>

definition stored :: "CacheEntry \<Rightarrow> CacheEntry" where
  "stored e = e\<lparr>ce_result := normalJson (ce_result e), ce_meta := normalJson (ce_meta e)\<rparr>"

lemma decodeRow_rowOf: "storable e \<Longrightarrow> decodeRow (ce_keyDigest e) (rowOf e) = Inr (stored e)"
  using decodeColumn_columnOf
  by (cases e) (simp add: decodeRow_def rowOf_def cacheRow_def storable_def jsValues_def validEntry_def stored_def)

section \<open>Steps\<close>

text \<open>Another process, or a restarted one: the tables are the same, process memory is anything.\<close>

definition sameCacheTables :: "'l cache_db \<Rightarrow> 'l cache_db \<Rightarrow> bool" where
  "sameCacheTables s s' \<longleftrightarrow> leases s' = leases s \<and> events s' = events s \<and> checkpoints s' = checkpoints s
     \<and> headRows s' = headRows s \<and> ledgerRows s' = ledgerRows s"

inductive cache_step :: "'l Config \<Rightarrow> 'l cache_db \<Rightarrow> 'l cache_db \<Rightarrow> bool" for cfg where
  c_put: "jsValues e \<Longrightarrow> putEntry cfg e s = (xp, s') \<Longrightarrow> cache_step cfg s s'"
| c_evict: "evict cfg k fenced s = (xe, s') \<Longrightarrow> cache_step cfg s s'"
| c_emit: "in_eventType input \<notin> set cacheEventTypes \<Longrightarrow> emitDurableAlone cfg input owner s = (xj, s') \<Longrightarrow> cache_step cfg s s'"
| c_checkpoint: "checkpoint cfg r n js owner s = (xc, s') \<Longrightarrow> cache_step cfg s s'"
| c_switch: "sameCacheTables s s' \<Longrightarrow> cache_step cfg s s'"

abbreviation cache_history :: "'l Config \<Rightarrow> 'l cache_db \<Rightarrow> 'l cache_db \<Rightarrow> bool" where
  "cache_history cfg \<equiv> (cache_step cfg)\<^sup>*\<^sup>*"

context journal_service
begin

lemma emitAlone_cache:
  fixes s :: "'l cache_db"
  assumes "cache_ok s" "in_eventType input \<notin> set cacheEventTypes" "emitDurableAlone cfg input owner s = (x, s')"
  shows "cache_ok s' \<and> headRows s' = headRows s \<and> ledgerRows s' = ledgerRows s"
proof -
  let ?s0 = "s\<lparr>settlements := []\<rparr>"
  have i: "inv (leases ?s0)" "evs_ok (events ?s0)" using assms(1) by (simp_all add: cache_ok_def)
  obtain y s1 where e: "emitDurable cfg input owner ?s0 = (y, s1)" by fastforce
  have ev: "evs_ok (events s1)" by (rule emit_evs_ok [OF i e])
  show ?thesis
  proof (cases y)
    case (Inr rc)
    with e have em: "emitDurable cfg input owner ?s0 = (Inr rc, s1)" by simp
    from emit_Inr [OF i(1) em] obtain x where fr: "frame ?s0 s1" and x: "entryOf cfg input x"
      "events s1 = events s \<or> events s1 = events s @ [x]" by cases auto
    then have "cacheEvents (events s1) = cacheEvents (events s)" using assms(2) by (auto simp: cacheEvents_snoc entryOf_def)
    moreover have s': "s' = settleAll cfg s1" using assms(3) e Inr by (simp add: emitDurableAlone_def)
    moreover note settleAll_tables [of s1 cfg] cache_tables [OF fr]
    moreover have "inv (leases s1)" using fr i(1) by (simp add: frame_def)
    moreover have "headRows s' = headRows s1" "ledgerRows s' = ledgerRows s1"
      using cache_tables [of s1 s'] settleAll_tables [of s1 cfg] s' by simp_all
    ultimately show ?thesis using ev assms(1) cache_ok_same [OF assms(1), of s'] by (simp add: frame_def)
  next
    case (Inl c)
    with e have em: "emitDurable cfg input owner ?s0 = (Inl c, s1)" by simp
    have s': "s' = rollback cfg s s1" using assms(3) e Inl by (simp add: emitDurableAlone_def)
    have "inv (leases s1)" using emit_Inl [OF i(1) em] i(1) by (simp add: frame_def)
    then have "inv (leases s')" using s' assms(1) by (simp add: cache_ok_def rollback_inv)
    with s' assms(1) cache_ok_same [OF assms(1), of s'] show ?thesis by (simp add: cache_ok_def)
  qed
qed

lemma guarded_write:
  fixes s :: "('l, 'z) journal_db_scheme"
  assumes "\<And>s x s'. body s = (x, s') \<Longrightarrow> leases s' = leases s \<and> events s' = events s \<and> journal_db.more s' = journal_db.more s"
    and "inv (leases s)" "writeJ cfg m (bindT (guardOpt cfg r owner) (\<lambda>_. body)) s = (x, s')"
  shows "inv (leases s') \<and> events s' = events s \<and> journal_db.more s' = journal_db.more s"
proof -
  obtain g s1 where g: "guardOpt cfg r owner s = (g, s1)" by fastforce
  have [simp]: "s1 = s" by (rule guardOpt_state [OF assms(2) g])
  obtain y s2 where y: "bindT (guardOpt cfg r owner) (\<lambda>_. body) s = (y, s2)" by fastforce
  have same: "leases s2 = leases s \<and> events s2 = events s \<and> journal_db.more s2 = journal_db.more s"
    using y g assms(1) [of s] by (cases g) (auto simp: bindT_def)
  show ?thesis
  proof (cases x)
    case (Inl c)
    with assms(3) have "writeJ cfg m (bindT (guardOpt cfg r owner) (\<lambda>_. body)) s = (Inl c, s')" by simp
    from writeJ_Inl [OF this] obtain c' s3 where "bindT (guardOpt cfg r owner) (\<lambda>_. body) s = (Inl c', s3)"
      "events s' = events s" "leases s' = c_rollback (consensus cfg) (leases s) (leases s3)"
      "journal_db.more s' = journal_db.more s" by metis
    with y same assms(2) show ?thesis by (simp add: rollback_inv)
  next
    case (Inr a)
    with assms(3) y same assms(2) show ?thesis by (simp add: writeJ_Inr)
  qed
qed

lemma checkpoint_cache:
  fixes s :: "'l cache_db"
  assumes "cache_ok s" "checkpoint cfg r n js owner s = (x, s')"
  shows "cache_ok s' \<and> headRows s' = headRows s \<and> ledgerRows s' = ledgerRows s \<and> events s' = events s"
proof (cases "r = [] \<or> \<not> isSafeInteger n \<or> n < 0")
  case True
  with assms show ?thesis by (auto simp: checkpoint_def split: if_splits)
next
  case False
  let ?s1 = "s\<lparr>tick := Suc (tick s)\<rparr>"
  have i: "inv (leases ?s1)" using assms(1) by (simp add: cache_ok_def)
  let ?body = "\<lambda>sa. if \<not> list_ex (\<lambda>e. runId e = r \<and> seq e = n) (events sa)
      then failJ Checkpoint_invalid (''checkpoint sequence '' @ show_int n @ '' names no committed entry of run '' @ r) sa
      else case compactionFloor r (checkpoints sa) of
          Some floor \<Rightarrow> if n \<le> floor
            then failT (CJournal \<lparr>je_code = Checkpoint_invalid,
                     je_message = ''run '' @ r @ '' is already compacted through sequence '' @ show_int floor,
                     je_checkpointSeq = Some floor\<rparr>) sa
            else putCheckpoint r n js (clock s (tick s)) sa
        | None \<Rightarrow> putCheckpoint r n js (clock s (tick s)) sa"
  have w: "writeJ cfg ''durable checkpoint write failed'' (bindT (guardOpt cfg r owner) (\<lambda>_. ?body)) ?s1 = (x, s')"
    using assms(2) False by (simp add: checkpoint_def)
  have "inv (leases s') \<and> events s' = events ?s1 \<and> journal_db.more s' = journal_db.more ?s1"
    by (rule guarded_write [OF _ i w]) (auto simp: putCheckpoint_def Let_def split: if_splits option.splits)
  moreover from this have "headRows s' = headRows s" "ledgerRows s' = ledgerRows s" by (cases s; cases s'; simp)+
  ultimately show ?thesis using assms(1) cache_ok_same [OF assms(1), of s'] by (simp add: cache_ok_def)
qed

lemma step_cache_ok:
  assumes "cache_ok s" "cache_step cfg s s'"
  shows "cache_ok s'"
  using assms(2)
proof (cases rule: cache_step.cases)
  case c_put
  with putEntry_ok [OF assms(1)] show ?thesis by blast
next
  case c_evict
  with evict_ok [OF assms(1)] show ?thesis by blast
next
  case c_emit
  with emitAlone_cache [OF assms(1)] show ?thesis by blast
next
  case c_checkpoint
  with checkpoint_cache [OF assms(1)] show ?thesis by blast
next
  case c_switch
  with assms(1) show ?thesis by (intro cache_ok_same [OF assms(1)]) (simp_all add: sameCacheTables_def cache_ok_def)
qed

lemma history_cache_ok: "cache_history cfg s s' \<Longrightarrow> cache_ok s \<Longrightarrow> cache_ok s'"
  by (induction rule: rtranclp_induct) (auto intro: step_cache_ok)

lemma step_ledger:
  assumes "cache_ok s" "cache_step cfg s s'" "ledgerRows s t = Some row"
  shows "ledgerRows s' t = Some row"
  using assms(2)
proof (cases rule: cache_step.cases)
  case (c_put e x)
  then show ?thesis using put_Inl [OF assms(1)] put_Inr [OF assms(1)] assms(3) by (cases x) fastforce+
next
  case (c_evict k fenced x)
  show ?thesis
  proof (cases x)
    case (Inl c)
    with c_evict evict_Inl [OF assms(1)] assms(3) show ?thesis by metis
  next
    case (Inr b)
    with c_evict have "evict cfg k fenced s = (Inr b, s')" by simp
    with assms(1) show ?thesis using assms(3) by (cases rule: evict_Inr) simp_all
  qed
next
  case c_emit
  with emitAlone_cache [OF assms(1)] assms(3) show ?thesis by metis
next
  case c_checkpoint
  with checkpoint_cache [OF assms(1)] assms(3) show ?thesis by metis
next
  case c_switch
  with assms(3) show ?thesis by (simp add: sameCacheTables_def)
qed

lemma history_ledger:
  "cache_history cfg s s' \<Longrightarrow> cache_ok s \<Longrightarrow> ledgerRows s t = Some row \<Longrightarrow> ledgerRows s' t = Some row"
proof (induction rule: rtranclp_induct)
  case (step s1 s2)
  then show ?case using history_cache_ok [of s s1] step_ledger [of s1 s2] by blast
qed simp

end
end
