(* ===== verification/StepCache_Live.thy ===== *)
theory StepCache_Live
  imports StepCache_History Journal_Room
begin

text \<open>
  What the step cache does when nothing stands in the way: with room in the journal a storable entry
  is always put and a live head always evicted, and each such call leaves room for the next.
\<close>

lemma room_cache [simp]:
  "room k (s\<lparr>headRows := x\<rparr>) = room k s" "room k (s\<lparr>ledgerRows := y\<rparr>) = room k s"
  by (simp_all add: room_def nextSeq_def nextSourceSeq_def)

context journal_service
begin

lemma emit_cache:
  fixes s :: "'l cache_db"
  assumes "inv (leases s)" "evs_ok (events s)" "room (Suc k) s" "in_sourceSeq input = None"
    and "in_runId input \<noteq> []" "in_sourceId input \<noteq> []" "in_eventType input \<noteq> []" "settlements s = []"
  shows "\<exists>rc s'. emitDurable cfg input None s = (Inr rc, s') \<and> room k (settleAll cfg s')"
proof -
  from emit_succeeds [OF assms(1-7), of None] obtain rc s' e where
    "emitDurable cfg input None s = (Inr rc, s')" "room k s'" "events s' = events s @ [e]" "settlements s' = settlements s @ [(e, seq e)]"
    by auto
  with settle_one_room [of k s' e cfg] assms(8) show ?thesis by auto
qed

lemma put_succeeds:
  assumes "cache_ok s" "storable e" "room (Suc k) s"
  shows "\<exists>out s'. putEntry cfg e s = (Inr out, s') \<and> room k s'"
proof -
  let ?s0 = "s\<lparr>settlements := []\<rparr>" and ?row = "rowOf e" and ?k = "ce_keyDigest e" and ?t = "tripleOf e"
  let ?lb = "ledgerRows s ?t = None" and ?hb = "headRows s ?k = None"
  define s1 where "s1 = (if ?lb then ?s0\<lparr>ledgerRows := (ledgerRows s)(?t \<mapsto> ?row)\<rparr> else ?s0)"
  define s2 where "s2 = (if ?hb then s1\<lparr>headRows := (headRows s1)(?k \<mapsto> ?row)\<rparr> else s1)"
  define out where "out = (case headRows s ?k of None \<Rightarrow> Inserted | Some row \<Rightarrow> if result_json row = columnOf (ce_result e) then ExistingSame else Conflict)"
  have chk: "cache_check ?k ?row" by (rule storable_check [OF assms(2)])
  have l: "insertLedger ?t ?row ?s0 = (Inr ?lb, s1)" using chk by (auto simp: insertLedger_def s1_def tripleOf_def)
  have same: "headRows s1 = headRows s" "headRows s2 ?k = (if ?hb then Some ?row else headRows s ?k)"
    "leases s2 = leases s" "events s2 = events s" "settlements s2 = []" "room (Suc k) s2"
    using assms(3) by (simp_all add: s1_def s2_def)
  have h: "insertHead ?k ?row s1 = (Inr ?hb, s2)" using chk same(1) by (auto simp: insertHead_def s2_def)
  have body: "putEntryBody cfg e (columnOf (ce_result e)) (columnOf (ce_meta e)) ?s0
      = (if ?hb \<or> ?lb then bindT (emitDurable cfg (recorded e) None) (\<lambda>_. retT out) s2 else (Inr out, s2))"
    unfolding putEntryBody_def rowOf_def [symmetric] using l h same(2)
    by (cases "headRows s ?k") (auto simp: bindT_def getT_def retT_def out_def)
  have i: "inv (leases s2)" "evs_ok (events s2)" using assms(1) same(3,4) by (simp_all add: cache_ok_def)
  have input: "in_sourceSeq (recorded e) = None" "in_runId (recorded e) \<noteq> []" "in_sourceId (recorded e) \<noteq> []" "in_eventType (recorded e) \<noteq> []"
    using assms(2) by (simp_all add: recorded_def cacheInput_def storable_def validEntry_def sourceIdOf_def recordedEventType_def)
  from emit_cache [OF i same(6) input same(5)] obtain rc s3 where em: "emitDurable cfg (recorded e) None s2 = (Inr rc, s3)"
    "room k (settleAll cfg s3)" by blast
  have "room k s2" using same(6) by (auto simp: room_def; smt (verit) of_nat_Suc)
  then have "room k (settleAll cfg s2)" using same(5) by (rule settle_none_room)
  with body em have "\<exists>s'. transact cfg (putEntryBody cfg e (columnOf (ce_result e)) (columnOf (ce_meta e))) s = (Inr out, s') \<and> room k s'"
    by (auto simp: transact_def bindT_def retT_def)
  then show ?thesis using assms(2) by (auto simp: putEntry_def storable_def mapErr_def)
qed

lemma evict_succeeds:
  assumes "cache_ok s" "headRows s k = Some row" "room (Suc n) s"
  shows "\<exists>s'. evict cfg k None s = (Inr True, s') \<and> room n s'"
proof -
  from cache_ok_head [OF assms(1,2)] obtain e where e: "row = rowOf e" "ce_keyDigest e = k" "storable e" by metis
  let ?s1 = "s\<lparr>settlements := [], headRows := (headRows s)(k := None)\<rparr>"
  let ?in = "evicted (k, recorded_run_id row, recorded_event_seq row)"
  have valid: "k \<noteq> []" "recorded_run_id row \<noteq> []"
    using e by (auto simp: storable_def validEntry_def rowOf_def cacheRow_def)
  have i: "inv (leases ?s1)" "evs_ok (events ?s1)" "room (Suc n) ?s1" "settlements ?s1 = []" using assms(1,3) by (simp_all add: cache_ok_def)
  have input: "in_sourceSeq ?in = None" "in_runId ?in \<noteq> []" "in_sourceId ?in \<noteq> []" "in_eventType ?in \<noteq> []"
    using valid by (simp_all add: evicted_def cacheInput_def sourceIdOf_def evictedEventType_def)
  from emit_cache [OF i(1-3) input i(4)] obtain rc s3 where em: "emitDurable cfg ?in None ?s1 = (Inr rc, s3)"
    "room n (settleAll cfg s3)" by blast
  have "evictBody cfg k None (s\<lparr>settlements := []\<rparr>) = (Inr True, s3)"
    using assms(2) em(1) by (simp add: evictBody_def bindT_def getT_def retT_def)
  with em(2) valid(1) show ?thesis by (auto simp: evict_def transact_def mapErr_def)
qed

end

end
