(* ===== verification/StepCache_Properties.thy ===== *)
theory StepCache_Properties
  imports StepCache_Live
begin

text \<open>
  The properties of canonical JSON and of the step cache, over the database-backed strategy, each with
  a witness where it has hypotheses.
\<close>

definition freshCache :: "lease_table cache_db \<Rightarrow> bool" where
  "freshCache s \<longleftrightarrow> sql_inv (leases s) \<and> events s = [] \<and> headRows s = Map.empty \<and> ledgerRows s = Map.empty"

lemma freshCache_ok: "freshCache s \<Longrightarrow> sqlj.cache_ok s"
  by (simp add: freshCache_def sqlj.cache_ok_def evs_ok_def ordered_def foldable_def cacheEvents_def logOps_def opsOf_def map_filter_simps)

section \<open>A first database\<close>

definition cacheStart :: "(nat \<Rightarrow> ms) \<Rightarrow> lease_table cache_db" where
  "cacheStart ticks = \<lparr>leases = Map.empty, events = [], checkpoints = [], status = Open, sequences = Map.empty,
     sourceSequences = Map.empty, sourceEvents = [], readers = (\<lambda>_. []), settlements = [], clock = ticks, tick = 0,
     headRows = Map.empty, ledgerRows = Map.empty\<rparr>"

definition cacheEntry :: "string \<Rightarrow> json \<Rightarrow> CacheEntry" where
  "cacheEntry r v = \<lparr>ce_keyDigest = ''k'', ce_result = v, ce_meta = JNull, ce_createdAtMs = 1,
     ce_recordedRunId = r, ce_recordedEventSeq = 7\<rparr>"

lemma cacheStart_fresh: "freshCache (cacheStart ticks)"
  by (simp add: freshCache_def cacheStart_def sql_inv_def)

lemma cacheStart_room:
  assumes "\<forall>n. 0 \<le> ticks n \<and> isSafeInteger (ticks n)" "k \<le> 9"
  shows "room k (cacheStart ticks)"
  using assms by (simp add: room_def cacheStart_def nextSeq_def nextSourceSeq_def nextDurableSeq_def nextDurableSourceSeq_def
      maxPlus1_def orZero_def MAX_SAFE_INTEGER_def)

lemma storable_scalar:
  assumes "r \<noteq> []" "v \<in> {JNull, JInt n, JBool b}"
  shows "storable (cacheEntry r v)"
proof -
  have enc: "encodeCanonical x = Inr (columnOf x)" if x: "x \<in> {JNull, JInt n, JBool b}" for x
  proof -
    have "regular (ofJson x)" "hasText (ofJson x)" using x by auto
    moreover obtain t where "serialize (ofJson x) = Inr (Some t)" using x by auto
    ultimately have "canonicalDocument (ofJson x) = Inr t" using document_iff by blast
    then show ?thesis by (simp add: encodeCanonical_def columnOf_def)
  qed
  have "jsValues (cacheEntry r v)" using assms(2) by (auto simp: jsValues_def cacheEntry_def)
  with assms enc [of v] enc [of JNull] show ?thesis
    by (simp add: storable_def validEntry_def cacheEntry_def nonNegativeSafeInt_def)
qed

definition ticking :: "nat \<Rightarrow> ms" where
  "ticking n = int (min n 1000)"

lemma ticking_room: "k \<le> 9 \<Longrightarrow> room k (cacheStart ticking)"
  by (rule cacheStart_room) (auto simp: ticking_def isSafeInteger_def MAX_SAFE_INTEGER_def)

lemma first_put:
  assumes "r \<noteq> []" "v \<in> {JNull, JInt n, JBool b}" "room (Suc k) (cacheStart t)"
  obtains s x where "putEntry (sqlConfig rs m) (cacheEntry r v) (cacheStart t) = (Inr Inserted, s)" "room k s"
    "headRows s ''k'' = Some (rowOf (cacheEntry r v))" "events s = [x]" "runId x = r" "eventType x = recordedEventType"
    "opOf x = Some (ORecorded (cacheEntry r v))" "cache_history (sqlConfig rs m) (cacheStart t) s" "outside (cacheStart t) s"
    "ledgerRows s = [tripleOf (cacheEntry r v) \<mapsto> rowOf (cacheEntry r v)]"
proof -
  let ?e = "cacheEntry r v" and ?s = "cacheStart t"
  have ok: "sqlj.cache_ok ?s" by (rule freshCache_ok [OF cacheStart_fresh])
  have st: "storable ?e" by (rule storable_scalar [OF assms(1,2)])
  then have js: "jsValues ?e" "validEntry ?e" by (simp_all add: storable_def)
  from sqlj.put_succeeds [OF ok st assms(3)] obtain out s where putEntry: "putEntry (sqlConfig rs m) ?e ?s = (Inr out, s)" "room k s" by blast
  have none: "headRows ?s ''k'' = None" "events ?s = []" "ledgerRows ?s = Map.empty" by (simp_all add: cacheStart_def)
  have key: "ce_keyDigest ?e = ''k''" by (simp add: cacheEntry_def)
  note p = sqlj.put_Inr [OF ok js(1) putEntry(1), unfolded key]
  from p none obtain x where x: "events s = [x]" "entryOf (sqlConfig rs m) (recorded ?e) x" by auto
  have "runId x = r" "eventType x = recordedEventType"
    using x(2) by (simp_all add: entryOf_def recorded_def cacheInput_def cacheEntry_def)
  moreover have "cache_history (sqlConfig rs m) ?s s" using js(1) putEntry(1) by (intro r_into_rtranclp) (rule c_put)
  moreover have "putEntry (sqlConfig rs m) ?e ?s = (Inr Inserted, s)" "headRows s ''k'' = Some (rowOf ?e)"
    "ledgerRows s = [tripleOf ?e \<mapsto> rowOf ?e]" "outside ?s s" using putEntry(1) p none by simp_all
  ultimately show thesis using that [of s x] putEntry(2) x(1) opOf_recorded(1) [OF js(2) x(2)] by blast
qed

section \<open>Canonical documents\<close>

text \<open>
  C34. A canonical document reads back as the value it was made from, with \<open>toJSON\<close> applied, skipped
  members gone, skipped items null and members in key order; and two values have the same document
  exactly when they agree up to that. So comparing documents compares values.
\<close>

theorem canonical_text_decides_equality:
  assumes "regular v" "hasText v" "regular w" "hasText w" "canonicalDocument v = Inr t" "canonicalDocument w = Inr u"
  shows "parseJson t = Some (normal v) \<and> (t = u \<longleftrightarrow> normal v = normal w)"
  using document_reads_back [OF assms(1,2,5)] documents_equal_iff [OF assms] by simp

theorem canonical_text_decides_equality_witness:
  "\<exists>t u. canonicalDocument (JsObj [(ascii ''b'', JsInt 1), (ascii ''a'', JsUndefined)]) = Inr t
    \<and> canonicalDocument (JsObj [(ascii ''b'', JsToJson (JsInt 1))]) = Inr u \<and> t = u
    \<and> parseJson t = Some (JsObj [(ascii ''b'', JsInt 1)])"
proof -
  define a b where ab: "a = ascii ''a''" "b = ascii ''b''"
  let ?v = "JsObj [(b, JsInt 1), (a, JsUndefined)]" and ?w = "JsObj [(b, JsToJson (JsInt 1))]"
  have "a \<noteq> b" unfolding ab by (simp only: ascii_inject) simp
  then have r: "regular ?v" "hasText ?v" "regular ?w" "hasText ?w" by auto
  have wf: "wellFormed b" unfolding ab by (rule wellFormed_ascii)
  have "printed [(b, JsInt 1), (a, JsUndefined)] = [(b, JsInt 1)]" "printed [(b, JsToJson (JsInt 1))] = [(b, JsToJson (JsInt 1))]"
    by (simp_all add: printed_def)
  then have "\<exists>t. serialize ?v = Inr (Some t)" "\<exists>u. serialize ?w = Inr (Some u)"
    using wf unfolding serialize.simps members_printed by (simp_all add: memberResult_def)
  then obtain t u where "canonicalDocument ?v = Inr t" "canonicalDocument ?w = Inr u" using document_iff r by blast
  moreover from canonical_text_decides_equality [OF r this] have "parseJson t = Some (JsObj [(b, JsInt 1)])" "t = u" by auto
  ultimately show ?thesis unfolding ab by blast
qed

section \<open>The step cache\<close>

lemma history_ok:
  assumes "freshCache s0" "cache_history (sqlConfig rs n) s0 s"
  shows "sqlj.cache_ok s"
  using sqlj.history_cache_ok [OF assms(2)] freshCache_ok [OF assms(1)] by blast





text \<open>
  C32. With room in the journal a storable entry is always put, and the answer compares values. On a
  vacant key it becomes the head and the answer is \<open>Inserted\<close>; over a head the head stays, and the
  answer is \<open>ExistingSame\<close> exactly when the head's result is the entry's up to the order of members.
\<close>

theorem put_compares_values:
  assumes "freshCache s0" "cache_history (sqlConfig rs n) s0 s" "storable e" "room (Suc m) s"
  shows "\<exists>out s'. putEntry (sqlConfig rs n) e s = (Inr out, s')
    \<and> (case fst (getEntry (ce_keyDigest e) None s) of
         Inr (Some e0) \<Rightarrow> out = (if ce_result e0 = normalJson (ce_result e) then ExistingSame else Conflict)
           \<and> getEntry (ce_keyDigest e) None s' = (Inr (Some e0), s')
       | Inr None \<Rightarrow> out = Inserted \<and> getEntry (ce_keyDigest e) None s' = (Inr (Some (stored e)), s')
       | Inl _ \<Rightarrow> False)"
proof -
  have ok: "sqlj.cache_ok s" by (rule history_ok [OF assms(1,2)])
  from sqlj.put_succeeds [OF ok assms(3,4)] obtain out s' where putEntry: "putEntry (sqlConfig rs n) e s = (Inr out, s')" by blast
  have js: "jsValues e" and k: "ce_keyDigest e \<noteq> []" using assms(3) by (auto simp: storable_def validEntry_def)
  note p = sqlj.put_Inr [OF ok js putEntry]
  show ?thesis
  proof (cases "headRows s (ce_keyDigest e)")
    case None
    then have "headRows s' (ce_keyDigest e) = Some (rowOf e)" "out = Inserted" using p by simp_all
    with None putEntry k decodeRow_rowOf [OF assms(3)] show ?thesis by (simp add: getEntry_def)
  next
    case (Some row)
    from sqlj.cache_ok_head [OF ok Some] obtain e0 where e0: "row = rowOf e0" "ce_keyDigest e0 = ce_keyDigest e" "storable e0" by metis
    have "headRows s' (ce_keyDigest e) = Some row" using p Some by simp
    moreover have "result_json row = columnOf (ce_result e) \<longleftrightarrow> ce_result (stored e0) = normalJson (ce_result e)"
      using columnOf_eq_iff [OF e0(3) assms(3)] e0(1) by (simp add: rowOf_def cacheRow_def stored_def)
    then have "out = (if ce_result (stored e0) = normalJson (ce_result e) then ExistingSame else Conflict)" using p Some by simp
    ultimately show ?thesis using putEntry k Some e0 decodeRow_rowOf [OF e0(3)] by (simp add: getEntry_def)
  qed
qed

theorem put_compares_values_witness:
  "\<exists>out s. putEntry (sqlConfig [] 4) (cacheEntry ''r'' JNull) (cacheStart ticking) = (Inr out, s) \<and> out = Inserted
    \<and> getEntry ''k'' None s = (Inr (Some (cacheEntry ''r'' JNull)), s)"
proof -
  have st: "storable (cacheEntry ''r'' JNull)" by (rule storable_scalar) simp_all
  have "room (Suc 8) (cacheStart ticking)" by (rule ticking_room) simp
  from put_compares_values [OF cacheStart_fresh rtranclp.rtrancl_refl st this, of "[]" 4]
  show ?thesis by (simp add: getEntry_def stored_def cacheEntry_def cacheStart_def)
qed

section \<open>Compaction under the fold\<close>

text \<open>A checkpoint and a compaction that nothing stands in the way of.\<close>

lemma checkpoint_plain:
  fixes s :: "'l cache_db"
  assumes "r \<noteq> []" "x \<in> set (events s)" "runId x = r" "event_check x" "checkpoints s = []" "\<forall>n. safe (clock s n)"
    and safe: "safe = (\<lambda>t. 0 \<le> t \<and> t \<le> 9007199254740991)"
  shows "\<exists>c s'. checkpoint cfg r (seq x) js None s = (Inr c, s') \<and> checkpoints s' = [c] \<and> cp_runId c = r \<and> cp_seq c = seq x
    \<and> cp_compactedAtMs c = None \<and> events s' = events s \<and> readers s' = readers s \<and> clock s' = clock s
    \<and> headRows s' = headRows s \<and> ledgerRows s' = ledgerRows s"
proof -
  let ?c = "\<lparr>cp_runId = r, cp_seq = seq x, cp_state = js, cp_createdAtMs = clock s (tick s), cp_compactedAtMs = None\<rparr>"
  have n: "isSafeInteger (seq x)" "\<not> seq x < 0" using assms(4) by (auto simp: event_check_def intro: isSafeInteger_small)
  have "list_ex (\<lambda>e. runId e = r \<and> seq e = seq x) (events s)" using assms(2,3) by (auto simp: list_ex_iff)
  then have "checkpoint cfg r (seq x) js None s = (Inr ?c, s\<lparr>tick := Suc (tick s), checkpoints := [?c]\<rparr>)"
    using assms(1,5,6) n safe
    by (simp add: checkpoint_def writeJ_def guardOpt_def compactionFloor_def maxOpt_def putCheckpoint_def Let_def)
  then show ?thesis by simp
qed

lemma compact_plain:
  fixes s :: "'l cache_db"
  assumes "r \<noteq> []" "checkpoints s = [c]" "cp_runId c = r" "cp_compactedAtMs c = None" "readers s r = []"
    and "\<forall>e \<in> set (events s). \<not> isFoldHistory (eventType e)" "\<forall>n. 0 \<le> clock s n \<and> clock s n \<le> 9007199254740991"
  shows "\<exists>res s'. compact cfg r None None s = (Inr res, s') \<and> events s' = filter (\<lambda>e. \<not> (runId e = r \<and> seq e < cp_seq c)) (events s)
    \<and> headRows s' = headRows s \<and> ledgerRows s' = ledgerRows s"
proof -
  have "checkpointRow r None (checkpoints s) = Some c" using assms(2,3) by (simp add: checkpointRow_def newest_def hd_opt_def)
  moreover have "\<not> foldBehind r (cp_seq c) (events s)" using assms(6) by (auto simp: foldBehind_def list_ex_iff)
  ultimately show ?thesis using assms(1,4,5,7)
    by (simp add: compact_def writeJ_def guardOpt_def compactTo_def readerBehind_def truncateBelow_def Let_def)
qed

lemma cache_not_history: "t \<in> set cacheEventTypes \<Longrightarrow> \<not> isFoldHistory t"
  by (auto simp: cacheEventTypes_def recordedEventType_def evictedEventType_def snapshotEventType_def isFoldHistory_def
      likePrefix_def toLowerCase_def lower_def)

text \<open>Two commits of either order in which one run's eviction meets another run's record.\<close>

lemma evicted_then_recorded:
  assumes "opOf xb = Some (ORecorded eb)" "opOf xc = Some (OEvicted (k, r, n))" "ce_keyDigest eb = k" "ce_recordedRunId eb \<noteq> r"
  shows "headAt (opsOf (sort_key f [xb, xc])) k = Some eb"
  using assms by (auto simp: opsOf_def map_filter_simps headAt_def)

text \<open>A second run's record under a key whose head holds the same result, and the eviction of that head.\<close>

lemma twin_put:
  fixes s :: "lease_table cache_db"
  assumes "sqlj.cache_ok s" "room 8 s" "headRows s ''k'' = Some (rowOf (cacheEntry ''a'' JNull))"
    and "ledgerRows s (tripleOf (cacheEntry ''b'' JNull)) = None"
  obtains s' x where "putEntry (sqlConfig rs m) (cacheEntry ''b'' JNull) s = (Inr ExistingSame, s')" "room 7 s'" "sqlj.cache_ok s'"
    "headRows s' ''k'' = Some (rowOf (cacheEntry ''a'' JNull))" "events s' = events s @ [x]" "runId x = ''b''"
    "eventType x = recordedEventType" "opOf x = Some (ORecorded (cacheEntry ''b'' JNull))" "outside s s'"
proof -
  let ?c = "sqlConfig rs m" and ?b = "cacheEntry ''b'' JNull"
  have st: "storable ?b" by (rule storable_scalar) simp_all
  then have js: "jsValues ?b" "validEntry ?b" by (simp_all add: storable_def)
  have "room (Suc 7) s" using assms(2) by simp
  from sqlj.put_succeeds [OF assms(1) st this] obtain out s' where putEntry: "putEntry ?c ?b s = (Inr out, s')" "room 7 s'" by blast
  have key: "ce_keyDigest ?b = ''k''" by (simp add: cacheEntry_def)
  have same: "result_json (rowOf (cacheEntry ''a'' JNull)) = columnOf (ce_result ?b)" by (simp add: rowOf_def cacheRow_def cacheEntry_def)
  note p = sqlj.put_Inr [OF assms(1) js(1) putEntry(1), unfolded key]
  have out: "out = ExistingSame" and head: "headRows s' ''k'' = Some (rowOf (cacheEntry ''a'' JNull))" and fr: "outside s s'"
    using p assms(3) same by simp_all
  from p assms(4) obtain x where x: "events s' = events s @ [x]" "entryOf ?c (recorded ?b) x" by auto
  have "runId x = ''b''" "eventType x = recordedEventType"
    using x(2) by (simp_all add: entryOf_def recorded_def cacheInput_def cacheEntry_def)
  with that putEntry x(1) opOf_recorded(1) [OF js(2) x(2)] sqlj.putEntry_ok [OF assms(1) js(1) putEntry(1)] out head fr show thesis by blast
qed

lemma head_evict:
  fixes s :: "lease_table cache_db"
  assumes "sqlj.cache_ok s" "room 7 s" "headRows s ''k'' = Some (rowOf (cacheEntry ''a'' JNull))"
  obtains s' x where "evict (sqlConfig rs m) ''k'' None s = (Inr True, s')" "sqlj.cache_ok s'" "headRows s' ''k'' = None"
    "events s' = events s @ [x]" "runId x = ''a''" "eventType x = evictedEventType" "opOf x = Some (OEvicted (''k'', ''a'', 7))" "outside s s'"
proof -
  let ?c = "sqlConfig rs m"
  have "room (Suc 6) s" using assms(2) by simp
  from sqlj.evict_succeeds [OF assms(1,3) this] obtain s' where ev: "evict ?c ''k'' None s = (Inr True, s')" by blast
  from assms(1) ev show thesis
  proof (cases rule: sqlj.evict_Inr)
    case (deleted e x)
    have "cacheRow e (columnOf (ce_result e)) (columnOf (ce_meta e)) = rowOf (cacheEntry ''a'' JNull)"
      using deleted(5) assms(3) by (simp add: rowOf_def)
    then have t: "tripleOf e = (''k'', ''a'', 7)" using deleted(3) by (simp add: tripleOf_def rowOf_def cacheRow_def cacheEntry_def)
    have "opOf x = Some (OEvicted (''k'', ''a'', 7))"
      by (rule opOf_evicted(1) [OF _ _ _ deleted(11) [unfolded t]]) (simp_all add: nonNegativeSafeInt_def)
    moreover have "runId x = ''a''" "eventType x = evictedEventType"
      using deleted(11) by (simp_all add: entryOf_def evicted_def cacheInput_def t)
    ultimately show thesis using that ev deleted(7,8,10) sqlj.evict_ok [OF assms(1) ev] by simp
  qed simp
qed

text \<open>
  Compaction can bring an evicted result back. Two runs record the same result under one key, the
  key is evicted, and the first run is checkpointed and compacted. The live cache misses the key; a
  rebuild replays the second run's record, finds no record for the eviction to match, and serves the
  evicted result again.
\<close>

theorem compaction_revives_eviction:
  "\<exists>s1 s2 s3 s4 s5 s6 n c res rb.
     putEntry (sqlConfig rs m) (cacheEntry ''a'' JNull) (cacheStart ticking) = (Inr Inserted, s1)
   \<and> putEntry (sqlConfig rs m) (cacheEntry ''b'' JNull) s1 = (Inr ExistingSame, s2)
   \<and> evict (sqlConfig rs m) ''k'' None s2 = (Inr True, s3)
   \<and> checkpoint (sqlConfig rs m) ''a'' n JNull None s3 = (Inr c, s4)
   \<and> compact (sqlConfig rs m) ''a'' None None s4 = (Inr res, s5)
   \<and> getEntry ''k'' None s5 = (Inr None, s5)
   \<and> rebuildCache s5 = (Inr rb, s6) \<and> getEntry ''k'' None s6 = (Inr (Some (cacheEntry ''b'' JNull)), s6)"
proof -
  let ?c = "sqlConfig rs m" and ?s = "cacheStart ticking" and ?a = "cacheEntry ''a'' JNull" and ?b = "cacheEntry ''b'' JNull"
  have pre: "''a'' \<noteq> []" "JNull \<in> {JNull, JInt 0, JBool True}" "room (Suc 8) ?s" by (simp_all add: ticking_room)
  obtain s1 xa where p1: "putEntry ?c ?a ?s = (Inr Inserted, s1)" "room 8 s1"
    "headRows s1 ''k'' = Some (rowOf ?a)" "events s1 = [xa]" "runId xa = ''a''" "eventType xa = recordedEventType"
    "opOf xa = Some (ORecorded ?a)" "cache_history ?c ?s s1" "outside ?s s1" "ledgerRows s1 = [tripleOf ?a \<mapsto> rowOf ?a]"
    by (rule first_put [OF pre, where rs = rs and m = m]) (rule that)
  have new: "ledgerRows s1 (tripleOf ?b) = None" using p1(10) by (simp add: tripleOf_def cacheEntry_def)
  have ok1: "sqlj.cache_ok s1" by (rule history_ok [OF cacheStart_fresh p1(8)])
  from twin_put [OF ok1 p1(2,3) new, where rs = rs and m = m] obtain s2 xb where p2: "putEntry ?c ?b s1 = (Inr ExistingSame, s2)" "room 7 s2" "sqlj.cache_ok s2"
    "headRows s2 ''k'' = Some (rowOf ?a)" "events s2 = [xa, xb]" "runId xb = ''b''" "eventType xb = recordedEventType"
    "opOf xb = Some (ORecorded ?b)" "outside s1 s2" unfolding p1(4) by auto
  from head_evict [OF p2(3,2,4), where rs = rs and m = m] obtain s3 xc where p3: "evict ?c ''k'' None s2 = (Inr True, s3)" "sqlj.cache_ok s3"
    "headRows s3 ''k'' = None" "events s3 = [xa, xb, xc]" "runId xc = ''a''" "eventType xc = evictedEventType"
    "opOf xc = Some (OEvicted (''k'', ''a'', 7))" "outside s2 s3" unfolding p2(5) by auto
  have evs: "evs_ok [xa, xb, xc]" using p3(2,4) by (simp add: sqlj.cache_ok_def)
  have quiet: "checkpoints s3 = []" "readers s3 = (\<lambda>_. [])" "clock s3 = ticking"
    using p1(9) p2(9) p3(8) by (simp_all add: outside_def cacheStart_def)
  have n: "event_check xc" "seq xa < seq xc" using evs p1(5) p3(5) by (simp_all add: evs_ok_def ordered_def)
  have safe: "\<forall>n. 0 \<le> clock s3 n \<and> clock s3 n \<le> 9007199254740991" by (simp add: quiet(3) ticking_def min_le_iff_disj)
  have "\<exists>c s4. checkpoint ?c ''a'' (seq xc) JNull None s3 = (Inr c, s4) \<and> checkpoints s4 = [c] \<and> cp_runId c = ''a''
      \<and> cp_seq c = seq xc \<and> cp_compactedAtMs c = None \<and> events s4 = events s3 \<and> readers s4 = readers s3 \<and> clock s4 = clock s3
      \<and> headRows s4 = headRows s3 \<and> ledgerRows s4 = ledgerRows s3"
    by (rule checkpoint_plain) (use p3 n quiet safe in simp_all)
  then obtain c s4 where p4: "checkpoint ?c ''a'' (seq xc) JNull None s3 = (Inr c, s4)" "checkpoints s4 = [c]" "cp_runId c = ''a''"
    "cp_seq c = seq xc" "cp_compactedAtMs c = None" "events s4 = [xa, xb, xc]" "readers s4 = (\<lambda>_. [])" "clock s4 = clock s3"
    "headRows s4 = headRows s3" using p3(4) quiet(2) by auto
  have "\<exists>res s5. compact ?c ''a'' None None s4 = (Inr res, s5)
      \<and> events s5 = filter (\<lambda>e. \<not> (runId e = ''a'' \<and> seq e < cp_seq c)) (events s4) \<and> headRows s5 = headRows s4 \<and> ledgerRows s5 = ledgerRows s4"
    by (rule compact_plain) (use p4 p1(6) p2(7) p3(6) safe cache_not_history in \<open>auto simp: cacheEventTypes_def\<close>)
  then obtain res s5 where p5: "compact ?c ''a'' None None s4 = (Inr res, s5)" "events s5 = [xb, xc]" "headRows s5 ''k'' = None"
    using p1(5) p2(6) p3(3,5) p4(4,6,9) n(2) by auto
  have cev: "cacheEvents (events s5) = [xb, xc]" using p5(2) p2(7) p3(6) by (simp add: cacheEvents_def cacheEventTypes_def)
  have "foldable (cacheEvents (events s3))" using p3(2) by (simp add: sqlj.cache_ok_def)
  then have "foldable (cacheEvents (events s5))"
    unfolding cev using p3(4) p1(6) p2(7) p3(6) by (simp add: foldable_def cacheEvents_def cacheEventTypes_def)
  from rebuild_replays [OF this] obtain rb where rb: "rebuildCache s5 = (Inr rb, s5\<lparr>headRows := (\<lambda>k. map_option rowOf (headAt (replayedOps s5) k)),
      ledgerRows := (\<lambda>t. map_option rowOf (ledgerAt (replayedOps s5) t))\<rparr>)" (is "_ = (_, ?s6)") by blast
  have "headAt (replayedOps s5) ''k'' = Some ?b"
    unfolding replayedOps_def cev by (rule evicted_then_recorded [OF p2(8) p3(7)]) (simp_all add: cacheEntry_def)
  moreover have "decodeRow ''k'' (rowOf ?b) = Inr ?b" using decodeRow_rowOf [of ?b] storable_scalar [of "''b''" JNull]
    by (simp add: stored_def cacheEntry_def)
  ultimately have "getEntry ''k'' None ?s6 = (Inr (Some ?b), ?s6)" by (simp add: getEntry_def)
  moreover have "getEntry ''k'' None s5 = (Inr None, s5)" using p5(3) by (simp add: getEntry_def)
  ultimately show ?thesis using p1(1) p2(1) p3(1) p4(1) p5(1) rb by blast
qed

end
