(* ===== verification/FileSet.thy ===== *)
theory FileSet
  imports Flows_Prelude
begin

text \<open>
  File declarations (\<^verbatim>\<open>packages/plan/src/FileSet.ts\<close>): the entries of a read or write set, the Bazel-style
  patterns they hold, and the static overlap that decides whether two declarations may name one path.
  The last section shows that an overlap denied is an overlap impossible.
\<close>

section \<open>Paths\<close>

definition canonicalPath :: "string \<Rightarrow> string" where
  "canonicalPath path = map (\<lambda>c. if c = CHR 0x5C then CHR ''/'' else c) path"

fun splitSlash :: "string \<Rightarrow> string list" where
  "splitSlash [] = [[]]"
| "splitSlash (c # cs) =
     (if c = CHR ''/'' then [] # splitSlash cs
      else (case splitSlash cs of s # ss \<Rightarrow> (c # s) # ss | [] \<Rightarrow> [[c]]))"

definition workspaceRelative :: "string \<Rightarrow> bool" where
  "workspaceRelative pattern =
     (if prefix ''/'' pattern then False
      else let segments = splitSlash (canonicalPath pattern) in
        if suffix '':'' (hd segments) then False
        else list_all (\<lambda>segment. segment \<noteq> ''..'' \<and> segment \<noteq> ''.'' \<and> segment \<noteq> []) segments)"

section \<open>Declarations\<close>

text \<open>
  A read set has no tree artifacts; the type of declarations is shared, so every statement below also
  covers read sets that had some.
\<close>

datatype FileEntry =
    PathEntry string
  | GlobEntry "string list" "string list option"
  | TreeEntry string

datatype Declaration = Leaf FileEntry | Filegroup string "FileEntry list"

definition makeFilegroup :: "string \<Rightarrow> FileEntry list \<Rightarrow> Declaration" where
  "makeFilegroup n entries = Filegroup n entries"

fun expandOne :: "Declaration \<Rightarrow> FileEntry list" where
  "expandOne (Filegroup _ entries) = entries"
| "expandOne (Leaf entry) = [entry]"

definition expandDeclarations :: "Declaration list \<Rightarrow> FileEntry list" where
  "expandDeclarations ds = concat (map expandOne ds)"

section \<open>Patterns\<close>

text \<open>
  The regular expression a pattern compiles to: literal units, \<^verbatim>\<open>[^/]*\<close>, \<^verbatim>\<open>.*\<close> and \<^verbatim>\<open>(?:[^/]+/)*\<close>,
  anchored at both ends. In JavaScript the dot refuses line terminators.
\<close>

datatype Piece = Unit char | SegmentStar | AnyStar | Directories

definition segmentPieces :: "string \<Rightarrow> Piece list" where
  "segmentPieces s = map (\<lambda>c. if c = CHR ''*'' then SegmentStar else Unit c) s"

fun piecesOf :: "string list \<Rightarrow> Piece list" where
  "piecesOf [] = []"
| "piecesOf [s] = (if s = ''**'' then [AnyStar] else segmentPieces s)"
| "piecesOf (s # t # ss) =
     (if s = ''**'' then [Directories] else segmentPieces s @ [Unit CHR ''/'']) @ piecesOf (t # ss)"

definition patternExpression :: "string \<Rightarrow> Piece list" where
  "patternExpression pattern = piecesOf (splitSlash (canonicalPath pattern))"

text \<open>What may be left of a text after some whole directories were read from it.\<close>

fun afterSlash :: "bool \<Rightarrow> string \<Rightarrow> string list" where
  "afterSlash _ [] = []"
| "afterSlash inSegment (c # cs) =
     (if c = CHR ''/'' then (if inSegment then cs # afterSlash False cs else []) else afterSlash True cs)"

definition tailsWhile :: "(char \<Rightarrow> bool) \<Rightarrow> string \<Rightarrow> string list" where
  "tailsWhile P s = map (\<lambda>n. drop n s) [0..<Suc (length (takeWhile P s))]"

definition lineTerminator :: "char \<Rightarrow> bool" where
  "lineTerminator c \<longleftrightarrow> c = CHR 0x0A \<or> c = CHR 0x0D"

fun accepts :: "Piece list \<Rightarrow> string \<Rightarrow> bool" where
  "accepts [] s = (s = [])"
| "accepts (Unit c # ps) s = (case s of [] \<Rightarrow> False | d # ds \<Rightarrow> c = d \<and> accepts ps ds)"
| "accepts (SegmentStar # ps) s = list_ex (accepts ps) (tailsWhile (\<lambda>c. c \<noteq> CHR ''/'') s)"
| "accepts (AnyStar # ps) s = list_ex (accepts ps) (tailsWhile (\<lambda>c. \<not> lineTerminator c) s)"
| "accepts (Directories # ps) s = list_ex (accepts ps) (s # afterSlash False s)"

definition matchesPattern :: "string \<Rightarrow> string \<Rightarrow> bool" where
  "matchesPattern pattern path = accepts (patternExpression pattern) path"

definition matchesFileGlob :: "string list \<Rightarrow> string list option \<Rightarrow> string \<Rightarrow> bool" where
  "matchesFileGlob include exclude path \<longleftrightarrow>
     list_ex (\<lambda>pattern. matchesPattern pattern path) include
     \<and> \<not> list_ex (\<lambda>pattern. matchesPattern pattern path) (case exclude of None \<Rightarrow> [] | Some ps \<Rightarrow> ps)"

section \<open>Overlap\<close>

definition beneath :: "string \<Rightarrow> string \<Rightarrow> bool" where
  "beneath tree path \<longleftrightarrow> (let root = canonicalPath tree; inside = canonicalPath path in
     inside = root \<or> prefix (root @ ''/'') inside)"

fun overlaps :: "FileEntry \<Rightarrow> FileEntry \<Rightarrow> bool" where
  "overlaps (PathEntry l) (PathEntry r) = (canonicalPath l = canonicalPath r)"
| "overlaps (PathEntry l) (GlobEntry i e) = matchesFileGlob i e (canonicalPath l)"
| "overlaps (GlobEntry i e) (PathEntry r) = matchesFileGlob i e (canonicalPath r)"
| "overlaps (GlobEntry _ _) (GlobEntry _ _) = True"
| "overlaps (TreeEntry t) (PathEntry r) = beneath t r"
| "overlaps (PathEntry l) (TreeEntry t) = beneath t l"
| "overlaps (TreeEntry l) (TreeEntry r) = (beneath l r \<or> beneath r l)"
| "overlaps (TreeEntry _) (GlobEntry _ _) = True"
| "overlaps (GlobEntry _ _) (TreeEntry _) = True"

lemma overlaps_sym: "overlaps l r = overlaps r l"
  by (cases l; cases r) auto

text \<open>Which paths a declaration names.\<close>

fun names :: "FileEntry \<Rightarrow> string \<Rightarrow> bool" where
  "names (PathEntry p) x \<longleftrightarrow> canonicalPath x = canonicalPath p"
| "names (GlobEntry i e) x \<longleftrightarrow> matchesFileGlob i e (canonicalPath x)"
| "names (TreeEntry t) x \<longleftrightarrow> beneath t x"

lemma canonicalPath_idem [simp]: "canonicalPath (canonicalPath p) = canonicalPath p"
  by (simp add: canonicalPath_def)

lemma beneath_canonical [simp]: "beneath t (canonicalPath p) = beneath t p"
  by (simp add: beneath_def)

lemma beneath_refl [simp]: "beneath t t"
  by (simp add: beneath_def)

lemma beneath_slash: "beneath t x \<longleftrightarrow> prefix (canonicalPath t @ ''/'') (canonicalPath x @ ''/'')"
  by (auto simp: beneath_def Let_def)

lemma beneath_common: "beneath l x \<Longrightarrow> beneath r x \<Longrightarrow> beneath l r \<or> beneath r l"
  unfolding beneath_slash by (rule prefix_same_cases)

lemma overlaps_sound: "names l x \<Longrightarrow> names r x \<Longrightarrow> overlaps l r"
  using beneath_common by (cases l; cases r) (auto simp: beneath_def)

lemma overlaps_exact:
  assumes "overlaps l r" "\<nexists>i e. l = GlobEntry i e" "\<nexists>i e. r = GlobEntry i e"
  shows "\<exists>x. names l x \<and> names r x"
  using assms by (cases l; cases r) (auto intro: beneath_refl)

end
