(* ===== verification/StepKey.thy ===== *)
theory StepKey
  imports Canonical FileSet "HOL-Library.Char_ord" "HOL-Library.Product_Lexorder"
begin

text \<open>
  Step keys (\<^verbatim>\<open>packages/plan/src/KeyMaterial.ts\<close>, \<^verbatim>\<open>StepKey.ts\<close>, \<^verbatim>\<open>packages/keys/src/Key.ts\<close>): the declared
  material of a node, the identity built from it, and the key, a digest of the identity's canonical
  document. The digest is the injected service \<open>Sha256\<close>, here the parameter \<open>sha\<close> from documents
  to text. Strings have code units below 256, where every text is its own NFC form.
\<close>

section \<open>Material\<close>

datatype InputRef = LiteralInput JsValue | RefInput string "string list" | PendingInput string

datatype MaterialKind = Sealed | Compensable | Irreversible

definition kindText :: "MaterialKind \<Rightarrow> string" where
  "kindText k = (case k of Sealed \<Rightarrow> ''sealed'' | Compensable \<Rightarrow> ''compensable'' | Irreversible \<Rightarrow> ''irreversible'')"

definition materialVersion :: string where
  "materialVersion = ''flows/key-material/v1''"

record KeyMaterial =
  km_version :: string
  km_kind :: MaterialKind
  km_nondeterministic :: bool
  km_body :: JsValue
  km_inputs :: "InputRef list"
  km_layers :: "string list"
  km_capabilities :: "string list"
  km_effects :: "JsValue option"
  km_placement :: "JsValue option"

definition addOnce :: "'a list \<Rightarrow> 'a \<Rightarrow> 'a list" where
  "addOnce seen x = (if x \<in> set seen then seen else seen @ [x])"

fun inputFrom :: "InputRef \<Rightarrow> string option" where
  "inputFrom (LiteralInput _) = None"
| "inputFrom (RefInput from _) = Some from"
| "inputFrom (PendingInput from) = Some from"

definition dependencies :: "KeyMaterial \<Rightarrow> string list" where
  "dependencies m = foldl (\<lambda>seen input. case inputFrom input of None \<Rightarrow> seen | Some from \<Rightarrow> addOnce seen from) [] (km_inputs m)"

section \<open>JavaScript values\<close>

definition jsText :: "string \<Rightarrow> JsValue" where
  "jsText s = JsStr (ascii s)"

definition jsTexts :: "string list \<Rightarrow> JsValue" where
  "jsTexts ss = JsArr (map jsText ss)"

definition jsRecord :: "(string \<times> JsValue) list \<Rightarrow> JsValue" where
  "jsRecord fs = JsObj (map (apfst ascii) fs)"

text \<open>A member that is present only when the value is.\<close>

definition opt :: "string \<Rightarrow> ('a \<Rightarrow> JsValue) \<Rightarrow> 'a option \<Rightarrow> (string \<times> JsValue) list" where
  "opt k f x = (case x of None \<Rightarrow> [] | Some a \<Rightarrow> [(k, f a)])"

section \<open>Failures\<close>

datatype PlanErrorCode = Cycle | Unknown_dependency | Duplicate_node | Overlap_forbidden | Invalid_effects
datatype KeyMaterialErrorCode = Missing_dependency | Non_content_material

datatype CompileError =
    PlanError PlanErrorCode string
  | KeyMaterialError KeyMaterialErrorCode string
  | NoCanonicalForm JsError
  | NoDigest string

section \<open>Identities\<close>

datatype Reference = RefReference | PendingReference | ProjectedReference

definition referenceText :: "Reference \<Rightarrow> string" where
  "referenceText r = (case r of RefReference \<Rightarrow> ''ref'' | PendingReference \<Rightarrow> ''pending'' | ProjectedReference \<Rightarrow> ''ref-projected'')"

text \<open>A value of \<open>ContentIdentity.inputs\<close>: a literal, or a branded digest with its reference and path.\<close>

datatype InputValue = Plain JsValue | DigestInput string "Reference option" "string list option"

record Environment =
  env_declared :: bool
  env_layers :: "string list"
  env_capabilities :: "(string \<times> string list) list"
  env_runScope :: "string option"

record Hermetic =
  he_readSet :: "(string \<times> string) list"
  he_writeSet :: "FileEntry list"
  he_removes :: "string list option"
  he_boundaryMode :: string

record ContentIdentity =
  ci_body :: JsValue
  ci_inputs :: "(string \<times> InputValue) list"
  ci_layers :: "string list"
  ci_capabilities :: "(string \<times> string list) list"
  ci_environment :: "Environment option"
  ci_hermetic :: "Hermetic option"

definition sortStrings :: "string list \<Rightarrow> string list" where
  "sortStrings values = sort (remdups values)"

fun normalizeInput :: "InputValue \<Rightarrow> JsValue" where
  "normalizeInput (Plain v) = jsRecord [(''kind'', jsText ''literal''), (''value'', v)]"
| "normalizeInput (DigestInput d reference path) = jsRecord ([(''kind'', jsText ''digest''), (''digest'', jsText d)]
     @ opt ''reference'' (\<lambda>r. jsText (referenceText r)) reference @ opt ''path'' jsTexts path)"

definition normalizeInputs :: "(string \<times> InputValue) list \<Rightarrow> JsValue" where
  "normalizeInputs inputs = jsRecord (map (apsnd normalizeInput) inputs)"

definition normalizeCapabilities :: "(string \<times> string list) list \<Rightarrow> JsValue" where
  "normalizeCapabilities caps = jsRecord (map (apsnd (\<lambda>patterns. jsTexts (sortStrings patterns))) caps)"

definition normalizeEnvironment :: "Environment \<Rightarrow> JsValue" where
  "normalizeEnvironment env = jsRecord ([(''declared'', JsBool (env_declared env)), (''layers'', jsTexts (env_layers env)),
     (''capabilities'', normalizeCapabilities (env_capabilities env))] @ opt ''runScope'' jsText (env_runScope env))"

fun normalizeWrite :: "FileEntry \<Rightarrow> FileEntry" where
  "normalizeWrite (PathEntry p) = PathEntry p"
| "normalizeWrite (TreeEntry p) = TreeEntry p"
| "normalizeWrite (GlobEntry i e) = GlobEntry (sortStrings i) (map_option sortStrings e)"

definition jsonTexts :: "string list \<Rightarrow> json" where
  "jsonTexts ss = JArr (map JStr ss)"

fun writeEntryKey :: "FileEntry \<Rightarrow> string" where
  "writeEntryKey (PathEntry p) = stringify (JArr [JStr ''Path'', JStr p])"
| "writeEntryKey (TreeEntry p) = stringify (JArr [JStr ''TreeArtifact'', JStr p])"
| "writeEntryKey (GlobEntry i e) = stringify (JArr [JStr ''Glob'', jsonTexts i, case e of None \<Rightarrow> JNull | Some ps \<Rightarrow> jsonTexts ps])"

fun entryValue :: "FileEntry \<Rightarrow> JsValue" where
  "entryValue (PathEntry p) = jsText p"
| "entryValue (TreeEntry p) = jsRecord [(''_tag'', jsText ''TreeArtifact''), (''path'', jsText p)]"
| "entryValue (GlobEntry i e) = jsRecord ([(''_tag'', jsText ''Glob''), (''include'', jsTexts i)] @ opt ''exclude'' jsTexts e)"

text \<open>Entries with one key are one entry: a map keeps the last under the position of the first.\<close>

definition normalizeHermetic :: "Hermetic \<Rightarrow> JsValue" where
  "normalizeHermetic h =
     (let readSet = remdups_adj (sort (he_readSet h));
          writeSet = sort_key writeEntryKey (foldl addOnce [] (map normalizeWrite (he_writeSet h))) in
      jsRecord ([(''readSet'', JsArr (map (\<lambda>(path, digest). jsRecord [(''path'', jsText path), (''digest'', jsText digest)]) readSet)),
                 (''writeSet'', JsArr (map entryValue writeSet))]
        @ opt ''removes'' (\<lambda>rs. jsTexts (sortStrings rs)) (he_removes h)
        @ [(''boundaryMode'', jsText (he_boundaryMode h))]))"

definition contentValue :: "ContentIdentity \<Rightarrow> JsValue" where
  "contentValue identity = jsRecord (
     [(''kind'', jsText ''content''), (''body'', ci_body identity), (''inputs'', normalizeInputs (ci_inputs identity)),
      (''layers'', jsTexts (sortStrings (ci_layers identity))), (''capabilities'', normalizeCapabilities (ci_capabilities identity))]
     @ opt ''environment'' normalizeEnvironment (ci_environment identity)
     @ opt ''hermetic'' normalizeHermetic (ci_hermetic identity))"

section \<open>Keys\<close>

definition hexText :: "string \<Rightarrow> bool" where
  "hexText d \<longleftrightarrow> length d = 64 \<and> list_all (\<lambda>c. c \<in> set ''0123456789abcdef'') d"

text \<open>\<open>decodeKey\<close>: the digest is validated on the way out of \<open>Sha256\<close>.\<close>

definition decodeKey :: "(units \<Rightarrow> string) \<Rightarrow> JsValue \<Rightarrow> CompileError + string" where
  "decodeKey sha v = (case canonicalDocument v of
     Inl e \<Rightarrow> Inl (NoCanonicalForm e)
   | Inr document \<Rightarrow> if hexText (sha document) then Inr (''key1_'' @ sha document) else Inl (NoDigest (sha document)))"

definition contentKey :: "(units \<Rightarrow> string) \<Rightarrow> ContentIdentity \<Rightarrow> CompileError + string" where
  "contentKey sha identity = decodeKey sha (contentValue identity)"

definition materialBody :: "KeyMaterial \<Rightarrow> JsValue" where
  "materialBody m = jsRecord ([(''version'', jsText (km_version m)), (''declaration'', km_body m)]
     @ (if km_nondeterministic m then [(''nondeterministic'', JsBool True)] else [])
     @ opt ''effects'' id (km_effects m) @ opt ''placement'' id (km_placement m))"

fun resolveInputs :: "(string \<rightharpoonup> string) \<Rightarrow> nat \<Rightarrow> InputRef list \<Rightarrow> CompileError + (string \<times> InputValue) list" where
  "resolveInputs digests n [] = Inr []"
| "resolveInputs digests n (LiteralInput v # inputs) = mapR ((#) (show_nat n, Plain v)) (resolveInputs digests (Suc n) inputs)"
| "resolveInputs digests n (PendingInput from # inputs) = (case digests from of
     None \<Rightarrow> Inl (KeyMaterialError Missing_dependency (''Missing digest for graph dependency '' @ from))
   | Some d \<Rightarrow> mapR ((#) (show_nat n, DigestInput d (Some PendingReference) None)) (resolveInputs digests (Suc n) inputs))"
| "resolveInputs digests n (RefInput from path # inputs) = (case digests from of
     None \<Rightarrow> Inl (KeyMaterialError Missing_dependency (''Missing digest for graph dependency '' @ from))
   | Some d \<Rightarrow> mapR ((#) (show_nat n, if path \<noteq> [] then DigestInput d (Some ProjectedReference) (Some path)
                                       else DigestInput d (Some RefReference) None)) (resolveInputs digests (Suc n) inputs))"

definition fromKeyMaterial :: "(units \<Rightarrow> string) \<Rightarrow> KeyMaterial \<Rightarrow> (string \<rightharpoonup> string) \<Rightarrow> CompileError + string" where
  "fromKeyMaterial sha m digests =
     (if km_kind m \<noteq> Sealed
      then Inl (KeyMaterialError Non_content_material (''Cannot create a content key for '' @ kindText (km_kind m) @ '' material''))
      else case resolveInputs digests 0 (km_inputs m) of Inl e \<Rightarrow> Inl e
      | Inr inputs \<Rightarrow> contentKey sha \<lparr>ci_body = materialBody m, ci_inputs = inputs, ci_layers = km_layers m,
          ci_capabilities = [(''declared'', km_capabilities m)], ci_environment = None, ci_hermetic = None\<rparr>)"

end
