(* ===== verification/PlanGraph.thy ===== *)
theory PlanGraph
  imports StepKey
begin

text \<open>
  The plan (\<^verbatim>\<open>packages/plan/src/Plan.ts\<close>): drafts are ordered by their material dependencies, keyed, and
  annotated; \<open>compilePlan\<close> makes a plan of them, \<open>appendPlan\<close> grows one. A map of the source is a map or,
  where the source reads an absent entry as empty, a function to lists.
\<close>

section \<open>Nodes and plans\<close>

datatype BoundaryMode = Hard | Expected

record NodeEffects =
  ne_reads :: "Declaration list"
  ne_writes :: "Declaration list"
  ne_removes :: "string list option"
  ne_boundaryMode :: BoundaryMode

datatype PairStrategy = Serialize | Lane | FailPair
datatype RuntimeStrategy = Delay_rebase | Stop_merge

record ConflictAnnotation =
  ca_with :: string
  ca_paths :: "string list"
  ca_strategy :: PairStrategy
  ca_runtime :: RuntimeStrategy

datatype NodeKind = StepNode | AgentNode | MergeNode

record PlanNode =
  pn_id :: string
  pn_kind :: NodeKind
  pn_key :: string
  pn_material :: KeyMaterial
  pn_effects :: NodeEffects
  pn_dependsOn :: "string list"
  pn_conflicts :: "ConflictAnnotation list"
  pn_strategy :: PairStrategy
  pn_runtime :: RuntimeStrategy
  pn_priority :: int
  pn_generation :: int

record Plan =
  pl_planId :: string
  pl_flow :: string
  pl_generation :: int
  pl_baseDigest :: string
  pl_digest :: string
  pl_nodes :: "PlanNode list"

record NodeDraft =
  nd_id :: string
  nd_material :: KeyMaterial
  nd_effects :: NodeEffects
  nd_kind :: "NodeKind option"
  nd_priority :: "int option"
  nd_conflictStrategy :: "PairStrategy option"
  nd_runtimeStrategy :: "RuntimeStrategy option"

section \<open>Pairs\<close>

definition pairStrategy :: "PairStrategy \<Rightarrow> PairStrategy \<Rightarrow> PairStrategy" where
  "pairStrategy left right =
     (if left = FailPair \<or> right = FailPair then FailPair else if left = Lane \<or> right = Lane then Lane else Serialize)"

definition pairRuntime :: "RuntimeStrategy \<Rightarrow> RuntimeStrategy \<Rightarrow> RuntimeStrategy" where
  "pairRuntime left right = (if left = Stop_merge \<or> right = Stop_merge then Stop_merge else Delay_rebase)"

definition produces :: "NodeEffects \<Rightarrow> FileEntry list" where
  "produces effects = expandDeclarations (ne_writes effects)
     @ (case ne_removes effects of None \<Rightarrow> [] | Some ps \<Rightarrow> map PathEntry ps)"

fun entryLabel :: "FileEntry \<Rightarrow> string" where
  "entryLabel (PathEntry p) = p"
| "entryLabel (TreeEntry p) = p"
| "entryLabel (GlobEntry i _) = sepBy '','' i"

definition overlapping :: "NodeEffects \<Rightarrow> NodeEffects \<Rightarrow> string list" where
  "overlapping left right =
     map entryLabel (filter (\<lambda>l. list_ex (overlaps l) (produces right)) (produces left))"

definition readsWhatItWrites :: "NodeEffects \<Rightarrow> NodeEffects \<Rightarrow> bool" where
  "readsWhatItWrites reader writer \<longleftrightarrow>
     list_ex (\<lambda>entry. list_ex (overlaps entry) (produces writer)) (expandDeclarations (ne_reads reader))"

section \<open>Topological order\<close>

datatype Mark = Visiting | Done

record Walk =
  marks :: "string \<rightharpoonup> Mark"
  orderedDrafts :: "NodeDraft list"

text \<open>
  \<open>visit\<close> and its loop over the dependencies of a draft. The first argument bounds the depth of the recursion;
  \<open>None\<close> is running out of it.
\<close>

fun visit :: "nat \<Rightarrow> NodeDraft list \<Rightarrow> string set \<Rightarrow> NodeDraft \<Rightarrow> Walk \<Rightarrow> (CompileError + Walk) option"
  and visitAll :: "nat \<Rightarrow> NodeDraft list \<Rightarrow> string set \<Rightarrow> NodeDraft \<Rightarrow> string list \<Rightarrow> Walk \<Rightarrow> (CompileError + Walk) option" where
  "visit 0 drafts known draft w = None"
| "visit (Suc n) drafts known draft w =
     (case marks w (nd_id draft) of
        Some Done \<Rightarrow> Some (Inr w)
      | Some Visiting \<Rightarrow> Some (Inl (PlanError Cycle (''Plan cycle through node '' @ nd_id draft)))
      | None \<Rightarrow> (case visitAll n drafts known draft (dependencies (nd_material draft))
                        (w\<lparr>marks := (marks w)(nd_id draft \<mapsto> Visiting)\<rparr>) of
          Some (Inr w') \<Rightarrow> Some (Inr (w'\<lparr>marks := (marks w')(nd_id draft \<mapsto> Done), orderedDrafts := orderedDrafts w' @ [draft]\<rparr>))
        | r \<Rightarrow> r))"
| "visitAll n drafts known draft [] w = Some (Inr w)"
| "visitAll n drafts known draft (dependency # rest) w =
     (if dependency \<in> known then visitAll n drafts known draft rest w
      else case map_of (map (\<lambda>d. (nd_id d, d)) (rev drafts)) dependency of
        None \<Rightarrow> Some (Inl (PlanError Unknown_dependency
          (''Node '' @ nd_id draft @ '' depends on unknown node '' @ dependency)))
      | Some next \<Rightarrow> (case visit n drafts known next w of
          Some (Inr w') \<Rightarrow> visitAll n drafts known draft rest w'
        | r \<Rightarrow> r))"

fun visitDrafts :: "nat \<Rightarrow> NodeDraft list \<Rightarrow> string set \<Rightarrow> NodeDraft list \<Rightarrow> Walk \<Rightarrow> (CompileError + Walk) option" where
  "visitDrafts n drafts known [] w = Some (Inr w)"
| "visitDrafts n drafts known (draft # rest) w =
     (case visit n drafts known draft w of Some (Inr w') \<Rightarrow> visitDrafts n drafts known rest w' | r \<Rightarrow> r)"

definition topological :: "NodeDraft list \<Rightarrow> string set \<Rightarrow> (CompileError + NodeDraft list) option" where
  "topological drafts known =
     (case visitDrafts (Suc (length drafts)) drafts known drafts \<lparr>marks = Map.empty, orderedDrafts = []\<rparr> of
        None \<Rightarrow> None
      | Some r \<Rightarrow> Some (mapR orderedDrafts r))"

section \<open>Annotation\<close>

fun foldE :: "('a \<Rightarrow> 's \<Rightarrow> 'e + 's) \<Rightarrow> 'a list \<Rightarrow> 's \<Rightarrow> 'e + 's" where
  "foldE f [] s = Inr s"
| "foldE f (x # xs) s = (case f x s of Inl e \<Rightarrow> Inl e | Inr s' \<Rightarrow> foldE f xs s')"

definition reachableIn :: "PlanNode list \<Rightarrow> string \<Rightarrow> string set" where
  "reachableIn nodes = foldl (\<lambda>closure node. closure(pn_id node := (\<Union>d \<in> set (pn_dependsOn node). insert d (closure d))))
     (\<lambda>_. {}) nodes"

record Pass =
  closure :: "string \<Rightarrow> string set"
  conflictsOf :: "string \<Rightarrow> ConflictAnnotation list"
  ordering :: "string \<Rightarrow> string list"

definition snocAt :: "string \<Rightarrow> 'a \<Rightarrow> (string \<Rightarrow> 'a list) \<Rightarrow> string \<Rightarrow> 'a list" where
  "snocAt k x f = f(k := f k @ [x])"

text \<open>The body of the inner loop of the first pass: one pair of writers.\<close>

definition annotatePair :: "string set \<Rightarrow> string \<Rightarrow> string \<Rightarrow> (string \<Rightarrow> ConflictAnnotation) \<Rightarrow> Pass \<Rightarrow> Pass" where
  "annotatePair frozen later earlier annotation s =
     (let s1 = (if earlier \<in> frozen then s else s\<lparr>conflictsOf := snocAt earlier (annotation later) (conflictsOf s)\<rparr>) in
      s1\<lparr>conflictsOf := snocAt later (annotation earlier) (conflictsOf s1)\<rparr>)"

definition orderPair :: "string \<Rightarrow> string \<Rightarrow> Pass \<Rightarrow> Pass" where
  "orderPair later earlier s =
     s\<lparr>ordering := snocAt later earlier (ordering s), closure := (closure s)(later := insert earlier (closure s later))\<rparr>"

definition conflictPair :: "string set \<Rightarrow> PlanNode \<Rightarrow> PlanNode \<Rightarrow> Pass \<Rightarrow> CompileError + Pass" where
  "conflictPair frozen later earlier s =
     (let paths = overlapping (pn_effects earlier) (pn_effects later) in
      if paths = [] then Inr s
      else if pn_id earlier \<in> closure s (pn_id later) then Inr s
      else let strategy = pairStrategy (pn_strategy earlier) (pn_strategy later);
               runtime = pairRuntime (pn_runtime earlier) (pn_runtime later) in
        if strategy = FailPair
        then Inl (PlanError Overlap_forbidden
          (''Nodes '' @ pn_id earlier @ '' and '' @ pn_id later @ '' both write '' @ sepBy '', '' paths))
        else let s' = annotatePair frozen (pn_id later) (pn_id earlier)
               (\<lambda>other. \<lparr>ca_with = other, ca_paths = paths, ca_strategy = strategy, ca_runtime = runtime\<rparr>) s in
          Inr (if strategy = Serialize then orderPair (pn_id later) (pn_id earlier) s' else s'))"

fun conflictPass :: "string set \<Rightarrow> PlanNode list \<Rightarrow> PlanNode list \<Rightarrow> Pass \<Rightarrow> CompileError + Pass" where
  "conflictPass frozen earlierNodes [] s = Inr s"
| "conflictPass frozen earlierNodes (later # nodes) s =
     (if pn_id later \<in> frozen then conflictPass frozen (earlierNodes @ [later]) nodes s
      else case foldE (conflictPair frozen later) earlierNodes s of
        Inl e \<Rightarrow> Inl e
      | Inr s' \<Rightarrow> conflictPass frozen (earlierNodes @ [later]) nodes s')"

text \<open>The second pass: edges as an association list, and the search through them.\<close>

type_synonym edges = "(string \<times> string list) list"

definition nexts :: "edges \<Rightarrow> string \<Rightarrow> string list" where
  "nexts es x = (case map_of es x of None \<Rightarrow> [] | Some ys \<Rightarrow> ys)"

definition addEdge :: "string \<Rightarrow> string \<Rightarrow> edges \<Rightarrow> edges" where
  "addEdge x y es = map (\<lambda>(k, ys). (k, if k = x then addOnce ys y else ys)) es"

lemma nexts_outside: "x \<notin> fst ` set es \<Longrightarrow> nexts es x = []"
  by (simp add: nexts_def map_of_eq_None_iff [symmetric])

function reachLoop :: "edges \<Rightarrow> string \<Rightarrow> string set \<Rightarrow> string list \<Rightarrow> bool" where
  "reachLoop es goal seen [] = False"
| "reachLoop es goal seen (current # stack) =
     (if current = goal then True
      else if current \<in> seen then reachLoop es goal seen stack
      else reachLoop es goal (insert current seen) (rev (nexts es current) @ stack))"
  by pat_completeness auto

termination
proof (relation "(\<lambda>(es, goal, seen, stack). card (fst ` set es - seen)) <*mlex*> measure (\<lambda>(es, goal, seen, stack). length stack)",
    goal_cases)
  case (3 es goal seen current stack)
  show ?case
  proof (cases "current \<in> fst ` set es")
    case True
    then have "fst ` set es - insert current seen \<subset> fst ` set es - seen" using 3(2) by auto
    then have "card (fst ` set es - insert current seen) < card (fst ` set es - seen)" by (intro psubset_card_mono) simp_all
    then show ?thesis by (simp add: mlex_less)
  next
    case False
    then have "fst ` set es - insert current seen = fst ` set es - seen" by auto
    with False show ?thesis by (simp add: mlex_leq nexts_outside)
  qed
qed (auto simp: wf_mlex intro: mlex_leq)

definition reaches :: "edges \<Rightarrow> string \<Rightarrow> string \<Rightarrow> bool" where
  "reaches es from to = reachLoop es to {} [from]"

definition readerPair :: "PlanNode \<Rightarrow> PlanNode \<Rightarrow> (string \<Rightarrow> string list) \<times> edges \<Rightarrow> (string \<Rightarrow> string list) \<times> edges" where
  "readerPair reader writer = (\<lambda>(ord, es).
     if pn_id writer = pn_id reader then (ord, es)
     else if \<not> readsWhatItWrites (pn_effects reader) (pn_effects writer) then (ord, es)
     else if reaches es (pn_id reader) (pn_id writer) then (ord, es)
     else if reaches es (pn_id writer) (pn_id reader) then (ord, es)
     else (snocAt (pn_id reader) (pn_id writer) ord, addEdge (pn_id reader) (pn_id writer) es))"

definition readerPass :: "string set \<Rightarrow> PlanNode list \<Rightarrow> (string \<Rightarrow> string list) \<times> edges \<Rightarrow> (string \<Rightarrow> string list) \<times> edges" where
  "readerPass frozen nodes s =
     fold (\<lambda>reader s. if pn_id reader \<in> frozen then s else fold (readerPair reader) nodes s) nodes s"

definition annotate :: "PlanNode list \<Rightarrow> string set \<Rightarrow> CompileError + PlanNode list" where
  "annotate nodes frozen =
     (case conflictPass frozen [] nodes \<lparr>closure = reachableIn nodes, conflictsOf = (\<lambda>_. []), ordering = (\<lambda>_. [])\<rparr> of
        Inl e \<Rightarrow> Inl e
      | Inr s \<Rightarrow>
          let es = map (\<lambda>node. (pn_id node, foldl addOnce [] (pn_dependsOn node @ ordering s (pn_id node)))) nodes;
              (added, _) = readerPass frozen nodes (ordering s, es) in
          Inr (map (\<lambda>node. if pn_id node \<in> frozen then node
             else node\<lparr>pn_conflicts := conflictsOf s (pn_id node), pn_dependsOn := pn_dependsOn node @ added (pn_id node)\<rparr>) nodes))"

section \<open>Digest and keys\<close>

definition strategyText :: "PairStrategy \<Rightarrow> string" where
  "strategyText s = (case s of Serialize \<Rightarrow> ''serialize'' | Lane \<Rightarrow> ''lane'' | FailPair \<Rightarrow> ''fail'')"

definition runtimeText :: "RuntimeStrategy \<Rightarrow> string" where
  "runtimeText s = (case s of Delay_rebase \<Rightarrow> ''delay-rebase'' | Stop_merge \<Rightarrow> ''stop-merge'')"

definition nodeKindText :: "NodeKind \<Rightarrow> string" where
  "nodeKindText k = (case k of StepNode \<Rightarrow> ''step'' | AgentNode \<Rightarrow> ''agent'' | MergeNode \<Rightarrow> ''merge'')"

definition boundaryText :: "BoundaryMode \<Rightarrow> string" where
  "boundaryText m = (case m of Hard \<Rightarrow> ''hard'' | Expected \<Rightarrow> ''expected'')"

fun declarationValue :: "Declaration \<Rightarrow> JsValue" where
  "declarationValue (Leaf entry) = entryValue entry"
| "declarationValue (Filegroup n entries) =
     jsRecord [(''_tag'', jsText ''Filegroup''), (''name'', jsText n), (''entries'', JsArr (map entryValue entries))]"

definition effectsValue :: "NodeEffects \<Rightarrow> JsValue" where
  "effectsValue e = jsRecord ([(''reads'', JsArr (map declarationValue (ne_reads e))),
     (''writes'', JsArr (map declarationValue (ne_writes e)))] @ opt ''removes'' jsTexts (ne_removes e)
     @ [(''boundaryMode'', jsText (boundaryText (ne_boundaryMode e)))])"

definition annotationValue :: "ConflictAnnotation \<Rightarrow> JsValue" where
  "annotationValue a = jsRecord [(''with'', jsText (ca_with a)), (''paths'', jsTexts (ca_paths a)),
     (''strategy'', jsText (strategyText (ca_strategy a))), (''runtime'', jsText (runtimeText (ca_runtime a)))]"

definition nodeValue :: "PlanNode \<Rightarrow> JsValue" where
  "nodeValue node = jsRecord [(''id'', jsText (pn_id node)), (''kind'', jsText (nodeKindText (pn_kind node))),
     (''key'', jsText (pn_key node)), (''dependsOn'', jsTexts (pn_dependsOn node)),
     (''conflicts'', JsArr (map annotationValue (pn_conflicts node))), (''effects'', effectsValue (pn_effects node)),
     (''priority'', JsInt (pn_priority node))]"

definition digestOf :: "(units \<Rightarrow> string) \<Rightarrow> string \<Rightarrow> string \<Rightarrow> PlanNode list \<Rightarrow> CompileError + string" where
  "digestOf sha planId flow nodes = contentKey sha
     \<lparr>ci_body = jsRecord [(''kind'', jsText ''plan''), (''planId'', jsText planId), (''flow'', jsText flow)],
      ci_inputs = [(''nodes'', Plain (JsArr (map nodeValue nodes)))], ci_layers = [], ci_capabilities = [],
      ci_environment = None, ci_hermetic = None\<rparr>"

fun patternsOf :: "FileEntry \<Rightarrow> string list" where
  "patternsOf (PathEntry p) = [p]"
| "patternsOf (TreeEntry p) = [p]"
| "patternsOf (GlobEntry i e) = i @ (case e of None \<Rightarrow> [] | Some ps \<Rightarrow> ps)"

definition validateEffects :: "string \<Rightarrow> NodeEffects \<Rightarrow> CompileError option" where
  "validateEffects i effects =
     (let removes = (case ne_removes effects of None \<Rightarrow> [] | Some ps \<Rightarrow> ps);
          writes = expandDeclarations (ne_writes effects);
          declared = expandDeclarations (ne_reads effects) @ writes @ map PathEntry removes in
      case List.find (\<lambda>pattern. \<not> workspaceRelative pattern) (concat (map patternsOf declared)) of
        Some pattern \<Rightarrow> Some (PlanError Invalid_effects (''Node '' @ i @ '' declares '' @ pattern @ '', which is not workspace-relative''))
      | None \<Rightarrow> (case List.find (\<lambda>removal. list_ex (\<lambda>entry. overlaps entry (PathEntry removal)) writes) removes of
          Some removal \<Rightarrow> Some (PlanError Invalid_effects (''Node '' @ i @ '' declares '' @ removal @ '' as both a write and a removal''))
        | None \<Rightarrow> None))"

definition orElse :: "'a option \<Rightarrow> 'a \<Rightarrow> 'a" where
  "orElse x d = (case x of None \<Rightarrow> d | Some a \<Rightarrow> a)"

definition keyedNode :: "NodeDraft \<Rightarrow> string \<Rightarrow> int \<Rightarrow> PlanNode" where
  "keyedNode draft key generation = \<lparr>pn_id = nd_id draft, pn_kind = orElse (nd_kind draft) StepNode, pn_key = key,
     pn_material = nd_material draft, pn_effects = nd_effects draft, pn_dependsOn = dependencies (nd_material draft),
     pn_conflicts = [], pn_strategy = orElse (nd_conflictStrategy draft) Serialize,
     pn_runtime = orElse (nd_runtimeStrategy draft) Delay_rebase, pn_priority = orElse (nd_priority draft) 0,
     pn_generation = generation\<rparr>"

fun duplicateId :: "string set \<Rightarrow> NodeDraft list \<Rightarrow> string option" where
  "duplicateId known [] = None"
| "duplicateId known (draft # drafts) =
     (if nd_id draft \<in> known then Some (nd_id draft) else duplicateId (insert (nd_id draft) known) drafts)"

definition keyDraft :: "(units \<Rightarrow> string) \<Rightarrow> int \<Rightarrow> NodeDraft
    \<Rightarrow> (string \<rightharpoonup> string) \<times> PlanNode list \<Rightarrow> CompileError + (string \<rightharpoonup> string) \<times> PlanNode list" where
  "keyDraft sha generation draft = (\<lambda>(digests, keyed).
     case validateEffects (nd_id draft) (nd_effects draft) of Some e \<Rightarrow> Inl e
     | None \<Rightarrow> mapR (\<lambda>key. (digests(nd_id draft \<mapsto> key), keyed @ [keyedNode draft key generation]))
                 (fromKeyMaterial sha (nd_material draft) digests))"

definition keyNodes :: "(units \<Rightarrow> string) \<Rightarrow> NodeDraft list \<Rightarrow> PlanNode list \<Rightarrow> int \<Rightarrow> (CompileError + PlanNode list) option" where
  "keyNodes sha drafts existing generation =
     (case duplicateId (pn_id ` set existing) drafts of
        Some i \<Rightarrow> Some (Inl (PlanError Duplicate_node (''Node '' @ i @ '' is already in the plan'')))
      | None \<Rightarrow> (case topological drafts (pn_id ` set existing) of
          None \<Rightarrow> None
        | Some (Inl e) \<Rightarrow> Some (Inl e)
        | Some (Inr inOrder) \<Rightarrow> Some (mapR snd (foldE (keyDraft sha generation) inOrder
            (foldl (\<lambda>digests node. digests(pn_id node \<mapsto> pn_key node)) Map.empty existing, [])))))"

section \<open>Plans\<close>

definition compilePlan :: "(units \<Rightarrow> string) \<Rightarrow> string \<Rightarrow> string \<Rightarrow> NodeDraft list \<Rightarrow> (CompileError + Plan) option" where
  "compilePlan sha planId flow drafts =
     map_option (\<lambda>r. case r of Inl e \<Rightarrow> Inl e
       | Inr keyed \<Rightarrow> (case annotate keyed {} of Inl e \<Rightarrow> Inl e
         | Inr nodes \<Rightarrow> mapR (\<lambda>digest. \<lparr>pl_planId = planId, pl_flow = flow, pl_generation = 0, pl_baseDigest = digest,
             pl_digest = digest, pl_nodes = nodes\<rparr>) (digestOf sha planId flow nodes)))
       (keyNodes sha drafts [] 0)"

definition appendPlan :: "(units \<Rightarrow> string) \<Rightarrow> Plan \<Rightarrow> NodeDraft list \<Rightarrow> (CompileError + Plan) option" where
  "appendPlan sha plan drafts =
     (let generation = pl_generation plan + 1 in
      map_option (\<lambda>r. case r of Inl e \<Rightarrow> Inl e
       | Inr keyed \<Rightarrow> (case annotate (pl_nodes plan @ keyed) (pn_id ` set (pl_nodes plan)) of Inl e \<Rightarrow> Inl e
         | Inr nodes \<Rightarrow> mapR (\<lambda>digest. plan\<lparr>pl_generation := generation, pl_digest := digest, pl_nodes := nodes\<rparr>)
             (digestOf sha (pl_planId plan) (pl_flow plan) nodes)))
       (keyNodes sha drafts (pl_nodes plan) generation))"

definition generationNodes :: "Plan \<Rightarrow> PlanNode list" where
  "generationNodes plan = filter (\<lambda>node. pn_generation node = pl_generation plan) (pl_nodes plan)"

end
