(* ===== verification/Plan_Order.thy ===== *)
theory Plan_Order
  imports PlanGraph
begin

text \<open>
  The topological order of drafts: the depth bound is never reached, a list that comes back has every
  draft once and behind what it depends on, and a refusal names a cycle or a dependency that really is there.
\<close>

definition needs :: "NodeDraft \<Rightarrow> string set" where
  "needs draft = set (dependencies (nd_material draft))"

fun layered :: "string set \<Rightarrow> NodeDraft list \<Rightarrow> bool" where
  "layered known [] = True"
| "layered known (d # ds) = (needs d \<subseteq> known \<and> layered (insert (nd_id d) known) ds)"

lemma layered_snoc: "layered known (ds @ [d]) \<longleftrightarrow> layered known ds \<and> needs d \<subseteq> known \<union> nd_id ` set ds"
  by (induction ds arbitrary: known) auto

definition visiting :: "Walk \<Rightarrow> string set" where
  "visiting w = {i. marks w i = Some Visiting}"

abbreviation draftFor :: "NodeDraft list \<Rightarrow> string \<Rightarrow> NodeDraft option" where
  "draftFor drafts i \<equiv> map_of (map (\<lambda>d. (nd_id d, d)) (rev drafts)) i"

lemma draftFor_Some: "draftFor drafts i = Some d \<Longrightarrow> d \<in> set drafts \<and> nd_id d = i"
  by (drule map_of_SomeD) auto

lemma draftFor_None: "draftFor drafts i = None \<longleftrightarrow> i \<notin> nd_id ` set drafts"
  by (force simp: map_of_eq_None_iff)

section \<open>Marks\<close>

lemma visit_marks:
  "visit n drafts known d w = Some (Inr w') \<Longrightarrow> dom (marks w) \<subseteq> dom (marks w') \<and> visiting w' = visiting w"
  "visitAll n drafts known d deps w = Some (Inr w') \<Longrightarrow> dom (marks w) \<subseteq> dom (marks w') \<and> visiting w' = visiting w"
proof (induction n drafts known d w and n drafts known d deps w arbitrary: w' and w' rule: visit_visitAll.induct)
  case (2 n drafts known d w)
  show ?case
  proof (cases "marks w (nd_id d)")
    case None
    let ?w1 = "w\<lparr>marks := (marks w)(nd_id d \<mapsto> Visiting)\<rparr>"
    from 2(2) None obtain w2 where w2: "visitAll n drafts known d (dependencies (nd_material d)) ?w1 = Some (Inr w2)"
      "w' = w2\<lparr>marks := (marks w2)(nd_id d \<mapsto> Done), orderedDrafts := orderedDrafts w2 @ [d]\<rparr>"
      by (auto split: option.splits sum.splits)
    note ih = 2(1) [OF None w2(1)]
    have "dom (marks w) \<subseteq> dom (marks ?w1)" by auto
    then have "dom (marks w) \<subseteq> dom (marks w2)" using ih by blast
    moreover have "visiting w2 = insert (nd_id d) (visiting w)" using ih by (auto simp: visiting_def)
    moreover have "visiting w' = visiting w2 - {nd_id d}" using w2(2) by (auto simp: visiting_def)
    moreover have "nd_id d \<notin> visiting w" using None by (simp add: visiting_def)
    ultimately show ?thesis using w2(2) by auto
  next
    case (Some m)
    with 2(2) show ?thesis by (cases m) auto
  qed
next
  case (4 n drafts known d dep rest w)
  show ?case
  proof (cases "dep \<in> known")
    case False
    with 4(4) obtain nx w1 where "draftFor drafts dep = Some nx" "visit n drafts known nx w = Some (Inr w1)"
      "visitAll n drafts known d rest w1 = Some (Inr w')" by (auto split: option.splits sum.splits)
    with 4(2,3) False show ?thesis by blast
  qed (use 4 in auto)
qed auto

section \<open>The depth bound\<close>

lemma visit_fuel:
  "d \<in> set drafts \<Longrightarrow> card (nd_id ` set drafts - dom (marks w)) < n \<Longrightarrow> visit n drafts known d w \<noteq> None"
  "d \<in> set drafts \<Longrightarrow> card (nd_id ` set drafts - dom (marks w)) < n \<Longrightarrow> visitAll n drafts known d deps w \<noteq> None"
proof (induction n drafts known d w and n drafts known d deps w rule: visit_visitAll.induct)
  case (2 n drafts known d w)
  let ?w1 = "w\<lparr>marks := (marks w)(nd_id d \<mapsto> Visiting)\<rparr>"
  show ?case
  proof (cases "marks w (nd_id d)")
    case None
    then have "nd_id d \<in> nd_id ` set drafts - dom (marks w)" using 2(2) by auto
    then have "nd_id ` set drafts - dom (marks ?w1) \<subset> nd_id ` set drafts - dom (marks w)" by auto
    then have "card (nd_id ` set drafts - dom (marks ?w1)) < card (nd_id ` set drafts - dom (marks w))"
      by (intro psubset_card_mono) simp_all
    then have "card (nd_id ` set drafts - dom (marks ?w1)) < n" using 2(3) by simp
    from 2(1) [OF None 2(2) this] show ?thesis using None by (auto split: option.splits sum.splits)
  next
    case (Some m)
    then show ?thesis by (cases m) auto
  qed
next
  case (4 n drafts known d dep rest w)
  show ?case
  proof (cases "dep \<in> known")
    case False
    show ?thesis
    proof (cases "draftFor drafts dep")
      case (Some nx)
      from draftFor_Some [OF Some] have "nx \<in> set drafts" by simp
      from 4(2) [OF False Some this 4(5)] obtain r where r: "visit n drafts known nx w = Some r" by blast
      show ?thesis
      proof (cases r)
        case (Inr w1)
        then have "nd_id ` set drafts - dom (marks w1) \<subseteq> nd_id ` set drafts - dom (marks w)"
          using visit_marks(1) r by blast
        then have "card (nd_id ` set drafts - dom (marks w1)) < n" using 4(5) by (meson card_mono finite_Diff finite_imageI finite_set le_less_trans)
        from 4(3) [OF False Some r [unfolded Inr] refl 4(4) this] r Inr False Some show ?thesis by simp
      qed (use r False Some in simp)
    qed (use False in simp)
  qed (use 4 in simp)
qed auto

lemma visitDrafts_fuel:
  "set rest \<subseteq> set drafts \<Longrightarrow> length drafts < n \<Longrightarrow> visitDrafts n drafts known rest w \<noteq> None"
proof (induction rest arbitrary: w)
  case (Cons d rest)
  have "card (nd_id ` set drafts - dom (marks w)) \<le> card (nd_id ` set drafts)" by (intro card_mono) auto
  also have "\<dots> \<le> length drafts" using card_length [of "map nd_id drafts"] by simp
  finally have "card (nd_id ` set drafts - dom (marks w)) < n" using Cons(3) by simp
  with Cons(2) visit_fuel(1) obtain r where r: "visit n drafts known d w = Some r" by fastforce
  show ?case
  proof (cases r)
    case (Inr w1)
    have "visitDrafts n drafts known rest w1 \<noteq> None" using Cons by simp
    then show ?thesis using r Inr by simp
  qed (use r in simp)
qed simp

lemma topological_total: "topological drafts known \<noteq> None"
  using visitDrafts_fuel [of drafts drafts "Suc (length drafts)"] by (auto simp: topological_def split: option.splits)

section \<open>What comes back\<close>

definition walkOk :: "NodeDraft list \<Rightarrow> string set \<Rightarrow> Walk \<Rightarrow> bool" where
  "walkOk drafts known w \<longleftrightarrow> distinct (map nd_id (orderedDrafts w)) \<and> set (orderedDrafts w) \<subseteq> set drafts
     \<and> (\<forall>i. marks w i = Some Done \<longleftrightarrow> i \<in> nd_id ` set (orderedDrafts w)) \<and> layered known (orderedDrafts w)"

lemma visit_ok:
  "visit n drafts known d w = Some (Inr w') \<Longrightarrow> d \<in> set drafts \<Longrightarrow> walkOk drafts known w
    \<Longrightarrow> walkOk drafts known w' \<and> set (orderedDrafts w) \<subseteq> set (orderedDrafts w') \<and> nd_id d \<in> nd_id ` set (orderedDrafts w')"
  "visitAll n drafts known d deps w = Some (Inr w') \<Longrightarrow> d \<in> set drafts \<Longrightarrow> walkOk drafts known w
    \<Longrightarrow> walkOk drafts known w' \<and> set (orderedDrafts w) \<subseteq> set (orderedDrafts w') \<and> set deps \<subseteq> known \<union> nd_id ` set (orderedDrafts w')"
proof (induction n drafts known d w and n drafts known d deps w arbitrary: w' and w' rule: visit_visitAll.induct)
  case (2 n drafts known d w)
  show ?case
  proof (cases "marks w (nd_id d)")
    case None
    let ?w1 = "w\<lparr>marks := (marks w)(nd_id d \<mapsto> Visiting)\<rparr>"
    from 2(2) None obtain w2 where w2: "visitAll n drafts known d (dependencies (nd_material d)) ?w1 = Some (Inr w2)"
      "w' = w2\<lparr>marks := (marks w2)(nd_id d \<mapsto> Done), orderedDrafts := orderedDrafts w2 @ [d]\<rparr>"
      by (auto split: option.splits sum.splits)
    have "nd_id d \<notin> nd_id ` set (orderedDrafts w)" using 2(4) None by (metis option.distinct(1) walkOk_def)
    then have "walkOk drafts known ?w1" using 2(4) by (auto simp: walkOk_def)
    from 2(1) [OF None w2(1) 2(3) this] have ih: "walkOk drafts known w2" "set (orderedDrafts w) \<subseteq> set (orderedDrafts w2)"
      "needs d \<subseteq> known \<union> nd_id ` set (orderedDrafts w2)" by (simp_all add: needs_def)
    have "nd_id d \<in> visiting w2" using visit_marks(2) [OF w2(1)] by (simp add: visiting_def)
    then have "marks w2 (nd_id d) \<noteq> Some Done" by (simp add: visiting_def)
    then have "nd_id d \<notin> nd_id ` set (orderedDrafts w2)" using ih(1) by (simp add: walkOk_def)
    then show ?thesis using ih w2(2) 2(3) by (auto simp: walkOk_def layered_snoc)
  next
    case (Some m)
    with 2(2,4) show ?thesis by (cases m) (auto simp: walkOk_def)
  qed
next
  case (4 n drafts known d dep rest w)
  show ?case
  proof (cases "dep \<in> known")
    case False
    with 4(4) obtain nx w1 where nx: "draftFor drafts dep = Some nx" "visit n drafts known nx w = Some (Inr w1)"
      "visitAll n drafts known d rest w1 = Some (Inr w')" by (auto split: option.splits sum.splits)
    from draftFor_Some [OF nx(1)] have d: "nx \<in> set drafts" "nd_id nx = dep" by simp_all
    from 4(2) [OF False nx(1,2) d(1) 4(6)] have w1: "walkOk drafts known w1" "set (orderedDrafts w) \<subseteq> set (orderedDrafts w1)"
      "dep \<in> nd_id ` set (orderedDrafts w1)" using d(2) by simp_all
    from 4(3) [OF False nx(1,2) refl nx(3) 4(5) w1(1)] w1 show ?thesis by auto
  qed (use 4 in auto)
qed (auto simp: walkOk_def)

lemma visitDrafts_ok:
  "visitDrafts n drafts known rest w = Some (Inr w') \<Longrightarrow> set rest \<subseteq> set drafts \<Longrightarrow> walkOk drafts known w
    \<Longrightarrow> walkOk drafts known w' \<and> set (orderedDrafts w) \<subseteq> set (orderedDrafts w') \<and> nd_id ` set rest \<subseteq> nd_id ` set (orderedDrafts w')"
proof (induction rest arbitrary: w)
  case (Cons d rest)
  from Cons(2) obtain w1 where w1: "visit n drafts known d w = Some (Inr w1)" "visitDrafts n drafts known rest w1 = Some (Inr w')"
    by (auto split: option.splits sum.splits)
  from visit_ok(1) [OF w1(1) _ Cons(4)] Cons(3) have "walkOk drafts known w1" "set (orderedDrafts w) \<subseteq> set (orderedDrafts w1)"
    "nd_id d \<in> nd_id ` set (orderedDrafts w1)" by simp_all
  with Cons(1) [OF w1(2)] Cons(3) show ?case by auto
qed simp

lemma topological_Inr:
  assumes "topological drafts known = Some (Inr ds)" "distinct (map nd_id drafts)"
  shows "distinct (map nd_id ds) \<and> set ds = set drafts \<and> layered known ds"
proof -
  let ?w0 = "\<lparr>marks = Map.empty, orderedDrafts = []\<rparr>"
  from assms(1) obtain w where w: "visitDrafts (Suc (length drafts)) drafts known drafts ?w0 = Some (Inr w)" "ds = orderedDrafts w"
    by (auto simp: topological_def split: option.splits)
  have "walkOk drafts known ?w0" by (simp add: walkOk_def)
  from visitDrafts_ok [OF w(1) _ this] have "walkOk drafts known w" "nd_id ` set drafts \<subseteq> nd_id ` set (orderedDrafts w)" by simp_all
  moreover then have "set drafts \<subseteq> set (orderedDrafts w)"
    using assms(2) by (auto simp: walkOk_def distinct_map dest: inj_onD)
  ultimately show ?thesis using w(2) by (auto simp: walkOk_def)
qed

section \<open>What a refusal means\<close>

definition draftEdges :: "NodeDraft list \<Rightarrow> string set \<Rightarrow> (string \<times> string) set" where
  "draftEdges drafts known = {(nd_id d, y) |d y. d \<in> set drafts \<and> y \<in> needs d \<and> y \<notin> known}"

definition refusal :: "NodeDraft list \<Rightarrow> string set \<Rightarrow> CompileError \<Rightarrow> bool" where
  "refusal drafts known e \<longleftrightarrow> (\<exists>m. e = PlanError Cycle m) \<and> \<not> acyclic (draftEdges drafts known)
     \<or> (\<exists>m. e = PlanError Unknown_dependency m) \<and> (\<exists>x y. (x, y) \<in> draftEdges drafts known \<and> y \<notin> nd_id ` set drafts)"

lemma visit_refusal:
  "visit n drafts known d w = Some (Inl e) \<Longrightarrow> d \<in> set drafts
    \<Longrightarrow> \<forall>v \<in> visiting w. (v, nd_id d) \<in> (draftEdges drafts known)\<^sup>+ \<Longrightarrow> refusal drafts known e"
  "visitAll n drafts known d deps w = Some (Inl e) \<Longrightarrow> d \<in> set drafts \<Longrightarrow> set deps \<subseteq> needs d
    \<Longrightarrow> \<forall>v \<in> visiting w. (v, nd_id d) \<in> (draftEdges drafts known)\<^sup>* \<Longrightarrow> refusal drafts known e"
proof (induction n drafts known d w and n drafts known d deps w arbitrary: e and e rule: visit_visitAll.induct)
  case (2 n drafts known d w)
  show ?case
  proof (cases "marks w (nd_id d)")
    case None
    let ?w1 = "w\<lparr>marks := (marks w)(nd_id d \<mapsto> Visiting)\<rparr>"
    from 2(2) None have v: "visitAll n drafts known d (dependencies (nd_material d)) ?w1 = Some (Inl e)"
      by (auto split: option.splits sum.splits)
    have "\<forall>v \<in> visiting ?w1. (v, nd_id d) \<in> (draftEdges drafts known)\<^sup>*"
      using 2(4) by (auto simp: visiting_def intro: trancl_into_rtrancl split: if_splits)
    from 2(1) [OF None v 2(3) _ this] show ?thesis by (simp add: needs_def)
  next
    case (Some m)
    with 2(2) have m: "m = Visiting" "\<exists>t. e = PlanError Cycle t" by (cases m; auto)+
    with Some 2(4) have "(nd_id d, nd_id d) \<in> (draftEdges drafts known)\<^sup>+" by (auto simp: visiting_def)
    with m(2) show ?thesis by (auto simp: refusal_def acyclic_def)
  qed
next
  case (4 n drafts known d dep rest w)
  show ?case
  proof (cases "dep \<in> known")
    case False
    then have edge: "(nd_id d, dep) \<in> draftEdges drafts known" using 4(5,6) by (auto simp: draftEdges_def)
    show ?thesis
    proof (cases "draftFor drafts dep")
      case None
      with 4(4) False edge draftFor_None show ?thesis by (fastforce simp: refusal_def)
    next
      case (Some nx)
      from draftFor_Some [OF Some] have nx: "nx \<in> set drafts" "nd_id nx = dep" by simp_all
      from 4(4) False Some consider "visit n drafts known nx w = Some (Inl e)"
        | w1 where "visit n drafts known nx w = Some (Inr w1)" "visitAll n drafts known d rest w1 = Some (Inl e)"
        by (auto split: option.splits sum.splits)
      then show ?thesis
      proof cases
        case 1
        have "\<forall>v \<in> visiting w. (v, nd_id nx) \<in> (draftEdges drafts known)\<^sup>+"
          using 4(7) edge nx(2) by (auto intro: rtrancl_into_trancl1)
        from 4(2) [OF False Some 1 nx(1) this] show ?thesis .
      next
        case 2
        have "visiting w1 = visiting w" using visit_marks(1) [OF 2(1)] by simp
        then show ?thesis using 4(3) [OF False Some 2(1) refl 2(2) 4(5)] 4(6,7) by simp
      qed
    qed
  qed (use 4 in simp)
qed auto

lemma visitDrafts_refusal:
  "visitDrafts n drafts known rest w = Some (Inl e) \<Longrightarrow> set rest \<subseteq> set drafts \<Longrightarrow> visiting w = {} \<Longrightarrow> refusal drafts known e"
proof (induction rest arbitrary: w)
  case (Cons d rest)
  from Cons(2) consider "visit n drafts known d w = Some (Inl e)"
    | w1 where "visit n drafts known d w = Some (Inr w1)" "visitDrafts n drafts known rest w1 = Some (Inl e)"
    by (auto split: option.splits sum.splits)
  then show ?case
  proof cases
    case 1
    with Cons(3,4) show ?thesis by (intro visit_refusal(1) [OF 1]) auto
  next
    case 2
    have "visiting w1 = {}" using visit_marks(1) [OF 2(1)] Cons(4) by simp
    with Cons(1) [OF 2(2)] Cons(3) show ?thesis by simp
  qed
qed simp

lemma topological_Inl: "topological drafts known = Some (Inl e) \<Longrightarrow> refusal drafts known e"
  using visitDrafts_refusal [of "Suc (length drafts)" drafts known drafts]
  by (auto simp: topological_def visiting_def split: option.splits elim: mapR.elims)

section \<open>The decision\<close>

lemma layered_rank:
  assumes "layered known ds" "distinct (map nd_id ds)" "nd_id ` set ds \<inter> known = {}"
  shows "acyclic (draftEdges ds known)" "snd ` draftEdges ds known \<subseteq> nd_id ` set ds"
proof -
  have edge: "\<exists>i j. j < i \<and> i < length ds \<and> x = nd_id (ds ! i) \<and> y = nd_id (ds ! j)" if "(x, y) \<in> draftEdges ds known" for x y
    using that assms(1)
  proof (induction ds rule: rev_induct)
    case (snoc d ds)
    from snoc(2) obtain d' where d': "x = nd_id d'" "y \<in> needs d'" "y \<notin> known" "d' \<in> insert d (set ds)" by (auto simp: draftEdges_def)
    show ?case
    proof (cases "d' \<in> set ds")
      case True
      then have "(x, y) \<in> draftEdges ds known" using d' by (auto simp: draftEdges_def)
      with snoc(1,3) obtain i j where "j < i" "i < length ds" "x = nd_id (ds ! i)" "y = nd_id (ds ! j)" by (auto simp: layered_snoc)
      then show ?thesis by (intro exI [of _ i] exI [of _ j]) (simp add: nth_append)
    next
      case False
      with d' have "d' = d" by simp
      with snoc(3) d' have "y \<in> nd_id ` set ds" by (auto simp: layered_snoc)
      then obtain j where "j < length ds" "y = nd_id (ds ! j)" by (auto simp: in_set_conv_nth)
      then show ?thesis using d' \<open>d' = d\<close> by (intro exI [of _ "length ds"] exI [of _ j]) (simp add: nth_append)
    qed
  qed (simp add: draftEdges_def)
  define rank where "rank x = (THE i. i < length ds \<and> nd_id (ds ! i) = x)" for x
  have rank: "rank (nd_id (ds ! i)) = i" if "i < length ds" for i
    unfolding rank_def using that assms(2) by (intro the_equality) (auto simp: distinct_conv_nth)
  have "draftEdges ds known \<subseteq> (measure rank)\<inverse>"
  proof (intro subrelI)
    fix x y assume "(x, y) \<in> draftEdges ds known"
    from edge [OF this] obtain i j where "j < i" "i < length ds" "x = nd_id (ds ! i)" "y = nd_id (ds ! j)" by blast
    then show "(x, y) \<in> (measure rank)\<inverse>" by (simp add: rank)
  qed
  moreover have "acyclic ((measure rank)\<inverse>)" by (simp add: wf_acyclic)
  ultimately show "acyclic (draftEdges ds known)" by (rule acyclic_subset [rotated])
  show "snd ` draftEdges ds known \<subseteq> nd_id ` set ds" 
  proof (intro image_subsetI)
    fix e assume e: "e \<in> draftEdges ds known"
    obtain x y where xy: "e = (x, y)" by (cases e)
    from edge [OF e [unfolded xy]] obtain i j where "j < i" "i < length ds" "y = nd_id (ds ! j)" by blast
    then show "snd e \<in> nd_id ` set ds" using xy by auto
  qed
qed

theorem topological_decides:
  assumes "distinct (map nd_id drafts)" "nd_id ` set drafts \<inter> known = {}"
  shows "(\<exists>ds. topological drafts known = Some (Inr ds))
    \<longleftrightarrow> acyclic (draftEdges drafts known) \<and> snd ` draftEdges drafts known \<subseteq> nd_id ` set drafts"
proof
  assume "\<exists>ds. topological drafts known = Some (Inr ds)"
  then obtain ds where "topological drafts known = Some (Inr ds)" by blast
  from topological_Inr [OF this assms(1)] have ds: "distinct (map nd_id ds)" "set ds = set drafts" "layered known ds" by simp_all
  have "draftEdges ds known = draftEdges drafts known" using ds(2) by (simp add: draftEdges_def)
  with layered_rank [OF ds(3,1)] assms(2) ds(2)
  show "acyclic (draftEdges drafts known) \<and> snd ` draftEdges drafts known \<subseteq> nd_id ` set drafts" by simp
next
  assume ok: "acyclic (draftEdges drafts known) \<and> snd ` draftEdges drafts known \<subseteq> nd_id ` set drafts"
  then have "\<not> refusal drafts known e" for e by (auto simp: refusal_def)
  then show "\<exists>ds. topological drafts known = Some (Inr ds)"
    using topological_total [of drafts known] topological_Inl [of drafts known] by (cases "topological drafts known") (auto, metis sum.exhaust)
qed

end
