(* ===== verification/Plan_Annotate.thy ===== *)
theory Plan_Annotate
  imports PlanGraph
begin

text \<open>
  What annotation does to a graph: the search decides reachability, the first pass settles every pair of
  overlapping writers, the second orders every reader and writer, and no pass closes a cycle.
\<close>

section \<open>Reachability\<close>

definition edgesRel :: "edges \<Rightarrow> (string \<times> string) set" where
  "edgesRel es = {(x, y). y \<in> set (nexts es x)}"

lemma reachLoop_sound: "reachLoop es goal seen stack \<Longrightarrow> \<exists>x \<in> set stack. (x, goal) \<in> (edgesRel es)\<^sup>*"
proof (induction es goal seen stack rule: reachLoop.induct)
  case (2 es goal seen current stack)
  show ?case
  proof (cases "current = goal \<or> current \<in> seen")
    case False
    with 2 obtain x where "x \<in> set (nexts es current) \<union> set stack" "(x, goal) \<in> (edgesRel es)\<^sup>*" by auto
    then show ?thesis by (auto simp: edgesRel_def intro: converse_rtrancl_into_rtrancl)
  qed (use 2 in auto)
qed simp

lemma reachLoop_complete:
  "\<not> reachLoop es goal seen stack \<Longrightarrow> goal \<notin> seen \<Longrightarrow> \<forall>s \<in> seen. set (nexts es s) \<subseteq> seen \<union> set stack
    \<Longrightarrow> \<exists>S. seen \<union> set stack \<subseteq> S \<and> goal \<notin> S \<and> edgesRel es `` S \<subseteq> S"
proof (induction es goal seen stack rule: reachLoop.induct)
  case (1 es goal seen)
  then show ?case by (intro exI [of _ seen]) (auto simp: edgesRel_def)
next
  case (2 es goal seen current stack)
  show ?case
  proof (cases "current \<in> seen")
    case True
    then have c: "current \<noteq> goal" "\<not> reachLoop es goal seen stack" "seen \<union> set (current # stack) = seen \<union> set stack"
      using 2(3,4) by (auto split: if_split_asm)
    from 2(1) [OF c(1) True c(2) 2(4) 2(5) [unfolded c(3)]] show ?thesis unfolding c(3) .
  next
    case False
    have "current \<noteq> goal" using 2(3) by auto
    moreover from this False have "\<not> reachLoop es goal (insert current seen) (rev (nexts es current) @ stack)" using 2(3) by simp
    ultimately have c: "current \<noteq> goal" "\<not> reachLoop es goal (insert current seen) (rev (nexts es current) @ stack)"
      "goal \<notin> insert current seen" using 2(4) by simp_all
    have "\<forall>s \<in> insert current seen. set (nexts es s) \<subseteq> insert current seen \<union> set (rev (nexts es current) @ stack)"
      using 2(5) by auto
    from 2(2) [OF c(1) False c(2,3) this] obtain S where
      "insert current seen \<union> set (rev (nexts es current) @ stack) \<subseteq> S" "goal \<notin> S" "edgesRel es `` S \<subseteq> S" by blast
    then show ?thesis by (intro exI [of _ S]) auto
  qed
qed

lemma reaches_iff: "reaches es a b \<longleftrightarrow> (a, b) \<in> (edgesRel es)\<^sup>*"
proof
  show "(a, b) \<in> (edgesRel es)\<^sup>*" if "reaches es a b"
    using reachLoop_sound [OF that [unfolded reaches_def]] by simp
  assume path: "(a, b) \<in> (edgesRel es)\<^sup>*"
  show "reaches es a b"
  proof (rule ccontr)
    assume "\<not> reaches es a b"
    with reachLoop_complete [of es b "{}" "[a]"] obtain S where "a \<in> S" "b \<notin> S" "edgesRel es `` S \<subseteq> S"
      by (auto simp: reaches_def)
    with path show False using Image_closed_trancl [of "edgesRel es" S] by blast
  qed
qed

lemma set_addOnce [simp]: "set (addOnce xs x) = insert x (set xs)"
  by (auto simp: addOnce_def)

lemma distinct_addOnce [simp]: "distinct xs \<Longrightarrow> distinct (addOnce xs x)"
  by (simp add: addOnce_def)

lemma foldl_addOnce: "set (foldl addOnce acc xs) = set acc \<union> set xs" "distinct acc \<Longrightarrow> distinct (foldl addOnce acc xs)"
  by (induction xs arbitrary: acc) auto

lemma keys_addEdge [simp]: "fst ` set (addEdge x y es) = fst ` set es"
  by (force simp: addEdge_def)

lemma nexts_addEdge: "nexts (addEdge x y es) k = (if k = x \<and> x \<in> fst ` set es then addOnce (nexts es x) y else nexts es k)"
proof -
  have "map_of (addEdge x y es) k = map_option (\<lambda>ys. if k = x then addOnce ys y else ys) (map_of es k)"
    unfolding addEdge_def by (induction es) auto
  moreover have "x \<in> fst ` set es \<longleftrightarrow> (\<exists>ys. map_of es x = Some ys)" by (metis dom_map_of_conv_image_fst domD domI)
  ultimately show ?thesis by (auto simp: nexts_def split: option.splits)
qed

lemma edgesRel_addEdge: "x \<in> fst ` set es \<Longrightarrow> edgesRel (addEdge x y es) = insert (x, y) (edgesRel es)"
  by (auto simp: edgesRel_def nexts_addEdge split: if_splits)

section \<open>Graphs of nodes\<close>

definition edgeRel :: "PlanNode list \<Rightarrow> (string \<times> string) set" where
  "edgeRel nodes = {(pn_id n, y) |n y. n \<in> set nodes \<and> y \<in> set (pn_dependsOn n)}"

lemma edgeRel_simps [simp]:
  "edgeRel [] = {}" "edgeRel (xs @ ys) = edgeRel xs \<union> edgeRel ys"
  "edgeRel (n # ns) = {pn_id n} \<times> set (pn_dependsOn n) \<union> edgeRel ns"
  by (auto simp: edgeRel_def)

lemma acyclic_fresh:
  assumes "acyclic R" "x \<notin> Range R" "x \<notin> Y"
  shows "acyclic (R \<union> {x} \<times> Y)"
proof -
  have step: "(a, b) \<in> R\<^sup>+ \<and> b \<noteq> x" if "(a, b) \<in> (R \<union> {x} \<times> Y)\<^sup>+" "a \<noteq> x" for a b
    using that
  proof (induction rule: trancl_induct)
    case (base y)
    then have "(a, y) \<in> R" by simp
    then show ?case using assms(2) by auto
  next
    case (step y z)
    then have "(y, z) \<in> R" "(a, y) \<in> R\<^sup>+" by simp_all
    then show ?case using assms(2) by (auto intro: trancl_into_trancl)
  qed
  have "(x, x) \<notin> (R \<union> {x} \<times> Y)\<^sup>+"
  proof
    assume "(x, x) \<in> (R \<union> {x} \<times> Y)\<^sup>+"
    then obtain z where "(z, x) \<in> R \<union> {x} \<times> Y" by (auto dest: tranclD2)
    then show False using assms(2,3) by auto
  qed
  with step assms(1) show ?thesis unfolding acyclic_def by metis
qed

text \<open>New nodes name only nodes in front of them.\<close>

fun behind :: "string set \<Rightarrow> PlanNode list \<Rightarrow> bool" where
  "behind before [] = True"
| "behind before (n # ns) = (set (pn_dependsOn n) \<subseteq> before \<and> behind (insert (pn_id n) before) ns)"

lemma behind_acyclic:
  assumes "behind before ns" "acyclic R" "Field R \<subseteq> before" "distinct (map pn_id ns)" "pn_id ` set ns \<inter> before = {}"
  shows "acyclic (R \<union> edgeRel ns)"
  using assms
proof (induction ns arbitrary: before R)
  case (Cons n ns)
  have "acyclic (R \<union> {pn_id n} \<times> set (pn_dependsOn n))"
    using Cons(2-6) by (intro acyclic_fresh) (auto simp: Field_def)
  moreover have "Field (R \<union> {pn_id n} \<times> set (pn_dependsOn n)) \<subseteq> insert (pn_id n) before"
    using Cons(2,4) by (auto simp: Field_def)
  ultimately have "acyclic ((R \<union> {pn_id n} \<times> set (pn_dependsOn n)) \<union> edgeRel ns)"
    using Cons(2,5,6) by (intro Cons(1) [where before = "insert (pn_id n) before"]) auto
  then show ?case by (simp add: Un_assoc)
qed simp

section \<open>The closure\<close>

lemma reachableIn_snoc: "reachableIn (ns @ [n]) = (reachableIn ns)(pn_id n := (\<Union>d \<in> set (pn_dependsOn n). insert d (reachableIn ns d)))"
  by (simp add: reachableIn_def)

lemma reachableIn_sound: "y \<in> reachableIn ns x \<Longrightarrow> (x, y) \<in> (edgeRel ns)\<^sup>+"
proof (induction ns arbitrary: x y rule: rev_induct)
  case (snoc n ns)
  have mono: "(a, b) \<in> (edgeRel (ns @ [n]))\<^sup>+" if "(a, b) \<in> (edgeRel ns)\<^sup>+" for a b
    using that by (rule trancl_mono) simp
  show ?case
  proof (cases "x = pn_id n")
    case True
    with snoc(2) obtain d where d: "d \<in> set (pn_dependsOn n)" "y = d \<or> y \<in> reachableIn ns d" by (auto simp: reachableIn_snoc)
    then have "(x, d) \<in> edgeRel (ns @ [n])" using True by simp
    moreover have "y = d \<or> (d, y) \<in> (edgeRel (ns @ [n]))\<^sup>+" using d(2) snoc(1) mono by blast
    ultimately show ?thesis by (auto intro: trancl_into_trancl2)
  next
    case False
    with snoc mono show ?thesis by (simp add: reachableIn_snoc)
  qed
qed (simp add: reachableIn_def)

lemma reachableIn_last: "pn_id n \<notin> pn_id ` set ys \<Longrightarrow> reachableIn (xs @ ys) (pn_id n) = reachableIn xs (pn_id n)"
proof (induction ys rule: rev_induct)
  case (snoc y ys)
  then show ?case by (simp add: reachableIn_snoc flip: append_assoc)
qed simp

lemma reachableIn_direct:
  assumes "distinct (map pn_id ns)" "n \<in> set ns"
  shows "set (pn_dependsOn n) \<subseteq> reachableIn ns (pn_id n)"
proof -
  from assms(2) obtain xs ys where ns: "ns = (xs @ [n]) @ ys" by (auto simp: in_set_conv_decomp)
  have "reachableIn ns (pn_id n) = reachableIn (xs @ [n]) (pn_id n)"
    unfolding ns by (rule reachableIn_last) (use assms(1) ns in auto)
  then show ?thesis by (auto simp: reachableIn_snoc)
qed

section \<open>The first pass\<close>

text \<open>One pair that writes a common path: ordered, or annotated as lanes.\<close>

definition annotated :: "(string \<Rightarrow> ConflictAnnotation list) \<Rightarrow> PlanNode \<Rightarrow> PlanNode \<Rightarrow> bool" where
  "annotated conflicts node other \<longleftrightarrow>
     (\<exists>a \<in> set (conflicts (pn_id node)). ca_with a = pn_id other \<and> ca_strategy a = Lane)"

definition settled :: "string set \<Rightarrow> Pass \<Rightarrow> PlanNode \<Rightarrow> PlanNode \<Rightarrow> bool" where
  "settled frozen s earlier later \<longleftrightarrow>
     overlapping (pn_effects earlier) (pn_effects later) = [] \<or> pn_id earlier \<in> closure s (pn_id later)
     \<or> pairStrategy (pn_strategy earlier) (pn_strategy later) = Lane \<and> annotated (conflictsOf s) later earlier
       \<and> (pn_id earlier \<notin> frozen \<longrightarrow> annotated (conflictsOf s) earlier later)"

definition passOk :: "(string \<Rightarrow> string set) \<Rightarrow> Pass \<Rightarrow> bool" where
  "passOk c0 s \<longleftrightarrow> (\<forall>x. closure s x = c0 x \<union> set (ordering s x) \<and> distinct (ordering s x) \<and> set (ordering s x) \<inter> c0 x = {})"

definition grows :: "Pass \<Rightarrow> Pass \<Rightarrow> bool" where
  "grows s s' \<longleftrightarrow> (\<forall>x. closure s x \<subseteq> closure s' x \<and> set (conflictsOf s x) \<subseteq> set (conflictsOf s' x) \<and> set (ordering s x) \<subseteq> set (ordering s' x))"

lemma grows_refl [simp]: "grows s s"
  by (simp add: grows_def)

lemma grows_trans [trans]: "grows s t \<Longrightarrow> grows t u \<Longrightarrow> grows s u"
  unfolding grows_def by (meson subset_trans)

lemma settled_grows: "settled frozen s e l \<Longrightarrow> grows s s' \<Longrightarrow> settled frozen s' e l"
  unfolding settled_def grows_def annotated_def by blast

lemma annotatePair_simps [simp]:
  "closure (annotatePair frozen l e a s) = closure s" "ordering (annotatePair frozen l e a s) = ordering s"
  "grows s (annotatePair frozen l e a s)"
  by (auto simp: annotatePair_def grows_def snocAt_def Let_def)

lemma annotatePair_notes:
  "a e \<in> set (conflictsOf (annotatePair frozen l e a s) l)"
  "e \<notin> frozen \<Longrightarrow> a l \<in> set (conflictsOf (annotatePair frozen l e a s) e)"
  by (auto simp: annotatePair_def snocAt_def Let_def)

lemma orderPair_simps [simp]:
  "closure (orderPair l e s) = (closure s)(l := insert e (closure s l))" "ordering (orderPair l e s) = snocAt l e (ordering s)"
  "grows s (orderPair l e s)"
  by (auto simp: orderPair_def grows_def snocAt_def)

lemma conflictPair_cases:
  assumes "conflictPair frozen later earlier s = Inr s'"
  obtains (same) "s' = s" "overlapping (pn_effects earlier) (pn_effects later) = [] \<or> pn_id earlier \<in> closure s (pn_id later)"
    | (conflict) "pn_id earlier \<notin> closure s (pn_id later)"
      "ordering s' = snocAt (pn_id later) (pn_id earlier) (ordering s)"
      "closure s' = (closure s)(pn_id later := insert (pn_id earlier) (closure s (pn_id later)))" "grows s s'"
    | (lane) "pairStrategy (pn_strategy earlier) (pn_strategy later) = Lane" "ordering s' = ordering s" "closure s' = closure s"
      "annotated (conflictsOf s') later earlier" "pn_id earlier \<notin> frozen \<Longrightarrow> annotated (conflictsOf s') earlier later" "grows s s'"
proof -
  let ?paths = "overlapping (pn_effects earlier) (pn_effects later)"
  let ?p = "pairStrategy (pn_strategy earlier) (pn_strategy later)"
  let ?a = "\<lambda>other. \<lparr>ca_with = other, ca_paths = ?paths, ca_strategy = ?p, ca_runtime = pairRuntime (pn_runtime earlier) (pn_runtime later)\<rparr>"
  let ?s' = "annotatePair frozen (pn_id later) (pn_id earlier) ?a s"
  note def = assms [unfolded conflictPair_def Let_def]
  consider "?paths = []" | "?paths \<noteq> []" "pn_id earlier \<in> closure s (pn_id later)"
    | "?paths \<noteq> []" "pn_id earlier \<notin> closure s (pn_id later)" by blast
  then show thesis
  proof cases
    case 3
    show thesis
    proof (cases ?p)
      case Serialize
      with def 3 have "s' = orderPair (pn_id later) (pn_id earlier) ?s'" by simp
      moreover have "grows s (orderPair (pn_id later) (pn_id earlier) ?s')"
        by (rule grows_trans [OF annotatePair_simps(3) orderPair_simps(3)])
      ultimately show thesis using 3(2) by (intro conflict) simp_all
    next
      case Lane
      with def 3 have s': "s' = ?s'" by simp
      show thesis
      proof (rule lane)
        show "annotated (conflictsOf s') later earlier" unfolding annotated_def s'
          by (rule bexI [OF _ annotatePair_notes(1)]) (simp add: Lane)
        show "annotated (conflictsOf s') earlier later" if "pn_id earlier \<notin> frozen" unfolding annotated_def s'
          by (rule bexI [OF _ annotatePair_notes(2) [OF that]]) (simp add: Lane)
      qed (simp_all add: Lane s')
    next
      case FailPair
      with def 3 show thesis by simp
    qed
  qed (use def in \<open>intro same; simp\<close>)+
qed

lemma conflictPair_Inr:
  assumes "conflictPair frozen later earlier s = Inr s'"
  shows "grows s s'" "settled frozen s' earlier later"
    "passOk c0 s \<Longrightarrow> passOk c0 s'"
    "y \<in> set (ordering s' x) \<Longrightarrow> y \<notin> set (ordering s x) \<Longrightarrow> x = pn_id later \<and> y = pn_id earlier"
  using assms by (cases rule: conflictPair_cases; auto simp: settled_def passOk_def snocAt_def split: if_split_asm)+

lemma conflictPairs_Inr:
  "foldE (conflictPair frozen later) before s = Inr s' \<Longrightarrow>
    grows s s' \<and> (\<forall>e \<in> set before. settled frozen s' e later) \<and> (passOk c0 s \<longrightarrow> passOk c0 s')
    \<and> (\<forall>x y. y \<in> set (ordering s' x) \<longrightarrow> y \<in> set (ordering s x) \<or> x = pn_id later \<and> y \<in> pn_id ` set before)"
proof (induction before arbitrary: s)
  case (Cons e before)
  from Cons(2) obtain s1 where s1: "conflictPair frozen later e s = Inr s1" "foldE (conflictPair frozen later) before s1 = Inr s'"
    by (auto split: sum.splits)
  note ih = Cons(1) [OF s1(2)] and p = conflictPair_Inr [OF s1(1)]
  have "settled frozen s' e later" using settled_grows [OF p(2)] ih by blast
  moreover have "grows s s'" using grows_trans [OF p(1)] ih by blast
  moreover have "y \<in> set (ordering s x) \<or> x = pn_id later \<and> y \<in> pn_id ` set (e # before)" if "y \<in> set (ordering s' x)" for x y
    using ih p(4) [of y x] that by auto
  moreover have "passOk c0 s \<longrightarrow> passOk c0 s'" using ih p(3) by blast
  ultimately show ?case using ih by simp
qed simp

text \<open>Orders the pass may add: a node that is not frozen behind an earlier one.\<close>

fun orders :: "string set \<Rightarrow> string set \<Rightarrow> PlanNode list \<Rightarrow> (string \<times> string) set" where
  "orders frozen before [] = {}"
| "orders frozen before (n # ns) =
     (if pn_id n \<in> frozen then {} else {pn_id n} \<times> before) \<union> orders frozen (insert (pn_id n) before) ns"

abbreviation settledUnless :: "string set \<Rightarrow> Pass \<Rightarrow> PlanNode \<Rightarrow> PlanNode \<Rightarrow> bool" where
  "settledUnless frozen s e l \<equiv> pn_id l \<notin> frozen \<longrightarrow> settled frozen s e l"

lemma conflictPass_Inr:
  "conflictPass frozen before nodes s = Inr s' \<Longrightarrow>
    grows s s' \<and> (passOk c0 s \<longrightarrow> passOk c0 s')
    \<and> (\<forall>e \<in> set before. \<forall>l \<in> set nodes. settledUnless frozen s' e l) \<and> sorted_wrt (settledUnless frozen s') nodes
    \<and> (\<forall>x y. y \<in> set (ordering s' x) \<longrightarrow> y \<in> set (ordering s x) \<or> (x, y) \<in> orders frozen (pn_id ` set before) nodes)"
proof (induction nodes arbitrary: before s)
  case (Cons n nodes)
  have before: "pn_id ` set (before @ [n]) = insert (pn_id n) (pn_id ` set before)" by auto
  show ?case
  proof (cases "pn_id n \<in> frozen")
    case True
    with Cons(2) have "conflictPass frozen (before @ [n]) nodes s = Inr s'" by simp
    from Cons(1) [OF this, unfolded before] True show ?thesis by simp
  next
    case False
    with Cons(2) obtain s1 where s1: "foldE (conflictPair frozen n) before s = Inr s1" "conflictPass frozen (before @ [n]) nodes s1 = Inr s'"
      by (auto split: sum.splits)
    note ih = Cons(1) [OF s1(2), unfolded before] and p = conflictPairs_Inr [OF s1(1), of c0]
    have "grows s s'" "passOk c0 s \<longrightarrow> passOk c0 s'" using ih p grows_trans by blast+
    moreover have "\<forall>e \<in> set before. settled frozen s' e n" using p ih settled_grows by blast
    ultimately show ?thesis using ih p False by simp blast
  qed
qed simp

section \<open>The second pass\<close>

text \<open>
  The state of the pass: the edges are acyclic, have a row for every node, and are those of the nodes and
  the orders added so far; nothing was added to a frozen node, nor twice.
\<close>

definition edgesOk :: "PlanNode list \<Rightarrow> string set \<Rightarrow> (string \<Rightarrow> string list) \<times> edges \<Rightarrow> bool" where
  "edgesOk nodes frozen s \<longleftrightarrow> (case s of (ord, es) \<Rightarrow>
     acyclic (edgesRel es) \<and> fst ` set es = pn_id ` set nodes
     \<and> edgesRel es = edgeRel nodes \<union> {(x, y). y \<in> set (ord x)}
     \<and> (\<forall>x \<in> frozen. ord x = [])
     \<and> (\<forall>x. set (ord x) \<subseteq> pn_id ` set nodes \<and> (ord x \<noteq> [] \<longrightarrow> x \<in> pn_id ` set nodes))
     \<and> (\<forall>n \<in> set nodes. distinct (pn_dependsOn n @ ord (pn_id n))))"

definition ranked :: "(string \<Rightarrow> string list) \<times> edges \<Rightarrow> PlanNode \<Rightarrow> PlanNode \<Rightarrow> bool" where
  "ranked s reader writer \<longleftrightarrow> (case s of (ord, es) \<Rightarrow>
     pn_id writer = pn_id reader \<or> \<not> readsWhatItWrites (pn_effects reader) (pn_effects writer)
     \<or> (pn_id reader, pn_id writer) \<in> (edgesRel es)\<^sup>* \<or> (pn_id writer, pn_id reader) \<in> (edgesRel es)\<^sup>*)"

definition addsEdges :: "(string \<Rightarrow> string list) \<times> edges \<Rightarrow> (string \<Rightarrow> string list) \<times> edges \<Rightarrow> bool" where
  "addsEdges s s' \<longleftrightarrow> edgesRel (snd s) \<subseteq> edgesRel (snd s') \<and> (\<forall>x. set (fst s x) \<subseteq> set (fst s' x))"

lemma addsEdges_refl [simp]: "addsEdges s s"
  by (simp add: addsEdges_def)

lemma addsEdges_trans: "addsEdges s t \<Longrightarrow> addsEdges t u \<Longrightarrow> addsEdges s u"
  unfolding addsEdges_def by (meson subset_trans)

lemma ranked_extends: "ranked s r w \<Longrightarrow> addsEdges s s' \<Longrightarrow> ranked s' r w"
  unfolding ranked_def addsEdges_def using rtrancl_mono by (auto split: prod.splits) blast+

lemma readerPair_ok:
  assumes "edgesOk nodes frozen s" "pn_id r \<notin> frozen" "r \<in> set nodes" "w \<in> set nodes"
  shows "edgesOk nodes frozen (readerPair r w s) \<and> addsEdges s (readerPair r w s) \<and> ranked (readerPair r w s) r w"
proof -
  obtain ord es where s: "s = (ord, es)" by (cases s)
  let ?new = "(snocAt (pn_id r) (pn_id w) ord, addEdge (pn_id r) (pn_id w) es)"
  show ?thesis
  proof (cases "pn_id w = pn_id r \<or> \<not> readsWhatItWrites (pn_effects r) (pn_effects w)
      \<or> reaches es (pn_id r) (pn_id w) \<or> reaches es (pn_id w) (pn_id r)")
    case True
    then have "readerPair r w s = s" by (auto simp: readerPair_def s)
    with True assms(1) show ?thesis by (auto simp: ranked_def s reaches_iff)
  next
    case False
    then have pair: "readerPair r w s = ?new" by (simp add: readerPair_def s)
    have key: "pn_id r \<in> fst ` set es" using assms(1,3) by (auto simp: edgesOk_def s)
    have rel: "edgesRel (addEdge (pn_id r) (pn_id w) es) = insert (pn_id r, pn_id w) (edgesRel es)"
      by (rule edgesRel_addEdge [OF key])
    have no: "(pn_id w, pn_id r) \<notin> (edgesRel es)\<^sup>*" "(pn_id r, pn_id w) \<notin> edgesRel es" using False by (auto simp: reaches_iff)
    have "acyclic (edgesRel es)" using assms(1) unfolding edgesOk_def s prod.case by (rule conjunct1)
    with no(1) have "acyclic (insert (pn_id r, pn_id w) (edgesRel es))" by (simp add: acyclic_insert)
    moreover have fresh: "pn_id w \<notin> set (ord (pn_id r))" "\<forall>n \<in> set nodes. pn_id n = pn_id r \<longrightarrow> pn_id w \<notin> set (pn_dependsOn n)"
      using no(2) assms(1) by (auto simp: edgesOk_def s edgeRel_def)
    moreover have "distinct (pn_dependsOn n @ snocAt (pn_id r) (pn_id w) ord (pn_id n))" if n: "n \<in> set nodes" for n
    proof -
      have "distinct (pn_dependsOn n @ ord (pn_id n))" using assms(1) n by (simp add: edgesOk_def s)
      moreover have "pn_id w \<notin> set (pn_dependsOn n @ ord (pn_id n))" if "pn_id n = pn_id r"
        using that n fresh by simp
      ultimately show ?thesis by (auto simp: snocAt_def)
    qed
    ultimately have "edgesOk nodes frozen ?new"
      using assms rel by (auto simp: edgesOk_def s snocAt_def simp del: distinct_append split: if_split_asm)
    moreover have "addsEdges s ?new" using rel by (auto simp: addsEdges_def s snocAt_def)
    moreover have "ranked ?new r w" using rel by (auto simp: ranked_def)
    ultimately show ?thesis by (simp add: pair)
  qed
qed

lemma readerPairs_ok:
  assumes "edgesOk nodes frozen s" "pn_id r \<notin> frozen" "r \<in> set nodes" "set ws \<subseteq> set nodes"
  shows "edgesOk nodes frozen (fold (readerPair r) ws s) \<and> addsEdges s (fold (readerPair r) ws s)
    \<and> (\<forall>w \<in> set ws. ranked (fold (readerPair r) ws s) r w)"
  using assms(1,4)
proof (induction ws arbitrary: s)
  case (Cons w ws)
  let ?s1 = "readerPair r w s"
  have s1: "edgesOk nodes frozen ?s1" "addsEdges s ?s1" "ranked ?s1 r w" using readerPair_ok [OF Cons(2) assms(2,3)] Cons(3) by simp_all
  with Cons(1) [OF s1(1)] Cons(3) addsEdges_trans [OF s1(2)] ranked_extends [OF s1(3)] show ?case by auto
qed simp

lemma readerPass_ok:
  assumes "edgesOk nodes frozen s"
  shows "edgesOk nodes frozen (readerPass frozen nodes s) \<and> addsEdges s (readerPass frozen nodes s)
    \<and> (\<forall>r \<in> set nodes. pn_id r \<notin> frozen \<longrightarrow> (\<forall>w \<in> set nodes. ranked (readerPass frozen nodes s) r w))"
proof -
  let ?f = "\<lambda>r s. if pn_id r \<in> frozen then s else fold (readerPair r) nodes s"
  have "edgesOk nodes frozen (fold ?f rs s) \<and> addsEdges s (fold ?f rs s)
      \<and> (\<forall>r \<in> set rs. pn_id r \<notin> frozen \<longrightarrow> (\<forall>w \<in> set nodes. ranked (fold ?f rs s) r w))"
    if "set rs \<subseteq> set nodes" for rs
    using assms that
  proof (induction rs arbitrary: s)
    case (Cons r rs)
    let ?s1 = "?f r s"
    have s1: "edgesOk nodes frozen ?s1" "addsEdges s ?s1" "pn_id r \<notin> frozen \<longrightarrow> (\<forall>w \<in> set nodes. ranked ?s1 r w)"
      using Cons(2,3) readerPairs_ok [OF Cons(2), of r nodes] by auto
    from Cons(1) [OF s1(1)] Cons(3) have s2: "edgesOk nodes frozen (fold ?f rs ?s1)" "addsEdges ?s1 (fold ?f rs ?s1)"
      "\<forall>r \<in> set rs. pn_id r \<notin> frozen \<longrightarrow> (\<forall>w \<in> set nodes. ranked (fold ?f rs ?s1) r w)" by simp_all
    have "pn_id r \<notin> frozen \<longrightarrow> (\<forall>w \<in> set nodes. ranked (fold ?f rs ?s1) r w)" using s1(3) ranked_extends [OF _ s2(2)] by blast
    then show ?case using s2 addsEdges_trans [OF s1(2) s2(2)] by simp
  qed simp
  then show ?thesis by (simp add: readerPass_def)
qed

section \<open>Both passes\<close>

definition grounded :: "PlanNode list \<Rightarrow> PlanNode list \<Rightarrow> bool" where
  "grounded old new \<longleftrightarrow> distinct (map pn_id (old @ new)) \<and> acyclic (edgeRel old) \<and> Range (edgeRel old) \<subseteq> pn_id ` set old
     \<and> behind (pn_id ` set old) new \<and> (\<forall>n \<in> set (old @ new). distinct (pn_dependsOn n))"

lemma orders_frozen: "pn_id ` set old \<subseteq> frozen \<Longrightarrow> orders frozen before (old @ new) = orders frozen (before \<union> pn_id ` set old) new"
  by (induction old arbitrary: before) auto

lemma orders_fst: "(x, y) \<in> orders frozen before ns \<Longrightarrow> x \<in> pn_id ` set ns \<and> x \<notin> frozen \<and> y \<in> before \<union> pn_id ` set ns"
proof (induction ns arbitrary: before)
  case (Cons n ns)
  then consider "x = pn_id n" "pn_id n \<notin> frozen" "y \<in> before" | "(x, y) \<in> orders frozen (insert (pn_id n) before) ns"
    by (auto split: if_split_asm)
  then show ?case by cases (use Cons(1) in auto)
qed simp

lemma behind_orders:
  assumes "behind before ns" "distinct (map pn_id ns)" "\<forall>n \<in> set ns. \<forall>y \<in> set (ord (pn_id n)). (pn_id n, y) \<in> orders frozen before ns"
  shows "behind before (map (\<lambda>n. n\<lparr>pn_dependsOn := pn_dependsOn n @ ord (pn_id n)\<rparr>) ns)"
  using assms
proof (induction ns arbitrary: before)
  case (Cons n ns)
  have "set (ord (pn_id n)) \<subseteq> before"
    using Cons(3,4) orders_fst [of "pn_id n" _ frozen "insert (pn_id n) before" ns] by (fastforce split: if_splits)
  moreover have "(pn_id m, y) \<in> orders frozen (insert (pn_id n) before) ns" if "m \<in> set ns" "y \<in> set (ord (pn_id m))" for m y
  proof -
    have "pn_id n \<notin> pn_id ` set ns" using Cons(3) by simp
    with that(1) have "pn_id m \<noteq> pn_id n" by (metis image_eqI)
    then show ?thesis using Cons(4) that by (auto split: if_splits)
  qed
  ultimately show ?case using Cons by simp
qed simp

lemma behind_Range: "behind before ns \<Longrightarrow> Range (edgeRel ns) \<subseteq> before \<union> pn_id ` set ns"
  by (induction ns arbitrary: before) auto

lemma edgeRel_added: "edgeRel (map (\<lambda>n. n\<lparr>pn_dependsOn := pn_dependsOn n @ ord (pn_id n)\<rparr>) ns)
    = edgeRel ns \<union> {(x, y). x \<in> pn_id ` set ns \<and> y \<in> set (ord x)}"
  by (induction ns) auto

lemma start_edges:
  assumes "grounded old new" "passOk (reachableIn (old @ new)) s"
    and "\<forall>x y. y \<in> set (ordering s x) \<longrightarrow> (x, y) \<in> orders (pn_id ` set old) {} (old @ new)"
    and "es = map (\<lambda>n. (pn_id n, foldl addOnce [] (pn_dependsOn n @ ordering s (pn_id n)))) (old @ new)"
  shows "edgesOk (old @ new) (pn_id ` set old) (ordering s, es)"
proof -
  let ?old = "pn_id ` set old" and ?ns = "old @ new" and ?o = "ordering s"
  let ?new = "map (\<lambda>n. n\<lparr>pn_dependsOn := pn_dependsOn n @ ?o (pn_id n)\<rparr>) new"
  have ids: "distinct (map pn_id ?ns)" "behind ?old new" "acyclic (edgeRel old)" "Range (edgeRel old) \<subseteq> ?old"
    using assms(1) by (simp_all add: grounded_def)
  have pos: "(x, y) \<in> orders ?old ?old new" if "y \<in> set (?o x)" for x y
    using assms(3) that orders_frozen [of old ?old "{}" new] by simp
  have only: "x \<in> pn_id ` set new" "x \<notin> ?old" "y \<in> pn_id ` set ?ns" if "y \<in> set (?o x)" for x y
    using orders_fst [OF pos [OF that]] by auto
  have key: "map_of es (pn_id n) = Some (foldl addOnce [] (pn_dependsOn n @ ?o (pn_id n)))" if "n \<in> set ?ns" for n
  proof (rule map_of_is_SomeI)
    show "distinct (map fst es)" using ids(1) by (simp add: assms(4) comp_def)
  qed (use that in \<open>auto simp: assms(4)\<close>)
  have keys: "fst ` set es = pn_id ` set ?ns" by (force simp: assms(4))
  have rel: "edgesRel es = edgeRel ?ns \<union> {(x, y). y \<in> set (?o x)}"
  proof -
    have "(x, y) \<in> edgesRel es \<longleftrightarrow> (x, y) \<in> edgeRel ?ns \<or> y \<in> set (?o x)" for x y
    proof (cases "x \<in> pn_id ` set ?ns")
      case True
      then obtain n where n: "n \<in> set ?ns" "x = pn_id n" by blast
      have "inj_on pn_id (set ?ns)" using ids(1) unfolding distinct_map by blast
      then have "(x, y) \<in> edgeRel ?ns \<longleftrightarrow> y \<in> set (pn_dependsOn n)"
        using n unfolding edgeRel_def by (auto simp del: set_append dest: inj_onD)
      moreover have "(x, y) \<in> edgesRel es \<longleftrightarrow> y \<in> set (foldl addOnce [] (pn_dependsOn n @ ?o (pn_id n)))"
        by (simp add: edgesRel_def nexts_def key [OF n(1)] n(2))
      ultimately show ?thesis using n(2) by (simp only: foldl_addOnce(1)) auto
    next
      case False
      then have "nexts es x = []" by (intro nexts_outside) (simp only: keys, simp)
      moreover have "(x, y) \<notin> edgeRel ?ns" using False by (auto simp: edgeRel_def)
      moreover have "y \<notin> set (?o x)" using False only(1) [of y x] by auto
      ultimately show ?thesis by (simp add: edgesRel_def)
    qed
    then show ?thesis by auto
  qed
  have "behind ?old ?new"
    using ids pos by (intro behind_orders) auto
  then have "acyclic (edgeRel old \<union> edgeRel ?new)"
  proof (rule behind_acyclic)
    show "Field (edgeRel old) \<subseteq> ?old" using ids(4) by (auto simp: Field_def edgeRel_def)
    have disj: "?old \<inter> pn_id ` set new = {}" using ids(1) by simp
    then show "pn_id ` set ?new \<inter> ?old = {}" by (simp add: image_image Int_commute)
  qed (use ids in \<open>auto simp: comp_def\<close>)
  moreover have "edgeRel old \<union> edgeRel ?new = edgesRel es" unfolding edgeRel_added rel using only(1) by auto
  ultimately have "acyclic (edgesRel es)" by simp
  moreover have "distinct (pn_dependsOn n @ ?o (pn_id n))" if "n \<in> set ?ns" for n
    using assms(1,2) reachableIn_direct [OF ids(1) that] that by (auto simp: grounded_def passOk_def)
  moreover have "?o x = []" if "x \<in> ?old" for x using only(2) [of _ x] that by (cases "?o x") auto
  moreover have "set (?o x) \<subseteq> pn_id ` set ?ns" for x using only(3) [of _ x] by auto
  moreover have "x \<in> pn_id ` set ?ns" if "?o x \<noteq> []" for x using only(1) [of _ x] that by (cases "?o x") auto
  ultimately show ?thesis unfolding edgesOk_def prod.case using rel keys by blast
qed

text \<open>What holds of pairs in an annotated graph.\<close>

definition writersOk :: "PlanNode list \<Rightarrow> PlanNode \<Rightarrow> PlanNode \<Rightarrow> bool" where
  "writersOk nodes earlier later \<longleftrightarrow>
     overlapping (pn_effects earlier) (pn_effects later) = [] \<or> (pn_id later, pn_id earlier) \<in> (edgeRel nodes)\<^sup>+
     \<or> pairStrategy (pn_strategy earlier) (pn_strategy later) = Lane
       \<and> (\<exists>a \<in> set (pn_conflicts later). ca_with a = pn_id earlier \<and> ca_strategy a = Lane)"

definition readersOk :: "PlanNode list \<Rightarrow> PlanNode \<Rightarrow> PlanNode \<Rightarrow> bool" where
  "readersOk nodes reader writer \<longleftrightarrow> pn_id writer = pn_id reader \<or> \<not> readsWhatItWrites (pn_effects reader) (pn_effects writer)
     \<or> (pn_id reader, pn_id writer) \<in> (edgeRel nodes)\<^sup>+ \<or> (pn_id writer, pn_id reader) \<in> (edgeRel nodes)\<^sup>+"

lemma annotate_ok:
  assumes "annotate (old @ new) (pn_id ` set old) = Inr nodes" "grounded old new"
  obtains f where "nodes = old @ map f new"
    "\<And>n. f n = n\<lparr>pn_conflicts := pn_conflicts (f n), pn_dependsOn := pn_dependsOn (f n)\<rparr>"
    "\<And>n. set (pn_dependsOn n) \<subseteq> set (pn_dependsOn (f n))"
    "acyclic (edgeRel nodes)" "Range (edgeRel nodes) \<subseteq> pn_id ` set nodes" "\<forall>n \<in> set nodes. distinct (pn_dependsOn n)"
    "edgeRel old \<subseteq> edgeRel nodes"
    "\<forall>e \<in> set old. \<forall>l \<in> set new. writersOk nodes e (f l)" "sorted_wrt (\<lambda>e l. writersOk nodes (f e) (f l)) new"
    "\<forall>r \<in> set (map f new). \<forall>w \<in> set nodes. readersOk nodes r w"
proof -
  let ?ns = "old @ new" and ?old = "pn_id ` set old"
  let ?s0 = "\<lparr>closure = reachableIn ?ns, conflictsOf = (\<lambda>_. []), ordering = (\<lambda>_. [])\<rparr>"
  from assms(1) obtain s where s: "conflictPass ?old [] ?ns ?s0 = Inr s" by (auto simp: annotate_def split: sum.splits)
  define es where "es = map (\<lambda>n. (pn_id n, foldl addOnce [] (pn_dependsOn n @ ordering s (pn_id n)))) ?ns"
  obtain added es' where pass: "readerPass ?old ?ns (ordering s, es) = (added, es')" by fastforce
  define f where "f n = n\<lparr>pn_conflicts := conflictsOf s (pn_id n), pn_dependsOn := pn_dependsOn n @ added (pn_id n)\<rparr>" for n :: PlanNode
  have ids: "distinct (map pn_id ?ns)" using assms(2) by (simp add: grounded_def)
  have "nodes = map (\<lambda>n. if pn_id n \<in> ?old then n else f n) ?ns"
    using assms(1) s pass unfolding annotate_def Let_def es_def f_def
    by (simp del: map_append foldl_append)
  moreover have "map (\<lambda>n. if pn_id n \<in> ?old then n else f n) new = map f new" using ids by auto
  moreover have "map (\<lambda>n. if pn_id n \<in> ?old then n else f n) old = old" by (rule map_idI) simp
  ultimately have nodes: "nodes = old @ map f new" by simp
  note c = conflictPass_Inr [OF s, of "reachableIn ?ns"]
  have ok: "passOk (reachableIn ?ns) s" using c by (simp add: passOk_def)
  have "edgesOk ?ns ?old (ordering s, es)"
    by (rule start_edges [OF assms(2) ok _ es_def]) (use c in simp)
  from readerPass_ok [OF this] have r: "edgesOk ?ns ?old (added, es')" "addsEdges (ordering s, es) (added, es')"
    "\<forall>r \<in> set ?ns. pn_id r \<notin> ?old \<longrightarrow> (\<forall>w \<in> set ?ns. ranked (added, es') r w)" by (simp_all add: pass)
  have in_new: "x \<in> pn_id ` set new" if "y \<in> set (added x)" for x y
  proof -
    have "added x \<noteq> []" using that by auto
    then have "x \<in> pn_id ` set ?ns" "x \<notin> ?old" using r(1) unfolding edgesOk_def prod.case by blast+
    then show ?thesis by auto
  qed
  have "edgeRel (map f new) = edgeRel (map (\<lambda>n. n\<lparr>pn_dependsOn := pn_dependsOn n @ added (pn_id n)\<rparr>) new)"
    by (induction new) (simp_all add: f_def)
  then have rel: "edgeRel nodes = edgesRel es'"
    using r(1) in_new unfolding nodes by (auto simp: edgeRel_added edgesOk_def)
  have same [simp]: "pn_id (f n) = pn_id n" "pn_effects (f n) = pn_effects n" "pn_strategy (f n) = pn_strategy n"
    "pn_conflicts (f n) = conflictsOf s (pn_id n)" for n by (simp_all add: f_def)
  have all_ids: "pn_id ` set nodes = pn_id ` set ?ns" by (simp add: nodes image_Un image_image)
  have grow: "edgeRel ?ns \<subseteq> edgeRel nodes" unfolding rel using r(1) by (auto simp: edgesOk_def)
  have edge: "(x, y) \<in> edgeRel nodes" if "y \<in> set (ordering s x)" for x y
    using r(1,2) that unfolding rel by (auto simp: edgesOk_def addsEdges_def)
  have writers: "writersOk nodes e' (f l)"
    if "settledUnless ?old s e l" "l \<in> set new" "e' = e \<or> e' = f e" for e e' l
  proof -
    have "pn_id l \<notin> ?old" using that(2) ids by auto
    with that(1) have "settled ?old s e l" by simp
    then consider "overlapping (pn_effects e) (pn_effects l) = []" | "pn_id e \<in> reachableIn ?ns (pn_id l) \<union> set (ordering s (pn_id l))"
      | "pairStrategy (pn_strategy e) (pn_strategy l) = Lane" "annotated (conflictsOf s) l e"
      using ok by (auto simp: settled_def passOk_def)
    then show ?thesis
    proof cases
      case 2
      then have "(pn_id l, pn_id e) \<in> (edgeRel nodes)\<^sup>+"
        using reachableIn_sound trancl_mono [OF _ grow] edge by blast
      then show ?thesis using that(3) by (auto simp: writersOk_def)
    qed (use that(3) in \<open>auto simp: writersOk_def annotated_def\<close>)
  qed
  have readers: "readersOk nodes (f r) w'" if "r \<in> set new" "w \<in> set ?ns" "w' = w \<or> w' = f w" for r w w'
  proof -
    have "pn_id r \<notin> ?old" using that(1) ids by auto
    then have "ranked (added, es') r w" using that(1,2) r(3) by simp
    then show ?thesis using that(3) unfolding readersOk_def ranked_def prod.case rel by (auto dest: rtranclD)
  qed
  show thesis
  proof (rule that [OF nodes])
    show "f n = n\<lparr>pn_conflicts := pn_conflicts (f n), pn_dependsOn := pn_dependsOn (f n)\<rparr>" for n by (simp add: f_def)
    show "set (pn_dependsOn n) \<subseteq> set (pn_dependsOn (f n))" for n by (simp add: f_def)
    show "acyclic (edgeRel nodes)" unfolding rel using r(1) unfolding edgesOk_def prod.case by (rule conjunct1)
    have "Range (edgeRel ?ns) \<subseteq> pn_id ` set ?ns" using assms(2) behind_Range [of ?old new] by (auto simp: grounded_def)
    then show "Range (edgeRel nodes) \<subseteq> pn_id ` set nodes"
      unfolding all_ids unfolding rel using r(1) by (auto simp: edgesOk_def)
    have "distinct (pn_dependsOn n @ added (pn_id n))" if "n \<in> set ?ns" for n using r(1) that unfolding edgesOk_def prod.case by blast
    then show "\<forall>n \<in> set nodes. distinct (pn_dependsOn n)" using assms(2) by (auto simp: nodes f_def grounded_def)
    show "edgeRel old \<subseteq> edgeRel nodes" by (auto simp: nodes)
    have "\<forall>e \<in> set old. \<forall>l \<in> set new. settledUnless ?old s e l" and late: "sorted_wrt (settledUnless ?old s) new"
      using c by (simp_all add: sorted_wrt_append)
    then show "\<forall>e \<in> set old. \<forall>l \<in> set new. writersOk nodes e (f l)" using writers by (intro ballI) blast
    show "sorted_wrt (\<lambda>e l. writersOk nodes (f e) (f l)) new"
    proof (rule sorted_wrt_mono_rel [OF _ late])
      show "writersOk nodes (f e) (f l)" if "l \<in> set new" "settledUnless ?old s e l" for e l using writers [OF that(2,1)] by blast
    qed
    show "\<forall>r \<in> set (map f new). \<forall>w \<in> set nodes. readersOk nodes r w" using readers by (auto simp: nodes)
  qed
qed

end
