(* ===== verification/StepKey_Meaning.thy ===== *)
theory StepKey_Meaning
  imports StepKey
begin

text \<open>
  What a key says: two keys made under a digest that does not collide are equal exactly when the materials
  declare the same and consume the same keys. Documents are compared by their normal forms, and those,
  for objects, member by member.
\<close>

section \<open>Objects member by member\<close>

definition shown :: "JsValue \<Rightarrow> JsValue option" where
  "shown v = (if absent v then None else Some (normal v))"

lemma shown_simps [simp]:
  "shown JsUndefined = None" "shown (JsStr s) = Some (JsStr s)" "shown (JsBool b) = Some (JsBool b)"
  "shown (JsObj fs) = Some (normal (JsObj fs))" "shown (JsArr vs) = Some (normal (JsArr vs))"
  by (simp_all add: shown_def)

lemma map_of_shown:
  "distinct (map fst fs) \<Longrightarrow> map_of (map (\<lambda>(k, v). (k, normal v)) (filter (\<lambda>(k, v). \<not> absent v) fs)) k = Option.bind (map_of fs k) shown"
  by (induction fs) (auto simp: shown_def map_of_eq_None_iff image_iff split: option.splits)

lemma sort_key_eq_iff:
  fixes xs ys :: "('k :: linorder \<times> 'v) list"
  assumes "distinct (map fst xs)" "distinct (map fst ys)"
  shows "sort_key fst xs = sort_key fst ys \<longleftrightarrow> set xs = set ys"
proof
  assume eq: "set xs = set ys"
  have d: "distinct (map fst (sort_key fst zs))" if "distinct (map fst zs)" for zs :: "('k \<times> 'v) list"
    using that by (simp add: distinct_map)
  show "sort_key fst xs = sort_key fst ys"
  proof (rule map_sorted_distinct_set_unique [where f = fst])
    show "inj_on fst (set (sort_key fst xs) \<union> set (sort_key fst ys))" using assms(1) eq by (simp add: distinct_map)
  qed (use eq d assms in simp_all)
next
  assume "sort_key fst xs = sort_key fst ys"
  from arg_cong [OF this, of set] show "set xs = set ys" by simp
qed

lemma normal_object_eq:
  assumes "distinct (map fst fs)" "distinct (map fst gs)"
  shows "normal (JsObj fs) = normal (JsObj gs) \<longleftrightarrow> (\<forall>k. Option.bind (map_of fs k) shown = Option.bind (map_of gs k) shown)"
proof -
  let ?n = "\<lambda>fs. map (\<lambda>(k, v). (k, normal v)) (filter (\<lambda>(k, v). \<not> absent v) fs)"
  have d: "distinct (map fst (?n hs))" if "distinct (map fst hs)" for hs
    using that by (induction hs) (auto simp: image_iff)
  have set_eq: "set (?n fs) = set (?n gs) \<longleftrightarrow> map_of (?n fs) = map_of (?n gs)"
    using d [OF assms(1)] d [OF assms(2)] by (rule map_of_inject_set [symmetric])
  have "sort_key fst (?n fs) = sort_key fst (?n gs) \<longleftrightarrow> set (?n fs) = set (?n gs)"
    by (rule sort_key_eq_iff [OF d [OF assms(1)] d [OF assms(2)]])
  then show ?thesis using set_eq map_of_shown [OF assms(1)] map_of_shown [OF assms(2)] by (simp add: fun_eq_iff)
qed

lemma inj_unit16: "inj unit16"
proof (rule injI)
  fix c d assume "unit16 c = unit16 d"
  then have "unat (unit16 c) = unat (unit16 d)" by simp
  then show "c = d" by simp
qed

lemma ascii_eq [simp]: "ascii s = ascii t \<longleftrightarrow> s = t"
  by (simp add: ascii_def inj_map_eq_map [OF inj_unit16])

lemma inj_ascii: "inj ascii"
  by (simp add: inj_def)

lemma keys_jsRecord: "map fst (map (apfst ascii) fs) = map ascii (map fst fs)"
  by (induction fs) auto

lemma distinct_jsRecord: "distinct (map fst fs) \<Longrightarrow> distinct (map fst (map (apfst ascii) fs))"
  unfolding keys_jsRecord by (simp add: distinct_map inj_ascii inj_on_def)

lemma map_of_jsRecord: "map_of (map (apfst ascii) fs) (ascii k) = map_of fs k"
  by (induction fs) auto

lemma map_of_jsRecord_None: "k \<notin> range ascii \<Longrightarrow> map_of (map (apfst ascii) fs) k = None"
  by (induction fs) auto

lemma normal_record_eq:
  assumes "distinct (map fst fs)" "distinct (map fst gs)"
  shows "normal (jsRecord fs) = normal (jsRecord gs) \<longleftrightarrow> (\<forall>k. Option.bind (map_of fs k) shown = Option.bind (map_of gs k) shown)"
  unfolding jsRecord_def normal_object_eq [OF distinct_jsRecord [OF assms(1)] distinct_jsRecord [OF assms(2)]]
proof
  assume all: "\<forall>k. Option.bind (map_of (map (apfst ascii) fs) k) shown = Option.bind (map_of (map (apfst ascii) gs) k) shown"
  show "\<forall>k. Option.bind (map_of fs k) shown = Option.bind (map_of gs k) shown"
    using all [rule_format, of "ascii _"] by (simp add: map_of_jsRecord)
next
  assume all: "\<forall>k. Option.bind (map_of fs k) shown = Option.bind (map_of gs k) shown"
  show "\<forall>k. Option.bind (map_of (map (apfst ascii) fs) k) shown = Option.bind (map_of (map (apfst ascii) gs) k) shown"
  proof
    fix k show "Option.bind (map_of (map (apfst ascii) fs) k) shown = Option.bind (map_of (map (apfst ascii) gs) k) shown"
      by (cases "k \<in> range ascii") (use all in \<open>auto simp del: map_map simp: map_of_jsRecord map_of_jsRecord_None\<close>)
  qed
qed

text \<open>Records with one list of keys.\<close>

lemma normal_record_zip:
  assumes "distinct ks" "length vs = length ks" "length ws = length ks"
  shows "normal (jsRecord (zip ks vs)) = normal (jsRecord (zip ks ws)) \<longleftrightarrow> list_all2 (\<lambda>v w. shown v = shown w) vs ws"
proof -
  have at: "map_of (zip ks us) (ks ! i) = Some (us ! i)" if "i < length ks" "length us = length ks" for us :: "JsValue list" and i
    using that assms(1) by (simp add: map_of_zip_nth)
  have out: "map_of (zip ks us) k = None" if "k \<notin> set ks" for us :: "JsValue list" and k
    using that by (auto simp: map_of_eq_None_iff dest: in_set_zipE elim!: in_set_zipE)
  have "(\<forall>k. Option.bind (map_of (zip ks vs) k) shown = Option.bind (map_of (zip ks ws) k) shown)
      \<longleftrightarrow> (\<forall>i < length ks. shown (vs ! i) = shown (ws ! i))" (is "?L \<longleftrightarrow> ?R")
  proof
    assume ?L
    show ?R
    proof (intro allI impI)
      fix i assume "i < length ks"
      with \<open>?L\<close> [rule_format, of "ks ! i"] at assms(2,3) show "shown (vs ! i) = shown (ws ! i)" by simp
    qed
  next
    assume ?R
    show ?L
    proof
      fix k show "Option.bind (map_of (zip ks vs) k) shown = Option.bind (map_of (zip ks ws) k) shown"
        by (cases "k \<in> set ks") (use \<open>?R\<close> at assms(2,3) out in \<open>auto simp: in_set_conv_nth\<close>)
    qed
  qed
  then show ?thesis using assms by (simp add: normal_record_eq list_all2_conv_all_nth)
qed

text \<open>An optional member is a member that may be \<open>undefined\<close>.\<close>

definition optional :: "('a \<Rightarrow> JsValue) \<Rightarrow> 'a option \<Rightarrow> JsValue" where
  "optional f x = (case x of None \<Rightarrow> JsUndefined | Some a \<Rightarrow> f a)"

lemma optional_simps [simp]: "optional f None = JsUndefined" "optional f (Some a) = f a"
  by (simp_all add: optional_def)

lemma normal_opt: "normal (jsRecord (fs @ opt k f x @ gs)) = normal (jsRecord (fs @ [(k, optional f x)] @ gs))"
  by (cases x) (simp_all add: opt_def jsRecord_def)

lemma jsText_eq [simp]: "jsText s = jsText t \<longleftrightarrow> s = t"
  by (simp add: jsText_def)

lemma jsTexts_eq [simp]: "jsTexts ss = jsTexts ts \<longleftrightarrow> ss = ts"
proof -
  have "inj jsText" by (simp add: inj_def)
  then show ?thesis by (simp add: jsTexts_def inj_map_eq_map)
qed

lemma shown_text [simp]: "shown (jsText s) = Some (jsText s)"
  by (simp add: jsText_def)

lemma shown_texts [simp]: "shown (jsTexts ss) = Some (jsTexts ss)"
  by (simp add: jsTexts_def jsText_def)

lemma shown_record [simp]: "shown (jsRecord fs) = Some (normal (jsRecord fs))"
  by (simp add: jsRecord_def)

section \<open>Values that have a document\<close>

definition wellTyped :: "JsValue \<Rightarrow> bool" where
  "wellTyped v \<longleftrightarrow> absent v \<or> hasText v \<and> regular v"

lemma hasText_record [simp]: "hasText (jsRecord fs)"
  by (simp add: jsRecord_def)

lemma regular_record: "distinct (map fst fs) \<Longrightarrow> \<forall>v \<in> set (map snd fs). wellTyped v \<Longrightarrow> regular (jsRecord fs)"
  using distinct_jsRecord [of fs] by (auto simp: jsRecord_def wellTyped_def list_all_iff)

lemma wellTyped_simps [simp]:
  "wellTyped JsUndefined" "wellTyped (JsBool b)" "wellTyped (jsText t)" "wellTyped (jsTexts ts)"
  "wellTyped (jsRecord fs) = regular (jsRecord fs)" "wellTyped (JsArr vs) = (\<forall>v \<in> set vs. wellTyped v)"
  by (auto simp: wellTyped_def jsText_def jsTexts_def jsRecord_def list_all_iff)

lemma wellTyped_optional: "(\<And>a. x = Some a \<Longrightarrow> wellTyped (f a)) \<Longrightarrow> wellTyped (optional f x)"
  by (cases x) simp_all

section \<open>Inputs\<close>

definition inputKeys :: "string list" where
  "inputKeys = [''kind'', ''value'', ''digest'', ''reference'', ''path'']"

fun inputFields :: "InputValue \<Rightarrow> JsValue list" where
  "inputFields (Plain v) = [jsText ''literal'', v, JsUndefined, JsUndefined, JsUndefined]"
| "inputFields (DigestInput d r p) =
     [jsText ''digest'', JsUndefined, jsText d, optional (\<lambda>r. jsText (referenceText r)) r, optional jsTexts p]"

lemma normal_input: "normal (normalizeInput x) = normal (jsRecord (zip inputKeys (inputFields x)))"
  by (cases x; cases "case x of Plain v \<Rightarrow> None | DigestInput d r p \<Rightarrow> r"; cases "case x of Plain v \<Rightarrow> None | DigestInput d r p \<Rightarrow> p")
    (auto simp: inputKeys_def jsRecord_def opt_def jsText_def jsTexts_def split: option.splits)

lemma input_eq: "normal (normalizeInput x) = normal (normalizeInput y)
    \<longleftrightarrow> list_all2 (\<lambda>v w. shown v = shown w) (inputFields x) (inputFields y)"
  unfolding normal_input by (rule normal_record_zip) (cases x; cases y; simp add: inputKeys_def)+

lemma regular_input: "(\<And>v. x = Plain v \<Longrightarrow> wellTyped v) \<Longrightarrow> wellTyped (normalizeInput x)"
  by (cases x) (auto intro!: regular_record simp: opt_def split: option.splits)

fun inputValue :: "(string \<rightharpoonup> string) \<Rightarrow> InputRef \<Rightarrow> InputValue" where
  "inputValue D (LiteralInput v) = Plain v"
| "inputValue D (PendingInput from) = DigestInput (the (D from)) (Some PendingReference) None"
| "inputValue D (RefInput from path) = (if path \<noteq> [] then DigestInput (the (D from)) (Some ProjectedReference) (Some path)
     else DigestInput (the (D from)) (Some RefReference) None)"

lemma resolveInputs_Inr:
  "resolveInputs D n inputs = Inr ins \<longleftrightarrow>
     (\<forall>i \<in> set inputs. \<forall>from. inputFrom i = Some from \<longrightarrow> D from \<noteq> None)
     \<and> ins = zip (map show_nat [n..<n + length inputs]) (map (inputValue D) inputs)"
proof (induction D n inputs arbitrary: ins rule: resolveInputs.induct)
  case (2 D n v inputs)
  then show ?case by (auto simp: upt_conv_Cons simp del: upt_Suc)
next
  case (3 D n x inputs)
  then show ?case by (cases "D x") (auto simp: upt_conv_Cons simp del: upt_Suc)
next
  case (4 D n x path inputs)
  then show ?case by (cases "D x") (auto simp: upt_conv_Cons simp del: upt_Suc)
qed auto

text \<open>Declared alike and resolved alike.\<close>

fun sameInput :: "(string \<rightharpoonup> string) \<Rightarrow> (string \<rightharpoonup> string) \<Rightarrow> InputRef \<Rightarrow> InputRef \<Rightarrow> bool" where
  "sameInput D E (LiteralInput v) (LiteralInput w) = (shown v = shown w)"
| "sameInput D E (PendingInput f) (PendingInput g) = (D f = E g)"
| "sameInput D E (RefInput f p) (RefInput g q) = (D f = E g \<and> p = q)"
| "sameInput D E _ _ = False"

lemma sameInput_iff:
  assumes "\<forall>from. inputFrom i = Some from \<longrightarrow> D from \<noteq> None" "\<forall>from. inputFrom j = Some from \<longrightarrow> E from \<noteq> None"
  shows "normal (normalizeInput (inputValue D i)) = normal (normalizeInput (inputValue E j)) \<longleftrightarrow> sameInput D E i j"
  unfolding input_eq using assms by (cases i; cases j) (auto simp: referenceText_def split: if_splits)

lemma index_record_eq:
  assumes "\<forall>v \<in> set vs. \<not> absent v" "\<forall>w \<in> set ws. \<not> absent w"
  shows "normal (jsRecord (zip (map show_nat [0..<length vs]) vs)) = normal (jsRecord (zip (map show_nat [0..<length ws]) ws))
    \<longleftrightarrow> list_all2 (\<lambda>v w. normal v = normal w) vs ws"
proof -
  let ?r = "\<lambda>us. zip (map show_nat [0..<length us]) us"
  have d: "distinct (map fst (?r us))" for us :: "JsValue list" by (simp add: distinct_map inj_on_def)
  have at: "map_of (?r us) (show_nat i) = (if i < length us then Some (us ! i) else None)" for us :: "JsValue list" and i
  proof (cases "i < length us")
    case True
    then have "(map show_nat [0..<length us] ! i, us ! i) \<in> set (?r us)" unfolding in_set_zip by (intro exI [of _ i]) simp
    with True d [of us] show ?thesis by (simp add: map_of_is_SomeI)
  next
    case False
    then show ?thesis by (auto simp: map_of_eq_None_iff in_set_zip)
  qed
  show ?thesis
  proof (cases "length vs = length ws")
    case True
    have "normal (jsRecord (?r vs)) = normal (jsRecord (?r ws)) \<longleftrightarrow> list_all2 (\<lambda>v w. shown v = shown w) vs ws"
      unfolding True by (rule normal_record_zip) (simp_all add: distinct_map inj_on_def True)
    also have "\<dots> \<longleftrightarrow> list_all2 (\<lambda>v w. normal v = normal w) vs ws"
      using assms by (intro list.rel_cong refl) (simp add: shown_def)
    finally show ?thesis .
  next
    case False
    have "normal (jsRecord (?r vs)) \<noteq> normal (jsRecord (?r ws))"
    proof
      assume "normal (jsRecord (?r vs)) = normal (jsRecord (?r ws))"
      then have all: "Option.bind (map_of (?r vs) k) shown = Option.bind (map_of (?r ws) k) shown" for k
        using normal_record_eq [OF d d] by blast
      from False consider "length vs < length ws" | "length ws < length vs" by linarith
      then show False
      proof cases
        case 1
        with all [of "show_nat (length vs)"] at assms(2) show False by (simp add: shown_def)
      next
        case 2
        with all [of "show_nat (length ws)"] at assms(1) show False by (simp add: shown_def)
      qed
    qed
    with False show ?thesis by (auto dest: list_all2_lengthD)
  qed
qed

section \<open>Materials\<close>

definition materialIdentity :: "(string \<rightharpoonup> string) \<Rightarrow> KeyMaterial \<Rightarrow> ContentIdentity" where
  "materialIdentity D m = \<lparr>ci_body = materialBody m,
     ci_inputs = zip (map show_nat [0..<length (km_inputs m)]) (map (inputValue D) (km_inputs m)),
     ci_layers = km_layers m, ci_capabilities = [(''declared'', km_capabilities m)], ci_environment = None, ci_hermetic = None\<rparr>"

definition resolved :: "(string \<rightharpoonup> string) \<Rightarrow> KeyMaterial \<Rightarrow> bool" where
  "resolved D m \<longleftrightarrow> (\<forall>i \<in> set (km_inputs m). \<forall>x. inputFrom i = Some x \<longrightarrow> D x \<noteq> None)"

text \<open>The document a key is the digest of.\<close>

definition materialDocument :: "(string \<rightharpoonup> string) \<Rightarrow> KeyMaterial \<Rightarrow> JsError + units" where
  "materialDocument D m = canonicalDocument (contentValue (materialIdentity D m))"

lemma fromKeyMaterial_Inr: "fromKeyMaterial sha m D = Inr k \<longleftrightarrow>
    km_kind m = Sealed \<and> resolved D m \<and> (\<exists>d. materialDocument D m = Inr d \<and> hexText (sha d) \<and> k = ''key1_'' @ sha d)"
proof (cases "km_kind m = Sealed \<and> resolved D m")
  case True
  then have "resolveInputs D 0 (km_inputs m) = Inr (zip (map show_nat [0..<length (km_inputs m)]) (map (inputValue D) (km_inputs m)))"
    by (simp add: resolveInputs_Inr resolved_def)
  then show ?thesis using True
    by (auto simp: fromKeyMaterial_def contentKey_def decodeKey_def materialDocument_def materialIdentity_def split: sum.splits)
next
  case False
  have "\<nexists>ins. resolveInputs D 0 (km_inputs m) = Inr ins" if "\<not> resolved D m"
    using that unfolding resolveInputs_Inr resolved_def by blast
  with False show ?thesis by (auto simp: fromKeyMaterial_def split: sum.splits)
qed

definition plainMaterial :: "KeyMaterial \<Rightarrow> bool" where
  "plainMaterial m \<longleftrightarrow> wellTyped (km_body m) \<and> (\<forall>v. LiteralInput v \<in> set (km_inputs m) \<longrightarrow> wellTyped v)
     \<and> pred_option wellTyped (km_effects m) \<and> pred_option wellTyped (km_placement m)"

definition sameMaterial :: "(string \<rightharpoonup> string) \<Rightarrow> (string \<rightharpoonup> string) \<Rightarrow> KeyMaterial \<Rightarrow> KeyMaterial \<Rightarrow> bool" where
  "sameMaterial D E m n \<longleftrightarrow> km_version m = km_version n \<and> km_nondeterministic m = km_nondeterministic n
     \<and> shown (km_body m) = shown (km_body n) \<and> list_all2 (sameInput D E) (km_inputs m) (km_inputs n)
     \<and> set (km_layers m) = set (km_layers n) \<and> set (km_capabilities m) = set (km_capabilities n)
     \<and> shown (optional id (km_effects m)) = shown (optional id (km_effects n))
     \<and> shown (optional id (km_placement m)) = shown (optional id (km_placement n))"

lemma sortStrings_eq [simp]: "sortStrings xs = sortStrings ys \<longleftrightarrow> set xs = set ys"
proof
  have set_eq: "set (sortStrings zs) = set zs" for zs by (simp add: sortStrings_def)
  assume "sortStrings xs = sortStrings ys"
  from arg_cong [OF this, of set] show "set xs = set ys" unfolding set_eq .
next
  assume "set xs = set ys"
  then have "sorted_list_of_set (set xs) = sorted_list_of_set (set ys)" by (rule arg_cong)
  then show "sortStrings xs = sortStrings ys" unfolding sortStrings_def sorted_list_of_set_sort_remdups .
qed

definition bodyKeys :: "string list" where
  "bodyKeys = [''version'', ''declaration'', ''nondeterministic'', ''effects'', ''placement'']"

definition materialFields :: "KeyMaterial \<Rightarrow> JsValue list" where
  "materialFields m = [jsText (km_version m), km_body m, if km_nondeterministic m then JsBool True else JsUndefined,
     optional id (km_effects m), optional id (km_placement m)]"

lemma normal_body: "normal (materialBody m) = normal (jsRecord (zip bodyKeys (materialFields m)))"
proof -
  let ?vd = "[(''version'', jsText (km_version m)), (''declaration'', km_body m)]"
  define b where "b = (if km_nondeterministic m then Some True else None)"
  have b: "(if km_nondeterministic m then [(''nondeterministic'', JsBool True)] else []) = opt ''nondeterministic'' JsBool b"
    "(if km_nondeterministic m then JsBool True else JsUndefined) = optional JsBool b"
    by (simp_all add: b_def opt_def)
  have "normal (materialBody m) = normal (jsRecord ((?vd @ opt ''nondeterministic'' JsBool b @ opt ''effects'' id (km_effects m)) @ opt ''placement'' id (km_placement m) @ []))"
    by (simp only: materialBody_def b append_assoc append_Nil2)
  also have "\<dots> = normal (jsRecord ((?vd @ opt ''nondeterministic'' JsBool b) @ opt ''effects'' id (km_effects m) @ [(''placement'', optional id (km_placement m))]))"
    using normal_opt [of "?vd @ opt ''nondeterministic'' JsBool b @ opt ''effects'' id (km_effects m)" "''placement''" id _ "[]"] by (simp only: append_assoc append_Nil2)
  also have "\<dots> = normal (jsRecord (?vd @ opt ''nondeterministic'' JsBool b @ [(''effects'', optional id (km_effects m)), (''placement'', optional id (km_placement m))]))"
    using normal_opt [of "?vd @ opt ''nondeterministic'' JsBool b" "''effects''"] by (simp only: append_assoc append_Nil append_Cons)
  also have "\<dots> = normal (jsRecord (zip bodyKeys (materialFields m)))"
    using normal_opt [of ?vd "''nondeterministic''"] by (simp only: bodyKeys_def materialFields_def b zip_Cons_Cons zip_Nil append_Nil append_Cons)
  finally show ?thesis .
qed

lemma body_eq: "normal (materialBody m) = normal (materialBody n) \<longleftrightarrow> km_version m = km_version n
    \<and> km_nondeterministic m = km_nondeterministic n \<and> shown (km_body m) = shown (km_body n)
    \<and> shown (optional id (km_effects m)) = shown (optional id (km_effects n))
    \<and> shown (optional id (km_placement m)) = shown (optional id (km_placement n))"
proof -
  have "normal (materialBody m) = normal (materialBody n) \<longleftrightarrow> list_all2 (\<lambda>v w. shown v = shown w) (materialFields m) (materialFields n)"
    unfolding normal_body by (rule normal_record_zip) (simp_all add: bodyKeys_def materialFields_def)
  then show ?thesis by (auto simp: materialFields_def split: if_splits)
qed

lemma inputs_eq:
  assumes "resolved D m" "resolved E n"
  shows "normal (normalizeInputs (ci_inputs (materialIdentity D m))) = normal (normalizeInputs (ci_inputs (materialIdentity E n)))
    \<longleftrightarrow> list_all2 (sameInput D E) (km_inputs m) (km_inputs n)"
proof -
  have norm: "normalizeInputs (ci_inputs (materialIdentity D m))
      = jsRecord (zip (map show_nat [0..<length (map (\<lambda>i. normalizeInput (inputValue D i)) (km_inputs m))]) (map (\<lambda>i. normalizeInput (inputValue D i)) (km_inputs m)))" for D m
    by (simp add: normalizeInputs_def materialIdentity_def zip_map2 apsnd_def map_prod_def comp_def case_prod_unfold)
  have here: "\<not> absent (normalizeInput x)" for x by (cases x) (simp_all add: jsRecord_def)
  have one: "normal (normalizeInput (inputValue D i)) = normal (normalizeInput (inputValue E j)) \<longleftrightarrow> sameInput D E i j"
    if "i \<in> set (km_inputs m)" "j \<in> set (km_inputs n)" for i j
    by (rule sameInput_iff) (use that assms in \<open>simp_all add: resolved_def\<close>)
  have "normal (normalizeInputs (ci_inputs (materialIdentity D m))) = normal (normalizeInputs (ci_inputs (materialIdentity E n)))
      \<longleftrightarrow> list_all2 (\<lambda>v w. normal v = normal w) (map (\<lambda>i. normalizeInput (inputValue D i)) (km_inputs m)) (map (\<lambda>i. normalizeInput (inputValue E i)) (km_inputs n))"
    unfolding norm by (rule index_record_eq) (use here in simp_all)
  also have "\<dots> \<longleftrightarrow> list_all2 (\<lambda>i j. normal (normalizeInput (inputValue D i)) = normal (normalizeInput (inputValue E j))) (km_inputs m) (km_inputs n)"
    by (simp add: list.rel_map)
  also have "\<dots> \<longleftrightarrow> list_all2 (sameInput D E) (km_inputs m) (km_inputs n)"
    using one by (intro list.rel_cong refl)
  finally show ?thesis .
qed

definition contentKeys :: "string list" where
  "contentKeys = [''kind'', ''body'', ''inputs'', ''layers'', ''capabilities'']"

lemma contentValue_zip: "contentValue (materialIdentity D m) = jsRecord (zip contentKeys [jsText ''content'', materialBody m,
    normalizeInputs (ci_inputs (materialIdentity D m)), jsTexts (sortStrings (km_layers m)), normalizeCapabilities [(''declared'', km_capabilities m)]])"
  by (simp add: contentValue_def materialIdentity_def contentKeys_def opt_def)

lemma normal_texts: "normal (jsTexts ss) = jsTexts ss"
  by (induction ss) (simp_all add: jsTexts_def jsText_def)

lemma normalCapabilities_eq:
  "normal (normalizeCapabilities [(g, cs)]) = normal (normalizeCapabilities [(g, ds)]) \<longleftrightarrow> set cs = set ds"
proof -
  have "normal (normalizeCapabilities [(g, es)]) = JsObj [(ascii g, jsTexts (sortStrings es))]" for es
    by (simp add: normalizeCapabilities_def jsRecord_def normal_texts) (simp add: jsTexts_def)
  then show ?thesis by simp
qed

lemma content_eq:
  assumes "resolved D m" "resolved E n"
  shows "normal (contentValue (materialIdentity D m)) = normal (contentValue (materialIdentity E n)) \<longleftrightarrow> sameMaterial D E m n"
proof -
  let ?f = "\<lambda>D m. [jsText ''content'', materialBody m, normalizeInputs (ci_inputs (materialIdentity D m)),
      jsTexts (sortStrings (km_layers m)), normalizeCapabilities [(''declared'', km_capabilities m)]]"
  have caps: "normal (normalizeCapabilities [(g, cs)]) = normal (normalizeCapabilities [(g, ds)]) \<longleftrightarrow> set cs = set ds" for g cs ds
    by (rule normalCapabilities_eq)
  have "normal (contentValue (materialIdentity D m)) = normal (contentValue (materialIdentity E n))
      \<longleftrightarrow> list_all2 (\<lambda>v w. shown v = shown w) (?f D m) (?f E n)"
    unfolding contentValue_zip by (rule normal_record_zip) (simp_all add: contentKeys_def)
  moreover have "shown (materialBody m) = Some (normal (materialBody m))" "shown (normalizeInputs ins) = Some (normal (normalizeInputs ins))"
    "shown (normalizeCapabilities cs) = Some (normal (normalizeCapabilities cs))" for m ins cs
    by (simp_all add: materialBody_def normalizeInputs_def normalizeCapabilities_def)
  ultimately show ?thesis
    by (simp add: sameMaterial_def inputs_eq [OF assms] body_eq caps) blast
qed

section \<open>Keys\<close>

lemma regular_material:
  assumes "plainMaterial m"
  shows "regular (contentValue (materialIdentity D m))"
proof -
  have effects: "wellTyped v" if "km_effects m = Some v" for v using assms that by (simp add: plainMaterial_def)
  have placement: "wellTyped v" if "km_placement m = Some v" for v using assms that by (simp add: plainMaterial_def)
  have body: "regular (materialBody m)"
    unfolding materialBody_def by (rule regular_record) (use assms effects placement in \<open>auto simp: opt_def plainMaterial_def split: option.splits\<close>)
  have "wellTyped (normalizeInput (inputValue D i))" if "i \<in> set (km_inputs m)" for i
    by (rule regular_input) (use assms that in \<open>cases i; auto simp: plainMaterial_def split: if_splits\<close>)
  then have inputs: "regular (normalizeInputs (ci_inputs (materialIdentity D m)))"
    unfolding normalizeInputs_def materialIdentity_def
    by (intro regular_record) (auto simp: distinct_map inj_on_def set_zip comp_def dest!: in_set_zipE)
  have caps: "regular (normalizeCapabilities [(g, cs)])" for g cs
    unfolding normalizeCapabilities_def by (rule regular_record) simp_all
  have sub: "wellTyped (materialBody m)" "wellTyped (normalizeInputs (ci_inputs (materialIdentity D m)))"
    "wellTyped (normalizeCapabilities [(''declared'', km_capabilities m)])"
    using body inputs caps by (simp_all add: materialBody_def normalizeInputs_def normalizeCapabilities_def)
  show ?thesis
    unfolding contentValue_zip contentKeys_def by (rule regular_record) (use sub in simp_all)
qed

lemma hasText_content: "hasText (contentValue c)"
  by (simp add: contentValue_def)

lemma documents_same_iff:
  assumes "plainMaterial m" "plainMaterial n" "resolved D m" "resolved E n"
    "materialDocument D m = Inr d" "materialDocument E n = Inr e"
  shows "d = e \<longleftrightarrow> sameMaterial D E m n"
  using documents_equal_iff [OF regular_material [OF assms(1)] hasText_content regular_material [OF assms(2)] hasText_content]
    assms(5,6) content_eq [OF assms(3,4)] by (simp add: materialDocument_def)

text \<open>Two digests collide when two documents have one.\<close>

definition collide :: "(units \<Rightarrow> string) \<Rightarrow> (JsError + units) \<Rightarrow> (JsError + units) \<Rightarrow> bool" where
  "collide sha v w \<longleftrightarrow> v \<noteq> w \<and> mapR sha v = mapR sha w"

lemma keys_same_iff:
  assumes "fromKeyMaterial sha m D = Inr k" "fromKeyMaterial sha n E = Inr l" "plainMaterial m" "plainMaterial n"
    "\<not> collide sha (materialDocument D m) (materialDocument E n)"
  shows "k = l \<longleftrightarrow> sameMaterial D E m n"
proof -
  from assms(1) obtain d where d: "resolved D m" "materialDocument D m = Inr d" "k = ''key1_'' @ sha d"
    unfolding fromKeyMaterial_Inr by blast
  from assms(2) obtain e where e: "resolved E n" "materialDocument E n = Inr e" "l = ''key1_'' @ sha e"
    unfolding fromKeyMaterial_Inr by blast
  have "k = l \<longleftrightarrow> sha d = sha e" unfolding d(3) e(3) by (rule same_append_eq)
  also have "\<dots> \<longleftrightarrow> d = e" using assms(5) d(2) e(2) by (auto simp: collide_def)
  also have "\<dots> \<longleftrightarrow> sameMaterial D E m n" by (rule documents_same_iff [OF assms(3,4) d(1) e(1) d(2) e(2)])
  finally show ?thesis .
qed

text \<open>More known keys change no key.\<close>

lemma fromKeyMaterial_mono:
  assumes "D \<subseteq>\<^sub>m E" "fromKeyMaterial sha m D = Inr k"
  shows "fromKeyMaterial sha m E = Inr k"
proof -
  from assms(2) obtain d where d: "km_kind m = Sealed" "resolved D m" "materialDocument D m = Inr d" "hexText (sha d)" "k = ''key1_'' @ sha d"
    unfolding fromKeyMaterial_Inr by blast
  have same: "E x = D x" if "D x \<noteq> None" for x using assms(1) that by (auto simp: map_le_def dom_def)
  have "inputValue E i = inputValue D i" if "i \<in> set (km_inputs m)" for i
    using d(2) that same by (cases i) (auto simp: resolved_def)
  then have "materialIdentity E m = materialIdentity D m" by (simp add: materialIdentity_def cong: map_cong)
  moreover have "resolved E m" using d(2) same by (auto simp: resolved_def)
  ultimately show ?thesis using d unfolding fromKeyMaterial_Inr materialDocument_def by metis
qed

end
