(* ===== verification/Plan_Growth.thy ===== *)
theory Plan_Growth
  imports Plan_Order Plan_Annotate StepKey_Meaning
begin

text \<open>
  Growth: what a draft becomes when it is keyed, and the invariant of a plan through one compilation and any
  number of appends.
\<close>

section \<open>Keys of a list of nodes\<close>

definition keysOf :: "PlanNode list \<Rightarrow> string \<rightharpoonup> string" where
  "keysOf nodes = map_of (map (\<lambda>n. (pn_id n, pn_key n)) nodes)"

lemma dom_keysOf: "dom (keysOf nodes) = pn_id ` set nodes"
  by (simp add: keysOf_def dom_map_of_conv_image_fst image_image)

lemma keysOf_append: "keysOf (xs @ ys) = keysOf ys ++ keysOf xs"
  by (simp add: keysOf_def)

lemma keysOf_snoc: "pn_id n \<notin> pn_id ` set nodes \<Longrightarrow> keysOf (nodes @ [n]) = (keysOf nodes)(pn_id n \<mapsto> pn_key n)"
proof -
  assume "pn_id n \<notin> pn_id ` set nodes"
  then have "pn_id n \<notin> dom (keysOf nodes)" by (simp add: dom_keysOf)
  then show ?thesis unfolding keysOf_append
    by (intro ext) (auto simp: keysOf_def [of "[n]"] map_add_def domIff split: option.split)
qed

lemma keysOf_foldl: "distinct (map pn_id nodes) \<Longrightarrow> foldl (\<lambda>digests node. digests(pn_id node \<mapsto> pn_key node)) Map.empty nodes = keysOf nodes"
proof (induction nodes rule: rev_induct)
  case (snoc n nodes)
  then show ?case by (simp add: keysOf_snoc)
qed (simp add: keysOf_def)

lemma keysOf_append_le: "keysOf xs \<subseteq>\<^sub>m keysOf (xs @ ys)"
  unfolding keysOf_append by (rule map_le_map_add)

lemma duplicateId_None: "duplicateId known drafts = None \<longleftrightarrow> distinct (map nd_id drafts) \<and> nd_id ` set drafts \<inter> known = {}"
  by (induction known drafts rule: duplicateId.induct) auto

definition keyedFrom :: "(units \<Rightarrow> string) \<Rightarrow> (string \<rightharpoonup> string) \<Rightarrow> int \<Rightarrow> NodeDraft \<Rightarrow> PlanNode \<Rightarrow> bool" where
  "keyedFrom sha digests generation d n \<longleftrightarrow> n = keyedNode d (pn_key n) generation \<and> validateEffects (nd_id d) (nd_effects d) = None
     \<and> fromKeyMaterial sha (nd_material d) digests = Inr (pn_key n)"

lemma keyedFrom_mono: "D \<subseteq>\<^sub>m E \<Longrightarrow> keyedFrom sha D g d n \<Longrightarrow> keyedFrom sha E g d n"
  using fromKeyMaterial_mono by (auto simp: keyedFrom_def)

lemma keyDrafts_Inr:
  assumes "foldE (keyDraft sha g) ds (keysOf (old @ acc), acc) = Inr r" "distinct (map pn_id (old @ acc))"
    "distinct (map nd_id ds)" "nd_id ` set ds \<inter> pn_id ` set (old @ acc) = {}"
  shows "\<exists>new. snd r = acc @ new \<and> list_all2 (keyedFrom sha (keysOf (old @ acc @ new)) g) ds new"
  using assms
proof (induction ds arbitrary: acc)
  case (Cons d ds)
  from Cons(2) obtain key where key: "validateEffects (nd_id d) (nd_effects d) = None"
    "fromKeyMaterial sha (nd_material d) (keysOf (old @ acc)) = Inr key"
    "foldE (keyDraft sha g) ds ((keysOf (old @ acc))(nd_id d \<mapsto> key), acc @ [keyedNode d key g]) = Inr r"
    by (cases "fromKeyMaterial sha (nd_material d) (keysOf (old @ acc))")
      (simp_all add: keyDraft_def [of _ _ d] split: option.splits)
  let ?n = "keyedNode d key g"
  have id [simp]: "pn_id ?n = nd_id d" "pn_key ?n = key" by (simp_all add: keyedNode_def)
  have fresh: "pn_id ?n \<notin> pn_id ` set (old @ acc)" using Cons(5) by auto
  have step: "(keysOf (old @ acc))(nd_id d \<mapsto> key) = keysOf (old @ acc @ [?n])"
    using keysOf_snoc [OF fresh] by simp
  have dist: "distinct (map pn_id (old @ acc @ [?n]))" using Cons(3) fresh by auto
  have disj: "nd_id ` set ds \<inter> pn_id ` set (old @ acc @ [?n]) = {}" using Cons(4,5) by auto
  from Cons(1) [of "acc @ [?n]"] key(3) step dist disj Cons(4) obtain new where new: "snd r = (acc @ [?n]) @ new"
    "list_all2 (keyedFrom sha (keysOf (old @ (acc @ [?n]) @ new)) g) ds new" by auto
  have "keysOf (old @ acc) \<subseteq>\<^sub>m keysOf (old @ acc @ ?n # new)" using keysOf_append_le [of "old @ acc" "?n # new"] by simp
  with key(1,2) have "keyedFrom sha (keysOf (old @ acc @ ?n # new)) g d ?n"
    using fromKeyMaterial_mono by (auto simp: keyedFrom_def)
  with new show ?case by (intro exI [of _ "?n # new"]) simp
qed auto

section \<open>Keyed nodes\<close>

lemma distinct_foldl_addOnce: "distinct seen \<Longrightarrow> distinct (foldl addOnce seen xs)"
  by (induction xs arbitrary: seen) (simp_all add: addOnce_def)

lemma distinct_dependencies: "distinct (dependencies m)"
proof -
  have "distinct (foldl (\<lambda>seen input. case inputFrom input of None \<Rightarrow> seen | Some x \<Rightarrow> addOnce seen x) seen inputs)" if "distinct seen" for seen inputs
    using that by (induction inputs arbitrary: seen) (auto simp: addOnce_def split: option.splits)
  then show ?thesis by (simp add: dependencies_def)
qed

lemma keyedFrom_node:
  assumes "keyedFrom sha D g d n"
  shows "pn_id n = nd_id d" "pn_material n = nd_material d" "pn_effects n = nd_effects d" "pn_generation n = g"
    "pn_dependsOn n = dependencies (nd_material d)" "pn_conflicts n = []"
  using assms unfolding keyedFrom_def by (simp_all add: keyedNode_def PlanNode.defs) (metis PlanNode.select_convs)+

lemma keyedFrom_behind: "list_all2 (keyedFrom sha D g) ds ns \<Longrightarrow> layered before ds \<Longrightarrow> behind before ns"
  by (induction arbitrary: before rule: list_all2_induct) (simp_all add: keyedFrom_node needs_def)

lemma keyedFrom_ids: "list_all2 (keyedFrom sha D g) ds ns \<Longrightarrow> map pn_id ns = map nd_id ds"
  by (induction rule: list_all2_induct) (simp_all add: keyedFrom_node)

lemma keyNodes_Inr:
  assumes "keyNodes sha drafts old g = Some (Inr new)" "distinct (map pn_id old)"
  obtains ds where "distinct (map nd_id ds)" "set ds = set drafts" "nd_id ` set ds \<inter> pn_id ` set old = {}"
    "layered (pn_id ` set old) ds" "list_all2 (keyedFrom sha (keysOf (old @ new)) g) ds new"
proof -
  have none: "duplicateId (pn_id ` set old) drafts = None"
    using assms(1) by (auto simp: keyNodes_def split: option.splits)
  then have fresh: "distinct (map nd_id drafts)" "nd_id ` set drafts \<inter> pn_id ` set old = {}"
    by (simp_all add: duplicateId_None)
  obtain ds r where ds: "topological drafts (pn_id ` set old) = Some (Inr ds)"
    and r: "foldE (keyDraft sha g) ds (keysOf old, []) = Inr r" "new = snd r"
    using assms(1) none keysOf_foldl [OF assms(2)]
    by (auto simp: keyNodes_def split: option.splits sum.splits elim!: mapR.elims)
  from topological_Inr [OF ds fresh(1)] have t: "distinct (map nd_id ds)" "set ds = set drafts" "layered (pn_id ` set old) ds" by simp_all
  have "\<exists>new. snd r = [] @ new \<and> list_all2 (keyedFrom sha (keysOf (old @ [] @ new)) g) ds new"
    by (rule keyDrafts_Inr) (use r assms(2) t fresh(2) in simp_all)
  with r(2) have "list_all2 (keyedFrom sha (keysOf (old @ new)) g) ds new" by simp
  then show thesis using that t fresh(2) by simp
qed

section \<open>The invariant\<close>

text \<open>What holds of each node of a plan with given keys.\<close>

definition nodeOk :: "(units \<Rightarrow> string) \<Rightarrow> (string \<rightharpoonup> string) \<Rightarrow> PlanNode \<Rightarrow> bool" where
  "nodeOk sha keys n \<longleftrightarrow> set (dependencies (pn_material n)) \<subseteq> set (pn_dependsOn n) \<and> validateEffects (pn_id n) (pn_effects n) = None
     \<and> fromKeyMaterial sha (pn_material n) keys = Inr (pn_key n)"

definition graphOk :: "PlanNode list \<Rightarrow> bool" where
  "graphOk nodes \<longleftrightarrow> distinct (map pn_id nodes) \<and> acyclic (edgeRel nodes) \<and> Range (edgeRel nodes) \<subseteq> pn_id ` set nodes
     \<and> (\<forall>n \<in> set nodes. distinct (pn_dependsOn n))"

definition pairsOk :: "PlanNode list \<Rightarrow> bool" where
  "pairsOk nodes \<longleftrightarrow> sorted_wrt (writersOk nodes) nodes
     \<and> (\<forall>r \<in> set nodes. \<forall>w \<in> set nodes. pn_generation w \<le> pn_generation r \<longrightarrow> readersOk nodes r w)"

definition planOk :: "(units \<Rightarrow> string) \<Rightarrow> Plan \<Rightarrow> bool" where
  "planOk sha plan \<longleftrightarrow> 0 \<le> pl_generation plan \<and> graphOk (pl_nodes plan) \<and> pairsOk (pl_nodes plan)
     \<and> (\<forall>n \<in> set (pl_nodes plan). nodeOk sha (keysOf (pl_nodes plan)) n \<and> 0 \<le> pn_generation n \<and> pn_generation n \<le> pl_generation plan)
     \<and> digestOf sha (pl_planId plan) (pl_flow plan) (pl_nodes plan) = Inr (pl_digest plan)"

lemma list_all2_set2: "list_all2 P xs ys \<Longrightarrow> \<forall>y \<in> set ys. \<exists>x \<in> set xs. P x y"
  by (induction rule: list_all2_induct) auto

lemma grounded_keyed:
  assumes "graphOk old" "layered (pn_id ` set old) ds" "list_all2 (keyedFrom sha D g) ds new"
    "distinct (map nd_id ds)" "nd_id ` set ds \<inter> pn_id ` set old = {}"
  shows "grounded old new"
proof -
  have ids: "map pn_id new = map nd_id ds" by (rule keyedFrom_ids [OF assms(3)])
  have "distinct (pn_dependsOn n)" if "n \<in> set new" for n
    using list_all2_set2 [OF assms(3)] that keyedFrom_node(5) distinct_dependencies by metis
  moreover have "pn_id ` set new = nd_id ` set ds" using arg_cong [OF ids, of set] by simp
  ultimately show ?thesis using assms ids by (auto simp: grounded_def graphOk_def keyedFrom_behind)
qed

lemma writersOk_grow: "writersOk old e l \<Longrightarrow> edgeRel old \<subseteq> edgeRel new \<Longrightarrow> writersOk new e l"
  by (auto simp: writersOk_def dest: trancl_mono)

lemma readersOk_grow: "readersOk old r w \<Longrightarrow> edgeRel old \<subseteq> edgeRel new \<Longrightarrow> readersOk new r w"
  by (auto simp: readersOk_def dest: trancl_mono)

lemma keysOf_map: "(\<And>n. pn_id (f n) = pn_id n) \<Longrightarrow> (\<And>n. pn_key (f n) = pn_key n) \<Longrightarrow> keysOf (map f ns) = keysOf ns"
  by (simp add: keysOf_def comp_def)

text \<open>One step of growth, from no plan or from a plan.\<close>

lemma annotate_grows:
  assumes "graphOk old" "pairsOk old" "\<forall>n \<in> set old. nodeOk sha (keysOf old) n \<and> pn_generation n < g"
    and "keyNodes sha drafts old g = Some (Inr keyed)" "annotate (old @ keyed) (pn_id ` set old) = Inr nodes"
  obtains new where "nodes = old @ new" "graphOk nodes" "pairsOk nodes" "\<forall>n \<in> set nodes. nodeOk sha (keysOf nodes) n"
    "\<forall>n \<in> set new. pn_generation n = g" "pn_id ` set new = nd_id ` set drafts"
proof -
  have "distinct (map pn_id old)" using assms(1) by (simp add: graphOk_def)
  from keyNodes_Inr [OF assms(4) this] obtain ds where ds: "distinct (map nd_id ds)" "set ds = set drafts"
    "nd_id ` set ds \<inter> pn_id ` set old = {}" "layered (pn_id ` set old) ds" "list_all2 (keyedFrom sha (keysOf (old @ keyed)) g) ds keyed" by metis
  note gr = grounded_keyed [OF assms(1) ds(4,5,1,3)]
  obtain f where f: "nodes = old @ map f keyed"
    "\<And>n. f n = n\<lparr>pn_conflicts := pn_conflicts (f n), pn_dependsOn := pn_dependsOn (f n)\<rparr>"
    "\<And>n. set (pn_dependsOn n) \<subseteq> set (pn_dependsOn (f n))"
    "acyclic (edgeRel nodes)" "Range (edgeRel nodes) \<subseteq> pn_id ` set nodes" "\<forall>n \<in> set nodes. distinct (pn_dependsOn n)"
    "edgeRel old \<subseteq> edgeRel nodes"
    "\<forall>e \<in> set old. \<forall>l \<in> set keyed. writersOk nodes e (f l)" "sorted_wrt (\<lambda>e l. writersOk nodes (f e) (f l)) keyed"
    "\<forall>r \<in> set (map f keyed). \<forall>w \<in> set nodes. readersOk nodes r w"
    by (rule annotate_ok [OF assms(5) gr]) blast
  have same [simp]: "pn_id (f n) = pn_id n" "pn_key (f n) = pn_key n" "pn_material (f n) = pn_material n"
    "pn_effects (f n) = pn_effects n" "pn_generation (f n) = pn_generation n" for n
    by (subst f(2), simp)+
  have keys: "keysOf nodes = keysOf (old @ keyed)" unfolding f(1) keysOf_append by (simp add: keysOf_map)
  have draft: "\<exists>d \<in> set ds. keyedFrom sha (keysOf nodes) g d n" if "n \<in> set keyed" for n
    using list_all2_set2 [OF ds(5)] that unfolding keys by blast
  have new: "nodeOk sha (keysOf nodes) (f n) \<and> pn_generation (f n) = g" if n: "n \<in> set keyed" for n
  proof -
    from draft [OF n] obtain d where d: "keyedFrom sha (keysOf nodes) g d n" by blast
    from f(3) [of n] show ?thesis using d keyedFrom_node [OF d] by (simp add: nodeOk_def keyedFrom_def)
  qed
  have old: "nodeOk sha (keysOf nodes) n" if "n \<in> set old" for n
    using assms(3) that fromKeyMaterial_mono [OF keysOf_append_le [of old keyed]] unfolding keys by (auto simp: nodeOk_def)
  have gens: "pn_generation r < g" "pn_generation r \<noteq> g" if "r \<in> set old" for r using assms(3) that by auto
  show thesis
  proof (rule that [OF f(1)])
    show "graphOk nodes" unfolding graphOk_def using f(4-6) gr by (simp add: f(1) comp_def grounded_def)
    have "sorted_wrt (writersOk nodes) nodes"
      using assms(2) f(7-9) writersOk_grow unfolding f(1) sorted_wrt_append sorted_wrt_map pairsOk_def
      by (fastforce elim: sorted_wrt_mono_rel [rotated])
    moreover have "readersOk nodes r w" if "r \<in> set nodes" "w \<in> set nodes" "pn_generation w \<le> pn_generation r" for r w
    proof (cases "r \<in> set (map f keyed)")
      case False
      then have "r \<in> set old" using that(1) by (simp add: f(1))
      moreover have "w \<in> set old" using that gens [OF \<open>r \<in> set old\<close>] new by (auto simp: f(1))
      ultimately show ?thesis using assms(2) that(3) readersOk_grow [OF _ f(7)] by (simp add: pairsOk_def)
    qed (use f(10) that(2) in blast)
    ultimately show "pairsOk nodes" by (simp add: pairsOk_def)
    show "\<forall>n \<in> set nodes. nodeOk sha (keysOf nodes) n" using old new unfolding f(1) by auto
    show "\<forall>n \<in> set (map f keyed). pn_generation n = g" using new by simp
    have "pn_id ` set (map f keyed) = pn_id ` set keyed" by (simp add: image_image)
    also have "\<dots> = nd_id ` set drafts" using arg_cong [OF keyedFrom_ids [OF ds(5)], of set] ds(2) by simp
    finally show "pn_id ` set (map f keyed) = nd_id ` set drafts" .
  qed
qed

section \<open>Growing\<close>

text \<open>A compiled plan and what any number of appends make of it.\<close>

inductive planGrown :: "(units \<Rightarrow> string) \<Rightarrow> Plan \<Rightarrow> Plan \<Rightarrow> bool" for sha where
  compiled: "compilePlan sha planId flow drafts = Some (Inr base) \<Longrightarrow> planGrown sha base base"
| appended: "planGrown sha base plan \<Longrightarrow> appendPlan sha plan drafts = Some (Inr plan') \<Longrightarrow> planGrown sha base plan'"

lemma compilePlan_Inr:
  assumes "compilePlan sha planId flow drafts = Some (Inr plan)"
  obtains keyed nodes where "keyNodes sha drafts [] 0 = Some (Inr keyed)" "annotate keyed {} = Inr nodes"
    "digestOf sha planId flow nodes = Inr (pl_digest plan)"
    "plan = \<lparr>pl_planId = planId, pl_flow = flow, pl_generation = 0, pl_baseDigest = pl_digest plan, pl_digest = pl_digest plan, pl_nodes = nodes\<rparr>"
proof -
  from assms obtain keyed nodes digest where "keyNodes sha drafts [] 0 = Some (Inr keyed)" "annotate keyed {} = Inr nodes"
    "digestOf sha planId flow nodes = Inr digest"
    "plan = \<lparr>pl_planId = planId, pl_flow = flow, pl_generation = 0, pl_baseDigest = digest, pl_digest = digest, pl_nodes = nodes\<rparr>"
    by (cases "keyNodes sha drafts [] 0"; cases "the (keyNodes sha drafts [] 0)";
        cases "annotate (projr (the (keyNodes sha drafts [] 0))) {}";
        cases "digestOf sha planId flow (projr (annotate (projr (the (keyNodes sha drafts [] 0))) {}))") (simp_all add: compilePlan_def)
  then show thesis using that by simp
qed

lemma appendPlan_Inr:
  assumes "appendPlan sha plan drafts = Some (Inr plan')"
  obtains keyed nodes where "keyNodes sha drafts (pl_nodes plan) (pl_generation plan + 1) = Some (Inr keyed)"
    "annotate (pl_nodes plan @ keyed) (pn_id ` set (pl_nodes plan)) = Inr nodes"
    "digestOf sha (pl_planId plan) (pl_flow plan) nodes = Inr (pl_digest plan')"
    "plan' = plan\<lparr>pl_generation := pl_generation plan + 1, pl_digest := pl_digest plan', pl_nodes := nodes\<rparr>"
proof -
  from assms obtain keyed nodes digest where "keyNodes sha drafts (pl_nodes plan) (pl_generation plan + 1) = Some (Inr keyed)"
    "annotate (pl_nodes plan @ keyed) (pn_id ` set (pl_nodes plan)) = Inr nodes"
    "digestOf sha (pl_planId plan) (pl_flow plan) nodes = Inr digest"
    "plan' = plan\<lparr>pl_generation := pl_generation plan + 1, pl_digest := digest, pl_nodes := nodes\<rparr>"
    by (cases "keyNodes sha drafts (pl_nodes plan) (pl_generation plan + 1)"; cases "the (keyNodes sha drafts (pl_nodes plan) (pl_generation plan + 1))";
        cases "annotate (pl_nodes plan @ projr (the (keyNodes sha drafts (pl_nodes plan) (pl_generation plan + 1)))) (pn_id ` set (pl_nodes plan))";
        cases "digestOf sha (pl_planId plan) (pl_flow plan) (projr (annotate (pl_nodes plan @ projr (the (keyNodes sha drafts (pl_nodes plan) (pl_generation plan + 1)))) (pn_id ` set (pl_nodes plan))))")
      (simp_all add: appendPlan_def Let_def)
  then show thesis using that by simp
qed

lemma compiled_ok:
  assumes "compilePlan sha planId flow drafts = Some (Inr plan)"
  shows "planOk sha plan" "pl_generation plan = 0" "pl_baseDigest plan = pl_digest plan" "pn_id ` set (pl_nodes plan) = nd_id ` set drafts"
proof -
  from assms obtain keyed nodes where c: "keyNodes sha drafts [] 0 = Some (Inr keyed)" "annotate keyed {} = Inr nodes"
    "digestOf sha planId flow nodes = Inr (pl_digest plan)"
    "plan = \<lparr>pl_planId = planId, pl_flow = flow, pl_generation = 0, pl_baseDigest = pl_digest plan, pl_digest = pl_digest plan, pl_nodes = nodes\<rparr>"
    by (rule compilePlan_Inr)
  have p: "pl_planId plan = planId" "pl_flow plan = flow" "pl_generation plan = 0" "pl_baseDigest plan = pl_digest plan" "pl_nodes plan = nodes"
    by (subst c(4), simp)+
  have none: "graphOk []" "pairsOk []" "\<forall>n \<in> set []. nodeOk sha (keysOf []) n \<and> pn_generation n < 0"
    by (simp_all add: graphOk_def pairsOk_def acyclic_def)
  have "annotate ([] @ keyed) (pn_id ` set []) = Inr nodes" using c(2) by simp
  from annotate_grows [OF none c(1) this] obtain new where new: "nodes = new" "graphOk nodes" "pairsOk nodes"
    "\<forall>n \<in> set nodes. nodeOk sha (keysOf nodes) n" "\<forall>n \<in> set new. pn_generation n = 0" "pn_id ` set new = nd_id ` set drafts"
    by (metis append_Nil)
  then show "planOk sha plan" using c(3) p by (simp add: planOk_def)
  show "pl_generation plan = 0" "pl_baseDigest plan = pl_digest plan" by (rule p)+
  show "pn_id ` set (pl_nodes plan) = nd_id ` set drafts" using new p by simp
qed

text \<open>The node a draft became.\<close>

lemma planOk_draft:
  assumes "annotate (old @ keyed) (pn_id ` set old) = Inr nodes" "keyNodes sha drafts old g = Some (Inr keyed)" "graphOk old" "d \<in> set drafts"
  shows "\<exists>n \<in> set nodes. pn_id n = nd_id d \<and> pn_material n = nd_material d \<and> pn_effects n = nd_effects d"
proof -
  have "distinct (map pn_id old)" using assms(3) by (simp add: graphOk_def)
  from keyNodes_Inr [OF assms(2) this] obtain ds where ds: "distinct (map nd_id ds)" "set ds = set drafts"
    "nd_id ` set ds \<inter> pn_id ` set old = {}" "layered (pn_id ` set old) ds" "list_all2 (keyedFrom sha (keysOf (old @ keyed)) g) ds keyed" by metis
  obtain f where f: "nodes = old @ map f keyed" "\<And>n. f n = n\<lparr>pn_conflicts := pn_conflicts (f n), pn_dependsOn := pn_dependsOn (f n)\<rparr>"
    by (rule annotate_ok [OF assms(1) grounded_keyed [OF assms(3) ds(4,5,1,3)]]) blast
  have same: "pn_id (f n) = pn_id n" "pn_material (f n) = pn_material n" "pn_effects (f n) = pn_effects n" for n by (subst f(2), simp)+
  from ds(5) have "list_all2 (\<lambda>n d. keyedFrom sha (keysOf (old @ keyed)) g d n) keyed ds" by (simp add: list_all2_conv_all_nth)
  with list_all2_set2 [OF this] assms(4) ds(2) obtain n where n: "n \<in> set keyed" "keyedFrom sha (keysOf (old @ keyed)) g d n" by blast
  have "pn_id (f n) = nd_id d \<and> pn_material (f n) = nd_material d \<and> pn_effects (f n) = nd_effects d"
    using same keyedFrom_node [OF n(2)] by simp
  with n(1) show ?thesis by (auto simp: f(1))
qed

lemma compiled_node:
  assumes "compilePlan sha planId flow drafts = Some (Inr plan)" "d \<in> set drafts"
  shows "\<exists>n \<in> set (pl_nodes plan). pn_id n = nd_id d \<and> pn_material n = nd_material d \<and> pn_effects n = nd_effects d"
proof -
  from assms(1) obtain keyed where c: "keyNodes sha drafts [] 0 = Some (Inr keyed)" "annotate keyed {} = Inr (pl_nodes plan)"
    by (rule compilePlan_Inr) (metis Plan.select_convs(6))
  show ?thesis by (rule planOk_draft [OF _ c(1) _ assms(2)]) (use c(2) in \<open>simp_all add: graphOk_def acyclic_def\<close>)
qed

lemma appended_ok:
  assumes "planOk sha plan" "appendPlan sha plan drafts = Some (Inr plan')"
  obtains new where "planOk sha plan'" "pl_nodes plan' = pl_nodes plan @ new" "\<forall>n \<in> set new. pn_generation n = pl_generation plan'"
    "pn_id ` set new = nd_id ` set drafts" "pl_generation plan' = pl_generation plan + 1"
    "pl_baseDigest plan' = pl_baseDigest plan" "pl_planId plan' = pl_planId plan" "pl_flow plan' = pl_flow plan"
proof -
  from assms(2) obtain keyed nodes where c: "keyNodes sha drafts (pl_nodes plan) (pl_generation plan + 1) = Some (Inr keyed)"
    "annotate (pl_nodes plan @ keyed) (pn_id ` set (pl_nodes plan)) = Inr nodes"
    "digestOf sha (pl_planId plan) (pl_flow plan) nodes = Inr (pl_digest plan')"
    "plan' = plan\<lparr>pl_generation := pl_generation plan + 1, pl_digest := pl_digest plan', pl_nodes := nodes\<rparr>"
    by (rule appendPlan_Inr)
  have p: "pl_planId plan' = pl_planId plan" "pl_flow plan' = pl_flow plan" "pl_generation plan' = pl_generation plan + 1"
    "pl_baseDigest plan' = pl_baseDigest plan" "pl_nodes plan' = nodes"
    by (subst c(4), simp)+
  have ok: "graphOk (pl_nodes plan)" "pairsOk (pl_nodes plan)"
    "\<forall>n \<in> set (pl_nodes plan). nodeOk sha (keysOf (pl_nodes plan)) n \<and> pn_generation n < pl_generation plan + 1"
    using assms(1) by (auto simp: planOk_def)
  from annotate_grows [OF ok c(1,2)] obtain new where new: "nodes = pl_nodes plan @ new" "graphOk nodes" "pairsOk nodes"
    "\<forall>n \<in> set nodes. nodeOk sha (keysOf nodes) n" "\<forall>n \<in> set new. pn_generation n = pl_generation plan + 1" "pn_id ` set new = nd_id ` set drafts"
    by metis
  have gens: "0 \<le> pn_generation n \<and> pn_generation n \<le> pl_generation plan + 1" if "n \<in> set nodes" for n
    using assms(1) that new(1,5) by (auto simp: planOk_def)
  show thesis
  proof (rule that)
    show "planOk sha plan'" using assms(1) new(2-4) gens c(3) p by (simp add: planOk_def)
  qed (use new p in auto)
qed

lemma planGrown_ok: "planGrown sha base plan \<Longrightarrow> planOk sha plan"
  by (induction rule: planGrown.induct) (auto intro: compiled_ok(1) elim: appended_ok)

lemma planGrown_base:
  "planGrown sha base plan \<Longrightarrow> prefix (pl_nodes base) (pl_nodes plan) \<and> pl_baseDigest plan = pl_digest base
     \<and> pl_planId plan = pl_planId base \<and> pl_flow plan = pl_flow base \<and> 0 \<le> pl_generation plan"
proof (induction rule: planGrown.induct)
  case (compiled planId flow drafts base)
  then show ?case using compiled_ok by force
next
  case (appended base plan drafts plan')
  from appended_ok [OF planGrown_ok [OF appended(1)] appended(2)] show ?case
    using appended(3) by (metis add_increasing2 prefix_order.trans prefixI zero_le_one)
qed

end
