(* ===== verification/Plan_Total.thy ===== *)
theory Plan_Total
  imports Plan_Growth
begin

text \<open>
  What compiles: values that always have a document, and drafts every step of a compilation accepts.
\<close>

section \<open>Printable values\<close>

text \<open>Null, booleans, integers, well-formed strings, and arrays and objects of them; a member may be absent.\<close>

fun printable :: "JsValue \<Rightarrow> bool" where
  "printable (JsStr s) = wellFormed s"
| "printable (JsBool _) = True"
| "printable (JsInt _) = True"
| "printable JsNull = True"
| "printable (JsArr vs) = list_all printable vs"
| "printable (JsObj fs) = (distinct (map fst fs) \<and> list_all (\<lambda>(k, v). absent v \<or> wellFormed k \<and> printable v) fs)"
| "printable _ = False"

lemma printable_here: "printable v \<Longrightarrow> \<not> absent v \<and> hasText v"
  by (cases v) auto

lemma printable_regular: "printable v \<Longrightarrow> regular v"
  by (induction v) (auto simp: list_all_iff printable_here prod_set_defs)

lemma traverse_exists: "\<forall>r \<in> set rs. \<exists>a. r = Inr a \<Longrightarrow> \<exists>as. traverse rs = Inr as"
  by (induction rs) fastforce+

lemma printable_serialize: "printable v \<Longrightarrow> \<exists>t. serialize v = Inr (Some t)"
proof (induction v)
  case (JsArr vs)
  have "\<exists>as. traverse (map (\<lambda>v. if absent v then Inr (ascii ''null'') else mapR (\<lambda>t. case t of None \<Rightarrow> [] | Some u \<Rightarrow> u) (serialize v)) vs) = Inr as"
    by (rule traverse_exists) (use JsArr in \<open>fastforce simp: list_all_iff\<close>)
  then show ?case by auto
next
  case (JsObj fs)
  have "\<exists>t. memberResult (k, v) = Inr t" if m: "(k, v) \<in> set (printed fs)" for k v
  proof -
    have "(k, v) \<in> set fs" "\<not> absent v" using m by (auto simp: set_printed)
    moreover have "v \<in> Basic_BNFs.snds (k, v)" by (simp add: prod_set_defs)
    ultimately have "\<exists>t. serialize v = Inr (Some t)" "wellFormed k"
      using JsObj by (auto simp: list_all_iff)
    then show ?thesis by (auto simp: memberResult_def)
  qed
  then have "\<exists>as. traverse (map memberResult (printed fs)) = Inr as" by (intro traverse_exists) auto
  then show ?case by (auto simp: members_printed)
qed auto

lemma printable_document: "printable v \<Longrightarrow> \<exists>t. canonicalDocument v = Inr t"
  using printable_serialize document_iff printable_regular printable_here by blast

lemma printable_text [simp]: "printable (jsText t)" "printable (jsTexts ts)"
  by (auto simp: jsText_def jsTexts_def wellFormed_ascii list_all_iff)

lemma printable_record: "distinct (map fst fs) \<Longrightarrow> \<forall>v \<in> set (map snd fs). printable v \<Longrightarrow> printable (jsRecord fs)"
  using distinct_jsRecord [of fs] by (auto simp: jsRecord_def list_all_iff wellFormed_ascii)

text \<open>Members that are present only when a value is.\<close>

lemma opt_keys: "set (map fst (opt k f x)) \<subseteq> {k}" "distinct (map fst (opt k f x))"
  by (auto simp: opt_def split: option.splits)

lemma opt_values: "v \<in> set (map snd (opt k f x)) \<longleftrightarrow> (\<exists>a. x = Some a \<and> v = f a)"
  by (auto simp: opt_def split: option.splits)

section \<open>Keys that always exist\<close>

definition keyable :: "KeyMaterial \<Rightarrow> bool" where
  "keyable m \<longleftrightarrow> km_kind m = Sealed \<and> printable (km_body m) \<and> list_all (\<lambda>i. case i of LiteralInput v \<Rightarrow> printable v | _ \<Rightarrow> True) (km_inputs m)
     \<and> pred_option printable (km_effects m) \<and> pred_option printable (km_placement m)"

lemma printable_input: "(\<And>v. x = Plain v \<Longrightarrow> printable v) \<Longrightarrow> printable (normalizeInput x)"
  by (cases x) (auto intro!: printable_record simp: opt_def split: option.splits)

lemma printable_body:
  assumes "keyable m"
  shows "printable (materialBody m)"
proof -
  have "printable v" if "km_effects m = Some v \<or> km_placement m = Some v" for v
    using assms that by (auto simp: keyable_def)
  then show ?thesis unfolding materialBody_def
    by (intro printable_record) (use assms in \<open>auto simp: opt_def keyable_def split: option.split\<close>)
qed

lemma printable_inputs:
  assumes "keyable m"
  shows "printable (normalizeInputs (ci_inputs (materialIdentity D m)))"
proof -
  have "printable (normalizeInput (inputValue D i))" if "i \<in> set (km_inputs m)" for i
    by (rule printable_input) (use assms that in \<open>cases i; auto simp: keyable_def list_all_iff split: if_splits\<close>)
  then have "printable (normalizeInput x)" if "(k, x) \<in> set (ci_inputs (materialIdentity D m))" for k x
    using set_zip_rightD [of k x "map show_nat [0..<length (km_inputs m)]" "map (inputValue D) (km_inputs m)"] that
    by (auto simp: materialIdentity_def)
  moreover have "distinct (map fst (ci_inputs (materialIdentity D m)))"
    by (simp add: materialIdentity_def distinct_map inj_on_def)
  ultimately show ?thesis unfolding normalizeInputs_def
    by (intro printable_record) (auto simp: comp_def)
qed

lemma printable_capabilities: "printable (normalizeCapabilities [(g, cs)])" "printable (normalizeCapabilities [])"
  unfolding normalizeCapabilities_def by (rule printable_record; simp)+

lemma printable_content: "keyable m \<Longrightarrow> printable (contentValue (materialIdentity D m))"
  unfolding contentValue_zip contentKeys_def
  by (rule printable_record) (simp_all add: printable_body printable_inputs printable_capabilities)

lemma key_exists:
  assumes "\<And>d. hexText (sha d)" "keyable m" "resolved D m"
  shows "\<exists>k. fromKeyMaterial sha m D = Inr k"
  using printable_document [OF printable_content [OF assms(2)]] assms
  by (auto simp: fromKeyMaterial_Inr materialDocument_def keyable_def)

section \<open>Digests that always exist\<close>

lemma printable_entry: "printable (entryValue e)"
  by (cases e) (auto intro!: printable_record simp: opt_def split: option.splits)

lemma printable_declaration: "printable (declarationValue d)"
  by (cases d) (auto intro!: printable_record simp: printable_entry list_all_iff)

lemma printable_effects: "printable (effectsValue e)"
  unfolding effectsValue_def by (rule printable_record) (auto simp: opt_def printable_declaration list_all_iff split: option.splits)

lemma printable_annotation: "printable (annotationValue a)"
  unfolding annotationValue_def by (rule printable_record) auto

lemma printable_node: "printable (nodeValue n)"
  unfolding nodeValue_def by (rule printable_record) (auto simp: printable_effects printable_annotation list_all_iff)

lemma digest_exists:
  assumes "\<And>d. hexText (sha d)"
  shows "\<exists>k. digestOf sha planId flow nodes = Inr k"
proof -
  have nodes: "printable (normalizeInputs [(''nodes'', Plain (JsArr (map nodeValue nodes)))])"
    unfolding normalizeInputs_def by (rule printable_record) (auto intro!: printable_record simp: list_all_iff printable_node)
  have body: "printable (jsRecord [(''kind'', jsText ''plan''), (''planId'', jsText planId), (''flow'', jsText flow)])"
    by (rule printable_record) simp_all
  have "printable (contentValue \<lparr>ci_body = jsRecord [(''kind'', jsText ''plan''), (''planId'', jsText planId), (''flow'', jsText flow)],
      ci_inputs = [(''nodes'', Plain (JsArr (map nodeValue nodes)))], ci_layers = [], ci_capabilities = [],
      ci_environment = None, ci_hermetic = None\<rparr>)"
    unfolding contentValue_def by (rule printable_record) (simp_all add: opt_def nodes body printable_capabilities)
  from printable_document [OF this] assms show ?thesis by (auto simp: digestOf_def contentKey_def decodeKey_def)
qed

section \<open>Compilations that succeed\<close>

lemma inputs_dependencies: "set (dependencies m) = {x. \<exists>i \<in> set (km_inputs m). inputFrom i = Some x}"
proof -
  have "set (foldl (\<lambda>seen input. case inputFrom input of None \<Rightarrow> seen | Some x \<Rightarrow> addOnce seen x) seen inputs)
      = set seen \<union> {x. \<exists>i \<in> set inputs. inputFrom i = Some x}" for seen inputs
    by (induction inputs arbitrary: seen) (auto simp: addOnce_def split: option.split)
  then show ?thesis by (simp add: dependencies_def)
qed

lemma keyDrafts_exist:
  assumes "\<And>d. hexText (sha d)" "\<forall>d \<in> set ds. keyable (nd_material d) \<and> validateEffects (nd_id d) (nd_effects d) = None"
    "layered (dom D) ds"
  shows "\<exists>r. foldE (keyDraft sha g) ds (D, acc) = Inr r"
  using assms(2,3)
proof (induction ds arbitrary: D acc)
  case (Cons d ds)
  have "resolved D (nd_material d)"
    using Cons(3) inputs_dependencies [of "nd_material d"] by (auto simp: resolved_def needs_def)
  with key_exists [OF assms(1)] Cons(2) obtain k where "fromKeyMaterial sha (nd_material d) D = Inr k" by fastforce
  moreover have "layered (dom (D(nd_id d \<mapsto> k))) ds" using Cons(3) by simp
  ultimately show ?case using Cons(1,2) by (simp add: keyDraft_def [of _ _ d])
qed simp

lemma conflictPairs_succeed:
  assumes "pn_strategy later \<noteq> FailPair" "\<forall>n \<in> set xs. pn_strategy n \<noteq> FailPair"
  shows "\<exists>s'. foldE (conflictPair frozen later) xs s = Inr s'"
  using assms(2)
proof (induction xs arbitrary: s)
  case (Cons z zs)
  have "pairStrategy (pn_strategy z) (pn_strategy later) \<noteq> FailPair" using Cons(2) assms(1) by (simp add: pairStrategy_def)
  then have "\<exists>s'. conflictPair frozen later z s = Inr s'" by (simp add: conflictPair_def Let_def)
  with Cons show ?case by auto
qed simp

lemma conflictPass_succeeds:
  "\<forall>n \<in> set (xs @ ys). pn_strategy n \<noteq> FailPair \<Longrightarrow> \<exists>s'. conflictPass frozen xs ys s = Inr s'"
proof (induction ys arbitrary: xs s)
  case (Cons y ys)
  obtain s' where "foldE (conflictPair frozen y) xs s = Inr s'" using conflictPairs_succeed [of y xs frozen s] Cons(2) by auto
  then show ?case using Cons(1) [of "xs @ [y]"] Cons(2) by simp
qed simp

lemma annotate_succeeds:
  assumes "\<forall>n \<in> set nodes. pn_strategy n \<noteq> FailPair"
  shows "\<exists>nodes'. annotate nodes frozen = Inr nodes'"
proof -
  obtain s where "conflictPass frozen [] nodes \<lparr>closure = reachableIn nodes, conflictsOf = (\<lambda>_. []), ordering = (\<lambda>_. [])\<rparr> = Inr s"
    using conflictPass_succeeds [of "[]" nodes frozen] assms by auto
  then show ?thesis by (simp add: annotate_def Let_def case_prod_unfold)
qed

lemma annotate_strategies: "annotate nodes frozen = Inr nodes' \<Longrightarrow> pn_strategy ` set nodes' = pn_strategy ` set nodes"
proof -
  assume "annotate nodes frozen = Inr nodes'"
  then have "map pn_strategy nodes' = map pn_strategy nodes"
    by (auto simp: annotate_def Let_def case_prod_unfold split: sum.split_asm)
  from arg_cong [OF this, of set] show ?thesis by simp
qed

lemma keyedFrom_strategy: "keyedFrom sha D g d n \<Longrightarrow> pn_strategy n = orElse (nd_conflictStrategy d) Serialize"
  unfolding keyedFrom_def keyedNode_def by (metis PlanNode.select_convs(8))

text \<open>Drafts that can be keyed one by one; only their edges are left to decide.\<close>

definition draftOk :: "NodeDraft \<Rightarrow> bool" where
  "draftOk d \<longleftrightarrow> keyable (nd_material d) \<and> validateEffects (nd_id d) (nd_effects d) = None \<and> nd_conflictStrategy d \<noteq> Some FailPair"

lemma keyNodes_succeeds:
  assumes "\<forall>d. hexText (sha d)" "\<forall>d \<in> set drafts. draftOk d"
    and "distinct (map nd_id drafts)" "nd_id ` set drafts \<inter> pn_id ` set old = {}" "distinct (map pn_id old)"
    and "acyclic (draftEdges drafts (pn_id ` set old))" "snd ` draftEdges drafts (pn_id ` set old) \<subseteq> nd_id ` set drafts"
  shows "\<exists>new. keyNodes sha drafts old g = Some (Inr new) \<and> (\<forall>n \<in> set new. pn_strategy n \<noteq> FailPair)"
proof -
  from topological_decides [OF assms(3,4)] assms(6,7) obtain ds where ds: "topological drafts (pn_id ` set old) = Some (Inr ds)" by auto
  from topological_Inr [OF ds assms(3)] have t: "set ds = set drafts" "layered (pn_id ` set old) ds" by simp_all
  have "\<exists>r. foldE (keyDraft sha g) ds (keysOf old, []) = Inr r"
    by (rule keyDrafts_exist) (use assms(1,2) t in \<open>simp_all add: draftOk_def dom_keysOf\<close>)
  then obtain r where r: "foldE (keyDraft sha g) ds (keysOf old, []) = Inr r" by blast
  have "duplicateId (pn_id ` set old) drafts = None" using assms(3,4) by (simp add: duplicateId_None)
  then have keyed: "keyNodes sha drafts old g = Some (Inr (snd r))" using ds r by (simp add: keyNodes_def keysOf_foldl [OF assms(5)])
  from keyNodes_Inr [OF keyed assms(5)] obtain es where es: "set es = set drafts" "list_all2 (keyedFrom sha (keysOf (old @ snd r)) g) es (snd r)" by metis
  have "pn_strategy n \<noteq> FailPair" if "n \<in> set (snd r)" for n
    using list_all2_set2 [OF es(2)] that es(1) assms(2) keyedFrom_strategy by (fastforce simp: orElse_def draftOk_def split: option.splits)
  with keyed show ?thesis by blast
qed

lemma compile_succeeds:
  assumes "\<forall>d. hexText (sha d)" "\<forall>d \<in> set drafts. draftOk d" "distinct (map nd_id drafts)"
    and "acyclic (draftEdges drafts {})" "snd ` draftEdges drafts {} \<subseteq> nd_id ` set drafts"
  shows "\<exists>plan. compilePlan sha planId flow drafts = Some (Inr plan) \<and> (\<forall>n \<in> set (pl_nodes plan). pn_strategy n \<noteq> FailPair)"
proof -
  have "\<exists>new. keyNodes sha drafts [] 0 = Some (Inr new) \<and> (\<forall>n \<in> set new. pn_strategy n \<noteq> FailPair)"
    by (rule keyNodes_succeeds [OF assms(1-3)]) (use assms(4,5) in simp_all)
  then obtain new where
    new: "keyNodes sha drafts [] 0 = Some (Inr new)" "\<forall>n \<in> set new. pn_strategy n \<noteq> FailPair" by blast
  then obtain nodes where nodes: "annotate new {} = Inr nodes" using annotate_succeeds by blast
  obtain k where k: "digestOf sha planId flow nodes = Inr k" using digest_exists [of sha] assms(1) by blast
  have "\<forall>n \<in> set nodes. pn_strategy n \<noteq> FailPair" using annotate_strategies [OF nodes] new(2) by (metis (no_types, lifting) imageE imageI)
  then show ?thesis using new(1) nodes k by (simp add: compilePlan_def)
qed

lemma append_succeeds:
  assumes "\<forall>d. hexText (sha d)" "\<forall>d \<in> set drafts. draftOk d" "distinct (map nd_id drafts)"
    and "planOk sha plan" "\<forall>n \<in> set (pl_nodes plan). pn_strategy n \<noteq> FailPair"
    and "nd_id ` set drafts \<inter> pn_id ` set (pl_nodes plan) = {}"
    and "acyclic (draftEdges drafts (pn_id ` set (pl_nodes plan)))" "snd ` draftEdges drafts (pn_id ` set (pl_nodes plan)) \<subseteq> nd_id ` set drafts"
  shows "\<exists>plan'. appendPlan sha plan drafts = Some (Inr plan')"
proof -
  have "distinct (map pn_id (pl_nodes plan))" using assms(4) by (simp add: planOk_def graphOk_def)
  from keyNodes_succeeds [OF assms(1-3,6) this assms(7,8)] obtain new where
    new: "keyNodes sha drafts (pl_nodes plan) (pl_generation plan + 1) = Some (Inr new)" "\<forall>n \<in> set new. pn_strategy n \<noteq> FailPair" by blast
  have "\<forall>n \<in> set (pl_nodes plan @ new). pn_strategy n \<noteq> FailPair" using assms(5) new(2) by auto
  then obtain nodes where nodes: "annotate (pl_nodes plan @ new) (pn_id ` set (pl_nodes plan)) = Inr nodes" using annotate_succeeds by blast
  obtain k where "digestOf sha (pl_planId plan) (pl_flow plan) nodes = Inr k" using digest_exists [of sha] assms(1) by blast
  then show ?thesis using new(1) nodes by (simp add: appendPlan_def)
qed

end
