(* ===== verification/Plan_Properties.thy ===== *)
theory Plan_Properties
  imports Plan_Total
begin

text \<open>
  Properties of plans: the invariant of growth, what it says of overlapping effects, append-only history, what
  equal keys mean, and which drafts compile.
\<close>

section \<open>Paths of effects\<close>

definition mutates :: "NodeEffects \<Rightarrow> string \<Rightarrow> bool" where
  "mutates effects path \<longleftrightarrow> list_ex (\<lambda>entry. names entry path) (produces effects)"

definition consumes :: "NodeEffects \<Rightarrow> string \<Rightarrow> bool" where
  "consumes effects path \<longleftrightarrow> list_ex (\<lambda>entry. names entry path) (expandDeclarations (ne_reads effects))"

lemma mutates_overlapping: "mutates e p \<Longrightarrow> mutates l p \<Longrightarrow> overlapping e l \<noteq> []"
  unfolding mutates_def overlapping_def list_ex_iff map_is_Nil_conv filter_empty_conv using overlaps_sound by blast

lemma consumes_reads: "consumes r p \<Longrightarrow> mutates w p \<Longrightarrow> readsWhatItWrites r w"
  unfolding consumes_def mutates_def readsWhatItWrites_def list_ex_iff using overlaps_sound by blast

section \<open>Sample drafts\<close>

text \<open>A digest service for the witnesses, and a flow whose second step reads what its first one writes.\<close>

definition zeroSha :: "units \<Rightarrow> string" where
  "zeroSha document = replicate 64 (CHR ''0'')"

definition sampleDraft :: "string \<Rightarrow> string list \<Rightarrow> string list \<Rightarrow> string list \<Rightarrow> NodeDraft" where
  "sampleDraft i inputs rs ws = \<lparr>nd_id = i,
     nd_material = \<lparr>km_version = materialVersion, km_kind = Sealed, km_nondeterministic = False, km_body = jsText i,
       km_inputs = map (\<lambda>x. RefInput x []) inputs, km_layers = [], km_capabilities = [], km_effects = None, km_placement = None\<rparr>,
     nd_effects = \<lparr>ne_reads = map (Leaf \<circ> PathEntry) rs, ne_writes = map (Leaf \<circ> PathEntry) ws, ne_removes = None,
       ne_boundaryMode = Hard\<rparr>,
     nd_kind = None, nd_priority = None, nd_conflictStrategy = None, nd_runtimeStrategy = None\<rparr>"

definition sampleDrafts :: "NodeDraft list" where
  "sampleDrafts = [sampleDraft ''build'' [''fetch''] [''src''] [''out''], sampleDraft ''fetch'' [] [] [''src'']]"

lemma zeroSha_hex: "\<forall>d. hexText (zeroSha d)"
  by (simp add: zeroSha_def hexText_def list_all_iff)

lemma sample_drafts:
  "\<forall>d \<in> set sampleDrafts. draftOk d" "distinct (map nd_id sampleDrafts)"
  "acyclic (draftEdges sampleDrafts {})" "snd ` draftEdges sampleDrafts {} \<subseteq> nd_id ` set sampleDrafts"
proof -
  have ok: "draftOk (sampleDraft ''build'' [''fetch''] [''src''] [''out''])" "draftOk (sampleDraft ''fetch'' [] [] [''src''])"
    by (simp_all add: draftOk_def sampleDraft_def keyable_def) code_simp+
  then show "\<forall>d \<in> set sampleDrafts. draftOk d" by (simp add: sampleDrafts_def)
  show "distinct (map nd_id sampleDrafts)" by (simp add: sampleDrafts_def sampleDraft_def)
  have layered: "layered {} (rev sampleDrafts)"
    by (simp add: sampleDrafts_def sampleDraft_def needs_def dependencies_def addOnce_def)
  have same: "draftEdges (rev sampleDrafts) {} = draftEdges sampleDrafts {}" by (simp add: draftEdges_def)
  have dist: "distinct (map nd_id (rev sampleDrafts))" by (simp add: sampleDrafts_def sampleDraft_def)
  show "acyclic (draftEdges sampleDrafts {})" using layered_rank(1) [OF layered dist] by (simp add: same)
  show "snd ` draftEdges sampleDrafts {} \<subseteq> nd_id ` set sampleDrafts" using layered_rank(2) [OF layered dist] by (simp add: same)
qed

lemma sample_compiles:
  obtains plan where "compilePlan zeroSha ''plan'' ''flow'' sampleDrafts = Some (Inr plan)" "planGrown zeroSha plan plan"
    "\<forall>n \<in> set (pl_nodes plan). pn_strategy n \<noteq> FailPair"
  using compile_succeeds [OF zeroSha_hex sample_drafts] planGrown.compiled by metis

section \<open>Properties\<close>

text \<open>
  C35: a plan, compiled and then grown by any appends, is a directed acyclic graph over its own distinct nodes
  without repeated edges; every node depends on what its material consumes, has effects that were admitted, and
  carries the key its material has under the keys of the plan; the plan's digest is that of its nodes.
\<close>

theorem plan_stays_sound:
  assumes "planGrown sha base plan"
  shows "distinct (map pn_id (pl_nodes plan)) \<and> acyclic (edgeRel (pl_nodes plan))
    \<and> digestOf sha (pl_planId plan) (pl_flow plan) (pl_nodes plan) = Inr (pl_digest plan)
    \<and> (\<forall>n \<in> set (pl_nodes plan). set (pn_dependsOn n) \<subseteq> pn_id ` set (pl_nodes plan) \<and> distinct (pn_dependsOn n)
        \<and> set (dependencies (pn_material n)) \<subseteq> set (pn_dependsOn n) \<and> validateEffects (pn_id n) (pn_effects n) = None
        \<and> fromKeyMaterial sha (pn_material n) (keysOf (pl_nodes plan)) = Inr (pn_key n)
        \<and> 0 \<le> pn_generation n \<and> pn_generation n \<le> pl_generation plan)"
proof -
  from planGrown_ok [OF assms] have ok: "graphOk (pl_nodes plan)"
    "\<forall>n \<in> set (pl_nodes plan). nodeOk sha (keysOf (pl_nodes plan)) n \<and> 0 \<le> pn_generation n \<and> pn_generation n \<le> pl_generation plan"
    "digestOf sha (pl_planId plan) (pl_flow plan) (pl_nodes plan) = Inr (pl_digest plan)" by (simp_all add: planOk_def)
  have "set (pn_dependsOn n) \<subseteq> pn_id ` set (pl_nodes plan)" if "n \<in> set (pl_nodes plan)" for n
  proof -
    have "set (pn_dependsOn n) \<subseteq> Range (edgeRel (pl_nodes plan))" using that by (auto simp: edgeRel_def)
    with ok(1) show ?thesis by (auto simp: graphOk_def)
  qed
  with ok show ?thesis by (simp add: graphOk_def nodeOk_def)
qed

theorem plan_stays_sound_witness:
  "\<exists>plan. planGrown zeroSha plan plan \<and> acyclic (edgeRel (pl_nodes plan)) \<and> ''fetch'' \<in> pn_id ` set (pl_nodes plan)"
proof -
  obtain plan where plan: "compilePlan zeroSha ''plan'' ''flow'' sampleDrafts = Some (Inr plan)" "planGrown zeroSha plan plan" by (rule sample_compiles)
  have "''fetch'' \<in> pn_id ` set (pl_nodes plan)" using compiled_ok(4) [OF plan(1)] by (simp add: sampleDrafts_def sampleDraft_def)
  with plan(2) plan_stays_sound [OF plan(2)] show ?thesis by blast
qed

text \<open>
  C36: in a grown plan no overlap is left open. Of two nodes that mutate one path, the later is ordered behind
  the earlier, or the pair's verdict is a lane and the later node is annotated with it; a node that reads a path
  another mutates is ordered with it, one way or the other, whenever the writer is not of a later generation.
\<close>

theorem overlaps_are_settled:
  assumes "planGrown sha base plan"
  shows "(\<forall>j < length (pl_nodes plan). \<forall>i < j. \<forall>e l path. e = pl_nodes plan ! i \<and> l = pl_nodes plan ! j
        \<and> mutates (pn_effects e) path \<and> mutates (pn_effects l) path
      \<longrightarrow> (pn_id l, pn_id e) \<in> (edgeRel (pl_nodes plan))\<^sup>+
        \<or> pairStrategy (pn_strategy e) (pn_strategy l) = Lane \<and> (\<exists>a \<in> set (pn_conflicts l). ca_with a = pn_id e \<and> ca_strategy a = Lane))
    \<and> (\<forall>r \<in> set (pl_nodes plan). \<forall>w \<in> set (pl_nodes plan). \<forall>path. r \<noteq> w \<and> pn_generation w \<le> pn_generation r
        \<and> consumes (pn_effects r) path \<and> mutates (pn_effects w) path
      \<longrightarrow> (pn_id r, pn_id w) \<in> (edgeRel (pl_nodes plan))\<^sup>+ \<or> (pn_id w, pn_id r) \<in> (edgeRel (pl_nodes plan))\<^sup>+)"
proof -
  from planGrown_ok [OF assms] have ok: "pairsOk (pl_nodes plan)" "distinct (map pn_id (pl_nodes plan))"
    by (simp_all add: planOk_def graphOk_def)
  have writers: "(pn_id l, pn_id e) \<in> (edgeRel (pl_nodes plan))\<^sup>+
        \<or> pairStrategy (pn_strategy e) (pn_strategy l) = Lane \<and> (\<exists>a \<in> set (pn_conflicts l). ca_with a = pn_id e \<and> ca_strategy a = Lane)"
    if "j < length (pl_nodes plan)" "i < j" "e = pl_nodes plan ! i" "l = pl_nodes plan ! j"
      "mutates (pn_effects e) path" "mutates (pn_effects l) path" for i j e l path
  proof -
    have "writersOk (pl_nodes plan) e l" using ok(1) that(1-4) by (simp add: pairsOk_def sorted_wrt_iff_nth_less)
    with mutates_overlapping [OF that(5,6)] show ?thesis by (simp add: writersOk_def)
  qed
  have readers: "(pn_id r, pn_id w) \<in> (edgeRel (pl_nodes plan))\<^sup>+ \<or> (pn_id w, pn_id r) \<in> (edgeRel (pl_nodes plan))\<^sup>+"
    if "r \<in> set (pl_nodes plan)" "w \<in> set (pl_nodes plan)" "r \<noteq> w" "pn_generation w \<le> pn_generation r"
      "consumes (pn_effects r) path" "mutates (pn_effects w) path" for r w path
  proof -
    have "readersOk (pl_nodes plan) r w" using ok(1) that(1,2,4) by (simp add: pairsOk_def)
    moreover have "pn_id w \<noteq> pn_id r" using that(1-3) ok(2) by (auto simp: distinct_map dest: inj_onD)
    ultimately show ?thesis using consumes_reads [OF that(5,6)] by (simp add: readersOk_def)
  qed
  show ?thesis using writers readers by blast
qed

lemma expand_leaf: "Leaf entry \<in> set ds \<Longrightarrow> entry \<in> set (expandDeclarations ds)"
  by (induction ds) (auto simp: expandDeclarations_def)

lemma consumes_path: "Leaf (PathEntry p) \<in> set (ne_reads e) \<Longrightarrow> consumes e p"
  unfolding consumes_def list_ex_iff by (rule bexI [OF _ expand_leaf]) simp_all

lemma mutates_path: "Leaf (PathEntry p) \<in> set (ne_writes e) \<Longrightarrow> mutates e p"
  unfolding mutates_def list_ex_iff produces_def set_append by (rule bexI [OF _ UnI1 [OF expand_leaf]]) simp_all

theorem overlaps_are_settled_witness:
  "\<exists>plan r w. planGrown zeroSha plan plan \<and> r \<in> set (pl_nodes plan) \<and> w \<in> set (pl_nodes plan)
     \<and> consumes (pn_effects r) ''src'' \<and> mutates (pn_effects w) ''src''
     \<and> ((pn_id r, pn_id w) \<in> (edgeRel (pl_nodes plan))\<^sup>+ \<or> (pn_id w, pn_id r) \<in> (edgeRel (pl_nodes plan))\<^sup>+)"
proof -
  obtain plan where plan: "compilePlan zeroSha ''plan'' ''flow'' sampleDrafts = Some (Inr plan)" "planGrown zeroSha plan plan" by (rule sample_compiles)
  obtain r where r: "r \<in> set (pl_nodes plan)" "pn_id r = ''build''" "pn_effects r = nd_effects (sampleDraft ''build'' [''fetch''] [''src''] [''out''])"
    using compiled_node [OF plan(1), of "sampleDraft ''build'' [''fetch''] [''src''] [''out'']"] by (auto simp: sampleDrafts_def sampleDraft_def)
  obtain w where w: "w \<in> set (pl_nodes plan)" "pn_id w = ''fetch''" "pn_effects w = nd_effects (sampleDraft ''fetch'' [] [] [''src''])"
    using compiled_node [OF plan(1), of "sampleDraft ''fetch'' [] [] [''src'']"] by (auto simp: sampleDrafts_def sampleDraft_def)
  have reads: "consumes (pn_effects r) ''src''" by (rule consumes_path) (simp add: r(3) sampleDraft_def)
  have writes: "mutates (pn_effects w) ''src''" by (rule mutates_path) (simp add: w(3) sampleDraft_def)
  have "r \<noteq> w" using r(2) w(2) by auto
  moreover have "pn_generation r = 0 \<and> pn_generation w = 0"
    using compiled_ok(1,2) [OF plan(1)] r(1) w(1) by (fastforce simp: planOk_def)
  ultimately have "(pn_id r, pn_id w) \<in> (edgeRel (pl_nodes plan))\<^sup>+ \<or> (pn_id w, pn_id r) \<in> (edgeRel (pl_nodes plan))\<^sup>+"
    using conjunct2 [OF overlaps_are_settled [OF plan(2)], rule_format, OF r(1) w(1)] reads writes by simp
  with plan(2) r(1) w(1) reads writes show ?thesis by blast
qed

text \<open>
  C37: growth is append-only. Whatever an append makes of a plan, the nodes already in it stay as they are, in
  front; the nodes of the new generation are those appended, one per draft; and the digest that was approved
  stays the base digest.
\<close>

theorem append_keeps_history:
  assumes "planGrown sha base plan" "appendPlan sha plan drafts = Some (Inr plan')"
  shows "pl_nodes plan' = pl_nodes plan @ generationNodes plan' \<and> pn_id ` set (generationNodes plan') = nd_id ` set drafts
    \<and> pl_generation plan' = pl_generation plan + 1 \<and> prefix (pl_nodes base) (pl_nodes plan')
    \<and> pl_baseDigest plan' = pl_digest base \<and> pl_planId plan' = pl_planId base \<and> pl_flow plan' = pl_flow base"
proof -
  note ok = planGrown_ok [OF assms(1)]
  from appended_ok [OF ok assms(2)] obtain new where new: "pl_nodes plan' = pl_nodes plan @ new"
    "\<forall>n \<in> set new. pn_generation n = pl_generation plan'" "pn_id ` set new = nd_id ` set drafts" "pl_generation plan' = pl_generation plan + 1" by metis
  have "\<forall>n \<in> set (pl_nodes plan). pn_generation n \<noteq> pl_generation plan'" using ok new(4) by (fastforce simp: planOk_def)
  then have "generationNodes plan' = new" using new(1,2) by (simp add: generationNodes_def filter_empty_conv filter_id_conv)
  with new planGrown_base [OF planGrown.appended [OF assms]] show ?thesis by simp
qed

theorem append_keeps_history_witness:
  "\<exists>base plan. appendPlan zeroSha base [sampleDraft ''test'' [''build''] [''out''] []] = Some (Inr plan)
     \<and> pl_nodes plan = pl_nodes base @ generationNodes plan \<and> pl_generation plan = 1"
proof -
  let ?d = "sampleDraft ''test'' [''build''] [''out''] []"
  obtain base where base: "compilePlan zeroSha ''plan'' ''flow'' sampleDrafts = Some (Inr base)" "planGrown zeroSha base base"
    "\<forall>n \<in> set (pl_nodes base). pn_strategy n \<noteq> FailPair" by (rule sample_compiles)
  have ids: "pn_id ` set (pl_nodes base) = {''build'', ''fetch''}" using compiled_ok(4) [OF base(1)] by (simp add: sampleDrafts_def sampleDraft_def)
  have ok: "draftOk ?d" by (simp add: draftOk_def sampleDraft_def keyable_def) code_simp
  have layered: "layered {''build'', ''fetch''} [?d]" "distinct (map nd_id [?d])" "nd_id ` set [?d] \<inter> {''build'', ''fetch''} = {}"
    by (simp_all add: sampleDraft_def needs_def dependencies_def addOnce_def)
  have "\<exists>plan. appendPlan zeroSha base [?d] = Some (Inr plan)"
    by (rule append_succeeds [OF zeroSha_hex]) (use ok layered layered_rank [OF layered] base compiled_ok(1) ids in auto)
  then obtain plan where plan: "appendPlan zeroSha base [?d] = Some (Inr plan)" by blast
  from append_keeps_history [OF base(2) plan] compiled_ok(2) [OF base(1)] plan show ?thesis by auto
qed

text \<open>
  C38: keys say what is consumed. For nodes of any two grown plans whose bodies are data, and a digest that
  does not give their two documents one text, the keys are equal exactly when the materials declare the same
  and the nodes they refer to have the same keys: an edit re-keys the node and what is downstream, nothing else.
\<close>

theorem keys_follow_material:
  assumes "planGrown sha a p" "planGrown sha b q" "m \<in> set (pl_nodes p)" "n \<in> set (pl_nodes q)"
    and "plainMaterial (pn_material m)" "plainMaterial (pn_material n)"
    and "\<not> collide sha (materialDocument (keysOf (pl_nodes p)) (pn_material m)) (materialDocument (keysOf (pl_nodes q)) (pn_material n))"
  shows "pn_key m = pn_key n \<longleftrightarrow> sameMaterial (keysOf (pl_nodes p)) (keysOf (pl_nodes q)) (pn_material m) (pn_material n)"
proof (rule keys_same_iff [OF _ _ assms(5-7)])
  show "fromKeyMaterial sha (pn_material m) (keysOf (pl_nodes p)) = Inr (pn_key m)"
    using planGrown_ok [OF assms(1)] assms(3) by (simp add: planOk_def nodeOk_def)
  show "fromKeyMaterial sha (pn_material n) (keysOf (pl_nodes q)) = Inr (pn_key n)"
    using planGrown_ok [OF assms(2)] assms(4) by (simp add: planOk_def nodeOk_def)
qed

lemma sample_materials:
  "plainMaterial (nd_material (sampleDraft i xs rs ws))" "resolved D (nd_material (sampleDraft i [] rs ws))"
  "materialDocument D (nd_material (sampleDraft i [] rs ws)) = materialDocument E (nd_material (sampleDraft i [] rs ws))"
  "sameMaterial D E (nd_material (sampleDraft i xs rs ws)) (nd_material (sampleDraft j ys rs' ws')) \<Longrightarrow> i = j"
  by (auto simp: plainMaterial_def sampleDraft_def resolved_def materialDocument_def materialIdentity_def materialBody_def sameMaterial_def)

theorem keys_follow_material_witness:
  "\<exists>sha plan m n. planGrown sha plan plan \<and> m \<in> set (pl_nodes plan) \<and> n \<in> set (pl_nodes plan) \<and> pn_key m \<noteq> pn_key n
     \<and> \<not> sameMaterial (keysOf (pl_nodes plan)) (keysOf (pl_nodes plan)) (pn_material m) (pn_material n)"
proof -
  let ?build = "sampleDraft ''build'' [''fetch''] [''src''] [''out'']" and ?fetch = "sampleDraft ''fetch'' [] [] [''src'']"
  have "keyable (nd_material ?fetch)" by (simp add: keyable_def sampleDraft_def)
  from printable_document [OF printable_content [OF this]] obtain t where t: "materialDocument Map.empty (nd_material ?fetch) = Inr t"
    unfolding materialDocument_def by blast
  define sha where "sha d = replicate 64 (if d = t then CHR ''0'' else CHR ''1'')" for d :: units
  have hex: "\<forall>d. hexText (sha d)" by (simp add: sha_def hexText_def list_all_iff)
  have sha_eq: "sha d = sha e \<longleftrightarrow> (d = t \<longleftrightarrow> e = t)" for d e by (simp add: sha_def)
  obtain plan where plan: "compilePlan sha ''plan'' ''flow'' sampleDrafts = Some (Inr plan)"
    using compile_succeeds [OF hex sample_drafts] by blast
  have grown: "planGrown sha plan plan" by (rule planGrown.compiled [OF plan])
  obtain m where m: "m \<in> set (pl_nodes plan)" "pn_material m = nd_material ?build"
    using compiled_node [OF plan, of ?build] by (auto simp: sampleDrafts_def)
  obtain n where n: "n \<in> set (pl_nodes plan)" "pn_material n = nd_material ?fetch"
    using compiled_node [OF plan, of ?fetch] by (auto simp: sampleDrafts_def)
  let ?k = "keysOf (pl_nodes plan)"
  have ok: "nodeOk sha ?k m" "nodeOk sha ?k n" using planGrown_ok [OF grown] m(1) n(1) by (simp_all add: planOk_def)
  obtain u where u: "resolved ?k (pn_material m)" "materialDocument ?k (pn_material m) = Inr u"
    using ok(1) unfolding nodeOk_def fromKeyMaterial_Inr by blast
  have v: "resolved ?k (pn_material n)" "materialDocument ?k (pn_material n) = Inr t"
    unfolding n(2) using t sample_materials(3) [of ?k "''fetch''" "[]" "[''src'']" Map.empty] by (simp_all add: sample_materials(2))
  have plain: "plainMaterial (pn_material m)" "plainMaterial (pn_material n)" unfolding m(2) n(2) by (rule sample_materials(1))+
  have differ: "\<not> sameMaterial ?k ?k (pn_material m) (pn_material n)" unfolding m(2) n(2) using sample_materials(4) by blast
  with documents_same_iff [OF plain u(1) v(1) u(2) v(2)] have "u \<noteq> t" by simp
  then have "\<not> collide sha (materialDocument ?k (pn_material m)) (materialDocument ?k (pn_material n))"
    unfolding u(2) v(2) by (simp add: collide_def sha_eq)
  from keys_follow_material [OF grown grown m(1) n(1) plain this] differ grown m(1) n(1) show ?thesis by blast
qed



definition refusesGraph :: "NodeDraft list \<Rightarrow> string set \<Rightarrow> (CompileError + Plan) option \<Rightarrow> bool" where
  "refusesGraph drafts known r \<longleftrightarrow>
     (if distinct (map nd_id drafts) \<and> nd_id ` set drafts \<inter> known = {} then \<exists>e. r = Some (Inl e) \<and> refusal drafts known e
      else \<exists>message. r = Some (Inl (PlanError Duplicate_node message)))"

lemma keyNodes_total: "keyNodes sha drafts old g \<noteq> None"
  using topological_total [of drafts "pn_id ` set old"] by (auto simp: keyNodes_def split: option.split sum.split)

lemma keyNodes_refuses:
  assumes "\<not> (distinct (map nd_id drafts) \<and> nd_id ` set drafts \<inter> pn_id ` set old = {}
    \<and> acyclic (draftEdges drafts (pn_id ` set old)) \<and> snd ` draftEdges drafts (pn_id ` set old) \<subseteq> nd_id ` set drafts)"
  obtains e where "keyNodes sha drafts old g = Some (Inl e)"
    "if distinct (map nd_id drafts) \<and> nd_id ` set drafts \<inter> pn_id ` set old = {} then refusal drafts (pn_id ` set old) e
     else \<exists>message. e = PlanError Duplicate_node message"
proof (cases "distinct (map nd_id drafts) \<and> nd_id ` set drafts \<inter> pn_id ` set old = {}")
  case True
  with assms topological_decides [of drafts "pn_id ` set old"] have "\<nexists>ds. topological drafts (pn_id ` set old) = Some (Inr ds)" by blast
  moreover obtain r where "topological drafts (pn_id ` set old) = Some r" using topological_total by blast
  ultimately obtain e where e: "topological drafts (pn_id ` set old) = Some (Inl e)" by (cases r) auto
  have "keyNodes sha drafts old g = Some (Inl e)" using True e duplicateId_None [of "pn_id ` set old" drafts] by (simp add: keyNodes_def)
  with that True topological_Inl [OF e] show thesis by simp
next
  case False
  then obtain i where "duplicateId (pn_id ` set old) drafts = Some i" using duplicateId_None by blast
  with that False show thesis by (simp add: keyNodes_def)
qed

text \<open>
  C40: refusals of the graph. Compiling and appending always return; an id given twice, or that the plan already
  has, is \<open>duplicate_node\<close>; and among fresh ids a graph with a cycle or a missing node is refused, as \<open>cycle\<close> only
  when a draft does consume itself and as \<open>unknown_dependency\<close> only when a node it refers to is missing.
\<close>

theorem malformed_graphs_are_refused:
  "compilePlan sha planId flow drafts \<noteq> None \<and> appendPlan sha plan drafts \<noteq> None
    \<and> (\<not> (distinct (map nd_id drafts) \<and> acyclic (draftEdges drafts {}) \<and> snd ` draftEdges drafts {} \<subseteq> nd_id ` set drafts)
       \<longrightarrow> refusesGraph drafts {} (compilePlan sha planId flow drafts))
    \<and> (\<not> (distinct (map nd_id drafts) \<and> nd_id ` set drafts \<inter> pn_id ` set (pl_nodes plan) = {}
          \<and> acyclic (draftEdges drafts (pn_id ` set (pl_nodes plan)))
          \<and> snd ` draftEdges drafts (pn_id ` set (pl_nodes plan)) \<subseteq> nd_id ` set drafts)
       \<longrightarrow> refusesGraph drafts (pn_id ` set (pl_nodes plan)) (appendPlan sha plan drafts))"
proof (intro conjI impI)
  show "compilePlan sha planId flow drafts \<noteq> None" "appendPlan sha plan drafts \<noteq> None"
    using keyNodes_total by (auto simp: compilePlan_def appendPlan_def Let_def)
next
  assume "\<not> (distinct (map nd_id drafts) \<and> acyclic (draftEdges drafts {}) \<and> snd ` draftEdges drafts {} \<subseteq> nd_id ` set drafts)"
  then have "\<not> (distinct (map nd_id drafts) \<and> nd_id ` set drafts \<inter> pn_id ` set [] = {} \<and> acyclic (draftEdges drafts (pn_id ` set []))
    \<and> snd ` draftEdges drafts (pn_id ` set []) \<subseteq> nd_id ` set drafts)" by simp
  from keyNodes_refuses [OF this, of sha 0] obtain e where "keyNodes sha drafts [] 0 = Some (Inl e)"
    "if distinct (map nd_id drafts) then refusal drafts {} e else \<exists>message. e = PlanError Duplicate_node message"
    unfolding list.set image_empty Int_empty_right simp_thms by metis
  then show "refusesGraph drafts {} (compilePlan sha planId flow drafts)" by (auto simp: compilePlan_def refusesGraph_def split: if_splits)
next
  let ?known = "pn_id ` set (pl_nodes plan)"
  assume "\<not> (distinct (map nd_id drafts) \<and> nd_id ` set drafts \<inter> ?known = {} \<and> acyclic (draftEdges drafts ?known)
    \<and> snd ` draftEdges drafts ?known \<subseteq> nd_id ` set drafts)"
  from keyNodes_refuses [OF this, of sha "pl_generation plan + 1"] obtain e where
    "keyNodes sha drafts (pl_nodes plan) (pl_generation plan + 1) = Some (Inl e)"
    "if distinct (map nd_id drafts) \<and> nd_id ` set drafts \<inter> ?known = {} then refusal drafts ?known e
     else \<exists>message. e = PlanError Duplicate_node message" by metis
  then show "refusesGraph drafts ?known (appendPlan sha plan drafts)" by (auto simp: appendPlan_def Let_def refusesGraph_def split: if_splits)
qed

theorem malformed_graphs_are_refused_witness:
  "\<exists>message. compilePlan zeroSha ''plan'' ''flow'' (sampleDraft ''fetch'' [] [] [] # sampleDrafts) = Some (Inl (PlanError Duplicate_node message))"
proof -
  let ?ds = "sampleDraft ''fetch'' [] [] [] # sampleDrafts"
  have "\<not> distinct (map nd_id ?ds)" by (simp add: sampleDrafts_def sampleDraft_def)
  then show ?thesis using malformed_graphs_are_refused [of zeroSha "''plan''" "''flow''" ?ds undefined] by (auto simp: refusesGraph_def simp del: list.map)
qed

section \<open>A path through an ordering edge\<close>

text \<open>
  The closure the conflict pass consults holds the edges between materials, transitively, and of the ordering
  edges only those of the later node itself. A pair that is ordered by a path through an ordering edge is
  therefore met as a conflict: \<open>c\<close> consumes \<open>b\<close>, which is ordered behind \<open>a\<close>, and yet its wish to fail on an overlap
  refuses the plan for its overlap with \<open>a\<close>.
\<close>

lemma ordered_pair_is_refused:
  fixes node :: "string \<Rightarrow> string list \<Rightarrow> string list \<Rightarrow> PairStrategy \<Rightarrow> PlanNode"
  defines "node i xs ws s \<equiv> (keyedNode (sampleDraft i xs [] ws) [] 0)\<lparr>pn_strategy := s\<rparr>"
  shows "mapR (map (\<lambda>n. (pn_id n, pn_dependsOn n))) (annotate [node ''a'' [] [''x'', ''y''] Serialize, node ''b'' [] [''x''] Serialize, node ''c'' [''b''] [] FailPair] {})
      = Inr [(''a'', []), (''b'', [''a'']), (''c'', [''b''])]"
    "annotate [node ''a'' [] [''x'', ''y''] Serialize, node ''b'' [] [''x''] Serialize, node ''c'' [''b''] [''y''] FailPair] {}
      = Inl (PlanError Overlap_forbidden ''Nodes a and c both write y'')"
  unfolding node_def by code_simp+

end
