(* ===== verification/Spec2Isabelle.thy ===== *)
theory Spec2Isabelle
  imports Kernel_Properties Store_Live StepCache_Properties Plan_Properties
begin

text \<open>
  A verification development of the durable core of \<open>flows\<close>, a TypeScript engine for long-running,
  resumable workflows. The core is the packages \<^verbatim>\<open>packages/journal\<close> and \<^verbatim>\<open>packages/run-store\<close>:
  every change of a run or an attempt is one database transaction that moves a row and appends the
  journal event describing it, under a lease that says which process may write the run. On the journal
  rests the permission kernel, \<^verbatim>\<open>packages/capability\<close> and \<^verbatim>\<open>packages/kernel\<close>: what a run may do is decided by
  rules, open requests and their replies, and every grant is a journal event before it takes effect.

  \<^bold>\<open>Parts and their theories.\<close>
  \<^item> \<open>Flows_Prelude\<close>: times, JSON values, decimal text, length-prefixed names, and transactions as
    functions \<open>'s \<Rightarrow> ('e + 'a) \<times> 's\<close> with \<open>bindT\<close>, \<open>retT\<close>, \<open>failT\<close>; \<open>Json_Text\<close>: the recogniser behind
    \<open>isJsonString\<close> and \<open>JSON.stringify\<close>.
  \<^item> \<open>Consensus\<close> (\<^verbatim>\<open>journal/src/Consensus.ts\<close>, \<^verbatim>\<open>OwnerId.ts\<close>): identities, liveness evidence, outcomes, the service
    record, the no-op and in-memory strategies. The contract is the locale \<open>consensus_strategy\<close>; it is
    interpreted on \<open>makeNoop\<close>, \<open>makeLocal\<close> and, in \<open>SqlConsensus\<close> (\<^verbatim>\<open>SqlConsensus.ts\<close>, the lease table of
    \<^verbatim>\<open>migrations/0003_consensus.ts\<close>), on \<open>makeSql\<close>, which refines the in-memory strategy along \<open>encodeTable\<close>.
  \<^item> \<open>Redaction\<close> (\<^verbatim>\<open>Redaction.ts\<close>): textual rules, sensitive names, the structural walk, verbatim namespaces.
  \<^item> \<open>Journal\<close>, \<open>Journal_Log\<close> (\<^verbatim>\<open>SqlJournal.ts\<close>, \<^verbatim>\<open>Journal.ts\<close>, \<^verbatim>\<open>JournalEvent.ts\<close>): admission, sequence allocation,
    deduplication, fenced appends, transactions with parked settlements, paged reads and the read
    loop, checkpoints and compaction. The locale \<open>journal_service\<close> extends \<open>consensus_strategy\<close> with a configuration
    that uses the strategy, and is interpreted for both real strategies.
  \<^item> \<open>RunStore\<close>, \<open>AttemptStore\<close> (\<^verbatim>\<open>run-store/src/RunStore.ts\<close>, \<^verbatim>\<open>AttemptStore.ts\<close>, their migration): the two tables with
    their CHECKs and foreign keys, and every operation statement by statement.
  \<^item> \<open>Fold\<close> (\<^verbatim>\<open>run-store/src/Fold.ts\<close>): the reducer, the projections, snapshots, and the rebuild of both tables.
  \<^item> \<open>Capability\<close>, \<open>Permission\<close> (\<^verbatim>\<open>capability/src/Capability.ts\<close>, \<^verbatim>\<open>Permission.ts\<close>): capabilities and their text, patterns,
    matching and subsumption, lexical paths, effect tiers, rules and their evaluation.
  \<^item> \<open>CapabilitySet\<close>, \<open>GrantStore\<close> (\<^verbatim>\<open>kernel/src/CapabilitySet.ts\<close>, \<^verbatim>\<open>GrantStore.ts\<close>): canonical sets of patterns, and the store:
    a record of its rule lists, pending requests and completed deferreds, with \<open>makeGrants\<close>, \<open>check\<close>, \<open>reply\<close>,
    \<open>grantEnvelope\<close> and \<open>closeStore\<close>. The persistence hook is a parameter; its contract is the locale \<open>grant_log\<close>
    of \<open>GrantLog\<close>, in which the store's rules are shown to be those its log grants.
  \<^item> \<open>GrantCodec\<close>, \<open>GrantReplay\<close> (\<^verbatim>\<open>kernel/src/GrantEvent.ts\<close>, \<^verbatim>\<open>JournalGrantStore.ts\<close>): the JSON form of grant events and
    what redaction does to it, the hook over \<open>emitDurable\<close> (which interprets \<open>grant_log\<close>), the paged replays and the
    construction of a store from a journal.
  \<^item> \<open>Canonical\<close> (\<^verbatim>\<open>canonical/src/internal/canonicalize.ts\<close>, \<^verbatim>\<open>Canonical.ts\<close>): JavaScript values over 16-bit code
    units, the canonical serializer, and \<open>JSON.parse\<close>. \<open>StepCache\<close> (\<^verbatim>\<open>step-cache/src/CacheStore.ts\<close>,
    \<^verbatim>\<open>internal/CacheEvents.ts\<close>, \<^verbatim>\<open>Fold.ts\<close>, the first migration): the head and the ledger of recorded results,
    \<open>putEntry\<close>, \<open>getEntry\<close> and \<open>evict\<close> (\<open>put\<close>, \<open>get\<close>, \<open>evict\<close> of the code), their events, the fold and \<open>rebuildCache\<close>.
  \<^item> \<open>FileSet\<close>, \<open>StepKey\<close>, \<open>PlanGraph\<close> (\<^verbatim>\<open>plan/src/FileSet.ts\<close>, \<^verbatim>\<open>KeyMaterial.ts\<close>, \<^verbatim>\<open>StepKey.ts\<close>, \<^verbatim>\<open>Plan.ts\<close>, \<^verbatim>\<open>keys/src/Key.ts\<close>):
    declared files and when two declarations overlap; key material, the identity built of it and its key; drafts, the
    topological order, keying, the conflict pass and the reader pass of \<open>annotate\<close>, the digest, \<open>compilePlan\<close> and
    \<open>appendPlan\<close> (\<open>compile\<close> and \<open>append\<close> of the code). They rest on \<open>Canonical\<close> only.

  \<^bold>\<open>State.\<close> A plan is a value; growing it gives a new one. A store is one record: the strategy's leases, the events, the checkpoints and the two row
  tables are the database; the rest (status, sequence floors, the source-event cache, stream cursors,
  parked settlements, the clock) is memory of the calling process. A failed transaction restores the
  database part; what it does to the leases is the strategy's \<open>c_rollback\<close>: the lease table is restored,
  the in-memory strategy's map is not (lemma \<open>local_lease_survives_rollback\<close>). A write transaction is one atomic
  step; several processes are several callers between whose transactions \<open>s_switch\<close> replaces the
  process memory by anything.

  \<^bold>\<open>What is shown.\<close> \<open>Store_Mirror\<close>, \<open>Run_Mirror\<close>, \<open>Attempt_Mirror\<close> show that every operation keeps the tables
  equal to the fold of the journal (the locale \<open>store_fold\<close>, for any fold that reacts to the last entry);
  \<open>Fold_Local\<close> that the fold of a run depends on its own entries and can be resumed at a snapshot;
  \<open>Snapshot_Mirror\<close> that snapshots and compaction keep this; \<open>Rebuild\<close> puts these together over histories, the
  transitive closure of \<open>store_step\<close>; \<open>Journal_Room\<close> and \<open>Store_Live\<close> show appends and settlements that succeed, and writes
  that are refused. The properties below rest on them. \<open>GrantStore\<close> shows an invariant of every call (\<open>storeOk\<close>: requests
  are well-formed, configured rules never change, granted rules are valid) and that authority rests on accepted
  events; \<open>GrantRestart\<close> that a store made from the journal has the rules of the one that wrote it. The properties of
  the kernel, C23 to C30, are in \<open>Kernel_Properties\<close>. For the step cache, \<open>StepCache_Fold\<close> shows what a replay of the events computes
  key by key, \<open>StepCache_Mirror\<close> that every operation moves the tables as its event does, \<open>StepCache_History\<close> puts these
  together over histories (\<open>cache_step\<close>), \<open>StepCache_Live\<close> shows that puts and evictions succeed; the properties
  C31 to C34 are in \<open>StepCache_Properties\<close>.

  For plans, \<open>FileSet\<close> shows that declarations that name a common path overlap; \<open>StepKey_Meaning\<close> what equal documents of two
  materials say; \<open>Plan_Order\<close> that \<open>topological\<close> always returns, orders dependencies first, and refuses exactly the graphs
  with a cycle or a missing node; \<open>Plan_Annotate\<close> that both passes keep the edges acyclic and leave no overlap unsettled;
  \<open>Plan_Growth\<close> carries the invariant \<open>planOk\<close> through \<open>planGrown\<close>, a compilation and any appends; \<open>Plan_Total\<close> shows which
  drafts compile; the properties C35 to C40 are in \<open>Plan_Properties\<close>.

  \<^bold>\<open>Assumptions.\<close> Histories draw their clock readings from \<open>0 .. 2^53 - 1\<close>. A process identity in a
  history is one redaction does not change and whose pid is a safe integer (\<open>redacted_owner_is_lost\<close> shows why this is
  needed), and a thief does not name itself as the owner it replaces. A mutex makes every operation of the grant
  store one step; two constructors of a store are ordered by a lock, so \<open>makeJournal\<close> takes the journal as it was when
  the constructor started and as it was under the lock. The properties about restarts need a journal that has not
  been compacted and, where it is said, events that redaction leaves alone (C30 shows what happens otherwise).

  Values in the step cache are JSON values whose strings have code units below 256 (the canonical serializer itself
  has 16-bit units and any JavaScript value without cycles); its rebuild restores the tables when events
  about one key were committed in the order of their times and run ids.

  In plans the digest service is a parameter \<open>sha\<close>, of which only what a statement says is assumed: that it gives 64
  hexadecimal digits, or that it does not collide on two named documents. Texts have code units below 256, which
  normalization (NFC) leaves alone; bodies are any JavaScript values without cycles. The recursion of \<open>visit\<close> is
  assumed not to exhaust the stack.

  \<^bold>\<open>Fuel.\<close> The JSON recogniser has fuel \<open>2 * length + 2\<close>, shown to be enough in \<open>json_scan_terminates\<close>; the
  parser of canonical documents has the length of its text. The read loop terminates by
  a measure, with no fuel; so do the replay loops of the grant store and the search through the edges of a plan. The
  depth of \<open>visit\<close> is bounded by one more than the number of drafts, shown to be enough in \<open>topological_total\<close>.

  \<^bold>\<open>Not modelled.\<close> The journal's lossy queue and its batch writer, live wake-ups of streams, and the
  automatic compaction policy; spans and metrics; SQL drivers and the retry of busy transactions; the kernel's
  decorated host services, which are I/O around \<open>check\<close>; the step cache's remote tier and
  the backfill of its second migration; of plans, the keys computed at dispatch from settled results, the plan store,
  plan diffs and the builder of nodes; and
  the other packages of the repository, listed in the manifest with the reason for each.
\<close>

section \<open>Who may write a run\<close>

text \<open>
  C1. The lease: while no claim is pending and the owner's last stamp is not older than the
  staleness cutoff by any clock a thief presents, no history of calls by any processes other than
  the owner's own release ends its hold, and the database-backed guard still admits it.
\<close>

theorem fresh_owner_keeps_run:
  assumes "sql_inv t" "lease_claim (sql_view t r) = None"
    and "lease_owner (sql_view t r) = Some lo" "lo_id lo = a" "h \<le> lo_heartbeatAtMs lo"
    and "\<forall>c \<in> set cs. c \<noteq> CmdRelease r a
      \<and> (cmd_run c = r \<longrightarrow> (\<forall>now. cmd_steal_clock c = Some now \<longrightarrow> now \<le> h + staleAfterMs))"
  shows "fst (c_guard makeSql r a (execs makeSql tbl t cs)) = Inr ()"
proof -
  have "sql.secure r a h (execs makeSql tbl t cs)"
    using assms by (intro sql.secure_execs) (auto simp: sql.secure_def sql.harmless_def)
  then have inv: "sql_inv (execs makeSql tbl t cs)"
    and held: "holds (sql_view (execs makeSql tbl t cs) r) a" by (auto simp: sql.secure_def)
  show ?thesis
  proof (cases "c_guard makeSql r a (execs makeSql tbl t cs)")
    case (Pair x l)
    show ?thesis
    proof (cases x)
      case (Inl e)
      then have "\<not> holds (sql_view (execs makeSql tbl t cs) r) a"
        using sql.guard_refused [OF inv, of r a e l] Pair
        by (auto simp: sql_guard_def split: option.splits if_splits)
      with held show ?thesis by blast
    next
      case (Inr u)
      with Pair show ?thesis by simp
    qed
  qed
qed

abbreviation hostA :: OwnerId where
  "hostA \<equiv> \<lparr>hostId = ''a'', pid = 1, nonce = ''x''\<rparr>"

abbreviation hostB :: OwnerId where
  "hostB \<equiv> \<lparr>hostId = ''b'', pid = 2, nonce = ''y''\<rparr>"

abbreviation deadA :: "ms \<Rightarrow> LivenessEvidence" where
  "deadA t \<equiv> \<lparr>expectedOwner = hostA, checkedAtMs = t, evidenceKind = CrossHostUnreachableStale\<rparr>"

abbreviation ownedByA :: lease_table where
  "ownedByA \<equiv> encodeTable [''r'' \<mapsto> \<lparr>lease_owner = Some \<lparr>lo_id = hostA, lo_grantedAtMs = 5, lo_heartbeatAtMs = 1000\<rparr>,
                                     lease_claim = None\<rparr>]"

theorem fresh_owner_keeps_run_witness:
  "fst (c_guard makeSql ''r'' hostA
     (execs makeSql None ownedByA
       [CmdSteal ''r'' hostB 31000 (deadA 31000), CmdClaim ''r'' hostB 31000, CmdRelease ''r'' hostB])) = Inr ()"
  by (rule fresh_owner_keeps_run [where h = 1000 and lo = "\<lparr>lo_id = hostA, lo_grantedAtMs = 5, lo_heartbeatAtMs = 1000\<rparr>"])
    (simp_all add: local_view_def local_inv_def fresh_iff heartbeatStaleAfter_def del: encodeTable_upd)



section \<open>The tables and the journal\<close>

lemma sql_history_sound:
  assumes "history (sqlConfig rs n) exact (opened Map.empty c) s" "\<forall>i. safeMs (c i)"
  shows "sound sql_inv exact s"
  using assms(2) by (intro sqlj.history_sound [OF assms(1)] opened_sound) (simp_all add: sql_inv_def)



abbreviation plainRun :: CreateOptions where
  "plainRun \<equiv> \<lparr>co_parentRunId = None, co_lineageId = None, co_roundOrdinal = None\<rparr>"

abbreviation withRun :: "lease_table store" where
  "withRun \<equiv> snd (create (sqlConfig [] 4) ''r'' ''{}'' plainRun (opened Map.empty (\<lambda>_. 5)))"

lemma withRun_history: "history (sqlConfig [] 4) exact (opened Map.empty (\<lambda>_. 5)) withRun"
  by (intro r_into_rtranclp s_create) (rule prod.collapse [symmetric])




text \<open>
  C5. Every row the stores ever keep passes the CHECKs of its table, refers to rows that exist, and
  decodes: \<open>get\<close> of a run that exists never fails.
\<close>

theorem history_rows_decode:
  assumes "history (sqlConfig rs n) exact (opened Map.empty c) s" "\<forall>i. safeMs (c i)" "runRows s r = Some row"
  shows "\<exists>w cl. get r s = (Inr \<lparr>v_owner = w, v_claim = cl, v_row = row\<rparr>, s)
    \<and> run_check r row \<and> (r_status row = RSrunning \<longleftrightarrow> w \<noteq> None)
    \<and> (\<forall>p. parentRunId row = Some p \<longrightarrow> runRows s p \<noteq> None)"
proof -
  have m: "mirrored foldEntries exact s" using sql_history_sound [OF assms(1,2)] by (simp add: sound_def)
  from mirrored_runE [OF this assms(3)] have chk: "run_check r row"
    and par: "\<And>p. parentRunId row = Some p \<Longrightarrow> runRows s p \<noteq> None" by (auto simp: mirrors_def)
  from run_check_decodes [OF chk, of "''get''"] obtain w cl where
    "decodeRunRow ''get'' row = Inr \<lparr>v_owner = w, v_claim = cl, v_row = row\<rparr>" "r_status row = RSrunning \<longleftrightarrow> w \<noteq> None" by blast
  with assms(3) chk par show ?thesis by (auto simp: get_def)
qed

theorem history_rows_decode_witness:
  "\<exists>w cl row. get ''r'' withRun = (Inr \<lparr>v_owner = w, v_claim = cl, v_row = row\<rparr>, withRun) \<and> run_check ''r'' row"
proof -
  have "runRows withRun ''r'' = Some (pendingRow ''{}'' plainRun 5)" by code_simp
  from history_rows_decode [OF withRun_history _ this] show ?thesis by (auto simp: safeMs_def)
qed

text \<open>
  C6. The event table stays well formed through every history: entries pass their CHECKs, the entries
  of a run carry strictly increasing sequence numbers in table order, and no two entries share a
  run, source and source sequence number.
\<close>

theorem history_journal_ordered:
  assumes "history (sqlConfig rs n) exact (opened Map.empty c) s" "\<forall>i. safeMs (c i)"
  shows "(\<forall>e \<in> set (events s). event_check e) \<and> sorted_wrt (<) (map seq (filter (\<lambda>e. runId e = r) (events s)))
    \<and> (\<forall>x \<in> set (events s). \<forall>y \<in> set (events s).
         runId x = runId y \<and> sourceId x = sourceId y \<and> sourceSeq x = sourceSeq y \<longrightarrow> x = y)"
proof -
  have ok: "evs_ok (events s)" using sql_history_sound [OF assms] by (simp add: sound_def mirrored_def)
  then show ?thesis using ordered_run_sorted evs_ok_unique [OF ok] by (auto simp: evs_ok_def)
qed

theorem history_journal_ordered_witness:
  "sorted_wrt (<) (map seq (filter (\<lambda>e. runId e = ''r'') (events withRun)))"
  using history_journal_ordered [OF withRun_history, of "''r''"] by (simp add: safeMs_def)

section \<open>Appending and reading\<close>

text \<open>
  C7. A durable append fenced by an owner the consensus strategy does not recognise is refused, even
  when the same event is already in the journal: the fence is consulted before deduplication.
\<close>

theorem unowned_append_refused:
  assumes "sql_inv (leases s)" "\<not> holds (sql_view (leases s) (in_runId input)) w"
  shows "isl (fst (emitDurable (sqlConfig rs n) input (Some w) s)) \<and> events (snd (emitDurable (sqlConfig rs n) input (Some w) s)) = events s"
proof (cases "emitDurable (sqlConfig rs n) input (Some w) s")
  case (Pair x s')
  show ?thesis
  proof (cases x)
    case (Inl e)
    with Pair sqlj.emit_Inl [OF assms(1)] show ?thesis by auto
  next
    case (Inr rc)
    with Pair sqlj.emit_unowned_fails [OF assms] show ?thesis by blast
  qed
qed

abbreviation note1 :: Input where
  "note1 \<equiv> \<lparr>in_runId = ''r'', in_sourceId = ''src'', in_sourceSeq = Some 3, in_eventType = ''note'',
     in_payload = JStr ''x'', in_meta = None\<rparr>"

theorem unowned_append_refused_witness:
  "isl (fst (emitDurable (sqlConfig [] 4) note1 (Some hostB) (opened Map.empty (\<lambda>_. 5) :: lease_table store)))
   \<and> events (snd (emitDurable (sqlConfig [] 4) note1 (Some hostB) (opened Map.empty (\<lambda>_. 5) :: lease_table store)))
     = events (opened Map.empty (\<lambda>_. 5) :: lease_table store)"
  by (rule unowned_append_refused) (simp_all add: opened_def sql_inv_def sql_view_def holds_def freshLease_def)

text \<open>
  C8. An append without a source sequence number that succeeds adds exactly one entry at the end of
  the journal, with the input's content after redaction and a sequence number above every other of
  the run, and the receipt names it.
\<close>

theorem fresh_append_accepted:
  assumes "sql_inv (leases s)" "evs_ok (events s)" "in_sourceSeq input = None"
    and "emitDurable (sqlConfig rs n) input owner s = (Inr rc, s')"
  shows "\<exists>e. events s' = events s @ [e] \<and> rc = Accepted (seq e) (sourceSeq e)
    \<and> runId e = in_runId input \<and> sourceId e = in_sourceId input \<and> eventType e = in_eventType input
    \<and> payload e = scrubbed (sqlConfig rs n) input (in_payload input)
    \<and> (\<forall>x \<in> set (events s). runId x = runId e \<longrightarrow> seq x < seq e) \<and> evs_ok (events s')"
proof -
  have ok: "evs_ok (events s')" by (rule sqlj.emit_evs_ok [OF assms(1,2,4)])
  from sqlj.emit_fresh [OF assms] obtain e where "entryOf (sqlConfig rs n) input e" "events s' = events s @ [e]"
    "rc = Accepted (seq e) (sourceSeq e)" "\<forall>x \<in> set (events s). runId x = runId e \<longrightarrow> seq x < seq e" .
  then show ?thesis using ok by (intro exI [of _ e]) (auto simp: entryOf_def)
qed

abbreviation note2 :: Input where
  "note2 \<equiv> note1\<lparr>in_sourceSeq := None\<rparr>"

abbreviation noted :: "Input \<Rightarrow> EmitReceipt \<times> lease_table store" where
  "noted i \<equiv> map_prod projr id (emitDurable (sqlConfig [] 4) i None (opened Map.empty (\<lambda>_. 5)))"

lemma noted_eq:
  assumes "\<not> isl (fst (emitDurable (sqlConfig [] 4) i None (opened Map.empty (\<lambda>_. 5))))"
  shows "emitDurable (sqlConfig [] 4) i None (opened Map.empty (\<lambda>_. 5)) = (Inr (fst (noted i)), snd (noted i))"
  using assms by (cases "emitDurable (sqlConfig [] 4) i None (opened Map.empty (\<lambda>_. 5) :: lease_table store)") auto

theorem fresh_append_accepted_witness:
  "\<exists>e. events (snd (noted note2)) = [] @ [e] \<and> fst (noted note2) = Accepted (seq e) (sourceSeq e)
    \<and> runId e = ''r'' \<and> sourceId e = ''src'' \<and> eventType e = ''note''"
proof -
  have "\<not> isl (fst (emitDurable (sqlConfig [] 4) note2 None (opened Map.empty (\<lambda>_. 5) :: lease_table store)))" by code_simp
  from fresh_append_accepted [OF _ _ _ noted_eq [OF this]] show ?thesis
    by (auto simp: opened_def sql_inv_def evs_ok_def ordered_def)
qed

text \<open>
  C9. Emitting an event again under the same run, source and source sequence number adds nothing: when
  it succeeds the content equals what is stored and the receipt repeats the stored sequence number.
\<close>

theorem repeated_append_adds_nothing:
  assumes "sql_inv (leases s)" "evs_ok (events s)" "row \<in> set (events s)"
    and "runId row = in_runId input" "sourceId row = in_sourceId input" "in_sourceSeq input = Some (sourceSeq row)"
    and "emitDurable (sqlConfig rs n) input owner s = (Inr rc, s')"
  shows "rc = Duplicate (seq row) (sourceSeq row) Committed \<and> events s' = events s
    \<and> eventType row = in_eventType input \<and> payload row = scrubbed (sqlConfig rs n) input (in_payload input)"
  using sqlj.emit_duplicate [OF assms] by blast

theorem repeated_append_adds_nothing_witness:
  "\<exists>e s' rc. emitDurable (sqlConfig [] 4) note1 None (snd (noted note1)) = (Inr rc, s')
    \<and> events (snd (noted note1)) = [e] \<and> rc = Duplicate (seq e) (sourceSeq e) Committed
    \<and> events s' = events (snd (noted note1)) \<and> eventType e = in_eventType note1"
proof -
  let ?s = "snd (noted note1)"
  have ok: "\<not> isl (fst (emitDurable (sqlConfig [] 4) note1 None (opened Map.empty (\<lambda>_. 5) :: lease_table store)))" by code_simp
  have "map (\<lambda>e. (runId e, sourceId e, sourceSeq e)) (events ?s) = [(''r'', ''src'', 3)]" by code_simp
  then obtain e where e: "events ?s = [e]" "runId e = ''r''" "sourceId e = ''src''" "sourceSeq e = 3"
    by (auto simp: map_eq_Cons_conv)
  have empty: "sql_inv (leases (opened Map.empty (\<lambda>_. 5)))" "evs_ok (events (opened Map.empty (\<lambda>_. 5) :: lease_table store))"
    by (simp_all add: opened_def sql_inv_def evs_ok_def ordered_def)
  have inv: "sql_inv (leases ?s)" using sqlj.emit_Inr [OF empty(1) noted_eq [OF ok]] empty(1) by (metis frame_def)
  have evs: "evs_ok (events ?s)" by (rule sqlj.emit_evs_ok [OF empty noted_eq [OF ok]])
  have "\<not> isl (fst (emitDurable (sqlConfig [] 4) note1 None ?s))" by code_simp
  then obtain rc s' where again: "emitDurable (sqlConfig [] 4) note1 None ?s = (Inr rc, s')"
    by (cases "emitDurable (sqlConfig [] 4) note1 None ?s"; cases "fst (emitDurable (sqlConfig [] 4) note1 None ?s)") auto
  from repeated_append_adds_nothing [OF inv evs, of e note1, OF _ _ _ _ again] e again show ?thesis by auto
qed






text \<open>
  Two entries have the same event id only when they have the same run, source and source sequence
  number, whatever characters the names hold, and no event id looks like one a fork minted.
\<close>

theorem event_ids_distinct:
  "(makeEventId r src i = makeEventId r' src' j \<longleftrightarrow> r = r' \<and> src = src' \<and> i = j) \<and> \<not> prefix ''fork:'' (makeEventId r src i)"
  using makeEventId_inject makeEventId_not_fork by blast



text \<open>
  C12. Compaction removes only entries below the checkpoint, keeps the journal well formed, and never
  gives a sequence number a second time: the next number the journal would mint for any run is the
  same after it as before.
\<close>

theorem compaction_keeps_next_sequence:
  fixes s :: "lease_table store"
  assumes "sql_inv (leases s)" "evs_ok (events s)" "cps_ok (events s) (checkpoints s)"
    and "compact (sqlConfig rs n) r upTo owner s = (Inr res, s')"
  shows "nextDurableSeq x (events s') = nextDurableSeq x (events s) \<and> evs_ok (events s')
    \<and> (\<forall>e \<in> set (events s). e \<in> set (events s') \<or> runId e = r \<and> seq e < ck_checkpointSeq res)"
proof -
  have ok: "sqlj.journal_ok s" using assms(1-3) by (simp add: sqlj.journal_ok_def)
  have "\<forall>e \<in> set (events s). e \<in> set (events s') \<or> runId e = r \<and> seq e < ck_checkpointSeq res"
    using assms(1,4) by (rule sqlj.compact_Inr) (auto dest: truncateBelow_Inr)
  then show ?thesis using sqlj.compact_journal_ok [OF ok assms(4)] by (simp add: sqlj.journal_ok_def)
qed

abbreviation noteAt :: "int \<Rightarrow> string \<Rightarrow> Entry" where
  "noteAt i src \<equiv> \<lparr>runId = ''r'', seq = i, eventId = makeEventId ''r'' src 0, sourceId = src, sourceSeq = 0,
     emittedAtMs = 5, eventType = ''note'', payload = JNull, meta = JNull\<rparr>"

definition twoNotes :: "lease_table store" where
  "twoNotes = (opened Map.empty (\<lambda>_. 9))\<lparr>events := [noteAt 0 ''a'', noteAt 1 ''b''],
     checkpoints := [\<lparr>cp_runId = ''r'', cp_seq = 1, cp_state = JNull, cp_createdAtMs = 5, cp_compactedAtMs = None\<rparr>]\<rparr>"

lemma twoNotes_ok: "evs_ok (events twoNotes)" "cps_ok (events twoNotes) (checkpoints twoNotes)" "sql_inv (leases twoNotes)"
proof -
  have [simp]: "makeEventId r src i \<noteq> []" for r src i by (simp add: makeEventId_def)
  show "evs_ok (events twoNotes)" "cps_ok (events twoNotes) (checkpoints twoNotes)" "sql_inv (leases twoNotes)"
    by (simp_all add: twoNotes_def opened_def evs_ok_def ordered_def sameIdentity_def event_check_def makeEventId_inject
        cps_ok_def cp_good_def sql_inv_def)
qed

lemma twoNotes_compact:
  "\<exists>s'. compact (sqlConfig [] 4) ''r'' (Some 1) None twoNotes
    = (Inr \<lparr>ck_runId = ''r'', ck_checkpointSeq = 1, ck_deleted = 1\<rparr>, s') \<and> events s' = [noteAt 1 ''b'']"
proof -
  have "\<not> isFoldHistory ''note''" by code_simp
  then show ?thesis
    by (simp add: compact_def twoNotes_def opened_def writeJ_def guardOpt_def bindT_def currentTimeMillis_def checkpointRow_def
        compactTo_def readerBehind_def foldBehind_def truncateBelow_def)
qed

theorem compaction_keeps_next_sequence_witness:
  "\<exists>s' :: lease_table store. events s' = [noteAt 1 ''b''] \<and> nextDurableSeq ''r'' (events s') = nextDurableSeq ''r'' (events twoNotes)"
proof -
  from twoNotes_compact obtain s' where s': "compact (sqlConfig [] 4) ''r'' (Some 1) None twoNotes
    = (Inr \<lparr>ck_runId = ''r'', ck_checkpointSeq = 1, ck_deleted = 1\<rparr>, s')" "events s' = [noteAt 1 ''b'']" by blast
  then show ?thesis using compaction_keeps_next_sequence [OF twoNotes_ok(3,1,2) s'(1)] by blast
qed



section \<open>Leases, stated on the operations\<close>

text \<open>
  C14. At every moment of every history of the database-backed strategy at most one process passes
  the guard of a run, and right after a process has activated, no other does.
\<close>

theorem one_owner_at_a_time:
  assumes "t = execs makeSql tbl Map.empty cs"
  shows "(fst (c_guard makeSql r a t) = Inr () \<and> fst (c_guard makeSql r b t) = Inr () \<longrightarrow> a = b)
    \<and> (c_activate makeSql r w g now t = (Inr Activated, t') \<and> a \<noteq> w \<longrightarrow> fst (c_guard makeSql r a t') \<noteq> Inr ())"
proof -
  have inv: "sql_inv t" unfolding assms by (rule sql.execs_inv) (simp add: sql_inv_def)
  have "a = b" if "fst (c_guard makeSql r a t) = Inr ()" "fst (c_guard makeSql r b t) = Inr ()"
    using that sql.guard_exclusive [OF inv, of r a _ b] by (metis prod.collapse)
  moreover have "fst (c_guard makeSql r a t') \<noteq> Inr ()" if "c_activate makeSql r w g now t = (Inr Activated, t')" "a \<noteq> w"
    using that sql.activation_fences_out [OF inv that] by (metis prod.collapse)
  ultimately show ?thesis by blast
qed

theorem one_owner_at_a_time_witness:
  "\<exists>t t'. c_activate makeSql ''r'' hostA 5 7 t = (Inr Activated, t') \<and> fst (c_guard makeSql ''r'' hostB t') \<noteq> Inr ()"
proof -
  let ?t = "execs makeSql None Map.empty [CmdClaim ''r'' hostA 5]"
  obtain x t' where act: "c_activate makeSql ''r'' hostA 5 7 ?t = (x, t')" by fastforce
  have "fst (c_activate makeSql ''r'' hostA 5 7 ?t) = Inr Activated" by code_simp
  with act have "c_activate makeSql ''r'' hostA 5 7 ?t = (Inr Activated, t')" by simp
  with one_owner_at_a_time [OF refl, where tbl = None and cs = "[CmdClaim ''r'' hostA 5]" and r = "''r''" and a = hostB
      and w = hostA and g = 5 and now = 7 and t' = t'] show ?thesis by auto
qed



section \<open>Redaction and JSON\<close>

text \<open>
  C16. Redaction leaves no value under a sensitive name, however deep in the payload, and changes
  nothing in a payload whose names are plain and whose strings no rule matches.
\<close>

theorem redaction_hides_and_keeps:
  "((k, v) \<in> reachable (redact rs x) \<and> isSensitiveKey k \<longrightarrow> v = JStr placeholder)
   \<and> (plainKeys x \<and> (\<forall>s \<in> set (strings x). redactString s rs = s) \<longrightarrow> redact rs x = x)"
  using redact_sensitive redact_id by blast

theorem redaction_hides_and_keeps_witness:
  "redact [] (JObj [(''name'', JArr [JStr ''ada'', JInt 3])]) = JObj [(''name'', JArr [JStr ''ada'', JInt 3])]"
proof -
  have "plainKeys (JObj [(''name'', JArr [JStr ''ada'', JInt 3])])" by code_simp
  then show ?thesis using redaction_hides_and_keeps by simp
qed

text \<open>
  The JSON recogniser's fuel is enough: any amount above twice the length of the text gives the
  answer \<open>isJsonString\<close> gives, and what it leaves unread is shorter than its input.
\<close>

theorem json_scan_terminates:
  assumes "n > 2 * length s"
  shows "isJsonString s = (case scanValue n s of None \<Rightarrow> False | Some rest \<Rightarrow> skipSpace rest = [])
    \<and> (\<forall>rest. scanValue n s = Some rest \<longrightarrow> length rest < length s)"
  using scan_fuel(1) [of s n "2 * length s + 2"] scan_shorter(1) [of n s] assms by (simp add: isJsonString_def)

theorem json_scan_terminates_witness:
  "isJsonString ''[1]'' = (case scanValue 40 ''[1]'' of None \<Rightarrow> False | Some rest \<Rightarrow> skipSpace rest = [])"
  using json_scan_terminates [of "''[1]''" 40] by simp


abbreviation doneAttempt :: AttemptRow where
  "doneAttempt \<equiv> \<lparr>a_state = ''done'', a_startedAtMs = 5, a_finishedAtMs = Some 6, a_heartbeatAtMs = Some 5,
     a_checkpointJson = None, a_errorJson = None, a_outcomeJson = Some ''1'', a_metaJson = ''{}''\<rparr>"

abbreviation runningRow :: RunRow where
  "runningRow \<equiv> setRowOwner hostA 10 (pendingRow ''{}'' plainRun 5)"

lemma samples_checked: "run_check ''r'' runningRow" "attempt_check (''r'', ''d'', 0) doneAttempt"
  by code_simp+


section \<open>Fences of the stores\<close>

abbreviation ownerLease :: "LocalLease" where
  "ownerLease \<equiv> \<lparr>lease_owner = Some \<lparr>lo_id = hostA, lo_grantedAtMs = 5, lo_heartbeatAtMs = 10\<rparr>, lease_claim = None\<rparr>"

definition ownedStore :: "lease_table store" where
  "ownedStore = (opened (encodeTable [''r'' \<mapsto> ownerLease]) (\<lambda>_. 50000))
     \<lparr>runRows := [''r'' \<mapsto> runningRow], attemptRows := [(''r'', ''d'', 0) \<mapsto> doneAttempt]\<rparr>"


lemma ownedStore_facts:
  "sql_inv (leases ownedStore)" "tables_ok ownedStore" "clock_ok ownedStore" "room 2 ownedStore"
  "runRows ownedStore ''r'' = Some runningRow" "rowOwnedBy runningRow hostA" "holds (sql_view (leases ownedStore) ''r'') hostA"
  by (simp_all add: ownedStore_def opened_def local_inv_def local_view_def tables_ok_def evs_ok_def ordered_def clock_ok_def
      safeMs_def room_def isSafeInteger_small nextSeq_def nextSourceSeq_def nextDurableSeq_def nextDurableSourceSeq_def
      maxPlus1_def orZero_def MAX_SAFE_INTEGER_def setRowOwner_def pendingRow_def rowOwnedBy_def fresh_iff del: encodeTable_upd)



text \<open>
  C18. The owner can always finish: with room in the journal for two entries, the process that holds the
  lease and is named by the running row moves the run to any other status its cancellation guard
  allows; the row is settled at the current time and the lease released.
\<close>

theorem owner_settles_run:
  fixes s :: "lease_table store"
  assumes "sql_inv (leases s)" "tables_ok s" "clock_ok s" "run_check r row" "room 2 s" "runRows s r = Some row" "rowOwnedBy row w"
    and "holds (sql_view (leases s) r) w" "\<not> guardBlocked g row" "st \<noteq> RSrunning" "\<forall>x. stj = Some x \<longrightarrow> isJsonString x"
  shows "\<exists>s'. transitionOwned (sqlConfig rs n) r w st stj g s = (Inr OTransitioned, s')
    \<and> runRows s' = (runRows s)(r \<mapsto> settleRow st (clock s (tick s)) stj row)
    \<and> \<not> holds (sql_view (leases s') r) w"
proof -
  obtain s' where "transitionOwned (sqlConfig rs n) r w st stj g s = (Inr OTransitioned, s')"
    "runRows s' = (runRows s)(r \<mapsto> settleRow st (clock s (tick s)) stj row)"
    "sql_view (leases s') = (sql_view (leases s))(r := released w (sql_view (leases s) r))"
    by (rule settle_succeeds [OF assms])
  then show ?thesis by (intro exI [of _ s']) (auto simp: released_def split: option.splits if_splits)
qed

theorem owner_settles_run_witness:
  "\<exists>s'. transitionOwned (sqlConfig [] 4) ''r'' hostA RScompleted (Some ''1'') (Some CancelAbsent) ownedStore = (Inr OTransitioned, s')
    \<and> runRows s' = (runRows ownedStore)(''r'' \<mapsto> settleRow RScompleted (clock ownedStore (tick ownedStore)) (Some ''1'') runningRow)
    \<and> \<not> holds (sql_view (leases s') ''r'') hostA"
proof (rule owner_settles_run [OF ownedStore_facts(1-3) samples_checked(1) ownedStore_facts(4-7)])
  show "\<not> guardBlocked (Some CancelAbsent) runningRow" by (simp add: guardBlocked_def setRowOwner_def pendingRow_def)
  have "isJsonString ''1''" by code_simp
  then show "\<forall>x. Some ''1'' = Some x \<longrightarrow> isJsonString x" by simp
qed simp

text \<open>
  C19. A process that does not hold the lease, or is not the owner the running row names, cannot move
  the run: it is told so, and rows, journal and leases stay as they are.
\<close>

theorem foreign_transition_is_refused:
  fixes s :: "lease_table store"
  assumes "sql_inv (leases s)" "runRows s r = Some row" "\<not> (holds (sql_view (leases s) r) w \<and> rowOwnedBy row w)"
    and "\<forall>x. stj = Some x \<longrightarrow> isJsonString x"
  shows "\<exists>s'. transitionOwned (sqlConfig rs n) r w st stj g s = (Inr OFenceLost, s')
    \<and> runRows s' = runRows s \<and> attemptRows s' = attemptRows s \<and> events s' = events s \<and> leases s' = leases s"
  using foreign_transition_refused [OF assms] by (auto simp: sameRows_def)

theorem foreign_transition_is_refused_witness:
  "\<exists>s'. transitionOwned (sqlConfig [] 4) ''r'' hostB RSfailed None None ownedStore = (Inr OFenceLost, s')
    \<and> runRows s' = runRows ownedStore \<and> attemptRows s' = attemptRows ownedStore \<and> events s' = events ownedStore
    \<and> leases s' = leases ownedStore"
  by (rule foreign_transition_is_refused [OF ownedStore_facts(1,5)]) (use ownedStore_facts(7) in auto)

text \<open>
  C20. No write of an attempt (put, heartbeat, finish, patch) by a process other than the owner of the
  running run changes a row or appends an event.
\<close>

theorem unfenced_attempt_writes_nothing:
  assumes "\<not> fenced (id_runId i) w s" "at_id a = i" "fi_id f = i"
    and "s' \<in> {snd (put cfg opts a w s), snd (attemptHeartbeat cfg opts i w t c s), snd (finish cfg opts f w s), snd (patch cfg opts i p w s)}"
  shows "attemptRows s' = attemptRows s \<and> runRows s' = runRows s \<and> events s' = events s"
proof -
  have "sameRows s s'"
    using assms(4) unfenced_writes [OF assms(1), of cfg opts] assms(2,3) by (metis insertE prod.collapse singletonD)
  then show ?thesis by (simp add: sameRows_def)
qed

abbreviation attemptD :: AttemptId where
  "attemptD \<equiv> \<lparr>id_runId = ''r'', id_stepKeyDigest = ''d'', id_attempt = 0\<rparr>"

abbreviation putD :: Attempt where
  "putD \<equiv> \<lparr>at_id = attemptD, at_state = ''running'', at_startedAtMs = 6, at_finishedAtMs = None, at_heartbeatAtMs = None,
     at_checkpoint = None, at_error = None, at_outcome = None, at_meta = JNull\<rparr>"

abbreviation finishD :: FinishAttempt where
  "finishD \<equiv> \<lparr>fi_id = attemptD, fi_state = ''done'', fi_finishedAtMs = 8, fi_error = None, fi_outcome = None, fi_meta = None\<rparr>"

abbreviation noPatch :: AttemptPatch where
  "noPatch \<equiv> \<lparr>pa_checkpoint = None, pa_error = None, pa_outcome = None, pa_meta = None\<rparr>"

theorem unfenced_attempt_writes_nothing_witness:
  "attemptRows (snd (put (sqlConfig [] 4) defaultOptions putD hostB ownedStore)) = attemptRows ownedStore
    \<and> runRows (snd (put (sqlConfig [] 4) defaultOptions putD hostB ownedStore)) = runRows ownedStore
    \<and> events (snd (put (sqlConfig [] 4) defaultOptions putD hostB ownedStore)) = events ownedStore"
  by (rule unfenced_attempt_writes_nothing [where i = attemptD and w = hostB and cfg = "sqlConfig [] 4" and opts = defaultOptions
        and a = putD and f = finishD and p = noPatch and t = 8 and c = None])
    (simp_all add: fenced_def ownedStore_def ownsRunningRun_def setRowOwner_def)

text \<open>
  The first writer of an attempt wins: without the upsert option a put of a key that exists changes
  nothing, and the answer says whether what is stored equals what was offered.
\<close>

theorem first_put_wins:
  assumes "attemptRows s (key (at_id a)) = Some row" "\<not> upsert opts" "put cfg opts a w s = (x, s')"
  shows "attemptRows s' = attemptRows s \<and> events s' = events s
    \<and> (x = Inr AExistingSame \<longrightarrow> sameAttempt row a) \<and> (x = Inr AConflict \<longrightarrow> \<not> sameAttempt row a)
    \<and> x \<noteq> Inr AInserted \<and> x \<noteq> Inr AUpserted"
  using put_existing [OF assms] by (auto simp: sameRows_def)

theorem first_put_wins_witness:
  "\<exists>x s'. put (sqlConfig [] 4) defaultOptions putD hostA ownedStore = (x, s') \<and> attemptRows s' = attemptRows ownedStore
    \<and> events s' = events ownedStore \<and> x \<noteq> Inr AInserted"
proof -
  have "attemptRows ownedStore (key (at_id putD)) = Some doneAttempt" by (simp add: ownedStore_def key_def)
  moreover have "\<not> upsert defaultOptions" by (simp add: defaultOptions_def)
  moreover obtain x s' where "put (sqlConfig [] 4) defaultOptions putD hostA ownedStore = (x, s')" by fastforce
  ultimately show ?thesis using first_put_wins by metis
qed

text \<open>
  C21. An attempt that left its in-progress states is final for heartbeats and for \<open>finish\<close>: neither
  changes a row or appends an event, and neither reports success.
\<close>

theorem finished_attempt_is_final:
  assumes "attemptRows s (key i) = Some row" "a_state row \<notin> set (inProgressStates opts)" "fi_id f = i"
    and "finish cfg opts f w s = (x, s')" "attemptHeartbeat cfg opts i w t c s = (y, s'')"
  shows "attemptRows s' = attemptRows s \<and> events s' = events s \<and> x \<noteq> Inr AFinished
    \<and> attemptRows s'' = attemptRows s \<and> events s'' = events s \<and> y \<noteq> Inr AUpdated"
  using finished_attempt_kept(2) [OF assms(1,2,4,3)] finished_attempt_kept(1) [OF assms(1,2,5)] by (simp add: sameRows_def)

theorem finished_attempt_is_final_witness:
  "attemptRows (snd (finish (sqlConfig [] 4) defaultOptions finishD hostA ownedStore)) = attemptRows ownedStore
   \<and> events (snd (finish (sqlConfig [] 4) defaultOptions finishD hostA ownedStore)) = events ownedStore"
proof -
  have "attemptRows ownedStore (key attemptD) = Some doneAttempt" by (simp add: ownedStore_def key_def)
  moreover have "a_state doneAttempt \<notin> set (inProgressStates defaultOptions)" by (simp add: defaultOptions_def)
  moreover have "fi_id finishD = attemptD" by simp
  moreover obtain x s' where f: "finish (sqlConfig [] 4) defaultOptions finishD hostA ownedStore = (x, s')" by fastforce
  moreover obtain y s'' where "attemptHeartbeat (sqlConfig [] 4) defaultOptions attemptD hostA 8 None ownedStore = (y, s'')" by fastforce
  ultimately show ?thesis using finished_attempt_is_final by (metis snd_conv)
qed

section \<open>Where the code falls short\<close>



text \<open>
  An activation that finds the row changed drops the claim columns without appending any event, so
  the journal no longer tells the row's claim.
\<close>

theorem activation_drops_claim_silently:
  assumes "activate cfg r w t expected s = (Inr OSnapshotChanged, s')"
  shows "events s' = events s \<and> (\<exists>row. runRows s r = Some row \<and> rowMatchesClaim row w t
    \<and> (\<exists>row'. runRows s' r = Some row' \<and> claimColumnsFree row'))"
proof -
  from assms obtain s1 where b: "activateBody cfg r w t expected (clock s (tick s)) (s\<lparr>tick := Suc (tick s), settlements := []\<rparr>)
      = (Inr OSnapshotChanged, s1)" "frame s1 s'" "events s' = events s1"
    unfolding activate_def withClock_def by (elim writeThrough_frameE) auto
  let ?s0 = "s\<lparr>tick := Suc (tick s), settlements := []\<rparr>"
  from activateBody_changed [OF b(1)] obtain row l where row: "runRows s r = Some row" "rowMatchesClaim row w t"
    "s1 = ?s0\<lparr>leases := l, runRows := (runRows s)(r \<mapsto> clearRowClaim row)\<rparr>" by auto
  with b(3) frame_store(1) [OF b(2)] show ?thesis by (simp add: clearRowClaim_def claimColumnsFree_def)
qed

abbreviation freshRow :: RunRow where
  "freshRow \<equiv> setRowClaim hostB 7 (pendingRow ''{}'' plainRun 5)"

definition claimedStore :: "lease_table store" where
  "claimedStore = (opened (encodeTable [''r'' \<mapsto> freshLease\<lparr>lease_claim := Some (claimedBy hostB 7)\<rparr>]) (\<lambda>_. 8))\<lparr>runRows := [''r'' \<mapsto> freshRow]\<rparr>"

theorem activation_drops_claim_silently_witness:
  "\<exists>s'. activate (sqlConfig [] 4) ''r'' hostB 7 \<lparr>snap_status = RSsuspended, snap_owner = None, snap_heartbeatAtMs = None\<rparr> claimedStore
      = (Inr OSnapshotChanged, s') \<and> events s' = events claimedStore"
proof -
  let ?run = "activate (sqlConfig [] 4) ''r'' hostB 7 \<lparr>snap_status = RSsuspended, snap_owner = None, snap_heartbeatAtMs = None\<rparr> claimedStore"
  have "fst ?run = Inr OSnapshotChanged" by code_simp
  then obtain s' where "?run = (Inr OSnapshotChanged, s')" by (metis prod.collapse)
  with activation_drops_claim_silently [OF this] show ?thesis by blast
qed

text \<open>
  Under the in-memory strategy a claim whose transaction fails (here because the journal is closed)
  keeps the lease: the database row rolls back and shows no claim, the lease stays claimed.
\<close>

definition closedStore :: "local_leases store" where
  "closedStore = (opened Map.empty (\<lambda>_. 5))\<lparr>status := Closed, runRows := [''r'' \<mapsto> pendingRow ''{}'' plainRun 5]\<rparr>"

abbreviation failedClaim :: "(RunStoreError + RunOutcome) \<times> local_leases store" where
  "failedClaim \<equiv> claim (localConfig [] 4) ''r'' \<lparr>snap_status = RSpending, snap_owner = None, snap_heartbeatAtMs = None\<rparr> hostA 7 closedStore"

theorem local_lease_survives_rollback:
  "isl (fst failedClaim) \<and> map_option claimHostId (runRows (snd failedClaim) ''r'') = Some None
   \<and> map_option lc_id (lease_claim (local_view (leases (snd failedClaim)) ''r'')) = Some hostA"
  by code_simp

text \<open>
  Compaction protects the run's sequence numbers but not its source sequence numbers: after it, a
  process that starts afresh mints the event id of a deleted entry again.
\<close>

theorem compaction_frees_event_ids:
  "\<exists>s' :: lease_table store.
     compact (sqlConfig [] 4) ''r'' (Some 1) None twoNotes = (Inr \<lparr>ck_runId = ''r'', ck_checkpointSeq = 1, ck_deleted = 1\<rparr>, s')
     \<and> noteAt 0 ''a'' \<in> set (events twoNotes) \<and> noteAt 0 ''a'' \<notin> set (events s')
     \<and> makeEventId ''r'' ''a'' (nextDurableSourceSeq ''r'' ''a'' (events s')) = eventId (noteAt 0 ''a'')"
proof -
  from twoNotes_compact obtain s' where s': "compact (sqlConfig [] 4) ''r'' (Some 1) None twoNotes
    = (Inr \<lparr>ck_runId = ''r'', ck_checkpointSeq = 1, ck_deleted = 1\<rparr>, s')" "events s' = [noteAt 1 ''b'']" by blast
  have "nextDurableSourceSeq ''r'' ''a'' (events s') = 0" by (simp add: s'(2) nextDurableSourceSeq_def maxPlus1_def)
  with s' show ?thesis by (intro exI [of _ s']) (simp add: twoNotes_def)
qed

text \<open>
  The events that record consensus transitions are redacted although the fold reads the process
  identity back from them: a host whose name looks like a key is rebuilt under another name.
\<close>

theorem redacted_owner_is_lost:
  "ownerFrom (Some (redact defaultRules (ownerJson \<lparr>hostId = ''sk-stockholm-1'', pid = 1, nonce = ''x''\<rparr>)))
     \<noteq> Some \<lparr>hostId = ''sk-stockholm-1'', pid = 1, nonce = ''x''\<rparr>
   \<and> \<not> isVerbatimEventType ''flows.consensus.claimed''"
  by code_simp

end
